(* ===== verification/Prelude.thy ===== *)
theory Prelude
  imports Main "HOL-Library.Word" "HOL-Library.Monad_Syntax"
begin

text \<open>
  Shared vocabulary of the development: the names of the C integer types, readable
  memory and pointers into it, six-octet MAC addresses, and the generic facts on
  lists, options and words that the component theories use.

  Conventions, used by every theory:
  \<^item> \<open>uint8_t\<close>, \<open>uint16_t\<close>, \<open>uint32_t\<close> and \<open>uint64_t\<close> are words of that width, so
    their arithmetic wraps as in C; \<open>int\<close>, \<open>long\<close>, \<open>time_t\<close> and pointer offsets are
    HOL integers (the code keeps them far from their limits: a frame is at most
    65535 octets long, a time is a second count);
  \<^item> memory reachable through a pointer is the list of the octets readable from the
    address it holds, so \<open>p + n\<close> is \<open>drop n p\<close>; a pointer that may be NULL is an option;
  \<^item> an expression that reads memory has an option type, \<open>None\<close> being undefined
    behaviour (an octet outside the object is read); that a parser never yields
    \<open>None\<close> is its memory safety, stated as a theorem, not assumed.
\<close>

unbundle bit_operations_syntax

type_synonym u8 = "8 word"
type_synonym u16 = "16 word"
type_synonym u32 = "32 word"
type_synonym u64 = "64 word"
type_synonym bytes = "u8 list"
type_synonym mac = "u8 list"
type_synonym time_t = int

named_theorems mem_simps \<open>reads that are inside their object\<close>
named_theorems bind_iff \<open>inversion of a computation that returned\<close>

subsection \<open>Reading memory\<close>

definition byte_at :: "bytes \<Rightarrow> int \<Rightarrow> u8 option" where
  "byte_at b i = (if 0 \<le> i \<and> i < int (length b) then Some (b ! nat i) else None)"

lemma byte_at_in [simp, mem_simps]:
  "0 \<le> i \<Longrightarrow> i < int (length b) \<Longrightarrow> byte_at b i = Some (b ! nat i)"
  by (simp add: byte_at_def)

lemma byte_at_Some [bind_iff]:
  "byte_at b i = Some v \<longleftrightarrow> 0 \<le> i \<and> i < int (length b) \<and> v = b ! nat i"
  by (auto simp: byte_at_def)

text \<open>\<open>memcpy(dst, p + off, n)\<close> reads the whole range.\<close>

definition bytes_at :: "bytes \<Rightarrow> int \<Rightarrow> int \<Rightarrow> bytes option" where
  "bytes_at b off n =
     (if 0 \<le> off \<and> 0 \<le> n \<and> off + n \<le> int (length b)
      then Some (take (nat n) (drop (nat off) b)) else None)"

lemma bytes_at_in [simp, mem_simps]:
  "0 \<le> off \<Longrightarrow> 0 \<le> n \<Longrightarrow> off + n \<le> int (length b) \<Longrightarrow>
   bytes_at b off n = Some (take (nat n) (drop (nat off) b))"
  by (simp add: bytes_at_def)

lemma bytes_at_Some [bind_iff]:
  "bytes_at b off n = Some v \<longleftrightarrow>
     0 \<le> off \<and> 0 \<le> n \<and> off + n \<le> int (length b) \<and> v = take (nat n) (drop (nat off) b)"
  by (auto simp: bytes_at_def)

lemma length_bytes_at: "bytes_at b off n = Some v \<Longrightarrow> length v = nat n"
  by (auto simp: bytes_at_def split: if_splits)

text \<open>\<open>memcpy(dst + off, src, length src)\<close>.\<close>

definition blit :: "bytes \<Rightarrow> nat \<Rightarrow> bytes \<Rightarrow> bytes option" where
  "blit dst off src =
     (if off + length src \<le> length dst
      then Some (take off dst @ src @ drop (off + length src) dst) else None)"

lemma blit_Some:
  "off + length src \<le> length dst \<Longrightarrow> \<exists>d. blit dst off src = Some d \<and> length d = length dst
     \<and> (\<forall>p. d ! p = (if off \<le> p \<and> p < off + length src then src ! (p - off) else dst ! p))"
  by (auto simp: blit_def nth_append)

text \<open>What a caller owes a parser that is handed \<open>(p, len)\<close>: \<open>len\<close> octets are readable.\<close>

fun buf_ok :: "bytes option \<Rightarrow> int \<Rightarrow> bool" where
  "buf_ok None len = True"
| "buf_ok (Some b) len = (len \<le> int (length b))"

lemma bind_Some_iff [bind_iff]:
  "Option.bind m f = Some y \<longleftrightarrow> (\<exists>x. m = Some x \<and> f x = Some y)"
  by (cases m) auto

subsection \<open>Octets of machine words\<close>

lemma uint_u8_bounds: "0 \<le> uint (w :: u8)" "uint (w :: u8) < 256" "uint (w :: u8) \<le> 255"
  using uint_lt2p [of w] by simp_all

lemma uint_u16_bounds: "0 \<le> uint (w :: u16)" "uint (w :: u16) < 65536"
  using uint_lt2p [of w] by simp_all

lemma u8_bit_high [simp]: "8 \<le> n \<Longrightarrow> \<not> bit (w :: u8) n" "\<not> bit (w :: u8) (8 + n)"
  using bit_imp_le_length [of w] by fastforce+

lemma ucast_u8_u16_u8 [simp]: "ucast (ucast (a :: u8) :: u16) = a"
  by (auto simp: bit_eq_iff bit_simps)

lemma ucast_u16_u8_u16: "unat (t :: u16) < 256 \<Longrightarrow> ucast (ucast t :: u8) = t"
  by (simp add: word_unat_eq_iff unsigned_ucast_eq unsigned_take_bit_eq take_bit_nat_eq_self)

lemma unat_u8_of_nat: "unat (word_of_nat m :: u8) = m mod 256"
  by (simp add: unat_of_nat)

lemma or_disjoint_add: "a AND b = (0 :: 'a::len word) \<Longrightarrow> a OR b = a + b"
  using word_plus_and_or [of a b] by simp

lemma bit_below:
  fixes a :: "'a::len word"
  assumes "uint a < 2 ^ n" "bit a k"
  shows "k < n"
proof -
  from assms(2) have "bit (uint a) k" by (simp add: bit_uint_iff bit_imp_le_length)
  moreover have "take_bit n (uint a) = uint a" using assms(1) by (simp add: take_bit_int_eq_self)
  ultimately show "k < n" by (metis bit_take_bit_iff)
qed

lemma u8_masks: "(3 :: u8) = mask 2" "(7 :: u8) = mask 3" "(15 :: u8) = mask 4" "(31 :: u8) = mask 5"
  "(63 :: u8) = mask 6" "(15 :: u16) = mask 4" "(4095 :: u16) = mask 12"
  by (simp_all add: mask_eq_exp_minus_1)

lemma uint_and_mask: "uint (w AND mask n :: 'a::len word) = uint w mod 2 ^ n"
  unfolding take_bit_eq_mask [symmetric] unsigned_take_bit_eq by (simp add: take_bit_eq_mod)

lemma uint_drop: "uint (drop_bit n w :: 'a::len word) = uint w div 2 ^ n"
  unfolding unsigned_drop_bit_eq using uint_lt2p [of w]
  by (simp add: drop_bit_eq_div take_bit_int_eq_self)

text \<open>Joining an octet above a value that fits below it.\<close>

lemma uint_or_push:
  fixes a :: "'a::len word" and x :: u8
  assumes "uint a < 2 ^ n" "n + 8 \<le> LENGTH('a)"
  shows "uint (a OR push_bit n (ucast x)) = uint a + 2 ^ n * uint x"
    and "uint (a OR push_bit n (ucast x)) < 2 ^ (n + 8)"
proof -
  have x: "uint x < 256" "0 \<le> uint x" using uint_u8_bounds [of x] by simp_all
  have lim: "uint x * 2 ^ n < 256 * 2 ^ n" "(256 :: int) * 2 ^ n \<le> 2 ^ LENGTH('a)"
    using x assms(2) power_increasing [of "n + 8" "LENGTH('a)" "2::int"] by (simp_all add: power_add)
  then have top: "uint x * 2 ^ n < 2 ^ LENGTH('a)" by linarith
  have sum: "uint a + uint x * 2 ^ n < 2 ^ LENGTH('a)"
  proof -
    have "uint x * 2 ^ n \<le> 255 * 2 ^ n" using x by simp
    with lim assms(1) show ?thesis by linarith
  qed
  have pw: "(256 :: int) \<le> 2 ^ LENGTH('a)"
    using assms(2) power_increasing [of 8 "LENGTH('a)" "2::int"] by simp
  have "a AND push_bit n (ucast x) = 0"
    using bit_below [OF assms(1)] by (auto simp: bit_eq_iff bit_simps) (meson not_le)
  then have "a OR push_bit n (ucast x) = a + push_bit n (ucast x)" by (rule or_disjoint_add)
  moreover have "uint (push_bit n (ucast x) :: 'a word) = 2 ^ n * uint x"
    unfolding unsigned_push_bit_eq unsigned_ucast_eq
    using x top pw by (simp add: take_bit_eq_mod push_bit_eq_mult mult.commute)
  ultimately show *: "uint (a OR push_bit n (ucast x)) = uint a + 2 ^ n * uint x"
    using sum by (simp add: uint_plus_if' mult.commute)
  have "2 ^ n * uint x \<le> 2 ^ n * 255" using x by simp
  moreover have "(2 :: int) ^ (n + 8) = 2 ^ n * 256" by (simp add: power_add)
  ultimately show "uint (a OR push_bit n (ucast x)) < 2 ^ (n + 8)"
    unfolding * using assms(1) by linarith
qed

subsection \<open>Lists\<close>

lemma nth_drop_nat: "n \<le> length xs \<Longrightarrow> drop n xs ! i = xs ! (n + i)"
  by simp

lemma take_Suc_nth: "i < length xs \<Longrightarrow> take (Suc i) xs = take i xs @ [xs ! i]"
  by (rule take_Suc_conv_app_nth)

lemma drop_nat_add:
  "0 \<le> a \<Longrightarrow> 0 \<le> b \<Longrightarrow> drop (nat a) (drop (nat b) xs) = drop (nat (a + b)) xs"
  by (simp add: nat_add_distrib add.commute)

text \<open>\<open>strchr\<close>: a string splits at the first occurrence of a character.\<close>

lemma takeWhile_upto [simp]: "c \<notin> set xs \<Longrightarrow> takeWhile (\<lambda>x. x \<noteq> c) (xs @ c # ys) = xs"
  by (induction xs) auto

lemma dropWhile_upto [simp]: "c \<notin> set xs \<Longrightarrow> dropWhile (\<lambda>x. x \<noteq> c) (xs @ c # ys) = c # ys"
  by (induction xs) auto

end
