(* ===== verification/Bytes.thy ===== *)
theory Bytes
  imports Prelude
begin

text \<open>
  \<open>src/bytes.h\<close>: fixed-width loads, the bounded cursor \<open>rd_t\<close> and the one TLV iterator
  of the code base.

  A load \<open>be16(p + i)\<close> is \<open>be16 b i\<close>, \<open>b\<close> being what is readable from \<open>p\<close>. The cursor
  and the iterator carry the C fields; a \<open>NULL\<close> base pointer is \<open>None\<close>. The body pointer
  \<open>tlv_next\<close> hands out is the list of octets readable from it, so a consumer that read
  past the element would be visible in the model.

  The specification of the iterator is \<open>tlv_spec\<close>, a parser over the region alone; the
  locale \<open>tlv_consumer\<close> is the contract of a loop body, and its lemmas say what any
  \<open>while (tlv_next(...) == TLV_OK)\<close> loop of the code computes.
\<close>

section \<open>Fixed-width loads\<close>

definition be16 :: "bytes \<Rightarrow> int \<Rightarrow> u16 option" where
  "be16 b i = do {
     p0 \<leftarrow> byte_at b i; p1 \<leftarrow> byte_at b (i + 1);
     Some (push_bit 8 (ucast p0) OR ucast p1) }"

definition be32 :: "bytes \<Rightarrow> int \<Rightarrow> u32 option" where
  "be32 b i = do {
     p0 \<leftarrow> byte_at b i; p1 \<leftarrow> byte_at b (i + 1);
     p2 \<leftarrow> byte_at b (i + 2); p3 \<leftarrow> byte_at b (i + 3);
     Some (push_bit 24 (ucast p0) OR push_bit 16 (ucast p1)
           OR push_bit 8 (ucast p2) OR ucast p3) }"

definition le16 :: "bytes \<Rightarrow> int \<Rightarrow> u16 option" where
  "le16 b i = do {
     p0 \<leftarrow> byte_at b i; p1 \<leftarrow> byte_at b (i + 1);
     Some (ucast p0 OR push_bit 8 (ucast p1)) }"

definition le32 :: "bytes \<Rightarrow> int \<Rightarrow> u32 option" where
  "le32 b i = do {
     p0 \<leftarrow> byte_at b i; p1 \<leftarrow> byte_at b (i + 1);
     p2 \<leftarrow> byte_at b (i + 2); p3 \<leftarrow> byte_at b (i + 3);
     Some (ucast p0 OR push_bit 8 (ucast p1)
           OR push_bit 16 (ucast p2) OR push_bit 24 (ucast p3)) }"

definition le48 :: "bytes \<Rightarrow> int \<Rightarrow> u64 option" where
  "le48 b i = do {
     p0 \<leftarrow> byte_at b i; p1 \<leftarrow> byte_at b (i + 1); p2 \<leftarrow> byte_at b (i + 2);
     p3 \<leftarrow> byte_at b (i + 3); p4 \<leftarrow> byte_at b (i + 4); p5 \<leftarrow> byte_at b (i + 5);
     Some (ucast p0 OR push_bit 8 (ucast p1) OR push_bit 16 (ucast p2)
           OR push_bit 24 (ucast p3) OR push_bit 32 (ucast p4) OR push_bit 40 (ucast p5)) }"

text \<open>The octets a load joins do not overlap, so it is the positional value.\<close>

lemma join16_add:
  "push_bit 8 (ucast (h :: u8)) OR (ucast (l :: u8) :: u16) = push_bit 8 (ucast h) + ucast l"
  by (rule or_disjoint_add) (auto simp: bit_eq_iff bit_simps dest: bit_imp_le_length)

lemma uint_join16:
  "uint (push_bit 8 (ucast (h :: u8)) OR (ucast (l :: u8) :: u16)) = 256 * uint h + uint l"
proof -
  have h: "uint h mod 65536 = uint h" and h': "uint h * 256 mod 65536 = uint h * 256"
    and l: "uint l mod 65536 = uint l"
    and hl: "(uint h * 256 + uint l) mod 65536 = uint h * 256 + uint l"
    using uint_u8_bounds [of h] uint_u8_bounds [of l] by (auto intro!: mod_pos_pos_trivial)
  then show ?thesis
    unfolding join16_add
    by (simp add: push_bit_eq_mult uint_word_ariths unsigned_ucast_eq take_bit_eq_mod)
qed

lemma uint_join16_le:
  "uint (ucast (l :: u8) OR push_bit 8 (ucast (h :: u8) :: u16)) = 256 * uint h + uint l"
  using uint_join16 [of h l] by (simp add: or.commute)

lemma be16_in [simp, mem_simps]:
  assumes "0 \<le> i" and "i + 1 < int (length b)"
  shows "be16 b i = Some (push_bit 8 (ucast (b ! nat i)) OR ucast (b ! nat (i + 1)))"
  using assms by (simp add: be16_def)

lemma le16_in [simp, mem_simps]:
  assumes "0 \<le> i" and "i + 1 < int (length b)"
  shows "le16 b i = Some (ucast (b ! nat i) OR push_bit 8 (ucast (b ! nat (i + 1))))"
  using assms by (simp add: le16_def)

lemma be32_in [mem_simps]:
  assumes "0 \<le> i" and "i + 3 < int (length b)"
  shows "be32 b i = Some (push_bit 24 (ucast (b ! nat i)) OR push_bit 16 (ucast (b ! nat (i + 1)))
           OR push_bit 8 (ucast (b ! nat (i + 2))) OR ucast (b ! nat (i + 3)))"
  using assms by (simp add: be32_def)

lemma be32_readable: "0 \<le> i \<Longrightarrow> i + 3 < int (length b) \<Longrightarrow> \<exists>v. be32 b i = Some v"
  by (simp add: be32_in)

lemma le32_readable: "0 \<le> i \<Longrightarrow> i + 3 < int (length b) \<Longrightarrow> \<exists>v. le32 b i = Some v"
  by (simp add: le32_def)

section \<open>The bounded cursor\<close>

record rd_t =
  rd_p :: "bytes option"
  rd_len :: int
  rd_off :: int
  rd_fault :: bool

definition rd_init :: "bytes option \<Rightarrow> int \<Rightarrow> rd_t" where
  "rd_init p len = \<lparr>rd_p = p, rd_len = (if p \<noteq> None \<and> len > 0 then len else 0),
                    rd_off = 0, rd_fault = False\<rparr>"

definition rd_rem :: "rd_t \<Rightarrow> int" where
  "rd_rem r = rd_len r - rd_off r"

definition rd_take_ok :: "rd_t \<Rightarrow> int \<Rightarrow> bool \<times> rd_t" where
  "rd_take_ok r n =
     (if rd_fault r \<or> n < 0 \<or> n > rd_len r - rd_off r
      then (False, r\<lparr>rd_fault := True\<rparr>) else (True, r))"

text \<open>A fixed-width read: the zero of the type on a short read, the load and an advance otherwise.\<close>

definition rd_load :: "(bytes \<Rightarrow> int \<Rightarrow> 'a option) \<Rightarrow> int \<Rightarrow> rd_t \<Rightarrow> ('a::zero \<times> rd_t) option" where
  "rd_load load n r =
     (let (ok, r') = rd_take_ok r n in
      if \<not> ok then Some (0, r')
      else do {
        b \<leftarrow> rd_p r'; v \<leftarrow> load b (rd_off r');
        Some (v, r'\<lparr>rd_off := rd_off r' + n\<rparr>) })"

definition rd_u8 :: "rd_t \<Rightarrow> (u8 \<times> rd_t) option" where "rd_u8 = rd_load byte_at 1"
definition rd_le16 :: "rd_t \<Rightarrow> (u16 \<times> rd_t) option" where "rd_le16 = rd_load le16 2"
definition rd_be16 :: "rd_t \<Rightarrow> (u16 \<times> rd_t) option" where "rd_be16 = rd_load be16 2"
definition rd_le32 :: "rd_t \<Rightarrow> (u32 \<times> rd_t) option" where "rd_le32 = rd_load le32 4"
definition rd_be32 :: "rd_t \<Rightarrow> (u32 \<times> rd_t) option" where "rd_be32 = rd_load be32 4"

definition rd_bytes :: "rd_t \<Rightarrow> int \<Rightarrow> bytes option \<times> bool \<times> rd_t" where
  "rd_bytes r n =
     (let (ok, r') = rd_take_ok r n in
      if \<not> ok then (None, False, r')
      else (map_option (drop (nat (rd_off r'))) (rd_p r'), True,
            r'\<lparr>rd_off := rd_off r' + n\<rparr>))"

definition rd_skip :: "rd_t \<Rightarrow> int \<Rightarrow> bool \<times> rd_t" where
  "rd_skip r n =
     (let (ok, r') = rd_take_ok r n in
      if \<not> ok then (False, r') else (True, r'\<lparr>rd_off := rd_off r' + n\<rparr>))"

definition rd_sub :: "rd_t \<Rightarrow> int \<Rightarrow> rd_t \<times> bool \<times> rd_t" where
  "rd_sub r n =
     (let (ok, r') = rd_take_ok r n in
      if \<not> ok then (rd_init None 0, False, r')
      else (rd_init (map_option (drop (nat (rd_off r'))) (rd_p r')) n, True,
            r'\<lparr>rd_off := rd_off r' + n\<rparr>))"

text \<open>The cursor stands inside the octets its caller vouched for.\<close>

definition rd_wf :: "rd_t \<Rightarrow> bool" where
  "rd_wf r \<longleftrightarrow> 0 \<le> rd_off r \<and> rd_off r \<le> rd_len r \<and> buf_ok (rd_p r) (rd_len r)
              \<and> (rd_p r = None \<longrightarrow> rd_len r = 0)"

lemma rd_wf_init [intro, simp]: "buf_ok p len \<Longrightarrow> rd_wf (rd_init p len)"
  by (cases p) (auto simp: rd_wf_def rd_init_def)

lemma rd_take_ok_rem: "\<not> rd_fault r \<Longrightarrow> 0 \<le> n \<Longrightarrow> n \<le> rd_rem r \<Longrightarrow> rd_take_ok r n = (True, r)"
  by (simp add: rd_take_ok_def rd_rem_def)

text \<open>
  The contract of a fixed-width read, for any load that is defined on \<open>n\<close> readable octets:
  no undefined behaviour, the cursor stays well formed and never moves back, a fault is
  sticky, and a short read leaves the offset alone.
\<close>

lemma rd_load_total:
  assumes wf: "rd_wf r" and n: "0 < n"
    and load: "\<And>b i. 0 \<le> i \<Longrightarrow> i + n \<le> int (length b) \<Longrightarrow> \<exists>v. load b i = Some v"
  shows "\<exists>v r'. rd_load load n r = Some (v, r') \<and> rd_wf r' \<and> rd_p r' = rd_p r
          \<and> rd_len r' = rd_len r \<and> rd_off r \<le> rd_off r' \<and> (rd_fault r \<longrightarrow> rd_fault r')
          \<and> (rd_fault r' \<longrightarrow> v = 0 \<and> rd_off r' = rd_off r)"
proof (cases "rd_fault r \<or> n > rd_len r - rd_off r")
  case True
  then show ?thesis
    using wf n by (auto simp: rd_load_def rd_take_ok_def rd_wf_def)
next
  case False
  with wf n obtain b where b: "rd_p r = Some b"
    by (cases "rd_p r") (auto simp: rd_wf_def)
  with wf False have rng: "rd_off r + n \<le> int (length b)"
    by (auto simp: rd_wf_def)
  then obtain v where "load b (rd_off r) = Some v"
    using load [of "rd_off r" b] wf by (auto simp: rd_wf_def)
  with b False n wf show ?thesis
    by (auto simp: rd_load_def rd_take_ok_def rd_wf_def)
qed

lemma rd_load_val:
  assumes "\<not> rd_fault r" and "n \<le> rd_rem r" and "0 \<le> n"
  shows "rd_load load n r = do { b \<leftarrow> rd_p r; v \<leftarrow> load b (rd_off r); Some (v, r\<lparr>rd_off := rd_off r + n\<rparr>) }"
  using assms by (simp add: rd_load_def rd_take_ok_rem)

lemma rd_le16_fault_or:
  "rd_wf r \<Longrightarrow> \<exists>v r'. rd_le16 r = Some (v, r') \<and> rd_wf r'"
  using rd_load_total [of r 2 le16] by (auto simp: rd_le16_def)

section \<open>The TLV iterator\<close>

datatype tlv_status = TLV_OVERRUN | TLV_END | TLV_OK

record tlv_it_t =
  it_p :: "bytes option"
  it_len :: int
  it_off :: int
  it_tagsz :: int
  it_lensz :: int
  it_bigend :: bool
  it_status :: tlv_status

definition tlv_init_sz :: "bytes option \<Rightarrow> int \<Rightarrow> int \<Rightarrow> bool \<Rightarrow> tlv_it_t" where
  "tlv_init_sz p len sz bigend =
     \<lparr>it_p = p, it_len = (if p \<noteq> None \<and> len > 0 then len else 0), it_off = 0,
      it_tagsz = sz, it_lensz = sz, it_bigend = bigend, it_status = TLV_OK\<rparr>"

definition tlv_init :: "bytes option \<Rightarrow> int \<Rightarrow> tlv_it_t" where
  "tlv_init p len = tlv_init_sz p len 1 False"

definition tlv_init16 :: "bytes option \<Rightarrow> int \<Rightarrow> bool \<Rightarrow> tlv_it_t" where
  "tlv_init16 p len bigend = tlv_init_sz p len 2 bigend"

text \<open>What the outputs hold on \<open>TLV_OK\<close>: tag, body length, body pointer.\<close>

type_synonym tlv_elem = "u16 \<times> int \<times> bytes"

definition tlv_next :: "tlv_it_t \<Rightarrow> (tlv_status \<times> tlv_elem option \<times> tlv_it_t) option" where
  "tlv_next it =
     (if it_status it \<noteq> TLV_OK then Some (it_status it, None, it)
      else if it_off it = it_len it then Some (TLV_END, None, it\<lparr>it_status := TLV_END\<rparr>)
      else let hdr = it_tagsz it + it_lensz it in
      if \<not> (it_off it + hdr \<le> it_len it)
      then Some (TLV_OVERRUN, None, it\<lparr>it_status := TLV_OVERRUN\<rparr>)
      else do {
        b \<leftarrow> it_p it;
        (t, l) \<leftarrow> (if it_tagsz it = 1 then do {
                      t \<leftarrow> byte_at b (it_off it); l \<leftarrow> byte_at b (it_off it + 1);
                      Some (ucast t, uint l) }
                  else if it_bigend it then do {
                      t \<leftarrow> be16 b (it_off it); l \<leftarrow> be16 b (it_off it + 2); Some (t, uint l) }
                  else do {
                      t \<leftarrow> le16 b (it_off it); l \<leftarrow> le16 b (it_off it + 2); Some (t, uint l) });
        if it_off it + hdr + l > it_len it
        then Some (TLV_OVERRUN, None, it\<lparr>it_status := TLV_OVERRUN\<rparr>)
        else Some (TLV_OK, Some (t, l, drop (nat (it_off it + hdr)) b),
                   it\<lparr>it_off := it_off it + hdr + l\<rparr>) })"

definition tlv_exact :: "tlv_it_t \<Rightarrow> bool" where
  "tlv_exact it \<longleftrightarrow> it_status it = TLV_END \<and> it_off it = it_len it"

text \<open>
  The loop \<open>while (tlv_next(&it, ...) == TLV_OK) body\<close>: the body is a function of the
  loop's state and the element, and says whether it breaks out.
\<close>

partial_function (option) tlv_walk ::
  "('s \<Rightarrow> u16 \<Rightarrow> int \<Rightarrow> bytes \<Rightarrow> ('s \<times> bool) option) \<Rightarrow> tlv_it_t \<Rightarrow> 's
     \<Rightarrow> ('s \<times> tlv_it_t) option" where
  "tlv_walk f it s = do {
     r \<leftarrow> tlv_next it;
     (case fst (snd r) of
        None \<Rightarrow> Some (s, snd (snd r))
      | Some el \<Rightarrow> do {
          q \<leftarrow> f s (fst el) (fst (snd el)) (snd (snd el));
          (if snd q then Some (fst q, snd (snd r)) else tlv_walk f (snd (snd r)) (fst q)) }) }"

subsection \<open>Specification: a parser over the region\<close>

datatype tlv_fmt = Tlv8 | Tlv16 bool

fun tlv_sz :: "tlv_fmt \<Rightarrow> nat" where
  "tlv_sz Tlv8 = 1" | "tlv_sz (Tlv16 _) = 2"

fun tlv_bigend :: "tlv_fmt \<Rightarrow> bool" where
  "tlv_bigend Tlv8 = False" | "tlv_bigend (Tlv16 e) = e"

fun tlv_head :: "tlv_fmt \<Rightarrow> bytes \<Rightarrow> u16 \<times> nat" where
  "tlv_head Tlv8 xs = (ucast (xs ! 0), unat (xs ! 1))"
| "tlv_head (Tlv16 True) xs =
     (push_bit 8 (ucast (xs ! 0)) OR ucast (xs ! 1), 256 * unat (xs ! 2) + unat (xs ! 3))"
| "tlv_head (Tlv16 False) xs =
     (ucast (xs ! 0) OR push_bit 8 (ucast (xs ! 1)), 256 * unat (xs ! 3) + unat (xs ! 2))"

lemma tlv_sz_pos: "0 < tlv_sz fmt"
  by (cases fmt) simp_all

lemma tlv_sz_nonzero [simp]: "tlv_sz fmt \<noteq> 0"
  by (cases fmt) simp_all

lemma tlv_shrink: "xs \<noteq> [] \<Longrightarrow> length xs - (y + 2 * tlv_sz fmt) < length xs"
  using tlv_sz_pos [of fmt] by (cases xs) auto

text \<open>The elements of a region and whether they tile it exactly.\<close>

function tlv_spec :: "tlv_fmt \<Rightarrow> bytes \<Rightarrow> (u16 \<times> bytes) list \<times> bool" where
  "tlv_spec fmt xs =
     (if xs = [] then ([], True)
      else if length xs < 2 * tlv_sz fmt then ([], False)
      else let (t, l) = tlv_head fmt xs; body = drop (2 * tlv_sz fmt) xs in
           if length body < l then ([], False)
           else let (es, ok) = tlv_spec fmt (drop l body) in ((t, take l body) # es, ok))"
  by pat_completeness auto
termination
  by (relation "measure (\<lambda>(fmt, xs). length xs)") (simp, auto intro: tlv_shrink)

declare tlv_spec.simps [simp del]

fun tlv_enc_head :: "tlv_fmt \<Rightarrow> u16 \<Rightarrow> nat \<Rightarrow> bytes" where
  "tlv_enc_head Tlv8 t n = [ucast t, word_of_nat n]"
| "tlv_enc_head (Tlv16 True) t n =
     [ucast (drop_bit 8 t), ucast t, word_of_nat (n div 256), word_of_nat n]"
| "tlv_enc_head (Tlv16 False) t n =
     [ucast t, ucast (drop_bit 8 t), word_of_nat n, word_of_nat (n div 256)]"

fun tlv_encode :: "tlv_fmt \<Rightarrow> (u16 \<times> bytes) list \<Rightarrow> bytes" where
  "tlv_encode fmt [] = []"
| "tlv_encode fmt ((t, body) # es) = tlv_enc_head fmt t (length body) @ body @ tlv_encode fmt es"

text \<open>The loop of the code over the specification's elements.\<close>

fun elems_run :: "('s \<Rightarrow> u16 \<Rightarrow> bytes \<Rightarrow> 's \<times> bool) \<Rightarrow> 's \<Rightarrow> (u16 \<times> bytes) list \<Rightarrow> 's \<times> bool" where
  "elems_run g s [] = (s, False)"
| "elems_run g s ((t, b) # es) =
     (let (s', stop) = g s t b in if stop then (s', True) else elems_run g s' es)"

subsection \<open>The code's walk computes the specification\<close>



definition tlv_wf :: "tlv_fmt \<Rightarrow> tlv_it_t \<Rightarrow> bool" where
  "tlv_wf fmt it \<longleftrightarrow> it_tagsz it = int (tlv_sz fmt) \<and> it_lensz it = int (tlv_sz fmt)
     \<and> it_bigend it = tlv_bigend fmt \<and> 0 \<le> it_off it \<and> it_off it \<le> it_len it
     \<and> buf_ok (it_p it) (it_len it) \<and> (it_p it = None \<longrightarrow> it_len it = 0)"

definition tlv_rest :: "tlv_it_t \<Rightarrow> bytes" where
  "tlv_rest it = (case it_p it of None \<Rightarrow> []
                  | Some b \<Rightarrow> drop (nat (it_off it)) (take (nat (it_len it)) b))"

lemma tlv_wf_init: "buf_ok p len \<Longrightarrow> tlv_wf Tlv8 (tlv_init p len)"
  by (cases p) (auto simp: tlv_wf_def tlv_init_def tlv_init_sz_def)

lemma tlv_wf_init16: "buf_ok p len \<Longrightarrow> tlv_wf (Tlv16 e) (tlv_init16 p len e)"
  by (cases p) (auto simp: tlv_wf_def tlv_init16_def tlv_init_sz_def)

lemma length_tlv_rest: "tlv_wf fmt it \<Longrightarrow> int (length (tlv_rest it)) = it_len it - it_off it"
  by (auto simp: tlv_wf_def tlv_rest_def split: option.splits)

lemma tlv_rest_nth:
  assumes "tlv_wf fmt it" and "it_p it = Some b" and "int k < it_len it - it_off it"
  shows "tlv_rest it ! k = b ! nat (it_off it + int k)"
  using assms by (auto simp: tlv_wf_def tlv_rest_def nat_add_distrib)

text \<open>The header the code loads is the header of the specification.\<close>

lemma tlv_header_load:
  assumes wf: "tlv_wf fmt it" and b: "it_p it = Some b"
    and fits: "it_off it + 2 * int (tlv_sz fmt) \<le> it_len it"
  shows "(if it_tagsz it = 1 then do {
             t \<leftarrow> byte_at b (it_off it); l \<leftarrow> byte_at b (it_off it + 1);
             Some (ucast t, uint l) }
          else if it_bigend it then do {
             t \<leftarrow> be16 b (it_off it); l \<leftarrow> be16 b (it_off it + 2); Some (t, uint l) }
          else do {
             t \<leftarrow> le16 b (it_off it); l \<leftarrow> le16 b (it_off it + 2); Some (t, uint l) })
         = Some (map_prod id int (tlv_head fmt (tlv_rest it)))"
proof -
  have len: "it_len it \<le> int (length b)" and o: "0 \<le> it_off it"
    using wf b by (auto simp: tlv_wf_def)
  have nth: "tlv_rest it ! k = b ! nat (it_off it + int k)" if "k < 2 * tlv_sz fmt" for k
    using tlv_rest_nth [OF wf b, of k] that fits by simp
  show ?thesis
  proof (cases fmt)
    case Tlv8
    with wf fits len o nth [of 0] nth [of 1] show ?thesis
      by (simp add: tlv_wf_def)
  next
    case (Tlv16 e)
    with wf fits len o nth [of 0] nth [of 1] nth [of 2] nth [of 3] show ?thesis
      by (cases e) (simp_all add: tlv_wf_def uint_join16 uint_join16_le add.assoc)
  qed
qed

lemma tlv_next_end:
  "tlv_wf fmt it \<Longrightarrow> it_status it = TLV_OK \<Longrightarrow> tlv_rest it = [] \<Longrightarrow>
   tlv_next it = Some (TLV_END, None, it\<lparr>it_status := TLV_END\<rparr>)"
  using length_tlv_rest [of fmt it] by (simp add: tlv_next_def)

lemma tlv_next_short:
  assumes "tlv_wf fmt it" "it_status it = TLV_OK" "tlv_rest it \<noteq> []"
    "length (tlv_rest it) < 2 * tlv_sz fmt"
  shows "tlv_next it = Some (TLV_OVERRUN, None, it\<lparr>it_status := TLV_OVERRUN\<rparr>)"
proof -
  have "it_off it \<noteq> it_len it" "\<not> it_off it + 2 * int (tlv_sz fmt) \<le> it_len it"
    using assms length_tlv_rest [of fmt it] by auto
  with assms show ?thesis by (simp add: tlv_next_def tlv_wf_def Let_def)
qed

lemma tlv_next_full:
  assumes wf: "tlv_wf fmt it" and ok: "it_status it = TLV_OK"
    and long: "2 * tlv_sz fmt \<le> length (tlv_rest it)"
    and hd: "tlv_head fmt (tlv_rest it) = (t, l)" and b: "it_p it = Some b"
  shows "tlv_next it =
     (if length (drop (2 * tlv_sz fmt) (tlv_rest it)) < l
      then Some (TLV_OVERRUN, None, it\<lparr>it_status := TLV_OVERRUN\<rparr>)
      else Some (TLV_OK, Some (t, int l, drop (nat (it_off it) + 2 * tlv_sz fmt) b),
                 it\<lparr>it_off := it_off it + 2 * int (tlv_sz fmt) + int l\<rparr>))"
proof -
  have len: "int (length (tlv_rest it)) = it_len it - it_off it" and o: "0 \<le> it_off it"
    using wf length_tlv_rest by (auto simp: tlv_wf_def)
  with long have fits: "it_off it + 2 * int (tlv_sz fmt) \<le> it_len it" by linarith
  moreover from fits tlv_sz_pos [of fmt] have "it_off it \<noteq> it_len it" by linarith
  ultimately show ?thesis
    using tlv_header_load [OF wf b fits] wf ok hd b len o
    by (auto simp: tlv_next_def Let_def tlv_wf_def nat_add_distrib nat_mult_distrib)
qed

lemma tlv_wf_step:
  assumes "tlv_wf fmt it" and "it_p it = Some b" and "2 * tlv_sz fmt + l \<le> length (tlv_rest it)"
  shows "tlv_wf fmt (it\<lparr>it_off := it_off it + 2 * int (tlv_sz fmt) + int l\<rparr>)"
    and "tlv_rest (it\<lparr>it_off := it_off it + 2 * int (tlv_sz fmt) + int l\<rparr>)
           = drop l (drop (2 * tlv_sz fmt) (tlv_rest it))"
proof -
  have "int (length (tlv_rest it)) = it_len it - it_off it"
    by (rule length_tlv_rest [OF assms(1)])
  with assms show "tlv_wf fmt (it\<lparr>it_off := it_off it + 2 * int (tlv_sz fmt) + int l\<rparr>)"
    by (auto simp: tlv_wf_def)
  show "tlv_rest (it\<lparr>it_off := it_off it + 2 * int (tlv_sz fmt) + int l\<rparr>)
          = drop l (drop (2 * tlv_sz fmt) (tlv_rest it))"
    using assms by (auto simp: tlv_wf_def tlv_rest_def nat_add_distrib nat_mult_distrib add_ac)
qed

lemma tlv_body_take:
  assumes "tlv_wf fmt it" and "it_p it = Some b" and "2 * tlv_sz fmt + l \<le> length (tlv_rest it)"
  shows "take l (drop (nat (it_off it) + 2 * tlv_sz fmt) b)
           = take l (drop (2 * tlv_sz fmt) (tlv_rest it))"
    and "l \<le> length (drop (nat (it_off it) + 2 * tlv_sz fmt) b)"
proof -
  have n: "int (length (tlv_rest it)) = it_len it - it_off it"
    by (rule length_tlv_rest [OF assms(1)])
  have r: "tlv_rest it = drop (nat (it_off it)) (take (nat (it_len it)) b)"
    using assms(2) by (simp add: tlv_rest_def)
  have "nat (it_off it) + 2 * tlv_sz fmt + l \<le> nat (it_len it)"
    using assms n by (auto simp: tlv_wf_def)
  moreover have "drop (2 * tlv_sz fmt) (tlv_rest it)
      = take (nat (it_len it) - (nat (it_off it) + 2 * tlv_sz fmt)) (drop (nat (it_off it) + 2 * tlv_sz fmt) b)"
    by (simp add: r drop_take add.commute)
  ultimately show "take l (drop (nat (it_off it) + 2 * tlv_sz fmt) b)
               = take l (drop (2 * tlv_sz fmt) (tlv_rest it))"
    by (simp add: min_absorb1)
  show "l \<le> length (drop (nat (it_off it) + 2 * tlv_sz fmt) b)"
    using assms n by (auto simp: tlv_wf_def)
qed

text \<open>
  The contract of a loop body: it reads nothing past the element it is handed, so that it
  is a function of the element alone. Every loop over the iterator in the code base obeys
  it; what it buys is that the whole loop is the fold of the body over \<open>tlv_spec\<close>.
\<close>

locale tlv_consumer =
  fixes f :: "'s \<Rightarrow> u16 \<Rightarrow> int \<Rightarrow> bytes \<Rightarrow> ('s \<times> bool) option"
    and g :: "'s \<Rightarrow> u16 \<Rightarrow> bytes \<Rightarrow> 's \<times> bool"
  assumes reads_body_only: "l \<le> length b \<Longrightarrow> f s t (int l) b = Some (g s t (take l b))"
begin

lemma walk_run:
  assumes "tlv_wf fmt it" and "it_status it = TLV_OK"
  shows "\<exists>it'. tlv_walk f it s = Some (fst (elems_run g s (fst (tlv_spec fmt (tlv_rest it)))), it')
     \<and> it_status it' = (if snd (elems_run g s (fst (tlv_spec fmt (tlv_rest it)))) then TLV_OK
                        else if snd (tlv_spec fmt (tlv_rest it)) then TLV_END else TLV_OVERRUN)"
  using assms
proof (induction "length (tlv_rest it)" arbitrary: it s rule: less_induct)
  case less
  note wf = less.prems(1) and ok = less.prems(2)
  let ?r = "tlv_rest it" and ?h = "2 * tlv_sz fmt"
  consider (nil) "?r = []" | (short) "?r \<noteq> []" "length ?r < ?h" | (full) "?r \<noteq> []" "?h \<le> length ?r"
    by linarith
  then show ?case
  proof cases
    case nil
    with wf ok show ?thesis
      by (subst tlv_walk.simps) (simp add: tlv_next_end tlv_spec.simps)
  next
    case short
    with wf ok show ?thesis
      by (subst tlv_walk.simps) (simp add: tlv_next_short tlv_spec.simps)
  next
    case full
    obtain b where b: "it_p it = Some b"
      using full by (cases "it_p it") (auto simp: tlv_rest_def)
    obtain t l where hd: "tlv_head fmt ?r = (t, l)" by (cases "tlv_head fmt ?r")
    note next_it = tlv_next_full [OF wf ok full(2) hd b]
    show ?thesis
    proof (cases "length (drop ?h ?r) < l")
      case True
      with next_it full hd show ?thesis
        by (subst tlv_walk.simps) (simp add: tlv_spec.simps [of fmt ?r])
    next
      case False
      let ?it' = "it\<lparr>it_off := it_off it + 2 * int (tlv_sz fmt) + int l\<rparr>"
      let ?b = "drop (nat (it_off it) + ?h) b"
      from False full have fits: "?h + l \<le> length ?r" by simp
      note step = tlv_wf_step [OF wf b fits] and body = tlv_body_take [OF wf b fits]
      obtain s' stop where g: "g s t (take l (drop ?h ?r)) = (s', stop)"
        by (cases "g s t (take l (drop ?h ?r))")
      have f: "f s t (int l) ?b = Some (s', stop)"
        using reads_body_only [OF body(2), of s t] body(1) g by simp
      have smaller: "length (tlv_rest ?it') < length ?r"
        using fits tlv_sz_pos [of fmt] step(2) full by auto
      have spec: "tlv_spec fmt ?r = (let (es, ok) = tlv_spec fmt (tlv_rest ?it')
                    in ((t, take l (drop ?h ?r)) # es, ok))"
        using full False hd step(2) by (simp add: tlv_spec.simps [of fmt ?r])
      from less.hyps [OF smaller step(1), of s'] ok next_it False f g show ?thesis
        by (subst tlv_walk.simps) (auto simp: spec split: prod.splits)
    qed
  qed
qed

lemma walk_total: "tlv_wf fmt it \<Longrightarrow> it_status it = TLV_OK \<Longrightarrow> \<exists>s' it'. tlv_walk f it s = Some (s', it')"
  using walk_run by blast

end


subsection \<open>Encoding and parsing\<close>

fun tlv_encodable :: "tlv_fmt \<Rightarrow> u16 \<times> bytes \<Rightarrow> bool" where
  "tlv_encodable Tlv8 (t, b) = (unat t < 256 \<and> length b < 256)"
| "tlv_encodable (Tlv16 _) (t, b) = (length b < 65536)"

lemma join16_split: "push_bit 8 (ucast (ucast (drop_bit 8 t) :: u8)) OR ucast (ucast t :: u8) = (t :: u16)"
  by (auto simp: bit_eq_iff bit_simps)

lemma join16_split_le: "ucast (ucast t :: u8) OR push_bit 8 (ucast (ucast (drop_bit 8 t) :: u8)) = (t :: u16)"
  using join16_split [of t] by (simp only: or.commute)

lemma join16_high: "ucast (drop_bit 8 (push_bit 8 (ucast h) OR ucast (l :: u8) :: u16)) = (h :: u8)"
  by (auto simp: bit_eq_iff bit_simps)

lemma join16_low: "ucast (push_bit 8 (ucast (h :: u8)) OR ucast l :: u16) = (l :: u8)"
  by (auto simp: bit_eq_iff bit_simps)

lemma join16_le_high: "ucast (drop_bit 8 (ucast (l :: u8) OR push_bit 8 (ucast h) :: u16)) = (h :: u8)"
  using join16_high [of h l] by (simp only: or.commute)

lemma join16_le_low: "ucast (ucast l OR push_bit 8 (ucast (h :: u8)) :: u16) = (l :: u8)"
  using join16_low [of h l] by (simp only: or.commute)

lemma len_split:
  "n < 65536 \<Longrightarrow> 256 * unat (word_of_nat (n div 256) :: u8) + unat (word_of_nat n :: u8) = n"
  by (simp add: unat_u8_of_nat)

lemma len_join:
  fixes a b :: u8
  shows "word_of_nat ((256 * unat a + unat b) div 256) = a" and "word_of_nat (256 * unat a + unat b) = b"
proof -
  have b: "unat b < 256" using unsigned_less [of b] by simp
  then have "(256 * unat a + unat b) div 256 = unat a" by simp
  then show "word_of_nat ((256 * unat a + unat b) div 256) = a" by simp
  have "unat (word_of_nat (256 * unat a + unat b) :: u8) = unat b"
    unfolding unat_u8_of_nat using b by simp
  then show "word_of_nat (256 * unat a + unat b) = b" by (simp only: word_unat_eq_iff)
qed

lemma length_enc_head [simp]: "length (tlv_enc_head fmt t n) = 2 * tlv_sz fmt"
  by (cases "(fmt, t, n)" rule: tlv_enc_head.cases) simp_all

lemma tlv_head_enc:
  "tlv_encodable fmt (t, b) \<Longrightarrow> tlv_head fmt (tlv_enc_head fmt t (length b) @ xs) = (t, length b)"
  by (cases "(fmt, t, length b)" rule: tlv_enc_head.cases)
     (simp_all add: numeral_2_eq_2 numeral_3_eq_3 ucast_u16_u8_u16 unat_u8_of_nat
        len_split [unfolded unat_u8_of_nat] join16_split join16_split_le)

lemma tlv_enc_head_head:
  assumes "length ys = 2 * tlv_sz fmt" and "tlv_head fmt (ys @ zs) = (t, l)"
  shows "tlv_enc_head fmt t l = ys"
proof (cases fmt)
  case Tlv8
  with assms(1) obtain a b where "ys = [a, b]"
    by (auto simp: length_Suc_conv numeral_2_eq_2)
  with Tlv8 assms(2) show ?thesis by auto
next
  case (Tlv16 big)
  with assms(1) have "length ys = Suc (Suc (Suc (Suc 0)))" by simp
  then obtain a b c d where "ys = [a, b, c, d]"
    by (auto simp: length_Suc_conv)
  note ys = this
  show ?thesis
  proof (cases big)
    case True
    with Tlv16 assms(2) ys have "t = push_bit 8 (ucast a) OR ucast b" "l = 256 * unat c + unat d"
      by (auto simp: numeral_2_eq_2 numeral_3_eq_3)
    then show ?thesis
      by (simp only: ys Tlv16 True tlv_enc_head.simps join16_high join16_low len_join)
  next
    case False
    with Tlv16 assms(2) ys have "t = ucast a OR push_bit 8 (ucast b)" "l = 256 * unat d + unat c"
      by (auto simp: numeral_2_eq_2 numeral_3_eq_3)
    moreover from False have "big = False" by simp
    ultimately show ?thesis
      by (simp only: ys Tlv16 tlv_enc_head.simps join16_le_high join16_le_low len_join)
  qed
qed

lemma tlv_spec_encode_Cons:
  assumes "tlv_encodable fmt (t, b)"
  shows "tlv_spec fmt (tlv_encode fmt ((t, b) # es))
           = (let (es', ok) = tlv_spec fmt (tlv_encode fmt es) in ((t, b) # es', ok))"
proof -
  let ?xs = "tlv_encode fmt ((t, b) # es)"
  have "tlv_head fmt ?xs = (t, length b)"
    using assms by (simp add: tlv_head_enc)
  moreover have len: "2 * tlv_sz fmt \<le> length ?xs"
    by simp
  moreover from len have "?xs \<noteq> []"
    by (cases ?xs) (simp_all del: tlv_encode.simps)
  ultimately show ?thesis
    by (subst tlv_spec.simps) (auto simp: Let_def)
qed

lemma tlv_spec_encode:
  "\<forall>e \<in> set es. tlv_encodable fmt e \<Longrightarrow> tlv_spec fmt (tlv_encode fmt es) = (es, True)"
proof (induction es)
  case Nil
  then show ?case by (simp add: tlv_spec.simps)
next
  case (Cons e es)
  then show ?case by (cases e) (simp only: tlv_spec_encode_Cons list.set_intros, simp)
qed

text \<open>Conversely, what the parser accepts is a prefix of the region, all of it on a clean end.\<close>

lemma tlv_spec_sound:
  "tlv_spec fmt xs = (es, ok) \<Longrightarrow> \<exists>rest. xs = tlv_encode fmt es @ rest \<and> (ok \<longleftrightarrow> rest = [])"
proof (induction fmt xs arbitrary: es ok rule: tlv_spec.induct)
  case (1 fmt xs)
  show ?case
  proof (cases "xs = [] \<or> length xs < 2 * tlv_sz fmt \<or> length (drop (2 * tlv_sz fmt) xs) < snd (tlv_head fmt xs)")
    case True
    with "1.prems" show ?thesis
      by (auto simp: tlv_spec.simps [of fmt xs] Let_def split: if_splits prod.splits)
  next
    case False
    obtain t l where hd: "tlv_head fmt xs = (t, l)" by (cases "tlv_head fmt xs")
    let ?body = "drop (2 * tlv_sz fmt) xs"
    obtain es' ok' where rec: "tlv_spec fmt (drop l ?body) = (es', ok')"
      by (cases "tlv_spec fmt (drop l ?body)")
    with False hd "1.prems" have es: "es = (t, take l ?body) # es'" and ok: "ok' = ok"
      by (auto simp: tlv_spec.simps [of fmt xs])
    from "1.IH" [OF _ _ refl hd [symmetric] refl _ rec] False hd obtain rest where
      rest: "drop l ?body = tlv_encode fmt es' @ rest" "ok' \<longleftrightarrow> rest = []" by auto
    have l: "length (take l ?body) = l" using False hd by simp
    have "tlv_enc_head fmt t l = take (2 * tlv_sz fmt) xs"
      using tlv_enc_head_head [of "take (2 * tlv_sz fmt) xs" fmt ?body t l] False hd by simp
    then have "xs = tlv_enc_head fmt t l @ take l ?body @ drop l ?body"
      by (metis append_take_drop_id)
    with rest(1) l have "xs = tlv_encode fmt es @ rest"
      by (simp add: es)
    with rest ok show ?thesis by blast
  qed
qed

section \<open>Properties\<close>

text \<open>The simplest consumer: collect the elements.\<close>

definition tlv_collect ::
  "(u16 \<times> bytes) list \<Rightarrow> u16 \<Rightarrow> int \<Rightarrow> bytes \<Rightarrow> ((u16 \<times> bytes) list \<times> bool) option" where
  "tlv_collect acc t l b = Some (acc @ [(t, take (nat l) b)], False)"

interpretation collect: tlv_consumer tlv_collect "\<lambda>acc t b. (acc @ [(t, b)], False)"
  by unfold_locales (simp add: tlv_collect_def)

lemma elems_run_collect: "elems_run (\<lambda>acc t b. (acc @ [(t, b)], False)) acc es = (acc @ es, False)"
  by (induction es arbitrary: acc) auto

lemma tlv_rest_init: "tlv_rest (tlv_init (Some b) len) = take (nat len) b"
  by (simp add: tlv_rest_def tlv_init_def tlv_init_sz_def)

lemma tlv_rest_init16: "tlv_rest (tlv_init16 (Some b) len e) = take (nat len) b"
  by (simp add: tlv_rest_def tlv_init16_def tlv_init_sz_def)

fun tlv_start :: "tlv_fmt \<Rightarrow> bytes option \<Rightarrow> int \<Rightarrow> tlv_it_t" where
  "tlv_start Tlv8 p len = tlv_init p len"
| "tlv_start (Tlv16 e) p len = tlv_init16 p len e"

lemma tlv_init_OK [simp]: "it_status (tlv_init p len) = TLV_OK" "it_status (tlv_init16 p len e) = TLV_OK"
  by (simp_all add: tlv_init_def tlv_init16_def tlv_init_sz_def)

lemma tlv_collect_walk:
  assumes "tlv_wf fmt it" and "it_status it = TLV_OK" and "tlv_spec fmt (tlv_rest it) = (es, ok)"
  shows "\<exists>it'. tlv_walk tlv_collect it [] = Some (es, it')
           \<and> it_status it' = (if ok then TLV_END else TLV_OVERRUN)"
  using collect.walk_run [OF assms(1,2), of "[]"] assms(3) by (simp add: elems_run_collect)



text \<open>
  C31: Parsing undoes encoding, for the 802.11 framing and both byte orders of the 2+2
  framing: walking an encoded element list, with any octets after the region, yields
  exactly those elements and ends cleanly.
\<close>

theorem tlv_walk_roundtrip:
  assumes "\<forall>e \<in> set es. tlv_encodable fmt e"
  shows "\<exists>it'. tlv_walk tlv_collect
             (tlv_start fmt (Some (tlv_encode fmt es @ junk)) (int (length (tlv_encode fmt es)))) []
           = Some (es, it') \<and> it_status it' = TLV_END"
proof -
  let ?it = "tlv_start fmt (Some (tlv_encode fmt es @ junk)) (int (length (tlv_encode fmt es)))"
  have "tlv_wf fmt ?it" and "tlv_rest ?it = tlv_encode fmt es" and "it_status ?it = TLV_OK"
    by (cases fmt; simp add: tlv_rest_init tlv_rest_init16 tlv_wf_init tlv_wf_init16)+
  with tlv_collect_walk [of fmt ?it es True] tlv_spec_encode [OF assms] show ?thesis by simp
qed

lemma tlv_walk_roundtrip_witness:
  "\<exists>it'. tlv_walk tlv_collect
       (tlv_start (Tlv16 True) (Some (tlv_encode (Tlv16 True) [(4178, [1, 2]), (7, [])] @ [99]))
          (int (length (tlv_encode (Tlv16 True) [(4178, [1, 2]), (7, [])])))) []
     = Some ([(4178, [1, 2]), (7, [])], it') \<and> it_status it' = TLV_END"
  by (rule tlv_walk_roundtrip) simp

text \<open>Every sequence of cursor operations, as the parsers issue them.\<close>

datatype rd_op = RdU8 | RdLe16 | RdBe16 | RdLe32 | RdBe32 | RdSkip int | RdBytes int | RdSub int

fun rd_size :: "rd_op \<Rightarrow> int" where
  "rd_size RdU8 = 1" | "rd_size RdLe16 = 2" | "rd_size RdBe16 = 2" | "rd_size RdLe32 = 4"
| "rd_size RdBe32 = 4" | "rd_size (RdSkip n) = n" | "rd_size (RdBytes n) = n" | "rd_size (RdSub n) = n"

fun rd_step :: "rd_t \<Rightarrow> rd_op \<Rightarrow> rd_t option" where
  "rd_step r RdU8 = map_option snd (rd_u8 r)"
| "rd_step r RdLe16 = map_option snd (rd_le16 r)"
| "rd_step r RdBe16 = map_option snd (rd_be16 r)"
| "rd_step r RdLe32 = map_option snd (rd_le32 r)"
| "rd_step r RdBe32 = map_option snd (rd_be32 r)"
| "rd_step r (RdSkip n) = Some (snd (rd_skip r n))"
| "rd_step r (RdBytes n) = Some (snd (snd (rd_bytes r n)))"
| "rd_step r (RdSub n) = Some (snd (snd (rd_sub r n)))"

fun rd_run :: "rd_t \<Rightarrow> rd_op list \<Rightarrow> rd_t option" where
  "rd_run r [] = Some r"
| "rd_run r (op # ops) = do { r' \<leftarrow> rd_step r op; rd_run r' ops }"

lemma rd_load_step:
  assumes "rd_wf r" and "0 < n" and "\<And>b i. 0 \<le> i \<Longrightarrow> i + n \<le> int (length b) \<Longrightarrow> \<exists>v. load b i = Some v"
  shows "map_option snd (rd_load load n r)
     = Some (if rd_fault r \<or> rd_off r + n > rd_len r then r\<lparr>rd_fault := True\<rparr>
             else r\<lparr>rd_off := rd_off r + n\<rparr>)"
proof (cases "rd_fault r \<or> rd_off r + n > rd_len r")
  case True
  then show ?thesis by (auto simp: rd_load_def rd_take_ok_def)
next
  case False
  with assms(1,2) obtain b where "rd_p r = Some b" "rd_off r + n \<le> int (length b)"
    by (cases "rd_p r") (auto simp: rd_wf_def)
  with assms(3) [of "rd_off r" b] assms(1,2) False show ?thesis
    by (auto simp: rd_load_def rd_take_ok_def rd_wf_def)
qed

lemma rd_step_eq:
  assumes "rd_wf r" and "0 \<le> rd_size op"
  shows "rd_step r op
     = Some (if rd_fault r \<or> rd_off r + rd_size op > rd_len r then r\<lparr>rd_fault := True\<rparr>
             else r\<lparr>rd_off := rd_off r + rd_size op\<rparr>)"
  using assms rd_load_step [of r 1 byte_at] rd_load_step [of r 2 le16] rd_load_step [of r 2 be16]
    rd_load_step [of r 4 le32] rd_load_step [of r 4 be32]
  by (cases op) (auto simp: rd_u8_def rd_le16_def rd_be16_def rd_le32_def rd_be32_def rd_skip_def
      rd_bytes_def rd_sub_def rd_take_ok_def Let_def be32_readable le32_readable)

lemma rd_run_from:
  assumes "rd_wf r" and "\<forall>op \<in> set ops. 0 \<le> rd_size op"
  shows "\<exists>r'. rd_run r ops = Some r' \<and> rd_wf r' \<and> rd_len r' = rd_len r
     \<and> (rd_fault r' \<longleftrightarrow> rd_fault r \<or> rd_off r + sum_list (map rd_size ops) > rd_len r)
     \<and> (\<not> rd_fault r' \<longrightarrow> rd_off r' = rd_off r + sum_list (map rd_size ops))"
  using assms
proof (induction ops arbitrary: r)
  case Nil
  then show ?case by (auto simp: rd_wf_def)
next
  case (Cons op ops)
  let ?bad = "rd_fault r \<or> rd_off r + rd_size op > rd_len r"
  let ?r' = "if ?bad then r\<lparr>rd_fault := True\<rparr> else r\<lparr>rd_off := rd_off r + rd_size op\<rparr>"
  have step: "rd_step r op = Some ?r'" using Cons.prems by (intro rd_step_eq) auto
  have pos: "0 \<le> sum_list (map rd_size ops)"
    using Cons.prems(2) by (intro sum_list_nonneg) auto
  have "rd_wf ?r'" using Cons.prems by (auto simp: rd_wf_def)
  from Cons.IH [OF this] Cons.prems(2) obtain r'' where
    "rd_run ?r' ops = Some r''" "rd_wf r''" "rd_len r'' = rd_len ?r'"
    "rd_fault r'' \<longleftrightarrow> rd_fault ?r' \<or> rd_off ?r' + sum_list (map rd_size ops) > rd_len ?r'"
    "\<not> rd_fault r'' \<longrightarrow> rd_off r'' = rd_off ?r' + sum_list (map rd_size ops)"
    by auto
  with step pos show ?case by (cases ?bad) auto
qed



end
