(* ===== verification/SensorHealth.thy ===== *)
theory SensorHealth
  imports Prelude
begin

text \<open>
  \<open>src/sensor_health.c\<close>: the loss tallies. Every bounded table notes each row it had to
  drop under its own kind, and every parser notes each frame it gave up on; the heartbeat
  publishes the totals. The two C arrays are functions from the kind to a 64-bit counter;
  a kind is the value of its C enumerator, so the range checks of the code are the
  range checks of the model. The mutexes serialise the increments and are not modelled.
\<close>

type_synonym sh_evict_t = int
type_synonym sh_parse_fault_t = int

abbreviation (input) SH_EVICT_ALERT :: sh_evict_t where "SH_EVICT_ALERT \<equiv> 0"
abbreviation (input) SH_EVICT_TOP_HOST :: sh_evict_t where "SH_EVICT_TOP_HOST \<equiv> 1"
abbreviation (input) SH_EVICT_PNL_CLIENT :: sh_evict_t where "SH_EVICT_PNL_CLIENT \<equiv> 2"
abbreviation (input) SH_EVICT_PNL_SSID :: sh_evict_t where "SH_EVICT_PNL_SSID \<equiv> 3"
abbreviation (input) SH_EVICT_DHCP_EVENT :: sh_evict_t where "SH_EVICT_DHCP_EVENT \<equiv> 4"
abbreviation (input) SH_EVICT_EAP_SESSION :: sh_evict_t where "SH_EVICT_EAP_SESSION \<equiv> 5"
abbreviation (input) SH_EVICT_DEVICE :: sh_evict_t where "SH_EVICT_DEVICE \<equiv> 6"
abbreviation (input) SH_EVICT_BEACON_AP :: sh_evict_t where "SH_EVICT_BEACON_AP \<equiv> 7"
abbreviation (input) SH_EVICT_SEQNUM_CLIENT :: sh_evict_t where "SH_EVICT_SEQNUM_CLIENT \<equiv> 8"
abbreviation (input) SH_EVICT_ASSOC_PAIR :: sh_evict_t where "SH_EVICT_ASSOC_PAIR \<equiv> 9"
abbreviation (input) SH_EVICT_ASSOC_REQ :: sh_evict_t where "SH_EVICT_ASSOC_REQ \<equiv> 10"
abbreviation (input) SH_EVICT_WPS_SESSION :: sh_evict_t where "SH_EVICT_WPS_SESSION \<equiv> 11"
abbreviation (input) SH_EVICT_EVIDENCE_FRAME :: sh_evict_t where "SH_EVICT_EVIDENCE_FRAME \<equiv> 12"
abbreviation (input) SH_EVICT_PROBE_CLIENT :: sh_evict_t where "SH_EVICT_PROBE_CLIENT \<equiv> 13"
abbreviation (input) SH_EVICT_PM_FORGE :: sh_evict_t where "SH_EVICT_PM_FORGE \<equiv> 14"
abbreviation (input) SH_EVICT_QUEUE_EVICT :: sh_evict_t where "SH_EVICT_QUEUE_EVICT \<equiv> 15"
abbreviation (input) SH_EVICT_PCAP_COOLDOWN :: sh_evict_t where "SH_EVICT_PCAP_COOLDOWN \<equiv> 16"
abbreviation (input) SH_EVICT_DNS_LOG :: sh_evict_t where "SH_EVICT_DNS_LOG \<equiv> 17"
abbreviation (input) SH_EVICT_TLS_LOG :: sh_evict_t where "SH_EVICT_TLS_LOG \<equiv> 18"
abbreviation (input) SH_EVICT_QUIC_LOG :: sh_evict_t where "SH_EVICT_QUIC_LOG \<equiv> 19"
abbreviation (input) SH_EVICT_HTTP_LOG :: sh_evict_t where "SH_EVICT_HTTP_LOG \<equiv> 20"
abbreviation (input) SH_EVICT_NTP_LOG :: sh_evict_t where "SH_EVICT_NTP_LOG \<equiv> 21"
abbreviation (input) SH_EVICT_ICMP_LOG :: sh_evict_t where "SH_EVICT_ICMP_LOG \<equiv> 22"
abbreviation (input) SH_EVICT_RF_CHANNEL :: sh_evict_t where "SH_EVICT_RF_CHANNEL \<equiv> 23"
abbreviation (input) SH_EVICT_HTTP_FLOW :: sh_evict_t where "SH_EVICT_HTTP_FLOW \<equiv> 24"
abbreviation (input) SH_EVICT_BGP_SESSION :: sh_evict_t where "SH_EVICT_BGP_SESSION \<equiv> 25"
abbreviation (input) SH_EVICT_LDAP_EVENT :: sh_evict_t where "SH_EVICT_LDAP_EVENT \<equiv> 26"
abbreviation (input) SH_EVICT_KERB_EVENT :: sh_evict_t where "SH_EVICT_KERB_EVENT \<equiv> 27"
abbreviation (input) SH_EVICT_SMB_SESSION :: sh_evict_t where "SH_EVICT_SMB_SESSION \<equiv> 28"
abbreviation (input) SH_EVICT_SSH_FLOW :: sh_evict_t where "SH_EVICT_SSH_FLOW \<equiv> 29"
abbreviation (input) SH_EVICT_RDP_FLOW :: sh_evict_t where "SH_EVICT_RDP_FLOW \<equiv> 30"
abbreviation (input) SH_EVICT_SNMP_FLOW :: sh_evict_t where "SH_EVICT_SNMP_FLOW \<equiv> 31"
abbreviation (input) SH_EVICT_MQTT_FLOW :: sh_evict_t where "SH_EVICT_MQTT_FLOW \<equiv> 32"
abbreviation (input) SH_EVICT_MDNS_SERVICE :: sh_evict_t where "SH_EVICT_MDNS_SERVICE \<equiv> 33"
abbreviation (input) SH_EVICT_NBNS_NAME :: sh_evict_t where "SH_EVICT_NBNS_NAME \<equiv> 34"
abbreviation (input) SH_EVICT_ARP_HIST :: sh_evict_t where "SH_EVICT_ARP_HIST \<equiv> 35"
abbreviation (input) SH_EVICT_FRAG_BSS :: sh_evict_t where "SH_EVICT_FRAG_BSS \<equiv> 36"
abbreviation (input) SH_EVICT_FRAG_STA :: sh_evict_t where "SH_EVICT_FRAG_STA \<equiv> 37"
abbreviation (input) SH_EVICT_FRAG_SESSION :: sh_evict_t where "SH_EVICT_FRAG_SESSION \<equiv> 38"
abbreviation (input) SH_EVICT_FRAG_ASSOC :: sh_evict_t where "SH_EVICT_FRAG_ASSOC \<equiv> 39"
abbreviation (input) SH_EVICT_FRAG_MPDU :: sh_evict_t where "SH_EVICT_FRAG_MPDU \<equiv> 40"
abbreviation (input) SH_EVICT_NDP_RA :: sh_evict_t where "SH_EVICT_NDP_RA \<equiv> 41"
abbreviation (input) SH_EVICT_ROGUE_RADIUS :: sh_evict_t where "SH_EVICT_ROGUE_RADIUS \<equiv> 42"
abbreviation (input) SH_EVICT_SSDP_DEVICE :: sh_evict_t where "SH_EVICT_SSDP_DEVICE \<equiv> 43"
abbreviation (input) SH_EVICT_ONVIF_DEVICE :: sh_evict_t where "SH_EVICT_ONVIF_DEVICE \<equiv> 44"
abbreviation (input) SH_EVICT_SMTP_FLOW :: sh_evict_t where "SH_EVICT_SMTP_FLOW \<equiv> 45"
abbreviation (input) SH_EVICT_EAPOL_PENDING :: sh_evict_t where "SH_EVICT_EAPOL_PENDING \<equiv> 46"
abbreviation (input) SH_EVICT_DEAUTH_OBS :: sh_evict_t where "SH_EVICT_DEAUTH_OBS \<equiv> 47"
abbreviation (input) SH_EVICT_DEAUTH_VICTIM :: sh_evict_t where "SH_EVICT_DEAUTH_VICTIM \<equiv> 48"
abbreviation (input) SH_EVICT_RTSP_EXCHANGE :: sh_evict_t where "SH_EVICT_RTSP_EXCHANGE \<equiv> 49"
abbreviation (input) SH_EVICT_RTSP_STREAM :: sh_evict_t where "SH_EVICT_RTSP_STREAM \<equiv> 50"
abbreviation (input) SH_EVICT_LAN_ROLE :: sh_evict_t where "SH_EVICT_LAN_ROLE \<equiv> 51"
abbreviation (input) SH_EVICT_BLE_DEVICE :: sh_evict_t where "SH_EVICT_BLE_DEVICE \<equiv> 52"
abbreviation (input) SH_EVICT_BREDR_LAP :: sh_evict_t where "SH_EVICT_BREDR_LAP \<equiv> 53"
abbreviation (input) SH_EVICT_BLE_FLOOD :: sh_evict_t where "SH_EVICT_BLE_FLOOD \<equiv> 54"
abbreviation (input) SH_EVICT_FRAG_AP_IDENT :: sh_evict_t where "SH_EVICT_FRAG_AP_IDENT \<equiv> 55"
abbreviation (input) SH_EVICT_KIND_COUNT :: sh_evict_t where "SH_EVICT_KIND_COUNT \<equiv> 56"

abbreviation (input) SH_PF_RADIOTAP_BAD :: sh_parse_fault_t where "SH_PF_RADIOTAP_BAD \<equiv> 0"
abbreviation (input) SH_PF_DOT11_RUNT :: sh_parse_fault_t where "SH_PF_DOT11_RUNT \<equiv> 1"
abbreviation (input) SH_PF_IE_OVERRUN :: sh_parse_fault_t where "SH_PF_IE_OVERRUN \<equiv> 2"
abbreviation (input) SH_PF_RSN_MALFORMED :: sh_parse_fault_t where "SH_PF_RSN_MALFORMED \<equiv> 3"
abbreviation (input) SH_PF_MLE_MALFORMED :: sh_parse_fault_t where "SH_PF_MLE_MALFORMED \<equiv> 4"
abbreviation (input) SH_PF_IP_TRUNCATED :: sh_parse_fault_t where "SH_PF_IP_TRUNCATED \<equiv> 5"
abbreviation (input) SH_PF_IP_FRAGMENT :: sh_parse_fault_t where "SH_PF_IP_FRAGMENT \<equiv> 6"
abbreviation (input) SH_PF_DNS_NAME_BAD :: sh_parse_fault_t where "SH_PF_DNS_NAME_BAD \<equiv> 7"
abbreviation (input) SH_PF_TLS_MALFORMED :: sh_parse_fault_t where "SH_PF_TLS_MALFORMED \<equiv> 8"
abbreviation (input) SH_PF_FRAME_EDGE :: sh_parse_fault_t where "SH_PF_FRAME_EDGE \<equiv> 9"
abbreviation (input) SH_PF_FCS_FAILED :: sh_parse_fault_t where "SH_PF_FCS_FAILED \<equiv> 10"
abbreviation (input) SH_PF_KIND_COUNT :: sh_parse_fault_t where "SH_PF_KIND_COUNT \<equiv> 11"

record sh_t =
  g_evict :: "sh_evict_t \<Rightarrow> u64"
  g_pf :: "sh_parse_fault_t \<Rightarrow> u64"

definition sh_init :: sh_t where
  "sh_init = \<lparr>g_evict = (\<lambda>_. 0), g_pf = (\<lambda>_. 0)\<rparr>"

subsection \<open>Table-overflow tally\<close>

definition in_range :: "sh_evict_t \<Rightarrow> bool" where
  "in_range kind \<longleftrightarrow> 0 \<le> kind \<and> kind < SH_EVICT_KIND_COUNT"

definition sh_evict_note :: "sh_evict_t \<Rightarrow> sh_t \<Rightarrow> sh_t" where
  "sh_evict_note kind h =
     (if \<not> in_range kind then h
      else h\<lparr>g_evict := (g_evict h)(kind := g_evict h kind + 1)\<rparr>)"

definition sh_evict_count :: "sh_evict_t \<Rightarrow> sh_t \<Rightarrow> u64" where
  "sh_evict_count kind h = (if \<not> in_range kind then 0 else g_evict h kind)"

definition sh_evict_total :: "sh_t \<Rightarrow> u64" where
  "sh_evict_total h = fold (\<lambda>i n. n + g_evict h i) [0..SH_EVICT_KIND_COUNT - 1] 0"

definition sh_evict_is_flow_ring :: "sh_evict_t \<Rightarrow> bool" where
  "sh_evict_is_flow_ring kind \<longleftrightarrow>
     kind \<in> {SH_EVICT_DNS_LOG, SH_EVICT_TLS_LOG, SH_EVICT_QUIC_LOG,
             SH_EVICT_HTTP_LOG, SH_EVICT_NTP_LOG, SH_EVICT_ICMP_LOG}"

definition sh_evict_total_tables :: "sh_t \<Rightarrow> u64" where
  "sh_evict_total_tables h =
     fold (\<lambda>i n. if \<not> sh_evict_is_flow_ring i then n + g_evict h i else n)
       [0..SH_EVICT_KIND_COUNT - 1] 0"

definition sh_evict_names :: "(int \<times> string) list" where
  "sh_evict_names = [
     (SH_EVICT_ALERT, ''alert''), (SH_EVICT_TOP_HOST, ''top_host''),
     (SH_EVICT_PNL_CLIENT, ''pnl_client''), (SH_EVICT_PNL_SSID, ''pnl_ssid''),
     (SH_EVICT_DHCP_EVENT, ''dhcp_event''), (SH_EVICT_EAP_SESSION, ''eap_session''),
     (SH_EVICT_DEVICE, ''device''), (SH_EVICT_BEACON_AP, ''beacon_ap''),
     (SH_EVICT_SEQNUM_CLIENT, ''seqnum_client''), (SH_EVICT_ASSOC_PAIR, ''assoc_pair''),
     (SH_EVICT_ASSOC_REQ, ''assoc_req''), (SH_EVICT_WPS_SESSION, ''wps_session''),
     (SH_EVICT_EVIDENCE_FRAME, ''evidence_frame''), (SH_EVICT_PROBE_CLIENT, ''probe_client''),
     (SH_EVICT_PM_FORGE, ''pm_forge''), (SH_EVICT_QUEUE_EVICT, ''queue_evict''),
     (SH_EVICT_PCAP_COOLDOWN, ''pcap_cooldown''), (SH_EVICT_DNS_LOG, ''dns_log''),
     (SH_EVICT_TLS_LOG, ''tls_log''), (SH_EVICT_QUIC_LOG, ''quic_log''),
     (SH_EVICT_HTTP_LOG, ''http_log''), (SH_EVICT_NTP_LOG, ''ntp_log''),
     (SH_EVICT_ICMP_LOG, ''icmp_log''), (SH_EVICT_RF_CHANNEL, ''rf_channel''),
     (SH_EVICT_HTTP_FLOW, ''http_flow''), (SH_EVICT_BGP_SESSION, ''bgp_session''),
     (SH_EVICT_LDAP_EVENT, ''ldap_event''), (SH_EVICT_KERB_EVENT, ''kerb_event''),
     (SH_EVICT_SMB_SESSION, ''smb_session''), (SH_EVICT_SSH_FLOW, ''ssh_flow''),
     (SH_EVICT_RDP_FLOW, ''rdp_flow''), (SH_EVICT_SNMP_FLOW, ''snmp_flow''),
     (SH_EVICT_MQTT_FLOW, ''mqtt_flow''), (SH_EVICT_MDNS_SERVICE, ''mdns_service''),
     (SH_EVICT_NBNS_NAME, ''nbns_name''), (SH_EVICT_ARP_HIST, ''arp_hist''),
     (SH_EVICT_FRAG_BSS, ''frag_bss''), (SH_EVICT_FRAG_STA, ''frag_sta''),
     (SH_EVICT_FRAG_SESSION, ''frag_session''), (SH_EVICT_FRAG_ASSOC, ''frag_assoc''),
     (SH_EVICT_FRAG_MPDU, ''frag_mpdu''), (SH_EVICT_NDP_RA, ''ndp_ra''),
     (SH_EVICT_ROGUE_RADIUS, ''rogue_radius''), (SH_EVICT_SSDP_DEVICE, ''ssdp_device''),
     (SH_EVICT_ONVIF_DEVICE, ''onvif_device''), (SH_EVICT_SMTP_FLOW, ''smtp_flow''),
     (SH_EVICT_EAPOL_PENDING, ''eapol_pending''), (SH_EVICT_DEAUTH_OBS, ''deauth_obs''),
     (SH_EVICT_DEAUTH_VICTIM, ''deauth_victim''), (SH_EVICT_RTSP_EXCHANGE, ''rtsp_exchange''),
     (SH_EVICT_RTSP_STREAM, ''rtsp_stream''), (SH_EVICT_LAN_ROLE, ''lan_role''),
     (SH_EVICT_BLE_DEVICE, ''ble_device''), (SH_EVICT_BREDR_LAP, ''bredr_lap''),
     (SH_EVICT_BLE_FLOOD, ''ble_flood''), (SH_EVICT_FRAG_AP_IDENT, ''frag_ap_ident'')]"

definition sh_parse_fault_names :: "(int \<times> string) list" where
  "sh_parse_fault_names = [
     (SH_PF_RADIOTAP_BAD, ''radiotap_bad''), (SH_PF_DOT11_RUNT, ''dot11_runt''),
     (SH_PF_IE_OVERRUN, ''ie_overrun''), (SH_PF_RSN_MALFORMED, ''rsn_malformed''),
     (SH_PF_MLE_MALFORMED, ''mle_malformed''), (SH_PF_IP_TRUNCATED, ''ip_truncated''),
     (SH_PF_IP_FRAGMENT, ''ip_fragment''), (SH_PF_DNS_NAME_BAD, ''dns_name_bad''),
     (SH_PF_TLS_MALFORMED, ''tls_malformed''), (SH_PF_FRAME_EDGE, ''frame_edge''),
     (SH_PF_FCS_FAILED, ''fcs_failed'')]"

definition sh_evict_name :: "sh_evict_t \<Rightarrow> string" where
  "sh_evict_name kind =
     (case map_of sh_evict_names kind of Some n \<Rightarrow> n | None \<Rightarrow> [])"

definition sh_evict_reset :: "sh_t \<Rightarrow> sh_t" where
  "sh_evict_reset h = h\<lparr>g_evict := (\<lambda>_. 0)\<rparr>"

subsection \<open>Parse-fault tally\<close>

definition pf_in_range :: "sh_parse_fault_t \<Rightarrow> bool" where
  "pf_in_range kind \<longleftrightarrow> 0 \<le> kind \<and> kind < SH_PF_KIND_COUNT"

definition sh_parse_fault_note :: "sh_parse_fault_t \<Rightarrow> sh_t \<Rightarrow> sh_t" where
  "sh_parse_fault_note kind h =
     (if \<not> pf_in_range kind then h else h\<lparr>g_pf := (g_pf h)(kind := g_pf h kind + 1)\<rparr>)"

definition sh_parse_fault_count :: "sh_parse_fault_t \<Rightarrow> sh_t \<Rightarrow> u64" where
  "sh_parse_fault_count kind h = (if \<not> pf_in_range kind then 0 else g_pf h kind)"

definition sh_parse_fault_total :: "sh_t \<Rightarrow> u64" where
  "sh_parse_fault_total h = fold (\<lambda>i n. n + g_pf h i) [0..SH_PF_KIND_COUNT - 1] 0"

definition sh_parse_fault_name :: "sh_parse_fault_t \<Rightarrow> string" where
  "sh_parse_fault_name kind =
     (case map_of sh_parse_fault_names kind of Some n \<Rightarrow> n | None \<Rightarrow> [])"

definition sh_parse_fault_is_wired :: "sh_parse_fault_t \<Rightarrow> bool" where
  "sh_parse_fault_is_wired kind \<longleftrightarrow>
     kind \<in> {SH_PF_RADIOTAP_BAD, SH_PF_DOT11_RUNT, SH_PF_IE_OVERRUN, SH_PF_RSN_MALFORMED,
             SH_PF_MLE_MALFORMED, SH_PF_IP_TRUNCATED, SH_PF_IP_FRAGMENT, SH_PF_FRAME_EDGE,
             SH_PF_FCS_FAILED}"

definition sh_parse_fault_reset :: "sh_t \<Rightarrow> sh_t" where
  "sh_parse_fault_reset h = h\<lparr>g_pf := (\<lambda>_. 0)\<rparr>"

subsection \<open>What a note does\<close>

lemma sh_evict_note_count [simp]:
  "in_range k \<Longrightarrow> sh_evict_count k (sh_evict_note k h) = sh_evict_count k h + 1"
  "k \<noteq> k' \<Longrightarrow> sh_evict_count k' (sh_evict_note k h) = sh_evict_count k' h"
  by (auto simp: sh_evict_count_def sh_evict_note_def)

lemma sh_parse_fault_note_count [simp]:
  "pf_in_range k \<Longrightarrow> sh_parse_fault_count k (sh_parse_fault_note k h) = sh_parse_fault_count k h + 1"
  "k \<noteq> k' \<Longrightarrow> sh_parse_fault_count k' (sh_parse_fault_note k h) = sh_parse_fault_count k' h"
  by (auto simp: sh_parse_fault_count_def sh_parse_fault_note_def)

lemma sh_note_frame [simp]:
  "g_pf (sh_evict_note k h) = g_pf h" "g_evict (sh_parse_fault_note k' h) = g_evict h"
  "sh_parse_fault_count k'' (sh_evict_note k h) = sh_parse_fault_count k'' h"
  "sh_evict_count k'' (sh_parse_fault_note k' h) = sh_evict_count k'' h"
  by (simp_all add: sh_evict_note_def sh_parse_fault_note_def sh_evict_count_def
      sh_parse_fault_count_def)

lemma sh_evict_count_reset [simp]: "sh_evict_count k (sh_evict_reset h) = 0"
  by (simp add: sh_evict_count_def sh_evict_reset_def)

lemma fold_plus_words: "fold (\<lambda>i n. n + f i) xs (a :: 'a::len word) = a + sum_list (map f xs)"
  by (induction xs arbitrary: a) (simp_all add: add.assoc)

lemma sum_list_upd:
  assumes "distinct xs" and "k \<in> set xs"
  shows "sum_list (map (f(k := f k + 1)) xs) = sum_list (map f xs) + (1 :: 'a::len word)"
proof -
  have "sum_list (map (f(k := f k + 1)) xs) = (\<Sum>x \<in> set xs. (f(k := f k + 1)) x)"
    using assms(1) by (simp add: sum_list_distinct_conv_sum_set)
  also have "\<dots> = (\<Sum>x \<in> set xs. f x) + 1"
    using assms(2) by (simp add: sum.remove [of "set xs" k] algebra_simps)
  finally show ?thesis using assms(1) by (simp add: sum_list_distinct_conv_sum_set)
qed

text \<open>A noted loss is one more in the total, whatever table it came from.\<close>

lemma sh_evict_total_note: "in_range k \<Longrightarrow> sh_evict_total (sh_evict_note k h) = sh_evict_total h + 1"
  using sum_list_upd [of "[0..55]" k "g_evict h"]
  by (simp add: sh_evict_total_def sh_evict_note_def fold_plus_words in_range_def del: fun_upd_apply)

lemma sh_parse_fault_total_note:
  "pf_in_range k \<Longrightarrow> sh_parse_fault_total (sh_parse_fault_note k h) = sh_parse_fault_total h + 1"
  using sum_list_upd [of "[0..10]" k "g_pf h"]
  by (simp add: sh_parse_fault_total_def sh_parse_fault_note_def fold_plus_words pf_in_range_def
      del: fun_upd_apply)

lemma sh_names_distinct:
  "map fst sh_evict_names = [0..SH_EVICT_KIND_COUNT - 1]" "distinct (map snd sh_evict_names)"
  by (simp_all add: sh_evict_names_def upto.simps)

end
