(* ===== verification/Tune.thy ===== *)
theory Tune
  imports Prelude
begin

text \<open>
  \<open>src/tune.c\<close>: the registry of detector thresholds. \<open>g_specs\<close> is the table of the
  source with every \<open>#define\<close> it names evaluated; \<open>g_val\<close> is seeded from it on first use,
  which \<open>g_seeded\<close> records. \<open>strtol\<close> is modelled as the C standard describes it for
  base 10 and a 64-bit \<open>long\<close>; the message written to \<open>err\<close> is the constructor of
  \<open>tune_error\<close> that names it. A detector reads its thresholds with \<open>tune_val\<close>.
\<close>

type_synonym tune_id_t = int

abbreviation (input) TUNE_KARMA_SSID_THRESH :: tune_id_t where "TUNE_KARMA_SSID_THRESH \<equiv> 0"
abbreviation (input) TUNE_DNS_TUNNEL_LABEL_THRESH :: tune_id_t where "TUNE_DNS_TUNNEL_LABEL_THRESH \<equiv> 1"
abbreviation (input) TUNE_DNS_TUNNEL_LONG_HITS :: tune_id_t where "TUNE_DNS_TUNNEL_LONG_HITS \<equiv> 2"
abbreviation (input) TUNE_DNS_TUNNEL_TOTAL_THRESH :: tune_id_t where "TUNE_DNS_TUNNEL_TOTAL_THRESH \<equiv> 3"
abbreviation (input) TUNE_ICMP_TUNNEL_MIN_PAYLOAD :: tune_id_t where "TUNE_ICMP_TUNNEL_MIN_PAYLOAD \<equiv> 4"
abbreviation (input) TUNE_ICMP_TUNNEL_THRESHOLD :: tune_id_t where "TUNE_ICMP_TUNNEL_THRESHOLD \<equiv> 5"
abbreviation (input) TUNE_ICMP_TUNNEL_WINDOW_S :: tune_id_t where "TUNE_ICMP_TUNNEL_WINDOW_S \<equiv> 6"
abbreviation (input) TUNE_SSID_CONFUSION_THRESH :: tune_id_t where "TUNE_SSID_CONFUSION_THRESH \<equiv> 7"
abbreviation (input) TUNE_MGMT_FUZZ_WARN :: tune_id_t where "TUNE_MGMT_FUZZ_WARN \<equiv> 8"
abbreviation (input) TUNE_MGMT_FUZZ_CRIT :: tune_id_t where "TUNE_MGMT_FUZZ_CRIT \<equiv> 9"
abbreviation (input) TUNE_EVIL_TWIN_PROXIMITY_DBM :: tune_id_t where "TUNE_EVIL_TWIN_PROXIMITY_DBM \<equiv> 10"
abbreviation (input) TUNE_DEAUTH_TWIN_WIN_SECS :: tune_id_t where "TUNE_DEAUTH_TWIN_WIN_SECS \<equiv> 11"
abbreviation (input) TUNE_TWIN_STEER_WINDOW_S :: tune_id_t where "TUNE_TWIN_STEER_WINDOW_S \<equiv> 12"
abbreviation (input) TUNE_RECON_SUSTAIN_S :: tune_id_t where "TUNE_RECON_SUSTAIN_S \<equiv> 13"
abbreviation (input) TUNE_RECON_SUSTAIN_PROBES :: tune_id_t where "TUNE_RECON_SUSTAIN_PROBES \<equiv> 14"
abbreviation (input) TUNE_KERB_PREAUTH_BURST :: tune_id_t where "TUNE_KERB_PREAUTH_BURST \<equiv> 15"
abbreviation (input) TUNE_LDAP_SEARCH_FLOOD :: tune_id_t where "TUNE_LDAP_SEARCH_FLOOD \<equiv> 16"
abbreviation (input) TUNE_BGP_NOTIFICATION_BURST :: tune_id_t where "TUNE_BGP_NOTIFICATION_BURST \<equiv> 17"
abbreviation (input) TUNE_SSH_BRUTE_FORCE :: tune_id_t where "TUNE_SSH_BRUTE_FORCE \<equiv> 18"
abbreviation (input) TUNE_RDP_BRUTE_FORCE :: tune_id_t where "TUNE_RDP_BRUTE_FORCE \<equiv> 19"
abbreviation (input) TUNE_SNMP_COMMUNITY_BRUTE :: tune_id_t where "TUNE_SNMP_COMMUNITY_BRUTE \<equiv> 20"
abbreviation (input) TUNE_MQTT_BRUTE_CONNECTS :: tune_id_t where "TUNE_MQTT_BRUTE_CONNECTS \<equiv> 21"
abbreviation (input) TUNE_MQTT_BRUTE_FAILS :: tune_id_t where "TUNE_MQTT_BRUTE_FAILS \<equiv> 22"
abbreviation (input) TUNE_WPS_PIN_BRUTE_CYCLES :: tune_id_t where "TUNE_WPS_PIN_BRUTE_CYCLES \<equiv> 23"
abbreviation (input) TUNE_WPS_LOCKOUT_CYCLES :: tune_id_t where "TUNE_WPS_LOCKOUT_CYCLES \<equiv> 24"
abbreviation (input) TUNE_WPS_PBC_CONCURRENT :: tune_id_t where "TUNE_WPS_PBC_CONCURRENT \<equiv> 25"
abbreviation (input) TUNE_STORAGE_MIN_FREE_MB :: tune_id_t where "TUNE_STORAGE_MIN_FREE_MB \<equiv> 26"
abbreviation (input) TUNE_STORAGE_MIN_FREE_INODES :: tune_id_t where "TUNE_STORAGE_MIN_FREE_INODES \<equiv> 27"
abbreviation (input) TUNE_STORAGE_MIN_FREE_PCT :: tune_id_t where "TUNE_STORAGE_MIN_FREE_PCT \<equiv> 28"
abbreviation (input) TUNE_PCAP_MIN_SEVERITY :: tune_id_t where "TUNE_PCAP_MIN_SEVERITY \<equiv> 29"
abbreviation (input) TUNE_PCAP_KEY_COOLDOWN_SECS :: tune_id_t where "TUNE_PCAP_KEY_COOLDOWN_SECS \<equiv> 30"
abbreviation (input) TUNE_PCAP_RETAIN_DAYS :: tune_id_t where "TUNE_PCAP_RETAIN_DAYS \<equiv> 31"
abbreviation (input) TUNE_SOCKET_MAX_PER_PEER :: tune_id_t where "TUNE_SOCKET_MAX_PER_PEER \<equiv> 32"
abbreviation (input) TUNE_SOCKET_IDLE_SECS :: tune_id_t where "TUNE_SOCKET_IDLE_SECS \<equiv> 33"
abbreviation (input) TUNE_CORRELATE_RETAIN_SECS :: tune_id_t where "TUNE_CORRELATE_RETAIN_SECS \<equiv> 34"
abbreviation (input) TUNE_HANDSHAKE_RETENTION_DAYS :: tune_id_t where "TUNE_HANDSHAKE_RETENTION_DAYS \<equiv> 35"
abbreviation (input) TUNE_DB_INTERVAL_SECS :: tune_id_t where "TUNE_DB_INTERVAL_SECS \<equiv> 36"
abbreviation (input) TUNE_DB_RETAIN_DAYS :: tune_id_t where "TUNE_DB_RETAIN_DAYS \<equiv> 37"
abbreviation (input) TUNE_DB_MAX_MB :: tune_id_t where "TUNE_DB_MAX_MB \<equiv> 38"
abbreviation (input) TUNE_SCAN_PORT_THRESH :: tune_id_t where "TUNE_SCAN_PORT_THRESH \<equiv> 39"
abbreviation (input) TUNE_DEAUTH_FLOOD_THRESH :: tune_id_t where "TUNE_DEAUTH_FLOOD_THRESH \<equiv> 40"
abbreviation (input) TUNE_DEAUTH_FLOOD_WINDOW_S :: tune_id_t where "TUNE_DEAUTH_FLOOD_WINDOW_S \<equiv> 41"
abbreviation (input) TUNE_BEACON_FLOOD_THRESH :: tune_id_t where "TUNE_BEACON_FLOOD_THRESH \<equiv> 42"
abbreviation (input) TUNE_BEACON_FLOOD_WINDOW_S :: tune_id_t where "TUNE_BEACON_FLOOD_WINDOW_S \<equiv> 43"
abbreviation (input) TUNE_AUTH_FLOOD_THRESH :: tune_id_t where "TUNE_AUTH_FLOOD_THRESH \<equiv> 44"
abbreviation (input) TUNE_AUTH_FLOOD_WINDOW_S :: tune_id_t where "TUNE_AUTH_FLOOD_WINDOW_S \<equiv> 45"
abbreviation (input) TUNE_ASSOC_FLOOD_THRESH :: tune_id_t where "TUNE_ASSOC_FLOOD_THRESH \<equiv> 46"
abbreviation (input) TUNE_ASSOC_FLOOD_WINDOW_S :: tune_id_t where "TUNE_ASSOC_FLOOD_WINDOW_S \<equiv> 47"
abbreviation (input) TUNE_PROBE_FLOOD_FRAMES :: tune_id_t where "TUNE_PROBE_FLOOD_FRAMES \<equiv> 48"
abbreviation (input) TUNE_PROBE_FLOOD_WINDOW_S :: tune_id_t where "TUNE_PROBE_FLOOD_WINDOW_S \<equiv> 49"
abbreviation (input) TUNE_BTM_ABUSE_THRESH :: tune_id_t where "TUNE_BTM_ABUSE_THRESH \<equiv> 50"
abbreviation (input) TUNE_BTM_ABUSE_WINDOW_S :: tune_id_t where "TUNE_BTM_ABUSE_WINDOW_S \<equiv> 51"
abbreviation (input) TUNE_SAQ_FLOOD_THRESH :: tune_id_t where "TUNE_SAQ_FLOOD_THRESH \<equiv> 52"
abbreviation (input) TUNE_SAQ_FLOOD_WINDOW_S :: tune_id_t where "TUNE_SAQ_FLOOD_WINDOW_S \<equiv> 53"
abbreviation (input) TUNE_RTS_FLOOD_RATE :: tune_id_t where "TUNE_RTS_FLOOD_RATE \<equiv> 54"
abbreviation (input) TUNE_RTS_FLOOD_SUSTAIN_S :: tune_id_t where "TUNE_RTS_FLOOD_SUSTAIN_S \<equiv> 55"
abbreviation (input) TUNE_BD_MIN_SAMPLES :: tune_id_t where "TUNE_BD_MIN_SAMPLES \<equiv> 56"
abbreviation (input) TUNE_BD_MIN_INTERVAL_S :: tune_id_t where "TUNE_BD_MIN_INTERVAL_S \<equiv> 57"
abbreviation (input) TUNE_BD_MAX_JITTER_PCT :: tune_id_t where "TUNE_BD_MAX_JITTER_PCT \<equiv> 58"
abbreviation (input) TUNE_BD_MIN_SAMPLES_V2 :: tune_id_t where "TUNE_BD_MIN_SAMPLES_V2 \<equiv> 59"
abbreviation (input) TUNE_BD_MIN_CONCENTRATION_PCT :: tune_id_t where "TUNE_BD_MIN_CONCENTRATION_PCT \<equiv> 60"
abbreviation (input) TUNE_BD_MAX_FINDINGS :: tune_id_t where "TUNE_BD_MAX_FINDINGS \<equiv> 61"
abbreviation (input) TUNE_QUEUE_EVICT_WINDOW_MS :: tune_id_t where "TUNE_QUEUE_EVICT_WINDOW_MS \<equiv> 62"
abbreviation (input) TUNE_QUEUE_EVICT_MIN_FRAMES :: tune_id_t where "TUNE_QUEUE_EVICT_MIN_FRAMES \<equiv> 63"
abbreviation (input) TUNE_QUEUE_EVICT_REPORT_SECS :: tune_id_t where "TUNE_QUEUE_EVICT_REPORT_SECS \<equiv> 64"
abbreviation (input) TUNE_TRANSIT_GAP_SECS :: tune_id_t where "TUNE_TRANSIT_GAP_SECS \<equiv> 65"
abbreviation (input) TUNE_TRANSIT_WINDOW_SECS :: tune_id_t where "TUNE_TRANSIT_WINDOW_SECS \<equiv> 66"
abbreviation (input) TUNE_TRANSIT_RECUR_THRESH :: tune_id_t where "TUNE_TRANSIT_RECUR_THRESH \<equiv> 67"
abbreviation (input) TUNE_PRESENCE_SWING_DBM :: tune_id_t where "TUNE_PRESENCE_SWING_DBM \<equiv> 68"
abbreviation (input) TUNE_PRESENCE_TRANSIENT_MAX_S :: tune_id_t where "TUNE_PRESENCE_TRANSIENT_MAX_S \<equiv> 69"
abbreviation (input) TUNE_PRESENCE_VISITOR_MIN_S :: tune_id_t where "TUNE_PRESENCE_VISITOR_MIN_S \<equiv> 70"
abbreviation (input) TUNE_PRESENCE_RESIDENT_MIN_S :: tune_id_t where "TUNE_PRESENCE_RESIDENT_MIN_S \<equiv> 71"
abbreviation (input) TUNE_PRESENCE_MIN_SAMPLES :: tune_id_t where "TUNE_PRESENCE_MIN_SAMPLES \<equiv> 72"
abbreviation (input) TUNE_SEQNUM_CORR_SEQ_WINDOW :: tune_id_t where "TUNE_SEQNUM_CORR_SEQ_WINDOW \<equiv> 73"
abbreviation (input) TUNE_SEQNUM_CORR_DT_MAX_S :: tune_id_t where "TUNE_SEQNUM_CORR_DT_MAX_S \<equiv> 74"
abbreviation (input) TUNE_WPS_PIXIE_SILENCE_S :: tune_id_t where "TUNE_WPS_PIXIE_SILENCE_S \<equiv> 75"
abbreviation (input) TUNE_WPS_PIXIE_SUCCESS_WINDOW_S :: tune_id_t where "TUNE_WPS_PIXIE_SUCCESS_WINDOW_S \<equiv> 76"
abbreviation (input) TUNE_CAM_JOIN_FRESH_SECS :: tune_id_t where "TUNE_CAM_JOIN_FRESH_SECS \<equiv> 77"
abbreviation (input) TUNE_BLE_FLOOD_WINDOW_S :: tune_id_t where "TUNE_BLE_FLOOD_WINDOW_S \<equiv> 78"
abbreviation (input) TUNE_BLE_FLOOD_DISTINCT_ADDRS :: tune_id_t where "TUNE_BLE_FLOOD_DISTINCT_ADDRS \<equiv> 79"
abbreviation (input) TUNE_BLE_FLOOD_RATE :: tune_id_t where "TUNE_BLE_FLOOD_RATE \<equiv> 80"
abbreviation (input) TUNE_BLE_HID_ROTATE_ADDRS :: tune_id_t where "TUNE_BLE_HID_ROTATE_ADDRS \<equiv> 81"
abbreviation (input) TUNE_BLE_HID_ROTATE_WINDOW_S :: tune_id_t where "TUNE_BLE_HID_ROTATE_WINDOW_S \<equiv> 82"
abbreviation (input) TUNE_RF_PATH_LOSS_N_2G :: tune_id_t where "TUNE_RF_PATH_LOSS_N_2G \<equiv> 83"
abbreviation (input) TUNE_RF_PATH_LOSS_N_5G :: tune_id_t where "TUNE_RF_PATH_LOSS_N_5G \<equiv> 84"
abbreviation (input) TUNE_RF_PATH_LOSS_N_6G :: tune_id_t where "TUNE_RF_PATH_LOSS_N_6G \<equiv> 85"
abbreviation (input) TUNE_RF_MEDIAN_K :: tune_id_t where "TUNE_RF_MEDIAN_K \<equiv> 86"
abbreviation (input) TUNE_RF_REF_DIST_DM :: tune_id_t where "TUNE_RF_REF_DIST_DM \<equiv> 87"
abbreviation (input) TUNE_RF_RX_GAIN_DB_WIFI :: tune_id_t where "TUNE_RF_RX_GAIN_DB_WIFI \<equiv> 88"
abbreviation (input) TUNE_RF_RX_GAIN_DB_BLE :: tune_id_t where "TUNE_RF_RX_GAIN_DB_BLE \<equiv> 89"
abbreviation (input) TUNE_GPS_MIN_MOVE_M :: tune_id_t where "TUNE_GPS_MIN_MOVE_M \<equiv> 90"
abbreviation (input) TUNE_GPS_SAMPLE_S :: tune_id_t where "TUNE_GPS_SAMPLE_S \<equiv> 91"
abbreviation (input) TUNE_GPS_MAX_FIX_AGE_S :: tune_id_t where "TUNE_GPS_MAX_FIX_AGE_S \<equiv> 92"
abbreviation (input) TUNE_GNSS_JAM_CN0_DROP_DB :: tune_id_t where "TUNE_GNSS_JAM_CN0_DROP_DB \<equiv> 93"
abbreviation (input) TUNE_GNSS_JAM_WINDOW_S :: tune_id_t where "TUNE_GNSS_JAM_WINDOW_S \<equiv> 94"
abbreviation (input) TUNE_GNSS_JAM_IND :: tune_id_t where "TUNE_GNSS_JAM_IND \<equiv> 95"
abbreviation (input) TUNE_GNSS_JAM_HOLD_S :: tune_id_t where "TUNE_GNSS_JAM_HOLD_S \<equiv> 96"
abbreviation (input) TUNE_GNSS_SPOOF_CN0_HIGH_DB :: tune_id_t where "TUNE_GNSS_SPOOF_CN0_HIGH_DB \<equiv> 97"
abbreviation (input) TUNE_GNSS_SPOOF_HIGH_SATS :: tune_id_t where "TUNE_GNSS_SPOOF_HIGH_SATS \<equiv> 98"
abbreviation (input) TUNE_GNSS_SPOOF_CN0_MEAN_DB :: tune_id_t where "TUNE_GNSS_SPOOF_CN0_MEAN_DB \<equiv> 99"
abbreviation (input) TUNE_GNSS_SPOOF_CN0_SD_DB :: tune_id_t where "TUNE_GNSS_SPOOF_CN0_SD_DB \<equiv> 100"
abbreviation (input) TUNE_GNSS_SPOOF_MIN_SATS :: tune_id_t where "TUNE_GNSS_SPOOF_MIN_SATS \<equiv> 101"
abbreviation (input) TUNE_GNSS_SPOOF_WINDOW_S :: tune_id_t where "TUNE_GNSS_SPOOF_WINDOW_S \<equiv> 102"
abbreviation (input) TUNE_GNSS_TIME_JUMP_MS :: tune_id_t where "TUNE_GNSS_TIME_JUMP_MS \<equiv> 103"
abbreviation (input) TUNE_GNSS_POS_JUMP_K :: tune_id_t where "TUNE_GNSS_POS_JUMP_K \<equiv> 104"
abbreviation (input) TUNE_COUNT :: tune_id_t where "TUNE_COUNT \<equiv> 105"

record tune_spec_t =
  ts_name :: string
  ts_def :: int
  ts_lo :: int
  ts_hi :: int

abbreviation tune_row :: "string \<Rightarrow> int \<Rightarrow> int \<Rightarrow> int \<Rightarrow> tune_spec_t" where
  "tune_row n d l h \<equiv> \<lparr>ts_name = n, ts_def = d, ts_lo = l, ts_hi = h\<rparr>"

definition g_specs :: "tune_spec_t list" where
  "g_specs = [
     tune_row ''karma.ssid_thresh'' 3 2 64,
     tune_row ''dns.tunnel_label_thresh'' 30 8 255,
     tune_row ''dns.tunnel_long_hits'' 8 2 1000,
     tune_row ''dns.tunnel_total_thresh'' 15 2 1000,
     tune_row ''icmp.tunnel_min_payload'' 64 8 1472,
     tune_row ''icmp.tunnel_threshold'' 8 2 1000,
     tune_row ''icmp.tunnel_window_s'' 60 5 3600,
     tune_row ''ssid.confusion_thresh'' 3 2 64,
     tune_row ''mgmt.fuzz_warn'' 3 1 1000,
     tune_row ''mgmt.fuzz_crit'' 5 1 1000,
     tune_row ''twin.proximity_dbm'' 15 1 100,
     tune_row ''deauth.twin_window_s'' 5 1 600,
     tune_row ''twin.steer_window_s'' 300 10 3600,
     tune_row ''recon.sustain_s'' 600 10 86400,
     tune_row ''recon.sustain_probes'' 20 2 10000,
     tune_row ''kerb.preauth_burst'' 5 2 1000,
     tune_row ''ldap.search_flood'' 50 2 10000,
     tune_row ''bgp.notification_burst'' 3 2 1000,
     tune_row ''ssh.brute_force'' 10 2 1000,
     tune_row ''rdp.brute_force'' 10 2 1000,
     tune_row ''snmp.community_brute'' 5 2 1000,
     tune_row ''mqtt.brute_connects'' 10 2 1000,
     tune_row ''mqtt.brute_fails'' 5 2 1000,
     tune_row ''wps.pin_brute_cycles'' 5 1 1000,
     tune_row ''wps.lockout_cycles'' 2 1 1000,
     tune_row ''wps.pbc_concurrent'' 2 1 1000,
     tune_row ''storage.min_free_mb'' 0 0 4194304,
     tune_row ''storage.min_free_inodes'' 0 0 100000000,
     tune_row ''storage.min_free_pct'' 5 0 50,
     tune_row ''pcap.min_severity'' 2 0 2,
     tune_row ''pcap.key_cooldown_secs'' 3600 0 86400,
     tune_row ''pcap.retain_days'' 14 0 3650,
     tune_row ''socket.max_per_peer'' 4 1 16,
     tune_row ''socket.idle_secs'' 900 0 86400,
     tune_row ''correlate.retain_secs'' 300 1 604800,
     tune_row ''handshake.retention_days'' 7 0 36500,
     tune_row ''db.interval_secs'' 1 1 86400,
     tune_row ''db.retain_days'' 30 1 36500,
     tune_row ''db.max_mb'' 512 0 4194304,
     tune_row ''scan.port_thresh'' 8 2 64,
     tune_row ''deauth.flood_thresh'' 5 2 32,
     tune_row ''deauth.flood_window_s'' 5 1 600,
     tune_row ''beacon.flood_thresh'' 40 2 256,
     tune_row ''beacon.flood_window_s'' 10 1 3600,
     tune_row ''auth.flood_thresh'' 30 2 512,
     tune_row ''auth.flood_window_s'' 5 1 3600,
     tune_row ''assoc.flood_thresh'' 21 2 256,
     tune_row ''assoc.flood_window_s'' 60 1 3600,
     tune_row ''probe.flood_frames'' 30 2 32,
     tune_row ''probe.flood_window_s'' 5 1 600,
     tune_row ''btm.abuse_thresh'' 4 2 256,
     tune_row ''btm.abuse_window_s'' 60 1 3600,
     tune_row ''saq.flood_thresh'' 12 2 48,
     tune_row ''saq.flood_window_s'' 10 1 3600,
     tune_row ''rts.flood_rate'' 500 1 100000,
     tune_row ''rts.flood_sustain_s'' 5 1 3600,
     tune_row ''bd.min_samples'' 5 3 16,
     tune_row ''bd.min_interval_s'' 10 1 86400,
     tune_row ''bd.max_jitter_pct'' 25 1 100,
     tune_row ''bd.min_samples_v2'' 12 3 16,
     tune_row ''bd.min_concentration_pct'' 60 1 100,
     tune_row ''bd.max_findings'' 16 1 64,
     tune_row ''queue_evict.window_ms'' 100 1 10000,
     tune_row ''queue_evict.min_frames'' 3 2 1000,
     tune_row ''queue_evict.report_secs'' 900 1 86400,
     tune_row ''transit.gap_secs'' 300 1 86400,
     tune_row ''transit.window_secs'' 7200 60 604800,
     tune_row ''transit.recur_thresh'' 3 2 16,
     tune_row ''presence.swing_dbm'' 8 1 100,
     tune_row ''presence.transient_max_s'' 120 1 86400,
     tune_row ''presence.visitor_min_s'' 120 1 86400,
     tune_row ''presence.resident_min_s'' 900 1 604800,
     tune_row ''presence.min_samples'' 3 3 16,
     tune_row ''seqnum.corr_seq_window'' 64 1 4095,
     tune_row ''seqnum.corr_dt_max_s'' 30 1 3600,
     tune_row ''wps.pixie_silence_s'' 60 1 3600,
     tune_row ''wps.pixie_success_window_s'' 86400 3600 604800,
     tune_row ''camera.join_fresh_secs'' 3600 900 604800,
     tune_row ''ble.flood_window_s'' 10 1 600,
     tune_row ''ble.flood_distinct_addrs'' 20 2 128,
     tune_row ''ble.flood_rate'' 10 1 10000,
     tune_row ''ble.hid_rotate_addrs'' 3 2 256,
     tune_row ''ble.hid_rotate_window_s'' 900 60 86400,
     tune_row ''rf.path_loss_n_2g'' 28 16 60,
     tune_row ''rf.path_loss_n_5g'' 30 16 60,
     tune_row ''rf.path_loss_n_6g'' 30 16 60,
     tune_row ''rf.median_k'' 8 1 16,
     tune_row ''rf.ref_dist_dm'' 0 0 1000,
     tune_row ''rf.rx_gain_db_wifi'' 0 (-20) 30,
     tune_row ''rf.rx_gain_db_ble'' 0 (-20) 30,
     tune_row ''gps.min_move_m'' 5 0 100000,
     tune_row ''gps.sample_s'' 60 1 86400,
     tune_row ''gps.max_fix_age_s'' 30 1 3600,
     tune_row ''gnss.jam_cn0_drop_db'' 10 1 60,
     tune_row ''gnss.jam_window_s'' 10 2 120,
     tune_row ''gnss.jam_ind'' 128 1 255,
     tune_row ''gnss.jam_hold_s'' 30 2 299,
     tune_row ''gnss.spoof_cn0_high_db'' 53 30 99,
     tune_row ''gnss.spoof_high_sats'' 4 1 48,
     tune_row ''gnss.spoof_cn0_mean_db'' 45 20 99,
     tune_row ''gnss.spoof_cn0_sd_db'' 1 1 20,
     tune_row ''gnss.spoof_min_sats'' 6 3 48,
     tune_row ''gnss.spoof_window_s'' 300 10 3600,
     tune_row ''gnss.time_jump_ms'' 1000 200 3600000,
     tune_row ''gnss.pos_jump_k'' 3 1 100]"

record tune_t =
  g_val :: "int list"
  g_seeded :: bool

definition tune_boot :: tune_t where
  "tune_boot = \<lparr>g_val = replicate (nat TUNE_COUNT) 0, g_seeded = False\<rparr>"

definition seed :: "tune_t \<Rightarrow> tune_t" where
  "seed t = (if g_seeded t then t else t\<lparr>g_val := map ts_def g_specs, g_seeded := True\<rparr>)"

definition tune_val :: "tune_t \<Rightarrow> tune_id_t \<Rightarrow> int" where
  "tune_val t kid = (if kid < 0 \<or> kid \<ge> TUNE_COUNT then 0 else g_val (seed t) ! nat kid)"

definition tune_spec :: "tune_id_t \<Rightarrow> tune_spec_t option" where
  "tune_spec kid = (if kid < 0 \<or> kid \<ge> TUNE_COUNT then None else Some (g_specs ! nat kid))"

definition tune_reset :: "tune_t \<Rightarrow> tune_t" where
  "tune_reset t = seed (t\<lparr>g_seeded := False\<rparr>)"

datatype tune_error = EmptyArgument | ExpectedNameValue | UnknownKnob | NoSuchKnob
  | MissingValue | NotAnInteger | OutOfRange

subsection \<open>strtol\<close>

definition LONG_MAX :: int where "LONG_MAX = 9223372036854775807"
definition LONG_MIN :: int where "LONG_MIN = - 9223372036854775808"

definition is_space :: "char \<Rightarrow> bool" where
  "is_space c \<longleftrightarrow> of_char c = (32 :: nat) \<or> (9 \<le> (of_char c :: nat) \<and> of_char c \<le> (13 :: nat))"

definition is_digit :: "char \<Rightarrow> bool" where
  "is_digit c \<longleftrightarrow> 48 \<le> (of_char c :: nat) \<and> of_char c \<le> (57 :: nat)"

definition digit_val :: "char \<Rightarrow> int" where
  "digit_val c = int (of_char c) - 48"

fun strtol_digits :: "int \<Rightarrow> string \<Rightarrow> int \<times> string" where
  "strtol_digits acc [] = (acc, [])"
| "strtol_digits acc (c # cs) =
     (if is_digit c then strtol_digits (10 * acc + digit_val c) cs else (acc, c # cs))"

text \<open>The value, whether \<open>errno\<close> became \<open>ERANGE\<close>, and the string at \<open>end\<close>.\<close>

definition strtol :: "string \<Rightarrow> int \<times> bool \<times> string" where
  "strtol s =
     (let s1 = dropWhile is_space s;
          (neg, s2) = (case s1 of [] \<Rightarrow> (False, []) | c # cs \<Rightarrow>
                         if c = CHR ''-'' then (True, cs)
                         else if c = CHR ''+'' then (False, cs) else (False, s1));
          (v, rest) = strtol_digits 0 s2;
          w = (if neg then - v else v)
      in if s2 = [] \<or> \<not> is_digit (hd s2) then (0, False, s)
         else if w > LONG_MAX then (LONG_MAX, True, rest)
         else if w < LONG_MIN then (LONG_MIN, True, rest)
         else (w, False, rest))"

subsection \<open>Setting a knob\<close>

definition tune_set_value :: "tune_t \<Rightarrow> tune_id_t \<Rightarrow> string \<Rightarrow> tune_error + tune_t" where
  "tune_set_value t kid vs =
     (if kid < 0 \<or> kid \<ge> TUNE_COUNT then Inl NoSuchKnob
      else let t = seed t; sp = g_specs ! nat kid in
      if vs = [] then Inl MissingValue
      else let (v, erange, rest) = strtol vs in
      if erange \<or> rest \<noteq> [] then Inl NotAnInteger
      else if v < ts_lo sp \<or> v > ts_hi sp then Inl OutOfRange
      else Inr (t\<lparr>g_val := (g_val t)[nat kid := v]\<rparr>))"

fun find_name :: "string \<Rightarrow> tune_spec_t list \<Rightarrow> int \<Rightarrow> int" where
  "find_name n [] i = -1"
| "find_name n (s # ss) i = (if ts_name s = n then i else find_name n ss (i + 1))"

definition tune_set :: "tune_t \<Rightarrow> string \<Rightarrow> tune_error + tune_t" where
  "tune_set t spec =
     (let t = seed t in
      if spec = [] then Inl EmptyArgument
      else let name = takeWhile (\<lambda>c. c \<noteq> CHR ''='') spec;
               eq = dropWhile (\<lambda>c. c \<noteq> CHR ''='') spec in
      if eq = [] \<or> name = [] then Inl ExpectedNameValue
      else let idx = find_name name g_specs 0 in
      if idx < 0 then Inl UnknownKnob
      else tune_set_value t idx (tl eq))"

definition tune_set_id :: "tune_t \<Rightarrow> tune_id_t \<Rightarrow> int \<Rightarrow> bool \<times> tune_t" where
  "tune_set_id t kid v =
     (if kid < 0 \<or> kid \<ge> TUNE_COUNT then (False, t)
      else let t = seed t; sp = g_specs ! nat kid in
      if v < ts_lo sp \<or> v > ts_hi sp then (False, t)
      else (True, t\<lparr>g_val := (g_val t)[nat kid := v]\<rparr>))"

definition tune_non_default :: "tune_t \<Rightarrow> int" where
  "tune_non_default t =
     int (length (filter (\<lambda>(v, s). v \<noteq> ts_def s) (zip (g_val (seed t)) g_specs)))"

section \<open>Invariant\<close>

text \<open>What the detectors rely on: a seeded table holds every knob inside its own bounds.\<close>

definition within :: "int \<Rightarrow> tune_spec_t \<Rightarrow> bool" where
  "within v s \<longleftrightarrow> ts_lo s \<le> v \<and> v \<le> ts_hi s"

definition tune_inv :: "tune_t \<Rightarrow> bool" where
  "tune_inv t \<longleftrightarrow> (g_seeded t \<longrightarrow> list_all2 within (g_val t) g_specs)"

lemma length_g_specs [simp]: "length g_specs = 105"
  by (simp add: g_specs_def)

lemma g_specs_defaults_within: "list_all (\<lambda>s. within (ts_def s) s) g_specs"
  by (simp add: g_specs_def within_def)

lemma distinct_g_spec_names: "distinct (map ts_name g_specs)"
  by (simp add: g_specs_def)

lemma g_spec_names_plain: "list_all (\<lambda>s. ts_name s \<noteq> [] \<and> CHR ''='' \<notin> set (ts_name s)) g_specs"
  by (simp add: g_specs_def)

lemma g_spec_at:
  "0 \<le> k \<Longrightarrow> k < 105 \<Longrightarrow> within (ts_def (g_specs ! nat k)) (g_specs ! nat k)"
  "0 \<le> k \<Longrightarrow> k < 105 \<Longrightarrow> ts_name (g_specs ! nat k) \<noteq> []"
  "0 \<le> k \<Longrightarrow> k < 105 \<Longrightarrow> CHR ''='' \<notin> set (ts_name (g_specs ! nat k))"
  using g_specs_defaults_within g_spec_names_plain by (auto simp: list_all_length)

lemma seeded_seed [simp]: "g_seeded (seed t)" "seed (seed t) = seed t" "g_seeded t \<Longrightarrow> seed t = t"
  by (simp_all add: seed_def)

lemma tune_inv_boot [simp]: "tune_inv tune_boot"
  by (simp add: tune_inv_def tune_boot_def)

lemma tune_inv_seed [simp]: "tune_inv t \<Longrightarrow> tune_inv (seed t)"
  using g_specs_defaults_within
  by (auto simp: tune_inv_def seed_def list_all2_conv_all_nth list_all_length)

lemma tune_inv_reset [simp]: "tune_inv (tune_reset t)"
  by (simp add: tune_reset_def tune_inv_def[of "t\<lparr>g_seeded := False\<rparr>"])

lemma tune_inv_store:
  assumes "tune_inv t" "g_seeded t" "within v (g_specs ! nat k)" "0 \<le> k" "k < 105"
  shows "tune_inv (t\<lparr>g_val := (g_val t)[nat k := v]\<rparr>)"
  using assms by (auto simp: tune_inv_def list_all2_conv_all_nth nth_list_update)

lemma tune_inv_set_value: "tune_inv t \<Longrightarrow> tune_set_value t k vs = Inr t' \<Longrightarrow> tune_inv t'"
  by (auto simp: tune_set_value_def Let_def within_def split: if_splits prod.splits
      intro!: tune_inv_store)

lemma tune_inv_set: "tune_inv t \<Longrightarrow> tune_set t s = Inr t' \<Longrightarrow> tune_inv t'"
  by (auto simp: tune_set_def Let_def split: if_splits intro: tune_inv_set_value [of "seed t"])

lemma tune_inv_set_id: "tune_inv t \<Longrightarrow> tune_inv (snd (tune_set_id t k v))"
  by (auto simp: tune_set_id_def Let_def within_def intro!: tune_inv_store)

text \<open>The states the command line, the TUI editor and a reset can bring about.\<close>

inductive tune_reach :: "tune_t \<Rightarrow> bool" where
  boot: "tune_reach tune_boot"
| read: "tune_reach t \<Longrightarrow> tune_reach (seed t)"
| reset: "tune_reach t \<Longrightarrow> tune_reach (tune_reset t)"
| set: "tune_reach t \<Longrightarrow> tune_set t s = Inr t' \<Longrightarrow> tune_reach t'"
| set_value: "tune_reach t \<Longrightarrow> tune_set_value t k vs = Inr t' \<Longrightarrow> tune_reach t'"
| set_id: "tune_reach t \<Longrightarrow> tune_reach (snd (tune_set_id t k v))"

lemma tune_reach_inv: "tune_reach t \<Longrightarrow> tune_inv t"
  by (induction rule: tune_reach.induct)
     (auto intro: tune_inv_set tune_inv_set_value tune_inv_set_id)

section \<open>Reading back what was set\<close>

text \<open>Decimal notation, as an operator types it.\<close>

fun dec_nat :: "nat \<Rightarrow> string" where
  "dec_nat n = (if n < 10 then [char_of (48 + n)]
                else dec_nat (n div 10) @ [char_of (48 + n mod 10)])"

declare dec_nat.simps [simp del]

definition dec :: "int \<Rightarrow> string" where
  "dec v = (if v < 0 then CHR ''-'' # dec_nat (nat (- v)) else dec_nat (nat v))"

lemma digit_char [simp]: "d < 10 \<Longrightarrow> is_digit (char_of (48 + d :: nat))"
  "d < 10 \<Longrightarrow> digit_val (char_of (48 + d :: nat)) = int d"
  by (simp_all add: is_digit_def digit_val_def)

lemma dec_nat_digits: "list_all is_digit (dec_nat n)" "dec_nat n \<noteq> []"
proof -
  show "list_all is_digit (dec_nat n)"
    by (induction n rule: dec_nat.induct) (subst dec_nat.simps, auto)
  show "dec_nat n \<noteq> []" by (subst dec_nat.simps) simp
qed

lemma strtol_digits_app:
  "list_all is_digit ds \<Longrightarrow> strtol_digits a (ds @ r) = strtol_digits (fst (strtol_digits a ds)) r"
  by (induction ds arbitrary: a) auto

lemma strtol_digits_dec_nat:
  "strtol_digits 0 (dec_nat n) = (int n, [])"
proof (induction n rule: dec_nat.induct)
  case (1 n)
  show ?case
  proof (cases "n < 10")
    case True
    then show ?thesis by (subst dec_nat.simps) simp
  next
    case False
    with 1 show ?thesis
      by (subst dec_nat.simps) (simp add: strtol_digits_app dec_nat_digits, presburger)
  qed
qed

lemma is_digit_plain: "is_digit c \<Longrightarrow> \<not> is_space c \<and> c \<noteq> CHR ''-'' \<and> c \<noteq> CHR ''+''"
  by (auto simp: is_digit_def is_space_def)

lemma strtol_dec:
  assumes "LONG_MIN \<le> v" "v \<le> LONG_MAX"
  shows "strtol (dec v) = (v, False, [])"
proof -
  obtain c cs where n: "dec_nat (nat \<bar>v\<bar>) = c # cs" "is_digit c"
    using dec_nat_digits [of "nat \<bar>v\<bar>"] by (cases "dec_nat (nat \<bar>v\<bar>)") auto
  from strtol_digits_dec_nat [of "nat \<bar>v\<bar>"] n(1) have
    d: "strtol_digits 0 (c # cs) = (\<bar>v\<bar>, [])" by simp
  have "is_space (CHR ''-'') = False" by (simp add: is_space_def)
  with n d assms is_digit_plain [OF n(2)] show ?thesis
    by (cases "v < 0") (simp_all add: strtol_def dec_def)
qed

lemma find_name_nth:
  "i < length ss \<Longrightarrow> distinct (map ts_name ss) \<Longrightarrow> find_name (ts_name (ss ! i)) ss j = j + int i"
proof (induction ss arbitrary: i j)
  case (Cons s ss)
  then show ?case by (cases i) (auto simp: nth_Cons)
qed simp

lemma find_name_range:
  "find_name n ss j = -1 \<or> (j \<le> find_name n ss j \<and> find_name n ss j < j + int (length ss)
     \<and> ts_name (ss ! nat (find_name n ss j - j)) = n)"
proof (induction ss arbitrary: j)
  case (Cons s ss)
  show ?case
  proof (cases "ts_name s = n \<or> find_name n ss (j + 1) = -1")
    case False
    with Cons [of "j + 1"] have "nat (find_name n ss (j + 1) - j) = Suc (nat (find_name n ss (j + 1) - (j + 1)))"
      by (auto simp: nat_eq_iff)
    with False Cons [of "j + 1"] show ?thesis by auto
  qed auto
qed simp

lemma knob_bounds_long: "list_all (\<lambda>s. LONG_MIN \<le> ts_lo s \<and> ts_hi s \<le> LONG_MAX) g_specs"
  by (simp add: g_specs_def LONG_MIN_def LONG_MAX_def)

lemma tune_set_value_dec:
  assumes "0 \<le> k" "k < 105" "within v (g_specs ! nat k)"
  shows "tune_set_value t k (dec v)
     = Inr ((seed t)\<lparr>g_val := (g_val (seed t))[nat k := v]\<rparr>)"
proof -
  have "dec v \<noteq> []" using dec_nat_digits by (simp add: dec_def)
  moreover have "LONG_MIN \<le> ts_lo (g_specs ! nat k)" "ts_hi (g_specs ! nat k) \<le> LONG_MAX"
    using knob_bounds_long assms(1,2) by (simp_all add: list_all_length)
  with assms(3) have "strtol (dec v) = (v, False, [])"
    by (intro strtol_dec) (auto simp: within_def)
  ultimately show ?thesis
    using assms by (simp add: tune_set_value_def within_def Let_def)
qed

lemma tune_val_in:
  assumes "tune_reach t" and "0 \<le> k" "k < TUNE_COUNT"
  shows "ts_lo (g_specs ! nat k) \<le> tune_val t k \<and> tune_val t k \<le> ts_hi (g_specs ! nat k)"
  using tune_inv_seed [OF tune_reach_inv [OF assms(1)]] assms(2,3)
  by (auto simp: tune_inv_def tune_val_def list_all2_conv_all_nth within_def)

section \<open>Properties\<close>

text \<open>
  Whatever is typed on the command line or in the editor, in whatever order, every
  threshold a detector reads lies within the bounds its table row documents.
\<close>

theorem tune_val_within_bounds:
  assumes "tune_reach t" and "0 \<le> k" "k < TUNE_COUNT"
  shows "ts_lo (g_specs ! nat k) \<le> tune_val t k \<and> tune_val t k \<le> ts_hi (g_specs ! nat k)"
  by (rule tune_val_in) (fact assms)+

lemma tune_val_within_bounds_witness:
  "\<exists>t. tune_set tune_boot ''karma.ssid_thresh=7'' = Inr t
     \<and> ts_lo (g_specs ! 0) \<le> tune_val t 0 \<and> tune_val t 0 \<le> ts_hi (g_specs ! 0)"
proof -
  have "(\<lambda>x. case x of Inl _ \<Rightarrow> False | Inr _ \<Rightarrow> True) (tune_set tune_boot ''karma.ssid_thresh=7'')"
    by code_simp
  then obtain t where t: "tune_set tune_boot ''karma.ssid_thresh=7'' = Inr t"
    by (auto split: sum.splits)
  from tune_val_within_bounds [OF tune_reach.set [OF tune_reach.boot t], of 0] t show ?thesis by auto
qed

text \<open>
  Setting a knob by name to an in-range value, written in decimal, succeeds, is read
  back exactly, and leaves every other knob as it was; an out-of-range value is refused.
\<close>

theorem tune_set_reads_back:
  assumes "0 \<le> k" "k < TUNE_COUNT" and "LONG_MIN \<le> v" "v \<le> LONG_MAX"
    and "tune_reach t"
  shows "case tune_set t (ts_name (g_specs ! nat k) @ ''='' @ dec v) of
      Inr t' \<Rightarrow> ts_lo (g_specs ! nat k) \<le> v \<and> v \<le> ts_hi (g_specs ! nat k)
         \<and> tune_val t' k = v \<and> (\<forall>j. j = k \<or> tune_val t' j = tune_val t j)
    | Inl e \<Rightarrow> e = OutOfRange \<and> (v < ts_lo (g_specs ! nat k) \<or> ts_hi (g_specs ! nat k) < v)"
proof -
  let ?n = "ts_name (g_specs ! nat k)"
  have len: "length (g_val (seed t)) = 105"
    using tune_inv_seed [OF tune_reach_inv [OF assms(5)]] by (auto simp: tune_inv_def list_all2_conv_all_nth)
  have nm: "takeWhile (\<lambda>c. c \<noteq> CHR ''='') (?n @ ''='' @ dec v) = ?n"
    "dropWhile (\<lambda>c. c \<noteq> CHR ''='') (?n @ ''='' @ dec v) = ''='' @ dec v"
    using g_spec_at(3) [OF assms(1,2)] by simp_all
  have idx: "find_name ?n g_specs 0 = k"
    using find_name_nth [of "nat k" g_specs 0] distinct_g_spec_names assms(1,2) by simp
  have set: "tune_set t (?n @ ''='' @ dec v) = tune_set_value (seed t) k (dec v)"
    using nm idx g_spec_at(2) [OF assms(1,2)] assms(1) by (simp add: tune_set_def)
  show ?thesis
  proof (cases "within v (g_specs ! nat k)")
    case True
    with set len assms(1,2) tune_set_value_dec [OF assms(1,2) True, of "seed t"] show ?thesis
      by (auto simp: tune_val_def within_def nth_list_update)
  next
    case False
    have "dec v \<noteq> []" using dec_nat_digits by (simp add: dec_def)
    with False set assms strtol_dec [OF assms(3,4)] show ?thesis
      by (auto simp: tune_set_value_def within_def Let_def)
  qed
qed

lemma tune_set_reads_back_witness:
  "case tune_set tune_boot (ts_name (g_specs ! nat 1) @ ''='' @ dec 40) of
      Inr t' \<Rightarrow> ts_lo (g_specs ! nat 1) \<le> 40 \<and> 40 \<le> ts_hi (g_specs ! nat 1)
         \<and> tune_val t' 1 = 40 \<and> (\<forall>j. j = 1 \<or> tune_val t' j = tune_val tune_boot j)
    | Inl e \<Rightarrow> e = OutOfRange \<and> (40 < ts_lo (g_specs ! nat 1) \<or> ts_hi (g_specs ! nat 1) < 40)"
  by (rule tune_set_reads_back) (simp_all add: LONG_MIN_def LONG_MAX_def tune_reach.boot)

end
