(* ===== verification/Dot11Frame.thy ===== *)
theory Dot11Frame
  imports Bytes
begin

text \<open>
  \<open>src/dot11_frame.c\<close>: the one decode of an 802.11 MAC header. \<open>dot11_frame_t\<close> has the C
  fields; the address pointers, which only ever point into the frame at \<open>f_p\<close>, are offsets
  from it (\<open>None\<close> for NULL), so \<open>rebase\<close> is the identity on them. \<open>dot11_frame_decode\<close>
  is the C function with its four stages named (Frame Control, header length, positional
  fields, roles). The decode counter of the test suite is not modelled.

  The specification is \<open>view\<close>, which gives each field of the result directly from the
  octets; \<open>mac_hdr\<close> and \<open>encode_hdr\<close> are the transmit side (IEEE 802.11-2020, 9.2.4 and
  9.3), which the code does not have, for the round trip.
\<close>

section \<open>The view and its decoder\<close>

record dot11_rt_hints_t =
  fcs_present :: bool
  datapad :: bool
  bad_fcs :: bool

record dot11_frame_t =
  f_p :: "bytes option"
  f_len :: int
  f_proto :: u8
  f_type :: u8
  f_subtype :: u8
  f_fc1 :: u8
  f_to_ds :: bool
  f_from_ds :: bool
  f_more_frag :: bool
  f_retry :: bool
  f_pwr_mgmt :: bool
  f_more_data :: bool
  f_protected :: bool
  f_order :: bool
  f_has_qos :: bool
  f_has_htc :: bool
  f_has_addr4 :: bool
  f_hdr_len :: int
  f_body_off :: int
  f_body_len :: int
  f_a1 :: "int option"
  f_a2 :: "int option"
  f_a3 :: "int option"
  f_a4 :: "int option"
  f_bssid :: "int option"
  f_sa :: "int option"
  f_da :: "int option"
  f_ta :: "int option"
  f_ra :: "int option"
  f_seq_num :: int
  f_frag_num :: int
  f_tid :: int
  f_amsdu :: int
  f_fcs_stripped :: bool
  f_bad_fcs :: bool
  f_event_id :: u64
  f_band :: int

definition dot11_fcs_strip_len :: "int \<Rightarrow> int \<Rightarrow> bool \<Rightarrow> int" where
  "dot11_fcs_strip_len caplen origlen present =
     (if \<not> present then 0
      else let cut = origlen - caplen;
               cut = (if cut < 0 then 0 else cut);
               strip = 4 - cut
           in if strip > 0 then strip else 0)"

definition frame_init :: "bytes option \<Rightarrow> int \<Rightarrow> dot11_rt_hints_t option \<Rightarrow> dot11_frame_t" where
  "frame_init p len rt =
     \<lparr>f_p = p, f_len = (if len > 0 then len else 0),
      f_proto = 0, f_type = 0, f_subtype = 0, f_fc1 = 0,
      f_to_ds = False, f_from_ds = False, f_more_frag = False, f_retry = False,
      f_pwr_mgmt = False, f_more_data = False, f_protected = False, f_order = False,
      f_has_qos = False, f_has_htc = False, f_has_addr4 = False,
      f_hdr_len = -1, f_body_off = -1, f_body_len = 0,
      f_a1 = None, f_a2 = None, f_a3 = None, f_a4 = None,
      f_bssid = None, f_sa = None, f_da = None, f_ta = None, f_ra = None,
      f_seq_num = -1, f_frag_num = -1, f_tid = -1, f_amsdu = -1,
      f_fcs_stripped = (case rt of None \<Rightarrow> False | Some h \<Rightarrow> fcs_present h),
      f_bad_fcs = (case rt of None \<Rightarrow> False | Some h \<Rightarrow> bad_fcs h),
      f_event_id = 0, f_band = 0\<rparr>"

definition decode_fc :: "u8 \<Rightarrow> u8 \<Rightarrow> dot11_frame_t \<Rightarrow> dot11_frame_t" where
  "decode_fc fc0 fc1 f = f\<lparr>
     f_proto := fc0 AND 3, f_type := drop_bit 2 fc0 AND 3, f_subtype := drop_bit 4 fc0 AND 15,
     f_fc1 := fc1,
     f_to_ds := bit fc1 0, f_from_ds := bit fc1 1, f_more_frag := bit fc1 2, f_retry := bit fc1 3,
     f_pwr_mgmt := bit fc1 4, f_more_data := bit fc1 5, f_protected := bit fc1 6,
     f_order := bit fc1 7\<rparr>"

definition decode_shape :: "dot11_frame_t \<Rightarrow> dot11_frame_t" where
  "decode_shape f =
     (let qos = (f_type f = 2 \<and> f_subtype f AND 8 \<noteq> 0) in
      f\<lparr>f_has_qos := qos,
        f_has_htc := (f_order f \<and> (f_type f = 0 \<or> qos)),
        f_has_addr4 := (f_type f = 2 \<and> f_to_ds f \<and> f_from_ds f)\<rparr>)"

abbreviation (input) CTRL_SUB_CTS :: u8 where "CTRL_SUB_CTS \<equiv> 12"
abbreviation (input) CTRL_SUB_ACK :: u8 where "CTRL_SUB_ACK \<equiv> 13"

definition hdr_need :: "dot11_frame_t \<Rightarrow> int" where
  "hdr_need f =
     (if f_type f = 1
      then (if f_subtype f = CTRL_SUB_CTS \<or> f_subtype f = CTRL_SUB_ACK then 10 else 16)
      else 24 + (if f_has_addr4 f then 6 else 0) + (if f_has_qos f then 2 else 0)
              + (if f_has_htc f then 4 else 0))"

definition decode_positional :: "bytes \<Rightarrow> int \<Rightarrow> int \<Rightarrow> dot11_frame_t \<Rightarrow> dot11_frame_t option" where
  "decode_positional p len need f = do {
     let f = (if len \<ge> 10 then f\<lparr>f_a1 := Some 4\<rparr> else f);
     if f_type f = 1
     then Some (if need = 16 \<and> len \<ge> 16 then f\<lparr>f_a2 := Some 10\<rparr> else f)
     else do {
       let f = (if len \<ge> 16 then f\<lparr>f_a2 := Some 10\<rparr> else f);
       let f = (if len \<ge> 22 then f\<lparr>f_a3 := Some 16\<rparr> else f);
       f \<leftarrow> (if len \<ge> 24
             then do {
               sc \<leftarrow> le16 p 22;
               Some (f\<lparr>f_frag_num := uint (sc AND 0x000f),
                       f_seq_num := uint (drop_bit 4 sc AND 0x0fff)\<rparr>) }
             else Some f);
       let f = (if f_has_addr4 f \<and> len \<ge> 30 then f\<lparr>f_a4 := Some 24\<rparr> else f);
       if f_has_qos f
       then do {
         let qos_off = 24 + (if f_has_addr4 f then 6 else 0);
         if len > qos_off
         then do {
           q \<leftarrow> byte_at p qos_off;
           Some (f\<lparr>f_tid := uint (q AND 0x0f), f_amsdu := uint (drop_bit 7 q AND 0x01)\<rparr>) }
         else Some f }
       else Some f } }"

definition decode_roles :: "dot11_frame_t \<Rightarrow> dot11_frame_t" where
  "decode_roles f =
     (let f = f\<lparr>f_ra := f_a1 f, f_ta := f_a2 f\<rparr> in
      if f_type f = 0
      then f\<lparr>f_da := f_a1 f, f_sa := f_a2 f, f_bssid := f_a3 f\<rparr>
      else if f_type f = 2
      then (if f_to_ds f \<and> f_from_ds f then f\<lparr>f_da := f_a3 f, f_sa := f_a4 f\<rparr>
            else if f_from_ds f then f\<lparr>f_da := f_a1 f, f_bssid := f_a2 f, f_sa := f_a3 f\<rparr>
            else if f_to_ds f then f\<lparr>f_bssid := f_a1 f, f_sa := f_a2 f, f_da := f_a3 f\<rparr>
            else f\<lparr>f_da := f_a1 f, f_sa := f_a2 f, f_bssid := f_a3 f\<rparr>)
      else f)"

definition dot11_frame_decode ::
  "bytes option \<Rightarrow> int \<Rightarrow> dot11_rt_hints_t option \<Rightarrow> (bool \<times> dot11_frame_t) option" where
  "dot11_frame_decode p len rt =
     (let f = frame_init p len rt in
      case p of
        None \<Rightarrow> Some (False, f)
      | Some b \<Rightarrow>
          if len < 2 then Some (False, f)
          else do {
            fc0 \<leftarrow> byte_at b 0; fc1 \<leftarrow> byte_at b 1;
            let f = decode_fc fc0 fc1 f;
            if f_type f = 3
            then Some (False, if len \<ge> 10 then f\<lparr>f_a1 := Some 4\<rparr> else f)
            else do {
              let f = decode_shape f;
              let need = hdr_need f;
              f \<leftarrow> decode_positional b len need f;
              let f = decode_roles f;
              if len < need then Some (False, f)
              else do {
                let off = (if rt \<noteq> None \<and> datapad (the rt) then (need + 3) AND NOT 3 else need);
                let blen = len - off;
                Some (True, f\<lparr>f_hdr_len := need, f_body_off := off,
                              f_body_len := (if blen < 0 then 0 else blen)\<rparr>) } } })"

text \<open>
  \<open>dot11_frame_depad\<close>: \<open>buf\<close> is the destination buffer (at least \<open>cap\<close> octets), the result
  the status and the view left in \<open>*out\<close>, whose \<open>f_p\<close> is the buffer after the copies.
\<close>

definition dot11_frame_depad ::
  "dot11_frame_t option \<Rightarrow> bytes option \<Rightarrow> int \<Rightarrow> (bool \<times> dot11_frame_t option) option" where
  "dot11_frame_depad inp buf cap =
     (case inp of
        None \<Rightarrow> Some (False, None)
      | Some f \<Rightarrow>
         (case (buf, f_p f) of
            (Some d, Some from) \<Rightarrow>
              if f_hdr_len f < 0 then Some (False, Some f)
              else if f_body_off f \<le> f_hdr_len f \<or> f_body_off f > f_len f then Some (False, Some f)
              else do {
                let pad = f_body_off f - f_hdr_len f;
                let newlen = f_len f - pad;
                if newlen > cap then Some (False, Some f)
                else do {
                  h \<leftarrow> bytes_at from 0 (f_hdr_len f);
                  t \<leftarrow> bytes_at from (f_body_off f) (f_len f - f_body_off f);
                  Some (True, Some (f\<lparr>f_p := Some (h @ t @ drop (nat newlen) d), f_len := newlen,
                                      f_body_off := f_hdr_len f,
                                      f_body_len := newlen - f_hdr_len f\<rparr>)) } }
          | _ \<Rightarrow> Some (False, Some f)))"

definition dot11_frame_tid :: "dot11_frame_t option \<Rightarrow> int" where
  "dot11_frame_tid fo =
     (case fo of None \<Rightarrow> -1
      | Some f \<Rightarrow> if f_p f = None \<or> f_type f \<noteq> 2 then -1
                  else if \<not> f_has_qos f then 0 else f_tid f)"

definition dot11_frame_amsdu :: "dot11_frame_t option \<Rightarrow> int" where
  "dot11_frame_amsdu fo =
     (case fo of None \<Rightarrow> -1
      | Some f \<Rightarrow> if f_p f = None \<or> f_type f \<noteq> 2 \<or> \<not> f_has_qos f then -1 else f_amsdu f)"

definition dot11_frame_ccmp_pn :: "dot11_frame_t option \<Rightarrow> int option" where
  "dot11_frame_ccmp_pn fo =
     (case fo of None \<Rightarrow> Some (-1)
      | Some f \<Rightarrow>
         (case f_p f of None \<Rightarrow> Some (-1)
          | Some p \<Rightarrow>
             if f_type f \<noteq> 2 \<or> \<not> f_protected f then Some (-1)
             else if f_hdr_len f < 0 \<or> f_body_len f < 8 then Some (-1)
             else do {
               let iv = f_body_off f;
               k \<leftarrow> byte_at p (iv + 3);
               if k AND 0x20 = 0 then Some (-1)
               else do {
                 b0 \<leftarrow> byte_at p iv; b1 \<leftarrow> byte_at p (iv + 1);
                 b2 \<leftarrow> byte_at p (iv + 4); b3 \<leftarrow> byte_at p (iv + 5);
                 b4 \<leftarrow> byte_at p (iv + 6); b5 \<leftarrow> byte_at p (iv + 7);
                 Some (sint (ucast b0 OR push_bit 8 (ucast b1) OR push_bit 16 (ucast b2)
                             OR push_bit 24 (ucast b3) OR push_bit 32 (ucast b4)
                             OR push_bit 40 (ucast b5) :: u64)) } }))"

text \<open>The body as an offset and a length, \<open>None\<close> where the C function returns 0.\<close>

definition dot11_frame_body :: "dot11_frame_t option \<Rightarrow> (int \<times> int) option" where
  "dot11_frame_body fo =
     (case fo of None \<Rightarrow> None
      | Some f \<Rightarrow> if f_p f = None \<or> f_hdr_len f < 0 then None
                  else if f_protected f then None
                  else Some (f_body_off f, f_body_len f))"

datatype dot11_data_status_t = DOT11_DATA_OK | DOT11_DATA_NOT_DATA | DOT11_DATA_NO_PAYLOAD
  | DOT11_DATA_ENCRYPTED | DOT11_DATA_FRAGMENT | DOT11_DATA_AMSDU | DOT11_DATA_NOT_SNAP
  | DOT11_DATA_TRUNCATED

abbreviation (input) LLC_SNAP_LEN :: int where "LLC_SNAP_LEN \<equiv> 8"

text \<open>The status, and the two outputs, which are zero unless the status is OK.\<close>

definition dot11_frame_payload ::
  "dot11_frame_t option \<Rightarrow> (dot11_data_status_t \<times> int \<times> u16) option" where
  "dot11_frame_payload fo =
     (case fo of None \<Rightarrow> Some (DOT11_DATA_TRUNCATED, 0, 0)
      | Some f \<Rightarrow>
         (case f_p f of None \<Rightarrow> Some (DOT11_DATA_TRUNCATED, 0, 0)
          | Some p \<Rightarrow>
             if f_type f \<noteq> 2 then Some (DOT11_DATA_NOT_DATA, 0, 0)
             else if f_subtype f AND 4 \<noteq> 0 then Some (DOT11_DATA_NO_PAYLOAD, 0, 0)
             else if f_protected f then Some (DOT11_DATA_ENCRYPTED, 0, 0)
             else if f_hdr_len f < 0 then Some (DOT11_DATA_TRUNCATED, 0, 0)
             else if f_frag_num f \<noteq> 0 then Some (DOT11_DATA_FRAGMENT, 0, 0)
             else if f_more_frag f then Some (DOT11_DATA_FRAGMENT, 0, 0)
             else if f_amsdu f = 1 then Some (DOT11_DATA_AMSDU, 0, 0)
             else if f_body_len f < LLC_SNAP_LEN then Some (DOT11_DATA_TRUNCATED, 0, 0)
             else do {
               let llc = f_body_off f;
               l0 \<leftarrow> byte_at p llc; l1 \<leftarrow> byte_at p (llc + 1); l2 \<leftarrow> byte_at p (llc + 2);
               if l0 \<noteq> 0xaa \<or> l1 \<noteq> 0xaa \<or> l2 \<noteq> 0x03
               then Some (DOT11_DATA_NOT_SNAP, 0, 0)
               else do {
                 et \<leftarrow> be16 p (llc + 6);
                 Some (DOT11_DATA_OK, llc + LLC_SNAP_LEN, et) } }))"

section \<open>The header, field by field\<close>

definition ftype :: "bytes \<Rightarrow> u8" where "ftype b = drop_bit 2 (b ! 0) AND 3"
definition fsub :: "bytes \<Rightarrow> u8" where "fsub b = drop_bit 4 (b ! 0) AND 15"
definition fqos :: "bytes \<Rightarrow> bool" where "fqos b \<longleftrightarrow> ftype b = 2 \<and> fsub b AND 8 \<noteq> 0"
definition fhtc :: "bytes \<Rightarrow> bool" where "fhtc b \<longleftrightarrow> bit (b ! 1) 7 \<and> (ftype b = 0 \<or> fqos b)"
definition faddr4 :: "bytes \<Rightarrow> bool" where
  "faddr4 b \<longleftrightarrow> ftype b = 2 \<and> bit (b ! 1) 0 \<and> bit (b ! 1) 1"

definition hdr_size :: "bytes \<Rightarrow> int" where
  "hdr_size b =
     (if ftype b = 1 then (if fsub b = 12 \<or> fsub b = 13 then 10 else 16)
      else 24 + (if faddr4 b then 6 else 0) + (if fqos b then 2 else 0) + (if fhtc b then 4 else 0))"

definition fa :: "bytes \<Rightarrow> int \<Rightarrow> nat \<Rightarrow> int option" where
  "fa b len i =
     (if i = 1 then (if len \<ge> 10 then Some 4 else None)
      else if ftype b = 3 then None
      else if i = 2 then (if len \<ge> 16 \<and> (ftype b = 1 \<longrightarrow> hdr_size b = 16) then Some 10 else None)
      else if ftype b = 1 then None
      else if i = 3 then (if len \<ge> 22 then Some 16 else None)
      else (if len \<ge> 30 \<and> faddr4 b then Some 24 else None))"

definition fsc :: "bytes \<Rightarrow> u16" where "fsc b = ucast (b ! 22) OR push_bit 8 (ucast (b ! 23))"
definition fqos_at :: "bytes \<Rightarrow> int" where "fqos_at b = 24 + (if faddr4 b then 6 else 0)"

text \<open>Table 9-26: which address field holds a role, 0 for none.\<close>

definition role_bssid :: "bytes \<Rightarrow> nat" where
  "role_bssid b = (if ftype b = 0 then 3
     else if ftype b = 2 then
       (case (bit (b ! 1) 0, bit (b ! 1) 1) of
          (True, True) \<Rightarrow> 0 | (False, True) \<Rightarrow> 2 | (True, False) \<Rightarrow> 1 | (False, False) \<Rightarrow> 3)
     else 0)"

definition role_sa :: "bytes \<Rightarrow> nat" where
  "role_sa b = (if ftype b = 0 then 2
     else if ftype b = 2 then
       (case (bit (b ! 1) 0, bit (b ! 1) 1) of
          (True, True) \<Rightarrow> 4 | (False, True) \<Rightarrow> 3 | (True, False) \<Rightarrow> 2 | (False, False) \<Rightarrow> 2)
     else 0)"

definition role_da :: "bytes \<Rightarrow> nat" where
  "role_da b = (if ftype b = 0 then 1
     else if ftype b = 2 then
       (case (bit (b ! 1) 0, bit (b ! 1) 1) of
          (True, True) \<Rightarrow> 3 | (False, True) \<Rightarrow> 1 | (True, False) \<Rightarrow> 3 | (False, False) \<Rightarrow> 1)
     else 0)"

definition froles :: "bytes \<Rightarrow> int \<Rightarrow> nat \<Rightarrow> int option" where
  "froles b len i = (if i = 0 then None else fa b len i)"

definition view :: "bytes \<Rightarrow> int \<Rightarrow> dot11_rt_hints_t option \<Rightarrow> dot11_frame_t" where
  "view b len rt =
    (let fits = (ftype b \<noteq> 3 \<and> hdr_size b \<le> len);
         off = (if rt \<noteq> None \<and> datapad (the rt) then (hdr_size b + 3) AND NOT 3 else hdr_size b);
         sc = (ftype b \<noteq> 1 \<and> ftype b \<noteq> 3 \<and> 24 \<le> len);
         q = (fqos b \<and> fqos_at b < len)
     in \<lparr>f_p = Some b, f_len = len,
         f_proto = b ! 0 AND 3, f_type = ftype b, f_subtype = fsub b, f_fc1 = b ! 1,
         f_to_ds = bit (b ! 1) 0, f_from_ds = bit (b ! 1) 1, f_more_frag = bit (b ! 1) 2,
         f_retry = bit (b ! 1) 3, f_pwr_mgmt = bit (b ! 1) 4, f_more_data = bit (b ! 1) 5,
         f_protected = bit (b ! 1) 6, f_order = bit (b ! 1) 7,
         f_has_qos = fqos b, f_has_htc = fhtc b, f_has_addr4 = faddr4 b,
         f_hdr_len = (if fits then hdr_size b else -1), f_body_off = (if fits then off else -1),
         f_body_len = (if fits then max 0 (len - off) else 0),
         f_a1 = fa b len 1, f_a2 = fa b len 2, f_a3 = fa b len 3, f_a4 = fa b len 4,
         f_bssid = froles b len (role_bssid b), f_sa = froles b len (role_sa b),
         f_da = froles b len (role_da b),
         f_ta = (if ftype b = 3 then None else fa b len 2),
         f_ra = (if ftype b = 3 then None else fa b len 1),
         f_seq_num = (if sc then uint (drop_bit 4 (fsc b) AND 0x0fff) else -1),
         f_frag_num = (if sc then uint (fsc b AND 0x000f) else -1),
         f_tid = (if q then uint (b ! nat (fqos_at b) AND 0x0f) else -1),
         f_amsdu = (if q then uint (drop_bit 7 (b ! nat (fqos_at b)) AND 0x01) else -1),
         f_fcs_stripped = (case rt of None \<Rightarrow> False | Some h \<Rightarrow> fcs_present h),
         f_bad_fcs = (case rt of None \<Rightarrow> False | Some h \<Rightarrow> bad_fcs h),
         f_event_id = 0, f_band = 0\<rparr>)"

lemma unat_and_mask: "unat (w AND mask n :: 'a::len word) = unat w mod 2 ^ n"
  unfolding take_bit_eq_mask [symmetric] unsigned_take_bit_eq by (simp add: take_bit_eq_mod)

lemma and3_cases: "(w :: u8) AND 3 = 0 \<or> w AND 3 = 1 \<or> w AND 3 = 2 \<or> w AND 3 = 3"
proof -
  have "unat (w AND 3) < 4"
    using unat_and_mask [of w 2] by (simp add: mask_eq_exp_minus_1)
  then have "unat (w AND 3) \<in> {0, 1, 2, 3}" by auto
  then show ?thesis by (auto simp: word_unat_eq_iff)
qed

lemma ftype_cases: "ftype b = 0 \<or> ftype b = 1 \<or> ftype b = 2 \<or> ftype b = 3"
  unfolding ftype_def by (rule and3_cases)

text \<open>A conditional update is an update by a conditional value.\<close>

lemma frame_if:
  "(if c then f\<lparr>f_a1 := v\<rparr> else f) = f\<lparr>f_a1 := if c then v else f_a1 f\<rparr>"
  "(if c then f\<lparr>f_a2 := v\<rparr> else f) = f\<lparr>f_a2 := if c then v else f_a2 f\<rparr>"
  "(if c then f\<lparr>f_a3 := v\<rparr> else f) = f\<lparr>f_a3 := if c then v else f_a3 f\<rparr>"
  "(if c then f\<lparr>f_a4 := v\<rparr> else f) = f\<lparr>f_a4 := if c then v else f_a4 f\<rparr>"
  "(if c then Some (f\<lparr>f_frag_num := i, f_seq_num := j\<rparr>) else Some f)
     = Some (f\<lparr>f_frag_num := if c then i else f_frag_num f, f_seq_num := if c then j else f_seq_num f\<rparr>)"
  "(if c then Some (f\<lparr>f_tid := i, f_amsdu := j\<rparr>) else Some f)
     = Some (f\<lparr>f_tid := if c then i else f_tid f, f_amsdu := if c then j else f_amsdu f\<rparr>)"
  by simp_all

lemma le16_if:
  "len \<le> int (length p) \<Longrightarrow>
   (if 24 \<le> len then le16 p 22 \<bind> F else G)
     = (if 24 \<le> len then F (ucast (p ! 22) OR push_bit 8 (ucast (p ! 23))) else G)"
  by simp

lemma byte_if:
  "len \<le> int (length p) \<Longrightarrow> 0 \<le> i \<Longrightarrow>
   (if i < len then byte_at p i \<bind> F else G) = (if i < len then F (p ! nat i) else G)"
  by simp

lemma decode_positional_ctl:
  "f_type f = 1 \<Longrightarrow> decode_positional p len need f
     = Some (f\<lparr>f_a1 := if 10 \<le> len then Some 4 else f_a1 f,
               f_a2 := if need = 16 \<and> 16 \<le> len then Some 10 else f_a2 f\<rparr>)"
  by (simp add: decode_positional_def frame_if Let_def)

lemma decode_positional_other:
  assumes "f_type f \<noteq> 1" and "len \<le> int (length p)"
  shows "decode_positional p len need f
     = (let at = 24 + (if f_has_addr4 f then 6 else 0); q = (f_has_qos f \<and> at < len) in
        Some (f\<lparr>f_a1 := if 10 \<le> len then Some 4 else f_a1 f,
               f_a2 := if 16 \<le> len then Some 10 else f_a2 f,
               f_a3 := if 22 \<le> len then Some 16 else f_a3 f,
               f_a4 := if f_has_addr4 f \<and> 30 \<le> len then Some 24 else f_a4 f,
               f_frag_num := if 24 \<le> len then uint (fsc p AND 0x000f) else f_frag_num f,
               f_seq_num := if 24 \<le> len then uint (drop_bit 4 (fsc p) AND 0x0fff) else f_seq_num f,
               f_tid := if q then uint (p ! nat at AND 0x0f) else f_tid f,
               f_amsdu := if q then uint (drop_bit 7 (p ! nat at) AND 0x01) else f_amsdu f\<rparr>))"
  using assms
  by (cases "f_has_qos f"; cases "f_has_addr4 f")
     (simp_all add: decode_positional_def frame_if le16_if byte_if Let_def fsc_def [symmetric]
      cong del: if_weak_cong)


lemma decode_shape_fc:
  "decode_shape (decode_fc (b ! 0) (b ! 1) f) = (decode_fc (b ! 0) (b ! 1) f)
     \<lparr>f_has_qos := fqos b, f_has_htc := fhtc b, f_has_addr4 := faddr4 b\<rparr>"
  by (simp add: decode_shape_def decode_fc_def fqos_def fhtc_def faddr4_def ftype_def fsub_def Let_def)

lemma hdr_need_shape:
  "hdr_need (decode_shape (decode_fc (b ! 0) (b ! 1) f)) = hdr_size b"
  unfolding decode_shape_fc
  by (simp add: hdr_need_def hdr_size_def decode_fc_def ftype_def fsub_def)

text \<open>The Frame Control stage, as the later stages see it.\<close>

lemma decode_fc_init [simp]:
  "f_type (decode_fc x y (frame_init p len rt)) = drop_bit 2 x AND 3"
  "f_to_ds (decode_fc x y (frame_init p len rt)) = bit y 0"
  "f_from_ds (decode_fc x y (frame_init p len rt)) = bit y 1"
  "f_a1 (decode_fc x y (frame_init p len rt)) = None"
  "f_a2 (decode_fc x y (frame_init p len rt)) = None"
  "f_a3 (decode_fc x y (frame_init p len rt)) = None"
  "f_a4 (decode_fc x y (frame_init p len rt)) = None"
  "f_seq_num (decode_fc x y (frame_init p len rt)) = -1"
  "f_frag_num (decode_fc x y (frame_init p len rt)) = -1"
  "f_tid (decode_fc x y (frame_init p len rt)) = -1"
  "f_amsdu (decode_fc x y (frame_init p len rt)) = -1"
  by (simp_all add: decode_fc_def frame_init_def)

lemma frame_done:
  "(if len < (need :: int) then Some (False, f) else Some (True, f\<lparr>f_hdr_len := i, f_body_off := j, f_body_len := k\<rparr>))
   = Some (need \<le> len, f\<lparr>f_hdr_len := if need \<le> len then i else f_hdr_len f,
        f_body_off := if need \<le> len then j else f_body_off f,
        f_body_len := if need \<le> len then k else f_body_len f\<rparr>)"
  by auto

lemma if_neg_max: "(if x < 0 then 0 else x) = max 0 (x :: int)" by auto

lemma decode_view:
  assumes "2 \<le> len" and "len \<le> int (length b)"
  shows "dot11_frame_decode (Some b) len rt
     = Some (ftype b \<noteq> 3 \<and> hdr_size b \<le> len, view b len rt)"
proof -
  have b01: "byte_at b 0 = Some (b ! 0)" "byte_at b 1 = Some (b ! 1)" "0 < len" "\<not> len < 2"
    using assms by (auto simp: byte_at_def)
  define f0 where "f0 = decode_fc (b ! 0) (b ! 1) (frame_init (Some b) len rt)"
  have f0: "f_type f0 = ftype b" "f_to_ds f0 = bit (b ! 1) 0" "f_from_ds f0 = bit (b ! 1) 1"
    "f_a1 f0 = None" "f_a2 f0 = None" "f_a3 f0 = None" "f_a4 f0 = None" "f_seq_num f0 = -1"
    "f_frag_num f0 = -1" "f_tid f0 = -1" "f_amsdu f0 = -1"
    by (simp_all add: f0_def ftype_def)
  have shape: "decode_shape f0 = f0\<lparr>f_has_qos := fqos b, f_has_htc := fhtc b, f_has_addr4 := faddr4 b\<rparr>"
    "hdr_need (f0\<lparr>f_has_qos := fqos b, f_has_htc := fhtc b, f_has_addr4 := faddr4 b\<rparr>) = hdr_size b"
    unfolding f0_def by (rule decode_shape_fc, rule hdr_need_shape [unfolded decode_shape_fc])
  note decode = dot11_frame_decode_def b01 f0_def [symmetric] f0 shape frame_if frame_done if_neg_max
    decode_positional_ctl decode_positional_other [OF _ assms(2)] Let_def
  note closed = f0_def decode_fc_def frame_init_def view_def Let_def b01 ftype_def [symmetric]
    fsub_def [symmetric] fsc_def [symmetric]
  note fields = fa_def froles_def role_sa_def role_da_def role_bssid_def
  consider "ftype b = 3" | "ftype b = 1" | "ftype b = 0" | "ftype b = 2" using ftype_cases by blast
  then show ?thesis
  proof cases
    case 1
    then have n: "\<not> fqos b" "\<not> fhtc b" "\<not> faddr4 b" by (simp_all add: fqos_def fhtc_def faddr4_def)
    from 1 show ?thesis
      by (simp add: decode cong: if_cong split del: if_split del: One_nat_def) (simp add: closed fields n del: One_nat_def)
  next
    case 2
    then have n: "\<not> fqos b" "\<not> fhtc b" "\<not> faddr4 b" by (simp_all add: fqos_def fhtc_def faddr4_def)
    from 2 show ?thesis
      by (simp add: decode decode_roles_def cong: if_cong split del: if_split del: One_nat_def)
         (simp add: closed fields n conj_commute cong: if_cong split del: if_split del: One_nat_def)
  next
    case 3
    then have n: "\<not> fqos b" "\<not> faddr4 b" by (simp_all add: fqos_def faddr4_def)
    from 3 show ?thesis
      by (simp add: decode decode_roles_def cong: if_cong split del: if_split del: One_nat_def)
         (simp add: closed fields n cong: if_cong split del: if_split del: One_nat_def)
  next
    case 4
    then have n: "faddr4 b = (bit (b ! 1) 0 \<and> bit (b ! 1) 1)"
      "fqos_at b = (if bit (b ! 1) 0 \<and> bit (b ! 1) 1 then 30 else 24)"
      by (simp_all add: faddr4_def fqos_at_def)
    from 4 show ?thesis
      by (cases "bit (b ! 1) 0"; cases "bit (b ! 1) 1";
          simp add: decode decode_roles_def cong: if_cong split del: if_split del: One_nat_def)
         (simp_all add: closed fields n cong: if_cong split del: if_split del: One_nat_def)
  qed
qed

lemma decode_runt:
  "len < 2 \<Longrightarrow> dot11_frame_decode p len rt = Some (False, frame_init p len rt)"
  "dot11_frame_decode None len rt = Some (False, frame_init None len rt)"
  by (cases p; simp add: dot11_frame_decode_def Let_def)+

lemma view_simps [simp]:
  "f_p (view b len rt) = Some b" "f_len (view b len rt) = len" "f_type (view b len rt) = ftype b"
  "f_subtype (view b len rt) = fsub b" "f_fc1 (view b len rt) = b ! 1"
  "f_proto (view b len rt) = b ! 0 AND 3"
  "f_to_ds (view b len rt) = bit (b ! 1) 0" "f_from_ds (view b len rt) = bit (b ! 1) 1"
  "f_more_frag (view b len rt) = bit (b ! 1) 2" "f_retry (view b len rt) = bit (b ! 1) 3"
  "f_pwr_mgmt (view b len rt) = bit (b ! 1) 4" "f_more_data (view b len rt) = bit (b ! 1) 5"
  "f_protected (view b len rt) = bit (b ! 1) 6" "f_order (view b len rt) = bit (b ! 1) 7"
  "f_has_qos (view b len rt) = fqos b" "f_has_htc (view b len rt) = fhtc b"
  "f_has_addr4 (view b len rt) = faddr4 b"
  "f_a1 (view b len rt) = fa b len 1" "f_a2 (view b len rt) = fa b len 2"
  "f_a3 (view b len rt) = fa b len 3" "f_a4 (view b len rt) = fa b len 4"
  "f_bssid (view b len rt) = froles b len (role_bssid b)"
  "f_sa (view b len rt) = froles b len (role_sa b)" "f_da (view b len rt) = froles b len (role_da b)"
  "f_event_id (view b len rt) = 0" "f_band (view b len rt) = 0"
  by (simp_all add: view_def Let_def)

definition pad_to :: "dot11_rt_hints_t option \<Rightarrow> int \<Rightarrow> int" where
  "pad_to rt n = (if rt \<noteq> None \<and> datapad (the rt) then (n + 3) AND NOT 3 else n)"

lemma view_geometry:
  "f_hdr_len (view b len rt) = (if ftype b \<noteq> 3 \<and> hdr_size b \<le> len then hdr_size b else -1)"
  "f_body_off (view b len rt) = (if ftype b \<noteq> 3 \<and> hdr_size b \<le> len then pad_to rt (hdr_size b) else -1)"
  "f_body_len (view b len rt)
     = (if ftype b \<noteq> 3 \<and> hdr_size b \<le> len then max 0 (len - pad_to rt (hdr_size b)) else 0)"
  by (simp_all add: view_def Let_def pad_to_def)

lemma view_seq:
  "f_seq_num (view b len rt)
     = (if ftype b \<noteq> 1 \<and> ftype b \<noteq> 3 \<and> 24 \<le> len then uint (drop_bit 4 (fsc b) AND 0x0fff) else -1)"
  "f_frag_num (view b len rt)
     = (if ftype b \<noteq> 1 \<and> ftype b \<noteq> 3 \<and> 24 \<le> len then uint (fsc b AND 0x000f) else -1)"
  "f_tid (view b len rt)
     = (if fqos b \<and> fqos_at b < len then uint (b ! nat (fqos_at b) AND 0x0f) else -1)"
  "f_amsdu (view b len rt)
     = (if fqos b \<and> fqos_at b < len then uint (drop_bit 7 (b ! nat (fqos_at b)) AND 0x01) else -1)"
  by (simp_all add: view_def Let_def)

lemma hdr_size_bounds: "10 \<le> hdr_size b" "hdr_size b \<le> 36" "even (hdr_size b)"
  "ftype b \<noteq> 1 \<Longrightarrow> 24 \<le> hdr_size b"
  "fqos b \<Longrightarrow> fqos_at b + 2 \<le> hdr_size b" "faddr4 b \<Longrightarrow> 30 \<le> hdr_size b"
  by (auto simp: hdr_size_def fqos_at_def fqos_def faddr4_def)

lemma hdr_size_cases: "hdr_size b \<in> {10, 16, 24, 26, 28, 30, 32, 34, 36}"
  by (simp add: hdr_size_def)

lemma pad_to_hdr: "hdr_size b \<le> pad_to rt (hdr_size b)" "pad_to rt (hdr_size b) \<le> hdr_size b + 2"
  "0 \<le> pad_to rt (hdr_size b)" "pad_to None n = n"
  "rt \<noteq> None \<and> datapad (the rt) \<Longrightarrow> pad_to rt (hdr_size b) mod 4 = 0"
  using hdr_size_cases [of b] by (auto simp: pad_to_def)

text \<open>Every address pointer names six octets of the frame.\<close>

definition ptr_ok :: "int \<Rightarrow> int option \<Rightarrow> bool" where
  "ptr_ok len p \<longleftrightarrow> (case p of None \<Rightarrow> True | Some o' \<Rightarrow> 4 \<le> o' \<and> o' + 6 \<le> len)"

definition frame_wf :: "dot11_frame_t \<Rightarrow> bool" where
  "frame_wf f \<longleftrightarrow>
     buf_ok (f_p f) (f_len f) \<and> 0 \<le> f_len f
   \<and> list_all (ptr_ok (f_len f)) [f_a1 f, f_a2 f, f_a3 f, f_a4 f, f_bssid f, f_sa f, f_da f, f_ta f, f_ra f]
   \<and> 0 \<le> f_body_len f
   \<and> (f_hdr_len f < 0 \<longrightarrow> f_body_len f = 0)
   \<and> (0 \<le> f_hdr_len f \<longrightarrow> f_p f \<noteq> None \<and> 10 \<le> f_hdr_len f \<and> f_hdr_len f \<le> f_len f
        \<and> f_hdr_len f \<le> f_body_off f \<and> f_body_len f = max 0 (f_len f - f_body_off f))"

lemma ptr_ok_fa: "ptr_ok len (fa b len i)"
  by (auto simp: ptr_ok_def fa_def)

lemma frame_wf_init: "buf_ok p len \<Longrightarrow> frame_wf (frame_init p len rt)"
  by (cases p) (auto simp: frame_wf_def frame_init_def ptr_ok_def)

lemma frame_wf_view:
  assumes "2 \<le> len" "len \<le> int (length b)"
  shows "frame_wf (view b len rt)"
proof -
  have "f_ta (view b len rt) \<in> {None, fa b len 2}" "f_ra (view b len rt) \<in> {None, fa b len 1}"
    by (simp_all add: view_def Let_def)
  then have "ptr_ok len (f_ta (view b len rt))" "ptr_ok len (f_ra (view b len rt))"
    using ptr_ok_fa by (auto simp: ptr_ok_def)
  moreover have "ptr_ok len (froles b len i)" for i
    using ptr_ok_fa by (simp add: froles_def ptr_ok_def)
  ultimately show ?thesis
    using assms ptr_ok_fa hdr_size_bounds [of b] pad_to_hdr(1) [of b rt]
    by (simp add: frame_wf_def view_geometry)
qed

section \<open>Safety of the queries\<close>

lemma decode_total:
  assumes "buf_ok p len"
  shows "\<exists>ok f. dot11_frame_decode p len rt = Some (ok, f) \<and> frame_wf f
     \<and> f_p f = p \<and> f_len f = max 0 len \<and> (ok \<longleftrightarrow> 0 \<le> f_hdr_len f)"
proof (cases "p = None \<or> len < 2")
  case True
  then have "dot11_frame_decode p len rt = Some (False, frame_init p len rt)"
    using decode_runt by (cases p) auto
  moreover have "f_p (frame_init p len rt) = p" "f_len (frame_init p len rt) = max 0 len"
    "f_hdr_len (frame_init p len rt) = -1"
    by (simp_all add: frame_init_def)
  ultimately show ?thesis
    using frame_wf_init [OF assms] by auto
next
  case False
  then obtain b where "p = Some b" by auto
  with False assms show ?thesis
    using decode_view [of len b rt] frame_wf_view [of len b rt] hdr_size_bounds(1) [of b]
    by (auto simp: view_geometry)
qed

text \<open>
  A decoded view: what \<open>dot11_frame_decode\<close> returned for some readable frame. The
  observers are handed one of these.
\<close>

definition decoded :: "dot11_frame_t \<Rightarrow> bool" where
  "decoded f \<longleftrightarrow> (\<exists>p len rt ok. buf_ok p len \<and> dot11_frame_decode p len rt = Some (ok, f))"

lemma decoded_wf: "decoded f \<Longrightarrow> frame_wf f"
  unfolding decoded_def using decode_total by (metis Pair_inject option.inject)

lemma decodedE:
  assumes "decoded f"
  obtains (runt) "f_p f = None \<or> f_len f < 2" "f_hdr_len f = -1" "f_type f = 0" "f_protected f = False"
      "f_event_id f = 0"
  | (view) b len rt where "2 \<le> len" "len \<le> int (length b)" "f = view b len rt"
proof -
  from assms obtain p len rt ok where d: "buf_ok p len" "dot11_frame_decode p len rt = Some (ok, f)"
    by (auto simp: decoded_def)
  show thesis
  proof (cases "p = None \<or> len < 2")
    case True
    then have "dot11_frame_decode p len rt = Some (False, frame_init p len rt)"
      using decode_runt by (cases p) auto
    with d True show thesis by (intro runt) (auto simp: frame_init_def split: if_splits)
  next
    case False
    then obtain b where "p = Some b" by auto
    with False d show thesis using decode_view [of len b rt] by (intro view [of len b rt]) auto
  qed
qed

lemma ccmp_pn_safe:
  assumes "frame_wf f"
  shows "\<exists>pn. dot11_frame_ccmp_pn (Some f) = Some pn"
proof (cases "f_p f")
  case None
  then show ?thesis by (simp add: dot11_frame_ccmp_pn_def)
next
  case (Some p)
  show ?thesis
  proof (cases "f_hdr_len f < 0 \<or> f_body_len f < 8")
    case True
    with Some show ?thesis by (auto simp: dot11_frame_ccmp_pn_def)
  next
    case False
    with assms Some have "0 \<le> f_body_off f" "f_body_off f + 8 \<le> int (length p)"
      by (auto simp: frame_wf_def max_def split: if_splits)
    with Some False show ?thesis by (simp add: dot11_frame_ccmp_pn_def Let_def)
  qed
qed

lemma payload_safe:
  assumes "frame_wf f"
  shows "\<exists>st off et. dot11_frame_payload (Some f) = Some (st, off, et)
    \<and> (st = DOT11_DATA_OK \<longrightarrow> f_hdr_len f + 8 \<le> off \<and> off \<le> f_len f)
    \<and> (st \<noteq> DOT11_DATA_OK \<longrightarrow> off = 0 \<and> et = 0)"
proof (cases "f_p f")
  case None
  then show ?thesis by (simp add: dot11_frame_payload_def)
next
  case (Some p)
  show ?thesis
  proof (cases "f_hdr_len f < 0 \<or> f_body_len f < 8")
    case True
    with Some show ?thesis by (auto simp: dot11_frame_payload_def)
  next
    case False
    with assms Some have "0 \<le> f_body_off f" "f_body_off f + 8 \<le> f_len f" "f_hdr_len f \<le> f_body_off f"
      "f_len f \<le> int (length p)"
      by (auto simp: frame_wf_def max_def split: if_splits)
    with Some False show ?thesis by (simp add: dot11_frame_payload_def Let_def)
  qed
qed

section \<open>The transmit side\<close>

text \<open>A MAC header by its fields, and its octets on the air.\<close>

record mac_hdr =
  h_proto :: u8
  h_type :: u8
  h_subtype :: u8
  h_fc1 :: u8
  h_dur :: "u8 \<times> u8"
  h_a1 :: mac
  h_a2 :: mac
  h_a3 :: mac
  h_a4 :: mac
  h_seq :: int
  h_frag :: int
  h_qos :: "u8 \<times> u8"
  h_htc :: bytes

definition h_has_qos :: "mac_hdr \<Rightarrow> bool" where
  "h_has_qos h \<longleftrightarrow> h_type h = 2 \<and> bit (h_subtype h) 3"
definition h_has_htc :: "mac_hdr \<Rightarrow> bool" where
  "h_has_htc h \<longleftrightarrow> bit (h_fc1 h) 7 \<and> (h_type h = 0 \<or> h_has_qos h)"
definition h_has_a4 :: "mac_hdr \<Rightarrow> bool" where
  "h_has_a4 h \<longleftrightarrow> h_type h = 2 \<and> bit (h_fc1 h) 0 \<and> bit (h_fc1 h) 1"
definition h_short :: "mac_hdr \<Rightarrow> bool" where
  "h_short h \<longleftrightarrow> h_type h = 1 \<and> h_subtype h \<in> {12, 13}"

definition h_valid :: "mac_hdr \<Rightarrow> bool" where
  "h_valid h \<longleftrightarrow> h_proto h < 4 \<and> h_type h < 3 \<and> h_subtype h < 16
     \<and> length (h_a1 h) = 6 \<and> length (h_a2 h) = 6 \<and> length (h_a3 h) = 6 \<and> length (h_a4 h) = 6
     \<and> 0 \<le> h_seq h \<and> h_seq h < 4096 \<and> 0 \<le> h_frag h \<and> h_frag h < 16 \<and> length (h_htc h) = 4"

definition h_sc :: "mac_hdr \<Rightarrow> int" where "h_sc h = 16 * h_seq h + h_frag h"

definition h_head :: "mac_hdr \<Rightarrow> bytes" where
  "h_head h = [h_proto h OR push_bit 2 (h_type h) OR push_bit 4 (h_subtype h), h_fc1 h,
               fst (h_dur h), snd (h_dur h)]"

definition h_tail :: "mac_hdr \<Rightarrow> bytes" where
  "h_tail h = (if h_has_a4 h then h_a4 h else [])
     @ (if h_has_qos h then [fst (h_qos h), snd (h_qos h)] else [])
     @ (if h_has_htc h then h_htc h else [])"

definition encode_hdr :: "mac_hdr \<Rightarrow> bytes" where
  "encode_hdr h = h_head h @ h_a1 h
     @ (if h_short h then []
        else h_a2 h @ (if h_type h = 1 then []
          else h_a3 h @ [word_of_int (h_sc h mod 256), word_of_int (h_sc h div 256)] @ h_tail h))"

lemma length_h_head [simp]: "length (h_head h) = 4" "h_head h ! Suc 0 = h_fc1 h"
  by (simp_all add: h_head_def)

lemma fc0_fields:
  fixes p t s :: u8
  assumes "p < 4" "t < 4" "s < 16"
  shows "(p OR push_bit 2 t OR push_bit 4 s) AND 3 = p"
    "drop_bit 2 (p OR push_bit 2 t OR push_bit 4 s) AND 3 = t"
    "drop_bit 4 (p OR push_bit 2 t OR push_bit 4 s) AND 15 = s"
proof -
  have b: "\<And>k. bit p k \<Longrightarrow> k < 2" "\<And>k. bit t k \<Longrightarrow> k < 2" "\<And>k. bit s k \<Longrightarrow> k < 4"
    using bit_below [of p 2] bit_below [of t 2] bit_below [of s 4] assms
    by (auto simp: word_less_def)
  have n: "\<not> bit p (Suc (Suc k))" "\<not> bit t (Suc (Suc k))" for k
    using b(1,2) [of "Suc (Suc k)"] by auto
  show "(p OR push_bit 2 t OR push_bit 4 s) AND 3 = p"
    "drop_bit 2 (p OR push_bit 2 t OR push_bit 4 s) AND 3 = t"
    "drop_bit 4 (p OR push_bit 2 t OR push_bit 4 s) AND 15 = s"
    unfolding u8_masks
    by (auto simp: bit_eq_iff bit_simps n dest: b)
qed


text \<open>The six octets an address pointer names.\<close>

definition addr_at :: "dot11_frame_t \<Rightarrow> int option \<Rightarrow> mac option" where
  "addr_at f p = do { b \<leftarrow> f_p f; off \<leftarrow> p; bytes_at b off 6 }"

lemma and8_bit: "(w :: u8) AND 8 = 0 \<longleftrightarrow> \<not> bit w 3" "(w :: u8) AND 4 = 0 \<longleftrightarrow> \<not> bit w 2"
  "(w :: u8) AND 32 = 0 \<longleftrightarrow> \<not> bit w 5"
  using and_exp_eq_0_iff_not_bit [of w 3] and_exp_eq_0_iff_not_bit [of w 2]
    and_exp_eq_0_iff_not_bit [of w 5] by simp_all

lemma encode_hdr_fc:
  assumes "h_valid h"
  shows "ftype (encode_hdr h @ body) = h_type h" "fsub (encode_hdr h @ body) = h_subtype h"
    "(encode_hdr h @ body) ! 0 AND 3 = h_proto h" "(encode_hdr h @ body) ! 1 = h_fc1 h"
  using assms fc0_fields [of "h_proto h" "h_type h" "h_subtype h"]
  by (simp_all add: h_valid_def ftype_def fsub_def encode_hdr_def h_head_def order.strict_trans [of _ 3 4])

lemma length_encode_hdr:
  assumes "h_valid h"
  shows "length (encode_hdr h) = (if h_short h then 10 else if h_type h = 1 then 16 else
     24 + (if h_has_a4 h then 6 else 0) + (if h_has_qos h then 2 else 0) + (if h_has_htc h then 4 else 0))"
  using assms by (simp add: encode_hdr_def h_tail_def h_valid_def)

lemma encode_hdr_shape:
  assumes "h_valid h"
  shows "fqos (encode_hdr h @ body) = h_has_qos h" "fhtc (encode_hdr h @ body) = h_has_htc h"
    "faddr4 (encode_hdr h @ body) = h_has_a4 h"
    "hdr_size (encode_hdr h @ body) = int (length (encode_hdr h))"
proof -
  note fc = encode_hdr_fc [OF assms, of body]
  show q: "fqos (encode_hdr h @ body) = h_has_qos h"
    by (simp add: fqos_def h_has_qos_def fc and8_bit)
  show t: "fhtc (encode_hdr h @ body) = h_has_htc h"
    unfolding fhtc_def h_has_htc_def fc q ..
  show a: "faddr4 (encode_hdr h @ body) = h_has_a4 h"
    unfolding faddr4_def h_has_a4_def fc ..
  show "hdr_size (encode_hdr h @ body) = int (length (encode_hdr h))"
    unfolding hdr_size_def fc q t a length_encode_hdr [OF assms] by (simp add: h_short_def)
qed

lemma encode_hdr_addrs:
  assumes "h_valid h"
  shows "take 6 (drop 4 (encode_hdr h @ body)) = h_a1 h"
    "\<not> h_short h \<Longrightarrow> take 6 (drop 10 (encode_hdr h @ body)) = h_a2 h"
proof -
  from assms have l: "length (h_a1 h) = 6" "length (h_a2 h) = 6" by (simp_all add: h_valid_def)
  then show "take 6 (drop 4 (encode_hdr h @ body)) = h_a1 h" by (simp add: encode_hdr_def)
  assume "\<not> h_short h"
  with l show "take 6 (drop 10 (encode_hdr h @ body)) = h_a2 h" by (simp add: encode_hdr_def)
qed

lemma encode_hdr_long:
  assumes "h_valid h" "h_type h \<noteq> 1"
  shows "take 6 (drop 16 (encode_hdr h @ body)) = h_a3 h"
    "h_has_a4 h \<Longrightarrow> take 6 (drop 24 (encode_hdr h @ body)) = h_a4 h"
    "(encode_hdr h @ body) ! 22 = word_of_int (h_sc h mod 256)"
    "(encode_hdr h @ body) ! 23 = word_of_int (h_sc h div 256)"
    "h_has_qos h \<Longrightarrow> (encode_hdr h @ body) ! nat (24 + (if h_has_a4 h then 6 else 0)) = fst (h_qos h)"
proof -
  from assms have l: "length (h_a1 h) = 6" "length (h_a2 h) = 6" "length (h_a3 h) = 6" "length (h_a4 h) = 6"
    by (simp_all add: h_valid_def)
  have e: "encode_hdr h = h_head h @ h_a1 h @ h_a2 h @ h_a3 h
      @ [word_of_int (h_sc h mod 256), word_of_int (h_sc h div 256)] @ h_tail h"
    using assms(2) by (simp add: encode_hdr_def h_short_def)
  from l show "take 6 (drop 16 (encode_hdr h @ body)) = h_a3 h" unfolding e by simp
  from l show "(encode_hdr h @ body) ! 22 = word_of_int (h_sc h mod 256)"
    "(encode_hdr h @ body) ! 23 = word_of_int (h_sc h div 256)"
    unfolding e by (simp_all add: nth_append)
  have d: "drop 24 (encode_hdr h @ body) = h_tail h @ body" unfolding e using l by simp
  then show "take 6 (drop 24 (encode_hdr h @ body)) = h_a4 h" if "h_has_a4 h"
    using that l by (simp add: h_tail_def)
  have at: "(encode_hdr h @ body) ! (24 + i) = (h_tail h @ body) ! i" for i
  proof -
    have "24 \<le> length (encode_hdr h @ body)" unfolding e using l by simp
    then show ?thesis using d by (metis nth_drop)
  qed
  show "(encode_hdr h @ body) ! nat (24 + (if h_has_a4 h then 6 else 0)) = fst (h_qos h)" if "h_has_qos h"
    using at [of 0] at [of 6] that l by (cases "h_has_a4 h") (simp_all add: h_tail_def nth_append)
qed

lemma sc_fields:
  assumes "0 \<le> s" "s < 4096" "0 \<le> g" "g < 16" and "x = (16 * s + g)"
  shows "uint ((ucast (word_of_int (x mod 256) :: u8) OR push_bit 8 (ucast (word_of_int (x div 256) :: u8)) :: u16) AND 0x000f) = g"
    "uint (drop_bit 4 (ucast (word_of_int (x mod 256) :: u8) OR push_bit 8 (ucast (word_of_int (x div 256) :: u8)) :: u16) AND 0x0fff) = s"
proof -
  let ?w = "ucast (word_of_int (x mod 256) :: u8) OR push_bit 8 (ucast (word_of_int (x div 256) :: u8)) :: u16"
  have "uint ?w = 256 * (x div 256 mod 256) + x mod 256"
    unfolding uint_join16_le by (simp add: uint_word_of_int)
  moreover have "x div 256 mod 256 = x div 256"
    using assms by (intro mod_pos_pos_trivial) auto
  ultimately have w: "uint ?w = x" by simp
  show "uint (?w AND 0x000f) = g"
    unfolding u8_masks(6) uint_and_mask w using assms by simp
  have "x div 16 = s" using assms by simp
  then show "uint (drop_bit 4 ?w AND 0x0fff) = s"
    unfolding u8_masks(7) uint_and_mask uint_drop w using assms by simp
qed

text \<open>
  C33: Decoding undoes encoding: a frame built from any header the standard allows, followed
  by any body, is decoded to exactly the fields and addresses it was built from, whatever
  combination of Address 4, QoS Control and HT Control it carries, and the body starts
  where it was put.
\<close>

theorem dot11_frame_roundtrip:
  assumes "h_valid h"
  shows "\<exists>f. dot11_frame_decode (Some (encode_hdr h @ body)) (int (length (encode_hdr h @ body))) None
       = Some (True, f)
     \<and> f_proto f = h_proto h \<and> f_type f = h_type h \<and> f_subtype f = h_subtype h \<and> f_fc1 f = h_fc1 h
     \<and> addr_at f (f_a1 f) = Some (h_a1 h)
     \<and> addr_at f (f_a2 f) = (if h_short h then None else Some (h_a2 h))
     \<and> addr_at f (f_a3 f) = (if h_type h = 1 then None else Some (h_a3 h))
     \<and> addr_at f (f_a4 f) = (if h_has_a4 h then Some (h_a4 h) else None)
     \<and> f_seq_num f = (if h_type h = 1 then -1 else h_seq h)
     \<and> f_frag_num f = (if h_type h = 1 then -1 else h_frag h)
     \<and> f_tid f = (if h_has_qos h then uint (fst (h_qos h) AND 15) else -1)
     \<and> f_body_len f = int (length body) \<and> drop (nat (f_body_off f)) (encode_hdr h @ body) = body"
proof -
  let ?b = "encode_hdr h @ body"
  let ?n = "int (length ?b)"
  let ?f = "view ?b ?n None"
  note fc = encode_hdr_fc [OF assms, of body] and shape = encode_hdr_shape [OF assms, of body]
  have t: "h_type h \<noteq> 3" using assms by (auto simp: h_valid_def)
  have sz: "10 \<le> hdr_size ?b" "hdr_size ?b \<le> ?n" using hdr_size_bounds(1) [of ?b] shape by simp_all
  have dec: "dot11_frame_decode (Some ?b) ?n None = Some (True, ?f)"
    using decode_view [of ?n ?b None] sz t fc(1) by simp
  have ptr: "fa ?b ?n 1 = Some 4" "fa ?b ?n 2 = (if h_short h then None else Some 10)"
    "fa ?b ?n 3 = (if h_type h = 1 then None else Some 16)"
    "fa ?b ?n 4 = (if h_has_a4 h then Some 24 else None)"
    using sz t fc shape hdr_size_bounds(4,6) [of ?b]
    by (auto simp: fa_def hdr_size_def h_short_def h_has_a4_def split: if_splits)
  have len: "off + 6 \<le> ?n" if "off \<in> {10, 16, 24}" "off = 10 \<Longrightarrow> \<not> h_short h"
    "off = 16 \<Longrightarrow> h_type h \<noteq> 1" "off = 24 \<Longrightarrow> h_has_a4 h" for off
    using that ptr ptr_ok_fa [of ?n ?b 2] ptr_ok_fa [of ?n ?b 3] ptr_ok_fa [of ?n ?b 4]
    by (auto simp: ptr_ok_def)
  have addrs: "addr_at ?f (f_a1 ?f) = Some (h_a1 h)"
    "addr_at ?f (f_a2 ?f) = (if h_short h then None else Some (h_a2 h))"
    "addr_at ?f (f_a3 ?f) = (if h_type h = 1 then None else Some (h_a3 h))"
    "addr_at ?f (f_a4 ?f) = (if h_has_a4 h then Some (h_a4 h) else None)"
    unfolding addr_at_def view_simps ptr bind.bind_lunit
    using len [of 10] len [of 16] len [of 24] sz encode_hdr_addrs [OF assms, of body]
      encode_hdr_long [OF assms, of body]
    by (simp_all add: h_has_a4_def del: append_assoc length_append take_append drop_append)
  have sc: "f_seq_num ?f = (if h_type h = 1 then -1 else h_seq h)"
    "f_frag_num ?f = (if h_type h = 1 then -1 else h_frag h)"
  proof -
    have l: "24 \<le> ?n" if "h_type h \<noteq> 1"
      using that hdr_size_bounds(4) [of ?b] sz unfolding fc(1) by linarith
    have "fsc ?b = (ucast (word_of_int (h_sc h mod 256) :: u8)
         OR push_bit 8 (ucast (word_of_int (h_sc h div 256) :: u8)))" if "h_type h \<noteq> 1"
      unfolding fsc_def using encode_hdr_long(3,4) [OF assms that, of body] by simp
    moreover have "0 \<le> h_seq h" "h_seq h < 4096" "0 \<le> h_frag h" "h_frag h < 16"
      using assms by (simp_all add: h_valid_def)
    note sc_fields [OF this h_sc_def]
    ultimately show "f_seq_num ?f = (if h_type h = 1 then -1 else h_seq h)"
      "f_frag_num ?f = (if h_type h = 1 then -1 else h_frag h)"
      using l t unfolding view_seq fc(1) by presburger+
  qed
  have tid: "f_tid ?f = (if h_has_qos h then uint (fst (h_qos h) AND 15) else -1)"
    using encode_hdr_long(5) [OF assms, of body] sz shape hdr_size_bounds(5) [of ?b]
    by (auto simp: view_seq fqos_at_def h_has_qos_def simp del: append_assoc length_append)
  have body: "f_body_len ?f = int (length body)" "drop (nat (f_body_off ?f)) ?b = body"
    using sz t fc(1) shape(4) by (simp_all add: view_geometry pad_to_hdr(4))
  show ?thesis
    using dec fc addrs sc tid body by (intro exI [of _ ?f]) simp
qed

lemma view_prefix:
  assumes "take n b = take n b'" "n \<le> length b" "n \<le> length b'" "2 \<le> n"
  shows "ftype b' = ftype b" "fsub b' = fsub b" "fqos b' = fqos b" "fhtc b' = fhtc b" "faddr4 b' = faddr4 b"
    "hdr_size b' = hdr_size b" "role_bssid b' = role_bssid b" "role_sa b' = role_sa b"
    "role_da b' = role_da b" "fqos_at b' = fqos_at b" "b' ! 0 = b ! 0" "b' ! 1 = b ! 1"
    "24 \<le> n \<Longrightarrow> fsc b' = fsc b" "int i < int n \<Longrightarrow> b' ! i = b ! i"
proof -
  have nth: "b' ! i = b ! i" if "i < n" for i
    using that assms by (metis nth_take)
  then show i: "int i < int n \<Longrightarrow> b' ! i = b ! i" by simp
  show b01: "b' ! 0 = b ! 0" "b' ! 1 = b ! 1" using nth [of 0] nth [of 1] assms(4) by auto
  show t: "ftype b' = ftype b" "fsub b' = fsub b" by (simp_all add: ftype_def fsub_def b01)
  show q: "fqos b' = fqos b" by (simp add: fqos_def t)
  show h: "fhtc b' = fhtc b" unfolding fhtc_def b01 t q ..
  show a: "faddr4 b' = faddr4 b" unfolding faddr4_def b01 t ..
  show "hdr_size b' = hdr_size b" unfolding hdr_size_def t q h a ..
  show "role_bssid b' = role_bssid b" "role_sa b' = role_sa b" "role_da b' = role_da b"
    unfolding role_bssid_def role_sa_def role_da_def b01 t by rule+
  show "fqos_at b' = fqos_at b" unfolding fqos_at_def a ..
  show "24 \<le> n \<Longrightarrow> fsc b' = fsc b" using nth [of 22] nth [of 23] by (simp add: fsc_def)
qed

text \<open>Two frames with the same complete header have the same view, up to the body.\<close>

lemma view_same_header:
  assumes hd: "take (nat (hdr_size b)) b = take (nat (hdr_size b)) b'"
    and l: "hdr_size b \<le> len" "len \<le> int (length b)" "hdr_size b \<le> len'" "len' \<le> int (length b')"
    and t: "ftype b \<noteq> 3"
  shows "view b' len' rt' = (view b len rt)
     \<lparr>f_p := Some b', f_len := len', f_body_off := pad_to rt' (hdr_size b),
      f_body_len := max 0 (len' - pad_to rt' (hdr_size b)),
      f_fcs_stripped := (case rt' of None \<Rightarrow> False | Some h \<Rightarrow> fcs_present h),
      f_bad_fcs := (case rt' of None \<Rightarrow> False | Some h \<Rightarrow> bad_fcs h)\<rparr>"
proof -
  note hb = hdr_size_bounds [of b]
  have n: "nat (hdr_size b) \<le> length b" "nat (hdr_size b) \<le> length b'" "2 \<le> nat (hdr_size b)"
    using l hb(1) by linarith+
  note eq = view_prefix [OF hd n]
  have fa: "fa b' len' i = fa b len i" for i
    using l hb(1,4,6) t unfolding fa_def eq by (cases "ftype b = 1") auto
  have sc: "fsc b' = fsc b" if "ftype b \<noteq> 1"
    using eq(13) hb(4) [OF that] by linarith
  have q: "b' ! nat (fqos_at b) = b ! nat (fqos_at b)" if "fqos b"
    using eq(14) [of "nat (fqos_at b)"] hb(5) [OF that] hb(1) by (simp add: fqos_at_def)
  have lt: "fqos b \<Longrightarrow> fqos_at b < len" "fqos b \<Longrightarrow> fqos_at b < len'" "ftype b \<noteq> 1 \<Longrightarrow> 24 \<le> len"
    "ftype b \<noteq> 1 \<Longrightarrow> 24 \<le> len'" using hb l by linarith+
  show ?thesis
    using l t sc q lt unfolding view_def Let_def eq froles_def fa pad_to_def
    by (simp cong: if_cong)
qed

lemma bytes_at_prefix_body:
  assumes "0 \<le> h" "h \<le> off" "off \<le> len" "len \<le> int (length b)"
  shows "bytes_at b 0 h = Some (take (nat h) b)"
    "bytes_at b off (len - off) = Some (take (nat (len - off)) (drop (nat off) b))"
  using assms by simp_all

lemma depad_redecode:
  assumes dec: "dot11_frame_decode (Some b) len (Some h) = Some (True, f)"
    and len: "len \<le> int (length b)" and cap: "cap \<le> int (length d)"
  shows "if f_body_off f > f_hdr_len f \<and> f_body_off f \<le> len \<and> f_hdr_len f + f_body_len f \<le> cap
     then \<exists>d' g. dot11_frame_depad (Some f) (Some d) cap = Some (True, Some g)
       \<and> f_p g = Some d' \<and> f_len g = f_hdr_len f + f_body_len f
       \<and> take (nat (f_len g)) d' = take (nat (f_hdr_len f)) b @ drop (nat (f_body_off f)) (take (nat len) b)
       \<and> dot11_frame_decode (Some d') (f_len g) (Some (h\<lparr>datapad := False\<rparr>)) = Some (True, g)
     else dot11_frame_depad (Some f) (Some d) cap = Some (False, Some f)"
proof -
  have l2: "2 \<le> len" using dec by (cases "len < 2") (simp_all add: decode_runt)
  from dec decode_view [OF l2 len, of "Some h"] have f: "f = view b len (Some h)"
    and t: "ftype b \<noteq> 3" and sz: "hdr_size b \<le> len" by auto
  note hb = hdr_size_bounds(1) [of b] and pd = pad_to_hdr(1) [of b "Some h"]
  have g: "f_hdr_len f = hdr_size b" "f_body_off f = pad_to (Some h) (hdr_size b)"
    "f_body_len f = max 0 (len - pad_to (Some h) (hdr_size b))" "f_len f = len" "f_p f = Some b"
    using f t sz by (simp_all add: view_geometry)
  show ?thesis
  proof (cases "f_body_off f > f_hdr_len f \<and> f_body_off f \<le> len \<and> f_hdr_len f + f_body_len f \<le> cap")
    case True
    let ?n = "len - (f_body_off f - f_hdr_len f)"
    define d' where "d' = take (nat (hdr_size b)) b
        @ take (nat (len - f_body_off f)) (drop (nat (f_body_off f)) b) @ drop (nat ?n) d"
    define gg where "gg = f\<lparr>f_p := Some d', f_len := ?n, f_body_off := hdr_size b,
       f_body_len := ?n - hdr_size b\<rparr>"
    from True g have n: "?n = hdr_size b + f_body_len f" "hdr_size b \<le> ?n" "?n \<le> cap" by auto
    have dp: "dot11_frame_depad (Some f) (Some d) cap = Some (True, Some gg)"
      using True g n hb len
      by (simp add: dot11_frame_depad_def bytes_at_prefix_body Let_def gg_def d'_def)
    have ld: "?n \<le> int (length d')" "nat (hdr_size b) \<le> length d'"
      using True g n hb len cap by (simp_all add: d'_def)
    have pre: "take (nat (hdr_size b)) b = take (nat (hdr_size b)) d'"
      using sz len by (simp add: d'_def)
    have "view d' ?n (Some (h\<lparr>datapad := False\<rparr>)) = gg"
      unfolding view_same_header [OF pre sz len n(2) ld(1) t, of "Some (h\<lparr>datapad := False\<rparr>)" "Some h"]
      using n f by (simp add: gg_def pad_to_def view_def Let_def)
    moreover have "ftype d' = ftype b" "hdr_size d' = hdr_size b"
      using view_prefix(1,6) [OF pre _ ld(2)] sz len hb by simp_all
    ultimately have "dot11_frame_decode (Some d') ?n (Some (h\<lparr>datapad := False\<rparr>)) = Some (True, gg)"
      using decode_view [of ?n d'] ld n hb t by simp
    moreover have "take (nat ?n) d' = take (nat (hdr_size b)) b @ drop (nat (f_body_off f)) (take (nat len) b)"
    proof -
      have "nat len - nat (f_body_off f) = nat (len - f_body_off f)"
        using True g hb pd by (simp add: nat_diff_distrib)
      then have "drop (nat (f_body_off f)) (take (nat len) b)
          = take (nat (len - f_body_off f)) (drop (nat (f_body_off f)) b)" (is "_ = ?body")
        by (simp only: drop_take)
      moreover have "length (take (nat (hdr_size b)) b) = nat (hdr_size b)"
        "length ?body = nat (len - f_body_off f)"
        unfolding length_take length_drop using True sz len hb g(1) by arith+
      then have "nat ?n = length (take (nat (hdr_size b)) b @ ?body)"
        using True hb g(1) unfolding length_append by arith
      moreover have "take (length xs) (xs @ ys) = xs" for xs ys :: bytes by simp
      ultimately show ?thesis by (simp only: d'_def append_assoc [symmetric])
    qed
    moreover have "f_p gg = Some d'" "f_len gg = ?n" by (simp_all add: gg_def)
    ultimately show ?thesis
      unfolding if_P [OF True] using dp n(1) g(1)
      by (intro exI [of _ d'] exI [of _ gg] conjI) simp_all
  next
    case False
    then have "dot11_frame_depad (Some f) (Some d) cap = Some (False, Some f)"
      using g hb by (auto simp: dot11_frame_depad_def Let_def)
    with False show ?thesis by simp
  qed
qed

text \<open>
  Removing the data pad is the same as decoding a second time: when a decoded view has
  a pad and the depadded frame fits, \<open>dot11_frame_depad\<close> leaves in the buffer the header
  followed by the body, and the view it fills in is exactly what decoding the copy (without
  the pad hint) would give; in every other case it changes nothing.
\<close>

theorem dot11_frame_depad_is_redecode:
  assumes dec: "dot11_frame_decode (Some b) len (Some h) = Some (True, f)"
    and len: "len \<le> int (length b)" and cap: "cap \<le> int (length d)"
  shows "if f_body_off f > f_hdr_len f \<and> f_body_off f \<le> len \<and> f_hdr_len f + f_body_len f \<le> cap
     then \<exists>d' g. dot11_frame_depad (Some f) (Some d) cap = Some (True, Some g)
       \<and> f_p g = Some d' \<and> f_len g = f_hdr_len f + f_body_len f
       \<and> take (nat (f_len g)) d' = take (nat (f_hdr_len f)) b @ drop (nat (f_body_off f)) (take (nat len) b)
       \<and> dot11_frame_decode (Some d') (f_len g) (Some (h\<lparr>datapad := False\<rparr>)) = Some (True, g)
     else dot11_frame_depad (Some f) (Some d) cap = Some (False, Some f)"
  by (rule depad_redecode [OF assms])

text \<open>The CCMP header (IEEE 802.11-2020, 12.5.3.2) of packet number \<open>pn\<close>.\<close>

definition octet :: "int \<Rightarrow> nat \<Rightarrow> u8" where "octet n i = word_of_int (n div 256 ^ i)"

definition ccmp_hdr :: "int \<Rightarrow> u8 \<Rightarrow> bytes" where
  "ccmp_hdr pn key = [octet pn 0, octet pn 1, 0, key OR 0x20,
                      octet pn 2, octet pn 3, octet pn 4, octet pn 5]"

definition join48 :: "u8 \<Rightarrow> u8 \<Rightarrow> u8 \<Rightarrow> u8 \<Rightarrow> u8 \<Rightarrow> u8 \<Rightarrow> u64" where
  "join48 a b c d e f = ucast a OR push_bit 8 (ucast b) OR push_bit 16 (ucast c)
     OR push_bit 24 (ucast d) OR push_bit 32 (ucast e) OR push_bit 40 (ucast f)"

lemma join_step:
  "uint (a :: u64) = v \<Longrightarrow> v < 2 ^ n \<Longrightarrow> n + 8 \<le> 64 \<Longrightarrow> uint (a OR push_bit n (ucast (x :: u8))) = v + 2 ^ n * uint x"
  using uint_or_push(1) [of a n x] by simp

lemma uint_join48:
  "uint (join48 a b c d e f) = uint a + 2 ^ 8 * uint b + 2 ^ 16 * uint c + 2 ^ 24 * uint d
     + 2 ^ 32 * uint e + 2 ^ 40 * uint f"
proof -
  note bounds = uint_u8_bounds [of a] uint_u8_bounds [of b] uint_u8_bounds [of c]
    uint_u8_bounds [of d] uint_u8_bounds [of e] uint_u8_bounds [of f]
  have "uint (ucast a :: u64) = uint a"
    using uint_u8_bounds [of a] by (simp add: unsigned_ucast_eq take_bit_int_eq_self)
  note s1 = join_step [OF this, of 8 b]
  from bounds have "uint (ucast a OR push_bit 8 (ucast b) :: u64) = uint a + 2 ^ 8 * uint b" (is "uint ?ab = _")
    by (intro s1) auto
  note s2 = join_step [OF this, of 16 c]
  from bounds have "uint (?ab OR push_bit 16 (ucast c)) = uint a + 2 ^ 8 * uint b + 2 ^ 16 * uint c"
    (is "uint ?ac = _") by (intro s2) auto
  note s3 = join_step [OF this, of 24 d]
  from bounds have "uint (?ac OR push_bit 24 (ucast d))
      = uint a + 2 ^ 8 * uint b + 2 ^ 16 * uint c + 2 ^ 24 * uint d" (is "uint ?ad = _")
    by (intro s3) auto
  note s4 = join_step [OF this, of 32 e]
  from bounds have "uint (?ad OR push_bit 32 (ucast e))
      = uint a + 2 ^ 8 * uint b + 2 ^ 16 * uint c + 2 ^ 24 * uint d + 2 ^ 32 * uint e"
    by (intro s4) auto
  note s5 = join_step [OF this, of 40 f]
  from bounds show ?thesis unfolding join48_def or.assoc [symmetric] by (intro s5) auto
qed

lemma join48_bound: "uint (join48 a b c d e f) < 2 ^ 48"
  using uint_u8_bounds [of a] uint_u8_bounds [of b] uint_u8_bounds [of c]
    uint_u8_bounds [of d] uint_u8_bounds [of e] uint_u8_bounds [of f]
  unfolding uint_join48 by simp

lemma sint_join48: "sint (join48 a b c d e f) = uint (join48 a b c d e f)"
proof -
  have "uint (join48 a b c d e f) < 2 ^ 63"
    using join48_bound [of a b c d e f] by simp
  moreover have "- (2 ^ 63) \<le> uint (join48 a b c d e f)"
    by (rule order_trans [OF _ uint_ge_0]) simp
  ultimately show ?thesis
    unfolding sint_uint by (intro signed_take_bit_int_eq_self) simp_all
qed

lemma uint_octet: "uint (octet n i) = n div 256 ^ i mod 256"
  by (simp add: octet_def uint_word_of_int)

lemma join48_octets:
  assumes "0 \<le> n" "n < 2 ^ 48"
  shows "uint (join48 (octet n 0) (octet n 1) (octet n 2) (octet n 3) (octet n 4) (octet n 5)) = n"
proof -
  define q where "q i = n div 256 ^ i" for i :: nat
  define r where "r i = q i mod 256" for i :: nat
  have "q i = 256 * q (Suc i) + r i" for i
    using zdiv_zmult2_eq [of 256 n "256 ^ i"] by (simp add: q_def r_def mult.commute)
  from this [of 0] this [of 1] this [of 2] this [of 3] this [of 4]
  have "q 0 = 256 * q 1 + r 0" "q 1 = 256 * q 2 + r 1" "q 2 = 256 * q 3 + r 2"
    "q 3 = 256 * q 4 + r 3" "q 4 = 256 * q 5 + r 4" by (simp_all add: eval_nat_numeral)
  moreover have "q 0 = n" by (simp add: q_def)
  moreover have "r 5 = q 5"
    using assms unfolding r_def q_def by (intro mod_pos_pos_trivial) (simp_all add: pos_imp_zdiv_nonneg_iff)
  ultimately show ?thesis
    unfolding uint_join48 uint_octet q_def [symmetric] r_def [symmetric] by simp
qed

lemma ccmp_pn_eq:
  assumes "f_p f = Some p" "f_type f = 2" "f_protected f" "0 \<le> f_hdr_len f" "8 \<le> f_body_len f"
    and off: "0 \<le> f_body_off f" "f_body_off f + 8 \<le> int (length p)"
  shows "dot11_frame_ccmp_pn (Some f) = (let v = \<lambda>i. p ! nat (f_body_off f + i) in
     Some (if bit (v 3) 5 then uint (join48 (v 0) (v 1) (v 4) (v 5) (v 6) (v 7)) else -1))"
  using assms by (simp add: dot11_frame_ccmp_pn_def Let_def and8_bit join48_def [symmetric] sint_join48)

text \<open>The queries read inside the frame, and the packet number is a 48-bit value or -1.\<close>

lemma ccmp_pn_range:
  assumes "frame_wf f"
  shows "\<exists>pn. dot11_frame_ccmp_pn (Some f) = Some pn \<and> -1 \<le> pn \<and> pn < 2 ^ 48
     \<and> (0 \<le> pn \<longrightarrow> f_type f = 2 \<and> f_protected f)"
proof (cases "f_p f = None \<or> f_type f \<noteq> 2 \<or> \<not> f_protected f \<or> f_hdr_len f < 0 \<or> f_body_len f < 8")
  case True
  then show ?thesis by (cases "f_p f") (auto simp: dot11_frame_ccmp_pn_def)
next
  case False
  then obtain p where p: "f_p f = Some p" by auto
  with False assms have "0 \<le> f_body_off f" "f_body_off f + 8 \<le> int (length p)"
    by (auto simp: frame_wf_def max_def split: if_splits)
  with ccmp_pn_eq [OF p] False show ?thesis
    using join48_bound by (auto simp: Let_def intro: order_trans [OF _ uint_ge_0])
qed

text \<open>
  C34: For every captured octet string and length the decoder returns: it reads nothing
  outside the frame, reports success exactly when it set a header length, and then the
  whole header is inside the frame; every address pointer names six octets of it; and the
  body, payload and packet-number queries on the result stay inside it too.
\<close>

theorem dot11_frame_decode_safe:
  assumes "len \<le> int (length b)"
  shows "\<exists>ok f. dot11_frame_decode (Some b) len rt = Some (ok, f)
     \<and> ok = (f_hdr_len f \<noteq> -1) \<and> f_hdr_len f \<le> max 0 len
     \<and> list_all (ptr_ok (max 0 len))
          [f_a1 f, f_a2 f, f_a3 f, f_a4 f, f_bssid f, f_sa f, f_da f, f_ta f, f_ra f]
     \<and> (case dot11_frame_body (Some f) of None \<Rightarrow> True
        | Some (off, n) \<Rightarrow> f_hdr_len f \<le> off \<and> n = max 0 (len - off))
     \<and> (\<exists>st off et. dot11_frame_payload (Some f) = Some (st, off, et) \<and> 0 \<le> off \<and> off \<le> max 0 len)
     \<and> (\<exists>pn. dot11_frame_ccmp_pn (Some f) = Some pn \<and> -1 \<le> pn \<and> pn < 2 ^ 48)"
proof -
  from decode_total [of "Some b" len rt] assms obtain ok f where
    f: "dot11_frame_decode (Some b) len rt = Some (ok, f)" "frame_wf f" "f_len f = max 0 len"
      "ok \<longleftrightarrow> 0 \<le> f_hdr_len f" by auto
  have "decoded f" unfolding decoded_def using f(1) assms by (intro exI [of _ "Some b"] exI) auto
  then have h: "f_hdr_len f = -1 \<or> 0 \<le> f_hdr_len f"
  proof (cases rule: decodedE)
    case (view b' len' rt')
    then show ?thesis using hdr_size_bounds(1) [of b'] by (simp add: view_geometry)
  qed simp
  obtain pn where pn: "dot11_frame_ccmp_pn (Some f) = Some pn" "-1 \<le> pn" "pn < 2 ^ 48"
    using ccmp_pn_range [OF f(2)] by auto
  from payload_safe [OF f(2)] obtain st off et where
    st: "dot11_frame_payload (Some f) = Some (st, off, et)"
      "st = DOT11_DATA_OK \<longrightarrow> f_hdr_len f + 8 \<le> off \<and> off \<le> f_len f" "st \<noteq> DOT11_DATA_OK \<longrightarrow> off = 0"
    by blast
  then have pl: "0 \<le> off" "off \<le> max 0 len" using f(3) h by (cases "st = DOT11_DATA_OK"; auto)+
  have ptrs: "list_all (ptr_ok (max 0 len))
      [f_a1 f, f_a2 f, f_a3 f, f_a4 f, f_bssid f, f_sa f, f_da f, f_ta f, f_ra f]"
    and hl: "f_hdr_len f \<le> max 0 len"
    using f(2,3) h unfolding frame_wf_def by auto
  have body: "case dot11_frame_body (Some f) of None \<Rightarrow> True
      | Some (off, n) \<Rightarrow> f_hdr_len f \<le> off \<and> n = max 0 (len - off)"
    using f(2,3) by (auto simp: frame_wf_def dot11_frame_body_def max_def)
  have "ok = (f_hdr_len f \<noteq> -1)" using h f(4) by auto
  with f(1) st(1) pl pn ptrs hl body show ?thesis by blast
qed

text \<open>
  C19: The decoder computes, field by field, the specification read off the standard: type
  and subtype, the header length rule (24, +6 for Address 4, +2 for QoS Control, +4 for HT
  Control only in management and QoS data frames; 10 or 16 for control frames), the role of
  each address (Table 9-26), sequence and fragment number, TID and the A-MSDU bit.
\<close>

theorem dot11_frame_decode_refines:
  assumes "2 \<le> len" and "len \<le> int (length b)"
  shows "dot11_frame_decode (Some b) len rt = Some (ftype b \<noteq> 3 \<and> hdr_size b \<le> len, view b len rt)"
  using assms by (rule decode_view)

text \<open>
  The packet number of a Protected data frame built with a CCMP header is recovered
  exactly, whatever header fields precede it; without the Extended IV bit none is reported.
\<close>

theorem dot11_ccmp_pn_roundtrip:
  assumes "h_valid h" and "h_type h = 2" and "bit (h_fc1 h) 6" and "0 \<le> pn" and "pn < 2 ^ 48"
    and "eiv \<longrightarrow> r = ccmp_hdr pn key @ rest"
    and "\<not> eiv \<longrightarrow> r = [x0, x1, x2, k AND NOT 0x20] @ rest"
  shows "\<exists>f. dot11_frame_decode (Some (encode_hdr h @ r)) (int (length (encode_hdr h @ r))) None
       = Some (True, f)
     \<and> dot11_frame_ccmp_pn (Some f) = Some (if eiv then pn else -1)"
proof -
  let ?L = "length (encode_hdr h)" and ?b = "encode_hdr h @ r"
  let ?n = "int (length ?b)"
  let ?f = "view ?b ?n None"
  note fc = encode_hdr_fc [OF assms(1), of r] and sz = encode_hdr_shape(4) [OF assms(1), of r]
  have dec: "dot11_frame_decode (Some ?b) ?n None = Some (True, ?f)"
    using decode_view [of ?n ?b None] hdr_size_bounds(1) [of ?b] assms(2) by (simp add: fc(1) sz)
  have geo: "f_type ?f = 2" "f_protected ?f" "f_hdr_len ?f = int ?L" "f_body_off ?f = int ?L"
    "f_body_len ?f = int (length r)"
    using fc(1) assms(2) fc(4) assms(3) by (simp_all add: view_geometry pad_to_hdr(4) sz)
  have nth: "?b ! nat (int ?L + i) = r ! nat i" if "0 \<le> i" for i
    using that by (simp add: nth_append nat_add_distrib)
  have "dot11_frame_ccmp_pn (Some ?f) = Some (if eiv then pn else -1)"
  proof (cases "length r < 8")
    case True
    with assms(6) have "\<not> eiv" by (auto simp: ccmp_hdr_def)
    with True geo show ?thesis by (simp add: dot11_frame_ccmp_pn_def)
  next
    case False
    then have "dot11_frame_ccmp_pn (Some ?f)
      = Some (if bit (r ! 3) 5 then uint (join48 (r ! 0) (r ! 1) (r ! 4) (r ! 5) (r ! 6) (r ! 7)) else -1)"
      using ccmp_pn_eq [of ?f ?b] geo nth [of 0] by (simp add: Let_def nth)
    then show ?thesis
      using assms(6,7) join48_octets [OF assms(4,5)]
      by (cases eiv) (simp_all add: ccmp_hdr_def bit_or_iff bit_and_iff bit_not_iff)
  qed
  with dec show ?thesis by blast
qed

lemma take3_drop: "k + 3 \<le> length b \<Longrightarrow> take 3 (drop k b) = [b ! k, b ! (k + 1), b ! (k + 2)]"
  by (simp add: numeral_3_eq_3 Cons_nth_drop_Suc [symmetric])

lemma and4_bit: "(w :: u8) AND 4 = 0 \<longleftrightarrow> \<not> bit w 2"
  using and_exp_eq_0_iff_not_bit [of w 2] by simp

text \<open>
  A network payload is located exactly in complete, unprotected, unfragmented,
  non-aggregated data frames whose body starts with a SNAP header, and then it is what
  follows that header, with the EtherType the header declares.
\<close>

theorem dot11_frame_payload_exact:
  assumes "dot11_frame_decode (Some b) len rt = Some (ok, f)" and "len \<le> int (length b)"
  shows "dot11_frame_payload (Some f) = Some (DOT11_DATA_OK, off, et)
    \<longleftrightarrow> ok \<and> f_type f = 2 \<and> \<not> bit (f_subtype f) 2 \<and> \<not> f_protected f
      \<and> f_frag_num f = 0 \<and> \<not> f_more_frag f \<and> f_amsdu f \<noteq> 1
      \<and> off = f_body_off f + 8 \<and> off \<le> len
      \<and> take 3 (drop (nat (f_body_off f)) b) = [0xaa, 0xaa, 0x03]
      \<and> uint et = 256 * uint (b ! nat (off - 2)) + uint (b ! nat (off - 1))"
proof -
  from decode_total [of "Some b" len rt] assms have wf: "frame_wf f" and p: "f_p f = Some b"
    and l: "f_len f = max 0 len" and ok: "ok \<longleftrightarrow> 0 \<le> f_hdr_len f" by auto
  show ?thesis
  proof (cases "ok \<and> f_body_off f + 8 \<le> len")
    case True
    let ?o = "nat (f_body_off f)"
    from True wf p l ok have o: "0 \<le> f_body_off f" "f_body_off f + 8 \<le> int (length b)" "8 \<le> f_body_len f"
      using assms(2) by (auto simp: frame_wf_def)
    then have t3: "take 3 (drop ?o b) = [b ! ?o, b ! nat (f_body_off f + 1), b ! nat (f_body_off f + 2)]"
      by (simp add: take3_drop nat_add_distrib)
    have et: "be16 b (f_body_off f + 6) = Some x
        \<longleftrightarrow> uint x = 256 * uint (b ! nat (f_body_off f + 6)) + uint (b ! nat (f_body_off f + 7))" for x
      using o by (simp add: uint_join16 word_uint_eq_iff [of _ x] add.commute [of 7] eq_commute [of "uint x"])
    have "f_hdr_len f \<ge> 0" using True ok by simp
    then show ?thesis
      using True o p wf t3 et [of et]
      by (simp add: dot11_frame_payload_def Let_def and4_bit bind_Some_iff) (auto simp: bind_Some_iff and4_bit add.commute [of 6] add.commute [of 7])
  next
    case False
    with wf p l ok show ?thesis
      by (auto simp: dot11_frame_payload_def frame_wf_def Let_def bind_Some_iff split: if_splits)
  qed
qed


subsection \<open>Witnesses\<close>

text \<open>A QoS data frame from an AP with its HT Control field, and the same with a data pad.\<close>

definition sample_hdr :: mac_hdr where
  "sample_hdr = \<lparr>h_proto = 0, h_type = 2, h_subtype = 8, h_fc1 = 0xC2, h_dur = (0, 0),
     h_a1 = [1, 2, 3, 4, 5, 6], h_a2 = [11, 12, 13, 14, 15, 16], h_a3 = [21, 22, 23, 24, 25, 26],
     h_a4 = [0, 0, 0, 0, 0, 0], h_seq = 1234, h_frag = 0, h_qos = (5, 0), h_htc = [9, 9, 9, 9]\<rparr>"

lemma sample_hdr_valid: "h_valid sample_hdr" by (simp add: h_valid_def sample_hdr_def)

definition sample_padded :: bytes where
  "sample_padded = [0x88, 0x02, 0, 0, 1, 2, 3, 4, 5, 6, 11, 12, 13, 14, 15, 16,
     21, 22, 23, 24, 25, 26, 0x20, 0x4D, 5, 0, 0, 0, 0xaa, 0xaa, 0x03, 0, 0, 0, 0x08, 0x06, 7]"

lemma length_sample_padded: "length sample_padded = 37" by (simp add: sample_padded_def)

lemma dot11_frame_decode_safe_witness:
  "\<exists>ok f. dot11_frame_decode (Some [0x88, 0x43, 0]) 3 None = Some (ok, f)
     \<and> ok = (f_hdr_len f \<noteq> -1) \<and> f_hdr_len f \<le> max 0 3
     \<and> list_all (ptr_ok (max 0 3))
          [f_a1 f, f_a2 f, f_a3 f, f_a4 f, f_bssid f, f_sa f, f_da f, f_ta f, f_ra f]
     \<and> (case dot11_frame_body (Some f) of None \<Rightarrow> True
        | Some (off, n) \<Rightarrow> f_hdr_len f \<le> off \<and> n = max 0 (3 - off))
     \<and> (\<exists>st off et. dot11_frame_payload (Some f) = Some (st, off, et) \<and> 0 \<le> off \<and> off \<le> max 0 3)
     \<and> (\<exists>pn. dot11_frame_ccmp_pn (Some f) = Some pn \<and> -1 \<le> pn \<and> pn < 2 ^ 48)"
  by (rule dot11_frame_decode_safe) simp

lemma dot11_frame_decode_refines_witness:
  "dot11_frame_decode (Some sample_padded) 37 None
     = Some (ftype sample_padded \<noteq> 3 \<and> hdr_size sample_padded \<le> 37, view sample_padded 37 None)"
  by (rule dot11_frame_decode_refines) (simp_all add: sample_padded_def)

lemma dot11_frame_roundtrip_witness:
  "\<exists>f. dot11_frame_decode (Some (encode_hdr sample_hdr @ [1, 2, 3]))
         (int (length (encode_hdr sample_hdr @ [1, 2, 3]))) None = Some (True, f)
     \<and> f_proto f = h_proto sample_hdr \<and> f_type f = h_type sample_hdr
     \<and> f_subtype f = h_subtype sample_hdr \<and> f_fc1 f = h_fc1 sample_hdr
     \<and> addr_at f (f_a1 f) = Some (h_a1 sample_hdr)
     \<and> addr_at f (f_a2 f) = (if h_short sample_hdr then None else Some (h_a2 sample_hdr))
     \<and> addr_at f (f_a3 f) = (if h_type sample_hdr = 1 then None else Some (h_a3 sample_hdr))
     \<and> addr_at f (f_a4 f) = (if h_has_a4 sample_hdr then Some (h_a4 sample_hdr) else None)
     \<and> f_seq_num f = (if h_type sample_hdr = 1 then -1 else h_seq sample_hdr)
     \<and> f_frag_num f = (if h_type sample_hdr = 1 then -1 else h_frag sample_hdr)
     \<and> f_tid f = (if h_has_qos sample_hdr then uint (fst (h_qos sample_hdr) AND 15) else -1)
     \<and> f_body_len f = int (length [1 :: u8, 2, 3])
     \<and> drop (nat (f_body_off f)) (encode_hdr sample_hdr @ [1, 2, 3]) = [1, 2, 3]"
  by (rule dot11_frame_roundtrip [OF sample_hdr_valid])

lemma dot11_frame_depad_is_redecode_witness:
  "\<exists>f. dot11_frame_decode (Some sample_padded) 37 (Some \<lparr>fcs_present = True, datapad = True, bad_fcs = False\<rparr>)
        = Some (True, f)
     \<and> (if f_body_off f > f_hdr_len f \<and> f_body_off f \<le> 37 \<and> f_hdr_len f + f_body_len f \<le> 64
     then \<exists>d' g. dot11_frame_depad (Some f) (Some (replicate 64 0)) 64 = Some (True, Some g)
       \<and> f_p g = Some d' \<and> f_len g = f_hdr_len f + f_body_len f
       \<and> take (nat (f_len g)) d' = take (nat (f_hdr_len f)) sample_padded
            @ drop (nat (f_body_off f)) (take (nat 37) sample_padded)
       \<and> dot11_frame_decode (Some d') (f_len g)
            (Some (\<lparr>fcs_present = True, datapad = True, bad_fcs = False\<rparr>\<lparr>datapad := False\<rparr>)) = Some (True, g)
     else dot11_frame_depad (Some f) (Some (replicate 64 0)) 64 = Some (False, Some f))"
proof -
  let ?h = "\<lparr>fcs_present = True, datapad = True, bad_fcs = False\<rparr>"
  have "ftype sample_padded \<noteq> 3 \<and> hdr_size sample_padded \<le> 37" by code_simp
  then have "dot11_frame_decode (Some sample_padded) 37 (Some ?h)
     = Some (True, view sample_padded 37 (Some ?h))"
    using decode_view [of 37 sample_padded "Some ?h"] by (simp add: length_sample_padded)
  then show ?thesis
    by (intro exI conjI, assumption, intro dot11_frame_depad_is_redecode)
       (simp_all add: length_sample_padded)
qed

lemma dot11_ccmp_pn_roundtrip_witness:
  "\<exists>f. dot11_frame_decode (Some (encode_hdr sample_hdr @ (ccmp_hdr 0x123456789abc 0 @ [7])))
         (int (length (encode_hdr sample_hdr @ (ccmp_hdr 0x123456789abc 0 @ [7])))) None = Some (True, f)
     \<and> dot11_frame_ccmp_pn (Some f) = Some (if True then 0x123456789abc else -1)"
  by (rule dot11_ccmp_pn_roundtrip [OF sample_hdr_valid, where key = 0 and rest = "[7]"])
     (simp_all add: sample_hdr_def)

lemma dot11_frame_payload_exact_witness:
  "\<exists>ok f. dot11_frame_decode (Some sample_padded) 37 None = Some (ok, f)
   \<and> (dot11_frame_payload (Some f) = Some (DOT11_DATA_OK, 34, 0x0806)
    \<longleftrightarrow> ok \<and> f_type f = 2 \<and> \<not> bit (f_subtype f) 2 \<and> \<not> f_protected f
      \<and> f_frag_num f = 0 \<and> \<not> f_more_frag f \<and> f_amsdu f \<noteq> 1
      \<and> 34 = f_body_off f + 8 \<and> 34 \<le> (37 :: int)
      \<and> take 3 (drop (nat (f_body_off f)) sample_padded) = [0xaa, 0xaa, 0x03]
      \<and> uint (0x0806 :: u16) = 256 * uint (sample_padded ! nat (34 - 2)) + uint (sample_padded ! nat (34 - 1)))"
proof -
  have "dot11_frame_decode (Some sample_padded) 37 None
     = Some (ftype sample_padded \<noteq> 3 \<and> hdr_size sample_padded \<le> 37, view sample_padded 37 None)"
    by (rule decode_view) (simp_all add: length_sample_padded)
  then show ?thesis
    by (intro exI conjI, assumption, intro dot11_frame_payload_exact) (simp_all add: length_sample_padded)
qed

end
