(* ===== verification/Dot11Data.thy ===== *)
theory Dot11Data
  imports Dot11Frame
begin

text \<open>
  \<open>src/dot11_data.c\<close>: the byte-pointer wrappers over the one decode. Each takes the frame
  and its length, decodes it without radiotap hints and reports one field; what they copy
  out (\<open>memcpy\<close> of six octets) is read through the address pointer of the view, so a NULL
  role pointer would be \<open>None\<close> here.
\<close>

text \<open>The view the wrappers work on, its status ignored.\<close>

definition decode0 :: "bytes option \<Rightarrow> int \<Rightarrow> dot11_frame_t option" where
  "decode0 p len = map_option snd (dot11_frame_decode p len None)"

definition dot11_data_header_len :: "bytes option \<Rightarrow> int \<Rightarrow> int option" where
  "dot11_data_header_len p len = do {
     f \<leftarrow> decode0 p len;
     Some (if p = None \<or> f_type f \<noteq> 2 then -1 else f_hdr_len f) }"

definition dot11_mgmt_hdr_len :: "bytes option \<Rightarrow> int \<Rightarrow> int option" where
  "dot11_mgmt_hdr_len p len = do {
     f \<leftarrow> decode0 p len;
     Some (if p = None \<or> f_type f \<noteq> 0 then -1 else f_hdr_len f) }"

definition dot11_data_payload :: "bytes option \<Rightarrow> int \<Rightarrow> (dot11_data_status_t \<times> int \<times> u16) option" where
  "dot11_data_payload p len =
     (if p = None \<or> len < 4 then Some (DOT11_DATA_TRUNCATED, 0, 0)
      else do { f \<leftarrow> decode0 p len; dot11_frame_payload (Some f) })"

text \<open>The return value and what was written to \<open>bssid\<close>, \<open>sa\<close> and \<open>da\<close>, all requested.\<close>

abbreviation (input) DOT11_ADDRS_NO_BSSID :: int where "DOT11_ADDRS_NO_BSSID \<equiv> 2"

definition dot11_data_addrs ::
  "bytes option \<Rightarrow> int \<Rightarrow> (int \<times> mac option \<times> mac option \<times> mac option) option" where
  "dot11_data_addrs p len =
     (if p = None \<or> len < 24 then Some (0, None, None, None)
      else do {
        f \<leftarrow> decode0 p len;
        if f_type f \<noteq> 2 then Some (0, None, None, None)
        else if f_has_addr4 f then do {
          da \<leftarrow> addr_at f (f_da f);
          if f_sa f = None then Some (0, None, None, Some da)
          else do {
            sa \<leftarrow> addr_at f (f_sa f);
            Some (DOT11_ADDRS_NO_BSSID, None, Some sa, Some da) } }
        else do {
          bssid \<leftarrow> addr_at f (f_bssid f); sa \<leftarrow> addr_at f (f_sa f); da \<leftarrow> addr_at f (f_da f);
          Some (1, Some bssid, Some sa, Some da) } })"

definition dot11_is_group_addr :: "mac option \<Rightarrow> bool" where
  "dot11_is_group_addr addr = (case addr of None \<Rightarrow> False | Some a \<Rightarrow> bit (a ! 0) 0)"

definition dot11_frag_num :: "bytes option \<Rightarrow> int \<Rightarrow> int option" where
  "dot11_frag_num p len =
     (if p = None \<or> len < 24 then Some (-1) else map_option f_frag_num (decode0 p len))"

definition dot11_seq_num :: "bytes option \<Rightarrow> int \<Rightarrow> int option" where
  "dot11_seq_num p len =
     (if p = None \<or> len < 24 then Some (-1) else map_option f_seq_num (decode0 p len))"

definition dot11_more_frags :: "bytes option \<Rightarrow> int \<Rightarrow> int option" where
  "dot11_more_frags p len =
     (if p = None \<or> len < 2 then Some (-1)
      else map_option (\<lambda>f. if f_more_frag f then 1 else 0) (decode0 p len))"

definition dot11_data_tid :: "bytes option \<Rightarrow> int \<Rightarrow> int option" where
  "dot11_data_tid p len =
     (if p = None \<or> len < 2 then Some (-1)
      else map_option (\<lambda>f. dot11_frame_tid (Some f)) (decode0 p len))"

definition dot11_amsdu_present :: "bytes option \<Rightarrow> int \<Rightarrow> int option" where
  "dot11_amsdu_present p len =
     (if p = None \<or> len < 2 then Some (-1)
      else map_option (\<lambda>f. dot11_frame_amsdu (Some f)) (decode0 p len))"

definition dot11_ccmp_pn :: "bytes option \<Rightarrow> int \<Rightarrow> int option" where
  "dot11_ccmp_pn p len =
     (if p = None \<or> len < 24 then Some (-1)
      else do { f \<leftarrow> decode0 p len; dot11_frame_ccmp_pn (Some f) })"

section \<open>Properties\<close>

lemma decode0_view:
  "2 \<le> len \<Longrightarrow> len \<le> int (length b) \<Longrightarrow> decode0 (Some b) len = Some (view b len None)"
  by (simp add: decode0_def decode_view)

lemma addr_at_view:
  "len \<le> int (length b) \<Longrightarrow> froles b len i = Some k \<Longrightarrow>
   addr_at (view b len rt) (froles b len i) = Some (take 6 (drop (nat k) b))"
  by (auto simp: addr_at_def froles_def fa_def split: if_splits)

definition addr_no :: "bytes \<Rightarrow> nat \<Rightarrow> mac" where
  "addr_no b i = take 6 (drop ([0, 4, 10, 16, 24] ! i) b)"

text \<open>
  Table 9-26: for any readable data frame of at least 24 octets the three addresses the
  code reports are the fields the ToDS and FromDS bits select; a four-address frame has no
  BSSID, and its source is read only when Address 4 is inside the frame. No NULL role
  pointer is ever dereferenced.
\<close>

theorem dot11_data_addrs_table:
  assumes "24 \<le> len" and "len \<le> int (length b)" and "ftype b = 2"
  shows "dot11_data_addrs (Some b) len = Some
    (case (bit (b ! 1) 0, bit (b ! 1) 1) of
       (False, False) \<Rightarrow> (1, Some (addr_no b 3), Some (addr_no b 2), Some (addr_no b 1))
     | (False, True) \<Rightarrow> (1, Some (addr_no b 2), Some (addr_no b 3), Some (addr_no b 1))
     | (True, False) \<Rightarrow> (1, Some (addr_no b 1), Some (addr_no b 2), Some (addr_no b 3))
     | (True, True) \<Rightarrow> if len < 30 then (0, None, None, Some (addr_no b 3))
                       else (2, None, Some (addr_no b 4), Some (addr_no b 3)))"
proof -
  have v: "decode0 (Some b) len = Some (view b len None)"
    using assms by (intro decode0_view) auto
  have fa: "fa b len 1 = Some 4" "fa b len 2 = Some 10" "fa b len 3 = Some 16"
    "fa b len 4 = (if 30 \<le> len \<and> faddr4 b then Some 24 else None)"
    using assms by (auto simp: fa_def)
  note at = addr_at_def addr_no_def froles_def role_bssid_def role_sa_def role_da_def faddr4_def
  show ?thesis
    using assms v fa
    by (cases "bit (b ! 1) 0"; cases "bit (b ! 1) 1")
       (simp_all add: dot11_data_addrs_def at del: One_nat_def)
qed

lemma dot11_data_addrs_table_witness:
  "dot11_data_addrs (Some sample_padded) 37 = Some
    (case (bit (sample_padded ! 1) 0, bit (sample_padded ! 1) 1) of
       (False, False) \<Rightarrow> (1, Some (addr_no sample_padded 3), Some (addr_no sample_padded 2), Some (addr_no sample_padded 1))
     | (False, True) \<Rightarrow> (1, Some (addr_no sample_padded 2), Some (addr_no sample_padded 3), Some (addr_no sample_padded 1))
     | (True, False) \<Rightarrow> (1, Some (addr_no sample_padded 1), Some (addr_no sample_padded 2), Some (addr_no sample_padded 3))
     | (True, True) \<Rightarrow> if 37 < (30 :: int) then (0, None, None, Some (addr_no sample_padded 3))
                       else (2, None, Some (addr_no sample_padded 4), Some (addr_no sample_padded 3)))"
  by (rule dot11_data_addrs_table) (simp_all add: length_sample_padded, code_simp)

lemma frag_seq_bounds:
  "0 \<le> uint (fsc b AND 0x000f)" "uint (fsc b AND 0x000f) < 16"
  "uint (drop_bit 4 (fsc b) AND 0x0fff) < 4096"
  unfolding u8_masks uint_and_mask uint_drop
  by simp_all

text \<open>
  The wrappers never read outside the frame, and what they report is in range: a header
  length of 24 to 36 octets inside the frame or -1, fragment and sequence numbers of 4 and
  12 bits or -1, a TID of 4 bits or -1.
\<close>

theorem dot11_data_wrappers_bounded:
  assumes "len \<le> int (length b)"
  shows "\<exists>h m g s t. dot11_data_header_len (Some b) len = Some h \<and> dot11_mgmt_hdr_len (Some b) len = Some m
     \<and> dot11_frag_num (Some b) len = Some g \<and> dot11_seq_num (Some b) len = Some s
     \<and> dot11_data_tid (Some b) len = Some t
     \<and> (h = -1 \<or> 24 \<le> h \<and> h \<le> 36 \<and> h \<le> len) \<and> (m = -1 \<or> m \<in> {24, 28} \<and> m \<le> len)
     \<and> -1 \<le> g \<and> g < 16 \<and> -1 \<le> s \<and> s < 4096 \<and> -1 \<le> t \<and> t < 16"
proof (cases "len < 2")
  case True
  then have "decode0 (Some b) len = Some (frame_init (Some b) len None)"
    by (simp add: decode0_def decode_runt)
  with True show ?thesis
    by (simp add: dot11_data_header_len_def dot11_mgmt_hdr_len_def dot11_frag_num_def
        dot11_seq_num_def dot11_data_tid_def frame_init_def)
next
  case False
  with assms have v: "decode0 (Some b) len = Some (view b len None)" by (simp add: decode0_view)
  have q: "uint (x AND 15 :: u8) < 16" for x
    unfolding u8_masks uint_and_mask by simp
  have hdr: "ftype b = 0 \<Longrightarrow> hdr_size b \<in> {24, 28}" "ftype b = 2 \<Longrightarrow> 24 \<le> hdr_size b"
    using hdr_size_bounds(4) [of b] by (auto simp: hdr_size_def faddr4_def fqos_def)
  have "-1 \<le> f_frag_num (view b len None)" "f_frag_num (view b len None) < 16"
    "-1 \<le> f_seq_num (view b len None)" "f_seq_num (view b len None) < 4096"
    "-1 \<le> f_tid (view b len None)" "f_tid (view b len None) < 16"
    using frag_seq_bounds(2,3) [of b] q by (auto simp: view_seq intro: order_trans [OF _ uint_ge_0])
  moreover have "ftype b = 2 \<Longrightarrow> f_hdr_len (view b len None) = -1
      \<or> 24 \<le> f_hdr_len (view b len None) \<and> f_hdr_len (view b len None) \<le> 36 \<and> f_hdr_len (view b len None) \<le> len"
    "ftype b = 0 \<Longrightarrow> f_hdr_len (view b len None) = -1
      \<or> f_hdr_len (view b len None) \<in> {24, 28} \<and> f_hdr_len (view b len None) \<le> len"
    using hdr hdr_size_bounds(2) [of b] by (auto simp: view_geometry)
  ultimately show ?thesis
    using False v
    by (simp add: dot11_data_header_len_def dot11_mgmt_hdr_len_def dot11_frag_num_def
        dot11_seq_num_def dot11_data_tid_def dot11_frame_tid_def)
qed

lemma dot11_data_wrappers_bounded_witness:
  "\<exists>h m g s t. dot11_data_header_len (Some sample_padded) 37 = Some h \<and> dot11_mgmt_hdr_len (Some sample_padded) 37 = Some m
     \<and> dot11_frag_num (Some sample_padded) 37 = Some g \<and> dot11_seq_num (Some sample_padded) 37 = Some s
     \<and> dot11_data_tid (Some sample_padded) 37 = Some t
     \<and> (h = -1 \<or> 24 \<le> h \<and> h \<le> 36 \<and> h \<le> 37) \<and> (m = -1 \<or> m \<in> {24, 28} \<and> m \<le> 37)
     \<and> -1 \<le> g \<and> g < 16 \<and> -1 \<le> s \<and> s < 4096 \<and> -1 \<le> t \<and> t < 16"
  by (rule dot11_data_wrappers_bounded) (simp add: length_sample_padded)

end
