(* ===== verification/WifiFreq.thy ===== *)
theory WifiFreq
  imports Prelude
begin

text \<open>
  \<open>src/wifi_freq.c\<close>: the band plan, the one frequency to channel converter. The two tables
  are lists of records in the order of the code, and the C loops that return the first
  matching row are \<open>List.find\<close>. C division truncates; the dividend is never negative where
  it is used, so it is \<open>div\<close> here.
\<close>

datatype wifi_band_t = WIFI_BAND_UNKNOWN | WIFI_BAND_2GHZ | WIFI_BAND_5GHZ | WIFI_BAND_6GHZ

text \<open>The C enumerators are ordered by value.\<close>

fun band_value :: "wifi_band_t \<Rightarrow> int" where
  "band_value WIFI_BAND_UNKNOWN = 0"
| "band_value WIFI_BAND_2GHZ = 1"
| "band_value WIFI_BAND_5GHZ = 2"
| "band_value WIFI_BAND_6GHZ = 3"

lemma band_value_inj: "band_value a = band_value b \<Longrightarrow> a = b"
  by (cases a; cases b) simp_all

instantiation wifi_band_t :: linorder
begin

definition less_eq_wifi_band_t :: "wifi_band_t \<Rightarrow> wifi_band_t \<Rightarrow> bool" where
  "less_eq_wifi_band_t a b \<longleftrightarrow> band_value a \<le> band_value b"

definition less_wifi_band_t :: "wifi_band_t \<Rightarrow> wifi_band_t \<Rightarrow> bool" where
  "less_wifi_band_t a b \<longleftrightarrow> band_value a < band_value b"

instance
  by standard (auto simp: less_eq_wifi_band_t_def less_wifi_band_t_def dest: band_value_inj)

end

record band_plan_t =
  bp_band :: wifi_band_t
  lo_ch :: int
  hi_ch :: int
  datum_mhz :: int

definition PLAN :: "band_plan_t list" where
  "PLAN = [
     \<lparr>bp_band = WIFI_BAND_2GHZ, lo_ch = 1, hi_ch = 13, datum_mhz = 2407\<rparr>,
     \<lparr>bp_band = WIFI_BAND_5GHZ, lo_ch = 32, hi_ch = 177, datum_mhz = 5000\<rparr>,
     \<lparr>bp_band = WIFI_BAND_6GHZ, lo_ch = 1, hi_ch = 233, datum_mhz = 5950\<rparr>]"

record band_exception_t =
  be_band :: wifi_band_t
  be_channel :: int
  be_mhz :: int

definition EXCEPTIONS :: "band_exception_t list" where
  "EXCEPTIONS = [
     \<lparr>be_band = WIFI_BAND_2GHZ, be_channel = 14, be_mhz = 2484\<rparr>,
     \<lparr>be_band = WIFI_BAND_6GHZ, be_channel = 2, be_mhz = 5935\<rparr>]"

definition plan_for :: "wifi_band_t \<Rightarrow> band_plan_t option" where
  "plan_for band = find (\<lambda>p. bp_band p = band) PLAN"

definition wifi_freq_band :: "int \<Rightarrow> wifi_band_t" where
  "wifi_freq_band mhz =
     (case find (\<lambda>e. be_mhz e = mhz) EXCEPTIONS of
        Some e \<Rightarrow> be_band e
      | None \<Rightarrow>
         (case find (\<lambda>p. mhz \<ge> datum_mhz p + 5 * lo_ch p \<and> mhz \<le> datum_mhz p + 5 * hi_ch p) PLAN of
            Some p \<Rightarrow> bp_band p
          | None \<Rightarrow> WIFI_BAND_UNKNOWN))"

text \<open>The channel, and the band written through \<open>band_out\<close>.\<close>

definition wifi_freq_channel :: "int \<Rightarrow> int \<times> wifi_band_t" where
  "wifi_freq_channel mhz =
     (let band = wifi_freq_band mhz in
      (if band = WIFI_BAND_UNKNOWN then 0
       else (case find (\<lambda>e. be_mhz e = mhz) EXCEPTIONS of
           Some e \<Rightarrow> be_channel e
         | None \<Rightarrow>
            (case plan_for band of
               None \<Rightarrow> 0
             | Some p \<Rightarrow>
                 let ch = (mhz - datum_mhz p) div 5 in
                 if list_ex (\<lambda>e. be_band e = band \<and> be_channel e = ch) EXCEPTIONS then 0 else ch)),
       band))"

definition wifi_freq_mhz :: "wifi_band_t \<Rightarrow> int \<Rightarrow> int" where
  "wifi_freq_mhz band channel =
     (if channel \<le> 0 then 0
      else (case find (\<lambda>e. be_band e = band \<and> be_channel e = channel) EXCEPTIONS of
          Some e \<Rightarrow> be_mhz e
        | None \<Rightarrow>
           (case plan_for band of
              None \<Rightarrow> 0
            | Some p \<Rightarrow> if channel < lo_ch p \<or> channel > hi_ch p then 0
                        else datum_mhz p + 5 * channel)))"

definition wifi_freq_infer_band :: "int \<Rightarrow> wifi_band_t" where
  "wifi_freq_infer_band channel =
     (if channel \<le> 0 then WIFI_BAND_UNKNOWN
      else (case find (\<lambda>e. be_band e \<noteq> WIFI_BAND_6GHZ \<and> be_channel e = channel) EXCEPTIONS of
          Some e \<Rightarrow> be_band e
        | None \<Rightarrow>
           (case find (\<lambda>p. bp_band p \<noteq> WIFI_BAND_6GHZ \<and> channel \<ge> lo_ch p \<and> channel \<le> hi_ch p) PLAN of
              Some p \<Rightarrow> bp_band p
            | None \<Rightarrow> WIFI_BAND_UNKNOWN)))"

section \<open>Properties\<close>

lemmas wifi_freq_defs = wifi_freq_mhz_def wifi_freq_channel_def wifi_freq_band_def
  wifi_freq_infer_band_def plan_for_def PLAN_def EXCEPTIONS_def Let_def

text \<open>
  Every band-qualified channel that has a centre frequency is named again, with its
  band, by that frequency; so no two channels share a frequency, 6 GHz channel 2 and
  2.4 GHz channel 14 included, and a 2.4/5 GHz channel number alone infers its band.
\<close>

theorem wifi_channel_roundtrip:
  assumes "wifi_freq_mhz band ch \<noteq> 0"
  shows "wifi_freq_channel (wifi_freq_mhz band ch) = (ch, band)
     \<and> (band = WIFI_BAND_6GHZ \<or> wifi_freq_infer_band ch = band)"
  using assms
  by (cases band) (auto simp: wifi_freq_defs split: if_splits)

lemma wifi_channel_roundtrip_witness:
  "wifi_freq_mhz WIFI_BAND_6GHZ 2 = 5935
   \<and> wifi_freq_channel (wifi_freq_mhz WIFI_BAND_6GHZ 2) = (2, WIFI_BAND_6GHZ)
     \<and> (WIFI_BAND_6GHZ = WIFI_BAND_6GHZ \<or> wifi_freq_infer_band 2 = WIFI_BAND_6GHZ)"
  using wifi_channel_roundtrip [of WIFI_BAND_6GHZ 2] by (simp add: wifi_freq_defs)

text \<open>
  The other direction is not exact: a frequency that is not on the 5 MHz grid takes the
  number of the channel below it, so naming a frequency and converting back gives the
  nearest centre at most 4 MHz lower, and the frequency itself only on the grid.
\<close>

theorem wifi_freq_channel_floor:
  assumes "wifi_freq_channel mhz = (ch, band)" and "ch \<noteq> 0"
  shows "wifi_freq_mhz band ch \<le> mhz \<and> mhz - wifi_freq_mhz band ch \<le> 4 \<and> 1 \<le> ch \<and> ch \<le> 233
     \<and> wifi_freq_channel 2413 = (1, WIFI_BAND_2GHZ) \<and> wifi_freq_mhz WIFI_BAND_2GHZ 1 \<noteq> 2413"
proof -
  have "5 * ((mhz - k) div 5) \<le> mhz - k" "mhz - k \<le> 5 * ((mhz - k) div 5) + 4" for k
    by presburger+
  from this [of 2407] this [of 5000] this [of 5950] assms show ?thesis
    by (auto simp: wifi_freq_defs split: if_splits)
qed

lemma wifi_freq_channel_floor_witness:
  "wifi_freq_mhz WIFI_BAND_5GHZ 36 \<le> 5182 \<and> 5182 - wifi_freq_mhz WIFI_BAND_5GHZ 36 \<le> 4
     \<and> (1 :: int) \<le> 36 \<and> (36 :: int) \<le> 233
     \<and> wifi_freq_channel 2413 = (1, WIFI_BAND_2GHZ) \<and> wifi_freq_mhz WIFI_BAND_2GHZ 1 \<noteq> 2413"
  by (rule wifi_freq_channel_floor) (simp_all add: wifi_freq_defs)

end
