(* ===== verification/Radiotap.thy ===== *)
theory Radiotap
  imports Dot11Frame WifiFreq
begin

text \<open>
  \<open>src/radiotap.c\<close> and \<open>src/capture/frame_edge.c\<close>: from a libpcap record to an 802.11
  frame. \<open>radiotap_parse\<close> keeps the control flow of the C function; its specification
  reads every field at the position the radiotap layout gives it (\<open>rt_pos\<close>: fields in bit
  order, each naturally aligned).
\<close>

section \<open>The radiotap header\<close>

abbreviation (input) RT_BIT_TSFT :: nat where "RT_BIT_TSFT \<equiv> 0"
abbreviation (input) RT_BIT_FLAGS :: nat where "RT_BIT_FLAGS \<equiv> 1"
abbreviation (input) RT_BIT_RATE :: nat where "RT_BIT_RATE \<equiv> 2"
abbreviation (input) RT_BIT_CHANNEL :: nat where "RT_BIT_CHANNEL \<equiv> 3"
abbreviation (input) RT_BIT_FHSS :: nat where "RT_BIT_FHSS \<equiv> 4"
abbreviation (input) RT_BIT_DBM_ANTSIGNAL :: nat where "RT_BIT_DBM_ANTSIGNAL \<equiv> 5"
abbreviation (input) RT_BIT_EXT :: nat where "RT_BIT_EXT \<equiv> 31"

record radiotap_info_t =
  signal_dbm :: int
  has_signal :: bool
  freq_mhz :: int
  rt_channel :: int
  rate_kbps :: int
  rt_bad_fcs :: bool
  rt_fcs_present :: bool
  rt_datapad :: bool
  has_flags :: bool
  rt_hdr_len :: int

definition RT_PAD :: "int \<Rightarrow> int \<Rightarrow> int" where
  "RT_PAD off a = (off + (a - 1)) AND NOT (a - 1)"

definition radiotap_freq_to_channel :: "int \<Rightarrow> int" where
  "radiotap_freq_to_channel mhz = fst (wifi_freq_channel mhz)"

definition radiotap_freq_to_band :: "int \<Rightarrow> wifi_band_t" where
  "radiotap_freq_to_band mhz = wifi_freq_band mhz"

definition rti_init :: radiotap_info_t where
  "rti_init = \<lparr>signal_dbm = -100, has_signal = False, freq_mhz = 0, rt_channel = 0,
     rate_kbps = 0, rt_bad_fcs = False, rt_fcs_present = False, rt_datapad = False,
     has_flags = False, rt_hdr_len = 0\<rparr>"

text \<open>
  The loop over the extended present words: \<open>Some None\<close> is the \<open>return 0\<close> on a truncated
  header, \<open>Some (Some off)\<close> the offset after the last word.
\<close>

function rt_skip :: "bytes \<Rightarrow> int \<Rightarrow> u32 \<Rightarrow> int \<Rightarrow> int option option" where
  "rt_skip buf rt_len word off =
     (if \<not> bit word RT_BIT_EXT then Some (Some off)
      else if off + 4 > rt_len then Some None
      else do { word \<leftarrow> le32 buf off; rt_skip buf rt_len word (off + 4) })"
  by pat_completeness auto
termination by (relation "measure (\<lambda>(_, rt_len, _, off). nat (rt_len - off))") auto

declare rt_skip.simps [simp del]

text \<open>The fields, each step with its early return (\<open>Inl\<close>) as in the C function.\<close>

definition rt_flags :: "bytes \<Rightarrow> int \<Rightarrow> u32 \<Rightarrow> int \<Rightarrow> radiotap_info_t
    \<Rightarrow> (radiotap_info_t + int \<times> radiotap_info_t) option" where
  "rt_flags buf rt_len pres off out =
     (if bit pres RT_BIT_FLAGS
      then (if off + 1 > rt_len then Some (Inl out)
            else do {
              v \<leftarrow> byte_at buf off;
              Some (Inr (off + 1, out\<lparr>has_flags := True, rt_bad_fcs := (v AND 0x40 \<noteq> 0),
                rt_fcs_present := (v AND 0x10 \<noteq> 0), rt_datapad := (v AND 0x20 \<noteq> 0)\<rparr>)) })
      else Some (Inr (off, out)))"

definition rt_rate :: "bytes \<Rightarrow> int \<Rightarrow> u32 \<Rightarrow> int \<Rightarrow> radiotap_info_t
    \<Rightarrow> (radiotap_info_t + int \<times> radiotap_info_t) option" where
  "rt_rate buf rt_len pres off out =
     (if bit pres RT_BIT_RATE
      then (if off + 1 > rt_len then Some (Inl out)
            else do { v \<leftarrow> byte_at buf off; Some (Inr (off + 1, out\<lparr>rate_kbps := uint v * 500\<rparr>)) })
      else Some (Inr (off, out)))"

definition rt_chan :: "bytes \<Rightarrow> int \<Rightarrow> u32 \<Rightarrow> int \<Rightarrow> radiotap_info_t \<Rightarrow> (int \<times> radiotap_info_t) option" where
  "rt_chan buf rt_len pres off out =
     (if bit pres RT_BIT_CHANNEL
      then do {
        let off = RT_PAD off 2;
        out \<leftarrow> (if off + 2 \<le> rt_len
                then do {
                  w \<leftarrow> le16 buf off;
                  let freq = uint w;
                  Some (out\<lparr>freq_mhz := freq, rt_channel := radiotap_freq_to_channel freq\<rparr>) }
                else Some out);
        Some (off + 4, out) }
      else Some (off, out))"

definition rt_signal :: "bytes \<Rightarrow> int \<Rightarrow> u32 \<Rightarrow> int \<Rightarrow> radiotap_info_t \<Rightarrow> radiotap_info_t option" where
  "rt_signal buf rt_len pres off out =
     (if bit pres RT_BIT_DBM_ANTSIGNAL \<and> off < rt_len
      then do { v \<leftarrow> byte_at buf off; Some (out\<lparr>signal_dbm := sint v, has_signal := True\<rparr>) }
      else Some out)"

definition radiotap_parse :: "bytes option \<Rightarrow> int \<Rightarrow> (bool \<times> radiotap_info_t) option" where
  "radiotap_parse bufo len =
     (let out = rti_init in
      case bufo of None \<Rightarrow> Some (False, out)
      | Some buf \<Rightarrow>
         if len < 8 then Some (False, out)
         else do {
           w \<leftarrow> le16 buf 2;
           let rt_len = uint w;
           if rt_len < 8 \<or> rt_len > len then Some (False, out)
           else do {
             let out = out\<lparr>rt_hdr_len := rt_len\<rparr>;
             pres \<leftarrow> le32 buf 4;
             sk \<leftarrow> rt_skip buf rt_len pres 8;
             (case sk of None \<Rightarrow> Some (False, out)
              | Some off \<Rightarrow> do {
                  let off = (if bit pres RT_BIT_TSFT then RT_PAD off 8 + 8 else off);
                  r \<leftarrow> rt_flags buf rt_len pres off out;
                  (case r of Inl out \<Rightarrow> Some (True, out)
                   | Inr (off, out) \<Rightarrow> do {
                       r \<leftarrow> rt_rate buf rt_len pres off out;
                       (case r of Inl out \<Rightarrow> Some (True, out)
                        | Inr (off, out) \<Rightarrow> do {
                            (off, out) \<leftarrow> rt_chan buf rt_len pres off out;
                            let off = (if bit pres RT_BIT_FHSS then off + 2 else off);
                            out \<leftarrow> rt_signal buf rt_len pres off out;
                            Some (True, out) }) }) }) } })"

section \<open>The pcap edge\<close>

abbreviation (input) FRAME_CAPLEN_MAX :: u32 where "FRAME_CAPLEN_MAX \<equiv> 65535"
abbreviation (input) FRAME_DOT11_MIN :: int where "FRAME_DOT11_MIN \<equiv> 10"

record frame_view_t =
  fv_data :: "bytes option"
  fv_caplen :: int
  fv_origlen :: u32
  fv_ts_sec :: time_t
  fv_ts_usec :: u32
  fv_dlt :: int

text \<open>\<open>None\<close> is a rejected record (the view is left zeroed).\<close>

definition frame_view_init ::
  "bytes option \<Rightarrow> u32 \<Rightarrow> u32 \<Rightarrow> int \<Rightarrow> int \<Rightarrow> int \<Rightarrow> frame_view_t option" where
  "frame_view_init data caplen origlen ts_sec ts_usec dlt =
     (if data = None then None
      else if caplen = 0 then None
      else if caplen > FRAME_CAPLEN_MAX then None
      else if caplen > origlen then None
      else if ts_usec < 0 \<or> ts_usec \<ge> 1000000 then None
      else Some \<lparr>fv_data = data, fv_caplen = uint caplen, fv_origlen = origlen,
                 fv_ts_sec = ts_sec, fv_ts_usec = word_of_int ts_usec, fv_dlt = dlt\<rparr>)"

datatype frame_rt_verdict_t = FRAME_RT_BAD | FRAME_RT_OK | FRAME_RT_RUNT

text \<open>The verdict, \<open>*rti\<close>, \<open>*dot11\<close> (what is readable from it) and \<open>*dot11_len\<close>.\<close>

definition frame_view_radiotap :: "frame_view_t option
    \<Rightarrow> (frame_rt_verdict_t \<times> radiotap_info_t \<times> bytes option \<times> int) option" where
  "frame_view_radiotap fo =
     (case fo of
        None \<Rightarrow> do { (ok, rti) \<leftarrow> radiotap_parse None 0; Some (FRAME_RT_BAD, rti, None, 0) }
      | Some f \<Rightarrow>
         (case fv_data f of
            None \<Rightarrow> do { (ok, rti) \<leftarrow> radiotap_parse None 0; Some (FRAME_RT_BAD, rti, None, 0) }
          | Some data \<Rightarrow> do {
              (ok, rti) \<leftarrow> radiotap_parse (Some data) (fv_caplen f);
              if \<not> ok then Some (FRAME_RT_BAD, rti, None, 0)
              else do {
                let rt = rt_hdr_len rti;
                let len = fv_caplen f - rt;
                let short_by = fv_origlen f - word_of_int (fv_caplen f);
                let ol = (if short_by \<ge> 4 then fv_caplen f + 4 else fv_caplen f + uint short_by);
                let strip = dot11_fcs_strip_len (fv_caplen f) ol (rt_fcs_present rti);
                let strip = (if strip > len then len else strip);
                let len = len - strip;
                if len < FRAME_DOT11_MIN then Some (FRAME_RT_RUNT, rti, None, 0)
                else Some (FRAME_RT_OK, rti, Some (drop (nat rt) data), len) } }))"

section \<open>The layout\<close>

lemma and_not_mask_int: "(x :: int) AND NOT (mask n) = x - x mod 2 ^ n"
proof -
  have "x AND NOT (mask n) = push_bit n (drop_bit n x)"
    by (rule bit_eqI) (auto simp: bit_simps)
  then show ?thesis
    using bits_ident [of n x] by (simp add: take_bit_eq_mod)
qed

lemma RT_PAD_pow: "RT_PAD off (2 ^ n) = off + 2 ^ n - 1 - (off + 2 ^ n - 1) mod 2 ^ n"
  using and_not_mask_int [of "off + 2 ^ n - 1" n] by (simp add: RT_PAD_def mask_eq_exp_minus_1 add_diff_eq)

lemma RT_PAD_1 [simp]: "RT_PAD off 1 = off"
  by (simp add: RT_PAD_def)

lemma RT_PAD_bounds: "off \<le> RT_PAD off (2 ^ n)" "RT_PAD off (2 ^ n) < off + 2 ^ n"
  "RT_PAD off (2 ^ n) mod 2 ^ n = 0"
proof -
  let ?m = "(off + 2 ^ n - 1) mod 2 ^ n"
  have "0 \<le> ?m" "?m \<le> 2 ^ n - 1" by simp_all
  then show "off \<le> RT_PAD off (2 ^ n)" "RT_PAD off (2 ^ n) < off + 2 ^ n"
    unfolding RT_PAD_pow by linarith+
  show "RT_PAD off (2 ^ n) mod 2 ^ n = 0"
    unfolding RT_PAD_pow by (metis minus_mod_eq_mult_div mod_mult_self1_is_0)
qed

lemma RT_PAD_2_8: "off \<le> RT_PAD off 2" "off \<le> RT_PAD off 8"
  using RT_PAD_bounds(1) [of off 1] RT_PAD_bounds(1) [of off 3] by simp_all

text \<open>Alignment and size of the fields of present bits 0 to 5, and where a field sits.\<close>

definition rt_align :: "nat \<Rightarrow> int" where "rt_align k = [8, 1, 1, 2, 1, 1] ! k"
definition rt_size :: "nat \<Rightarrow> int" where "rt_size k = [8, 1, 1, 4, 2, 1] ! k"

fun rt_end :: "u32 \<Rightarrow> int \<Rightarrow> nat \<Rightarrow> int" where
  "rt_end pres start 0 = start"
| "rt_end pres start (Suc k) =
     (if bit pres k then RT_PAD (rt_end pres start k) (rt_align k) + rt_size k
      else rt_end pres start k)"

definition rt_pos :: "u32 \<Rightarrow> int \<Rightarrow> nat \<Rightarrow> int" where
  "rt_pos pres start k = RT_PAD (rt_end pres start k) (rt_align k)"

definition rt_has :: "int \<Rightarrow> u32 \<Rightarrow> int \<Rightarrow> nat \<Rightarrow> int \<Rightarrow> bool" where
  "rt_has rt_len pres start k n \<longleftrightarrow> bit pres k \<and> rt_pos pres start k + n \<le> rt_len"

definition rt_spec :: "bytes \<Rightarrow> int \<Rightarrow> u32 \<Rightarrow> int \<Rightarrow> radiotap_info_t" where
  "rt_spec buf rt_len pres start =
     (let at = (\<lambda>k. buf ! nat (rt_pos pres start k));
          fl = rt_has rt_len pres start 1 1; ch = rt_has rt_len pres start 3 2;
          hz = uint (ucast (at 3) OR push_bit 8 (ucast (buf ! nat (rt_pos pres start 3 + 1))) :: u16)
      in \<lparr>signal_dbm = (if rt_has rt_len pres start 5 1 then sint (at 5) else -100),
          has_signal = rt_has rt_len pres start 5 1,
          freq_mhz = (if ch then hz else 0),
          rt_channel = (if ch then fst (wifi_freq_channel hz) else 0),
          rate_kbps = (if rt_has rt_len pres start 2 1 then uint (at 2) * 500 else 0),
          rt_bad_fcs = (fl \<and> bit (at 1) 6), rt_fcs_present = (fl \<and> bit (at 1) 4),
          rt_datapad = (fl \<and> bit (at 1) 5), has_flags = fl, rt_hdr_len = rt_len\<rparr>)"

text \<open>The present words: the chain ends at the first word without bit 31.\<close>

definition rt_word :: "bytes \<Rightarrow> nat \<Rightarrow> u32" where "rt_word buf i = the (le32 buf (4 + 4 * int i))"

lemma rt_skip_chain:
  assumes "rt_len \<le> int (length buf)" "off = 8 + 4 * int n" "word = rt_word buf n"
    "off \<le> rt_len" "\<forall>i<n. bit (rt_word buf i) 31"
  shows "\<exists>r. rt_skip buf rt_len word off = Some r
     \<and> (case r of
          None \<Rightarrow> \<exists>m. rt_len < 8 + 4 * int m \<and> (\<forall>i<m. bit (rt_word buf i) 31)
        | Some start \<Rightarrow> \<exists>m. start = 8 + 4 * int m \<and> start \<le> rt_len
             \<and> (\<forall>i<m. bit (rt_word buf i) 31) \<and> \<not> bit (rt_word buf m) 31)"
  using assms
proof (induction buf rt_len word off arbitrary: n rule: rt_skip.induct)
  case (1 buf rt_len word off)
  show ?case
  proof (cases "bit word 31 \<and> off + 4 \<le> rt_len")
    case True
    obtain w where w: "le32 buf off = Some w"
      using True "1.prems" le32_readable [of off buf] by auto
    then have "rt_word buf (Suc n) = w"
      using "1.prems"(2) by (simp add: rt_word_def algebra_simps)
    moreover have "\<forall>i<Suc n. bit (rt_word buf i) 31"
      using "1.prems"(3,5) True by (simp add: less_Suc_eq)
    ultimately have "\<exists>r. rt_skip buf rt_len w (off + 4) = Some r
     \<and> (case r of
          None \<Rightarrow> \<exists>m. rt_len < 8 + 4 * int m \<and> (\<forall>i<m. bit (rt_word buf i) 31)
        | Some start \<Rightarrow> \<exists>m. start = 8 + 4 * int m \<and> start \<le> rt_len
             \<and> (\<forall>i<m. bit (rt_word buf i) 31) \<and> \<not> bit (rt_word buf m) 31)"
      using True w "1.prems"(1,2) by (intro "1.IH" [of w "Suc n"]) auto
    then show ?thesis
      using True w by (simp add: rt_skip.simps [of buf rt_len word off])
  next
    case False
    show ?thesis
    proof (cases "bit word 31")
      case True
      with False have "rt_len < 8 + 4 * int (Suc n)" using "1.prems"(2) by simp
      moreover have "\<forall>i<Suc n. bit (rt_word buf i) 31"
        using "1.prems"(3,5) True by (simp add: less_Suc_eq)
      ultimately have "\<exists>m. rt_len < 8 + 4 * int m \<and> (\<forall>i<m. bit (rt_word buf i) 31)" by blast
      moreover have "rt_skip buf rt_len word off = Some None"
        using True False by (simp add: rt_skip.simps [of buf rt_len word off])
      ultimately show ?thesis by (intro exI [of _ None]) simp
    next
      case F: False
      then have "rt_skip buf rt_len word off = Some (Some off)"
        by (simp add: rt_skip.simps [of buf rt_len word off])
      moreover have "\<not> bit (rt_word buf n) 31" using F "1.prems"(3) by simp
      ultimately show ?thesis
        using "1.prems"(2,4,5) by (intro exI [of _ "Some off"]) auto
    qed
  qed
qed

lemma rt_positions:
  "rt_end pres s 1 = (if bit pres 0 then RT_PAD s 8 + 8 else s)"
  "rt_end pres s 2 = (if bit pres 1 then rt_end pres s 1 + 1 else rt_end pres s 1)"
  "rt_end pres s 3 = (if bit pres 2 then rt_end pres s 2 + 1 else rt_end pres s 2)"
  "rt_end pres s 4 = (if bit pres 3 then RT_PAD (rt_end pres s 3) 2 + 4 else rt_end pres s 3)"
  "rt_end pres s 5 = (if bit pres 4 then rt_end pres s 4 + 2 else rt_end pres s 4)"
  "rt_pos pres s 1 = rt_end pres s 1" "rt_pos pres s 2 = rt_end pres s 2"
  "rt_pos pres s 3 = RT_PAD (rt_end pres s 3) 2" "rt_pos pres s 5 = rt_end pres s 5"
  by (simp_all add: rt_pos_def rt_align_def rt_size_def eval_nat_numeral RT_PAD_1 [unfolded One_nat_def])

lemma rt_end_step:
  assumes "k < 6"
  shows "rt_end pres s k \<le> rt_end pres s (Suc k)"
proof -
  from assms have "k \<in> {0, 1, 2, 3, 4, 5}" by auto
  then have "rt_align k \<in> {1, 2, 8} \<and> 0 \<le> rt_size k" by (auto simp: rt_align_def rt_size_def)
  then show ?thesis
    using RT_PAD_2_8 [of "rt_end pres s k"] by auto
qed

lemma rt_end_mono: "s \<le> rt_end pres s 1" "rt_end pres s 1 \<le> rt_end pres s 2"
  "rt_end pres s 2 \<le> rt_end pres s 3" "rt_end pres s 3 \<le> rt_end pres s 4"
  "rt_end pres s 4 \<le> rt_end pres s 5" "rt_end pres s 3 \<le> RT_PAD (rt_end pres s 3) 2"
  using rt_end_step [of 0 pres s] rt_end_step [of 1 pres s] rt_end_step [of 2 pres s]
    rt_end_step [of 3 pres s] rt_end_step [of 4 pres s] RT_PAD_2_8(1)
  by (simp_all add: eval_nat_numeral del: rt_end.simps(2))

text \<open>The tail of the parser, from the first field on.\<close>

definition rt_fields :: "bytes \<Rightarrow> int \<Rightarrow> u32 \<Rightarrow> int \<Rightarrow> radiotap_info_t \<Rightarrow> (bool \<times> radiotap_info_t) option" where
  "rt_fields buf rt_len pres off out = do {
      let off = (if bit pres RT_BIT_TSFT then RT_PAD off 8 + 8 else off);
      r \<leftarrow> rt_flags buf rt_len pres off out;
      (case r of Inl out \<Rightarrow> Some (True, out)
       | Inr (off, out) \<Rightarrow> do {
           r \<leftarrow> rt_rate buf rt_len pres off out;
           (case r of Inl out \<Rightarrow> Some (True, out)
            | Inr (off, out) \<Rightarrow> do {
                (off, out) \<leftarrow> rt_chan buf rt_len pres off out;
                let off = (if bit pres RT_BIT_FHSS then off + 2 else off);
                out \<leftarrow> rt_signal buf rt_len pres off out;
                Some (True, out) }) }) }"

lemma and_bits: "(v :: u8) AND 0x40 = 0 \<longleftrightarrow> \<not> bit v 6" "(v :: u8) AND 0x10 = 0 \<longleftrightarrow> \<not> bit v 4"
  "(v :: u8) AND 0x20 = 0 \<longleftrightarrow> \<not> bit v 5"
  using and_exp_eq_0_iff_not_bit [of v 6] and_exp_eq_0_iff_not_bit [of v 4]
    and_exp_eq_0_iff_not_bit [of v 5] by simp_all

lemma rt_fields_spec:
  assumes "rt_len \<le> int (length buf)" "0 \<le> s"
  shows "rt_fields buf rt_len pres s (rti_init\<lparr>rt_hdr_len := rt_len\<rparr>)
     = Some (True, rt_spec buf rt_len pres s)"
proof -
  define e1 e2 e3 e4 e5 where e: "e1 = rt_end pres s 1" "e2 = rt_end pres s 2" "e3 = rt_end pres s 3"
    "e4 = rt_end pres s 4" "e5 = rt_end pres s 5"
  note pos = rt_positions [of pres s, folded e]
  note mono = rt_end_mono [where s = s and pres = pres, folded e]
  have ge: "0 \<le> e1" "0 \<le> e2" "0 \<le> e3" "0 \<le> e4" "0 \<le> e5" "0 \<le> RT_PAD e3 2"
    using mono assms(2) by linarith+
  have fl: "rt_flags buf rt_len pres e1 out = Some
      (if bit pres 1 \<and> e1 + 1 > rt_len then Inl out
       else Inr (e2, if bit pres 1 then out\<lparr>has_flags := True, rt_bad_fcs := bit (buf ! nat e1) 6,
         rt_fcs_present := bit (buf ! nat e1) 4, rt_datapad := bit (buf ! nat e1) 5\<rparr> else out))" for out
    using ge assms(1) by (simp add: rt_flags_def pos(2) and_bits)
  have ra: "rt_rate buf rt_len pres e2 out = Some
      (if bit pres 2 \<and> e2 + 1 > rt_len then Inl out
       else Inr (e3, if bit pres 2 then out\<lparr>rate_kbps := uint (buf ! nat e2) * 500\<rparr> else out))" for out
    using ge assms(1) by (simp add: rt_rate_def pos(3))
  have ch: "rt_chan buf rt_len pres e3 out = Some
      (e4, if bit pres 3 \<and> RT_PAD e3 2 + 2 \<le> rt_len
           then let hz = uint (ucast (buf ! nat (RT_PAD e3 2))
                   OR push_bit 8 (ucast (buf ! nat (RT_PAD e3 2 + 1))) :: u16)
                in out\<lparr>freq_mhz := hz, rt_channel := fst (wifi_freq_channel hz)\<rparr>
           else out)" for out
    using ge assms(1) by (simp add: rt_chan_def pos(4) radiotap_freq_to_channel_def Let_def)
  have si: "rt_signal buf rt_len pres e5 out = Some
      (if bit pres 5 \<and> e5 < rt_len then out\<lparr>signal_dbm := sint (buf ! nat e5), has_signal := True\<rparr> else out)" for out
    using ge assms(1) by (simp add: rt_signal_def)
  have tail: "rt_fields buf rt_len pres s out = do {
      r \<leftarrow> rt_flags buf rt_len pres e1 out;
      (case r of Inl out \<Rightarrow> Some (True, out)
       | Inr (off, out) \<Rightarrow> do {
           r \<leftarrow> rt_rate buf rt_len pres off out;
           (case r of Inl out \<Rightarrow> Some (True, out)
            | Inr (off, out) \<Rightarrow> do {
                (off, out) \<leftarrow> rt_chan buf rt_len pres off out;
                out \<leftarrow> rt_signal buf rt_len pres (if bit pres 4 then off + 2 else off) out;
                Some (True, out) }) }) }" for out
    by (simp add: rt_fields_def pos(1) Let_def)
  consider (A) "bit pres 1" "e1 + 1 > rt_len"
    | (B) "\<not> (bit pres 1 \<and> e1 + 1 > rt_len)" "bit pres 2" "e2 + 1 > rt_len"
    | (C) "\<not> (bit pres 1 \<and> e1 + 1 > rt_len)" "\<not> (bit pres 2 \<and> e2 + 1 > rt_len)" by blast
  then show ?thesis
  proof cases
    case A
    with mono pos(2) have "rt_len < e2 + 1" "rt_len < e5 + 1" "rt_len < RT_PAD e3 2 + 2" by linarith+
    with A show ?thesis
      by (simp add: tail fl rt_spec_def rt_has_def pos(6-9) rti_init_def Let_def del: One_nat_def)
  next
    case B
    with mono pos(3) have "rt_len < e5 + 1" "rt_len < RT_PAD e3 2 + 2" by linarith+
    with B show ?thesis
      by (cases "bit pres 1") (simp_all add: tail fl ra rt_spec_def rt_has_def pos(6-9) rti_init_def Let_def del: One_nat_def)
  next
    case C
    have e4': "(if bit pres 4 then e4 + 2 else e4) = e5" using pos(5) by simp
    define h3 where "h3 = (bit pres 3 \<and> RT_PAD e3 2 + 2 \<le> rt_len)"
    define h5 where "h5 = (bit pres 5 \<and> e5 < rt_len)"
    have h: "rt_has rt_len pres s 1 1 = bit pres 1" "rt_has rt_len pres s 2 1 = bit pres 2"
      "rt_has rt_len pres s 5 1 = h5" "rt_has rt_len pres s 3 2 = h3"
      using C unfolding rt_has_def pos(6-9) h3_def h5_def by auto
    note steps = fl [unfolded if_not_P [OF C(1)]] ra [unfolded if_not_P [OF C(2)]]
      ch [folded h3_def] si [folded h5_def]
    show ?thesis
      unfolding tail steps rt_spec_def h pos(6-9)
      by (cases "bit pres 1"; cases "bit pres 2"; cases h3; cases h5)
         (simp_all add: steps e4' pos(6-9) rti_init_def Let_def del: One_nat_def)
  qed
qed

lemma radiotap_parse_fields:
  "radiotap_parse bufo len =
     (let out = rti_init in
      case bufo of None \<Rightarrow> Some (False, out)
      | Some buf \<Rightarrow>
         if len < 8 then Some (False, out)
         else do {
           w \<leftarrow> le16 buf 2;
           let rt_len = uint w;
           if rt_len < 8 \<or> rt_len > len then Some (False, out)
           else do {
             let out = out\<lparr>rt_hdr_len := rt_len\<rparr>;
             pres \<leftarrow> le32 buf 4;
             sk \<leftarrow> rt_skip buf rt_len pres 8;
             (case sk of None \<Rightarrow> Some (False, out)
              | Some off \<Rightarrow> rt_fields buf rt_len pres off out) } })"
  unfolding radiotap_parse_def rt_fields_def by (rule refl)

text \<open>The length field, and a chain of present words that ends inside the header.\<close>

definition rt_it_len :: "bytes \<Rightarrow> int" where
  "rt_it_len buf = uint (ucast (buf ! 2) OR push_bit 8 (ucast (buf ! 3)) :: u16)"

definition rt_chain :: "bytes \<Rightarrow> nat \<Rightarrow> bool" where
  "rt_chain buf m \<longleftrightarrow> 8 + 4 * int m \<le> rt_it_len buf
     \<and> (\<forall>i<m. bit (rt_word buf i) 31) \<and> \<not> bit (rt_word buf m) 31"

lemma rt_chain_unique: "rt_chain buf m \<Longrightarrow> rt_chain buf n \<Longrightarrow> m = n"
  unfolding rt_chain_def by (metis linorder_neqE_nat)

lemma radiotap_parse_result:
  assumes "8 \<le> len" and "len \<le> int (length buf)"
  shows "\<exists>ok out. radiotap_parse (Some buf) len = Some (ok, out)
     \<and> (ok \<longleftrightarrow> 8 \<le> rt_it_len buf \<and> rt_it_len buf \<le> len \<and> (\<exists>m. rt_chain buf m))
     \<and> (\<forall>m. ok \<and> rt_chain buf m
          \<longrightarrow> out = rt_spec buf (rt_it_len buf) (rt_word buf 0) (8 + 4 * int m))
     \<and> (\<not> ok \<longrightarrow> out\<lparr>rt_hdr_len := 0\<rparr> = rti_init)"
proof -
  let ?L = "rt_it_len buf"
  have l16: "le16 buf 2 = Some (ucast (buf ! 2) OR push_bit 8 (ucast (buf ! 3)))"
    using assms by simp
  obtain pres where pres: "le32 buf 4 = Some pres"
    using assms le32_readable [of 4 buf] by auto
  then have w0: "rt_word buf 0 = pres" by (simp add: rt_word_def)
  show ?thesis
  proof (cases "?L < 8 \<or> ?L > len")
    case True
    then have "radiotap_parse (Some buf) len = Some (False, rti_init)"
      using assms l16 by (auto simp: radiotap_parse_def rt_it_len_def Let_def)
    with True show ?thesis by (intro exI [of _ False] exI [of _ rti_init]) (auto simp: rti_init_def)
  next
    case False
    from rt_skip_chain [of ?L buf 8 0 pres] assms False w0 obtain r where
      sk: "rt_skip buf ?L pres 8 = Some r"
      and r: "case r of
          None \<Rightarrow> \<exists>m. ?L < 8 + 4 * int m \<and> (\<forall>i<m. bit (rt_word buf i) 31)
        | Some start \<Rightarrow> \<exists>m. start = 8 + 4 * int m \<and> start \<le> ?L
             \<and> (\<forall>i<m. bit (rt_word buf i) 31) \<and> \<not> bit (rt_word buf m) 31" by auto
    have parse: "radiotap_parse (Some buf) len = (case r of None \<Rightarrow> Some (False, rti_init\<lparr>rt_hdr_len := ?L\<rparr>)
        | Some off \<Rightarrow> rt_fields buf ?L pres off (rti_init\<lparr>rt_hdr_len := ?L\<rparr>))"
      using assms False l16 pres sk
      by (simp add: radiotap_parse_fields rt_it_len_def [symmetric] Let_def)
    show ?thesis
    proof (cases r)
      case None
      with r obtain m where m: "?L < 8 + 4 * int m" "\<forall>i<m. bit (rt_word buf i) 31" by auto
      have "\<not> rt_chain buf n" for n
      proof
        assume n: "rt_chain buf n"
        then have "n < m" using m(1) by (auto simp: rt_chain_def)
        with m(2) n show False by (auto simp: rt_chain_def)
      qed
      with None parse show ?thesis
        by (intro exI [of _ False] exI [of _ "rti_init\<lparr>rt_hdr_len := ?L\<rparr>"]) (auto simp: rti_init_def)
    next
      case (Some start)
      with r obtain m where m: "start = 8 + 4 * int m" "rt_chain buf m" by (auto simp: rt_chain_def)
      have "radiotap_parse (Some buf) len = Some (True, rt_spec buf ?L pres start)"
        using Some parse rt_fields_spec [of ?L buf start pres] assms False m(1) by simp
      moreover have "\<forall>n. True \<and> rt_chain buf n
          \<longrightarrow> rt_spec buf ?L pres start = rt_spec buf ?L (rt_word buf 0) (8 + 4 * int n)"
        using rt_chain_unique [OF m(2)] m(1) w0 by blast
      moreover have "8 \<le> ?L \<and> ?L \<le> len \<and> (\<exists>m. rt_chain buf m)" using False m(2) by auto
      ultimately show ?thesis by blast
    qed
  qed
qed

text \<open>
  C25: For every octet string the radiotap parser returns and reads nothing outside the
  header it declares. It accepts exactly when the declared length is at least 8 and inside
  the capture and the present words end inside the header; then every field is read at the
  position the radiotap layout gives it (all present words skipped, natural alignment), and
  a field that does not fit is reported as absent. On a refusal only the defaults are left.
\<close>

theorem radiotap_parse_layout:
  assumes "8 \<le> len" and "len \<le> int (length buf)"
  shows "\<exists>ok out. radiotap_parse (Some buf) len = Some (ok, out)
     \<and> (ok \<longleftrightarrow> 8 \<le> rt_it_len buf \<and> rt_it_len buf \<le> len \<and> (\<exists>m. rt_chain buf m))
     \<and> (\<forall>m. ok \<and> rt_chain buf m
          \<longrightarrow> out = rt_spec buf (rt_it_len buf) (rt_word buf 0) (8 + 4 * int m))
     \<and> (\<not> ok \<longrightarrow> out\<lparr>rt_hdr_len := 0\<rparr> = rti_init)"
  using assms by (rule radiotap_parse_result)

text \<open>Flags, rate and antenna signal, all octet-aligned after one present word.\<close>

definition sample_rt :: bytes where
  "sample_rt = [0, 0, 13, 0, 0x26, 0, 0, 0, 0x10, 2, 0, 0, 0xC4]"

lemma length_sample_rt: "length sample_rt = 13" by (simp add: sample_rt_def)

lemma radiotap_parse_layout_witness:
  "\<exists>ok out. radiotap_parse (Some sample_rt) 13 = Some (ok, out)
     \<and> (ok \<longleftrightarrow> 8 \<le> rt_it_len sample_rt
          \<and> rt_it_len sample_rt \<le> 13
          \<and> (\<exists>m. rt_chain sample_rt m))
     \<and> (\<forall>m. ok \<and> rt_chain sample_rt m
          \<longrightarrow> out = rt_spec sample_rt
                (rt_it_len sample_rt)
                (rt_word sample_rt 0) (8 + 4 * int m))
     \<and> (\<not> ok \<longrightarrow> out\<lparr>rt_hdr_len := 0\<rparr> = rti_init)"
  by (rule radiotap_parse_layout) (simp_all add: length_sample_rt)

section \<open>The edge gate\<close>

lemma radiotap_parse_short: "len < 8 \<Longrightarrow> radiotap_parse (Some buf) len = Some (False, rti_init)"
  "radiotap_parse None len = Some (False, rti_init)"
  by (simp_all add: radiotap_parse_def Let_def)

lemma radiotap_parse_total:
  assumes "len \<le> int (length buf)"
  shows "\<exists>ok out. radiotap_parse (Some buf) len = Some (ok, out)
     \<and> (ok \<longrightarrow> 8 \<le> rt_hdr_len out \<and> rt_hdr_len out \<le> len \<and> rt_hdr_len out = rt_it_len buf)"
proof (cases "len < 8")
  case True
  then show ?thesis by (auto simp: radiotap_parse_short)
next
  case False
  then obtain ok out where
    p: "radiotap_parse (Some buf) len = Some (ok, out)"
      "ok \<longleftrightarrow> 8 \<le> rt_it_len buf \<and> rt_it_len buf \<le> len \<and> (\<exists>m. rt_chain buf m)"
      "\<forall>m. ok \<and> rt_chain buf m
          \<longrightarrow> out = rt_spec buf (rt_it_len buf) (rt_word buf 0) (8 + 4 * int m)"
    using radiotap_parse_result [of len buf] assms by auto
  have "rt_hdr_len out = rt_it_len buf" if ok
  proof -
    from that p(2) obtain m where "rt_chain buf m" by auto
    with that p(3) have "out = rt_spec buf (rt_it_len buf) (rt_word buf 0) (8 + 4 * int m)" by blast
    then show ?thesis by (simp add: rt_spec_def Let_def)
  qed
  with p(1,2) show ?thesis by auto
qed

text \<open>The FCS octets a capture still holds.\<close>

definition fcs_left :: "bool \<Rightarrow> int \<Rightarrow> int \<Rightarrow> int" where
  "fcs_left present caplen origlen = (if present then max 0 (4 - (origlen - caplen)) else 0)"

lemma frame_view_strip:
  fixes origlen :: u32
  assumes "0 \<le> c" "c \<le> uint origlen"
  shows "dot11_fcs_strip_len c (if origlen - word_of_int c \<ge> 4 then c + 4
           else c + uint (origlen - word_of_int c)) present = fcs_left present c (uint origlen)"
proof -
  have c: "c < 2 ^ 32" using assms uint_lt2p [of origlen] by simp
  then have uc: "uint (word_of_int c :: u32) = c"
    using assms(1) by (simp add: uint_word_of_int mod_pos_pos_trivial)
  then have "uint (origlen - word_of_int c) = uint origlen - c"
    using assms(2) by (simp add: uint_sub_if')
  with assms(2) show ?thesis
    by (auto simp: dot11_fcs_strip_len_def fcs_left_def max_def word_le_def)
qed

lemma edge_gate:
  assumes "uint caplen \<le> int (length b)"
  shows "case frame_view_init (Some b) caplen origlen s us dlt of
      None \<Rightarrow> caplen = 0 \<or> 65535 < caplen \<or> origlen < caplen \<or> us < 0 \<or> 1000000 \<le> us
    | Some f \<Rightarrow> 0 < caplen \<and> caplen \<le> 65535 \<and> caplen \<le> origlen \<and> 0 \<le> us \<and> us < 1000000
       \<and> (\<exists>v rti d l. frame_view_radiotap (Some f) = Some (v, rti, d, l)
          \<and> (if v = FRAME_RT_OK
             then d = Some (drop (nat (rt_it_len b)) b) \<and> 10 \<le> l \<and> 8 \<le> rt_it_len b
                \<and> l = uint caplen - rt_it_len b
                      - fcs_left (rt_fcs_present rti) (uint caplen) (uint origlen)
             else d = None \<and> l = 0))"
proof (cases "frame_view_init (Some b) caplen origlen s us dlt")
  case None
  then show ?thesis by (auto simp: frame_view_init_def not_le not_less split: if_splits)
next
  case (Some f)
  then have adm: "0 < caplen" "caplen \<le> 65535" "caplen \<le> origlen" "0 \<le> us" "us < 1000000"
    and f: "fv_data f = Some b" "fv_caplen f = uint caplen" "fv_origlen f = origlen"
    by (auto simp: frame_view_init_def not_le not_less word_neq_0_conv split: if_splits)
  from radiotap_parse_total [OF assms] obtain ok rti where
    p: "radiotap_parse (Some b) (uint caplen) = Some (ok, rti)"
      "ok \<longrightarrow> 8 \<le> rt_hdr_len rti \<and> rt_hdr_len rti \<le> uint caplen \<and> rt_hdr_len rti = rt_it_len b" by blast
  have le: "uint caplen \<le> uint origlen" using adm(3) by (simp add: word_le_def)
  note strip = frame_view_strip [of "uint caplen" origlen "rt_fcs_present rti", OF uint_ge_0 le]
  let ?k = "fcs_left (rt_fcs_present rti) (uint caplen) (uint origlen)"
  have k: "0 \<le> ?k" by (simp add: fcs_left_def)
  have gate: "frame_view_radiotap (Some f) =
     (if \<not> ok then Some (FRAME_RT_BAD, rti, None, 0)
      else let len = uint caplen - rt_hdr_len rti; len' = len - (if ?k > len then len else ?k) in
        if len' < 10 then Some (FRAME_RT_RUNT, rti, None, 0)
        else Some (FRAME_RT_OK, rti, Some (drop (nat (rt_hdr_len rti)) b), len'))"
    unfolding frame_view_radiotap_def option.case f p(1) bind.bind_lunit case_prod_conv Let_def strip
    by (cases ok) simp_all
  show ?thesis
  proof (cases "ok \<and> 10 \<le> uint caplen - rt_hdr_len rti - (if ?k > uint caplen - rt_hdr_len rti
      then uint caplen - rt_hdr_len rti else ?k)")
    case True
    then have "\<not> ?k > uint caplen - rt_hdr_len rti" by auto
    with True p(2) have "frame_view_radiotap (Some f)
       = Some (FRAME_RT_OK, rti, Some (drop (nat (rt_it_len b)) b), uint caplen - rt_it_len b - ?k)"
      by (simp add: gate Let_def)
    moreover from True p(2) \<open>\<not> ?k > uint caplen - rt_hdr_len rti\<close> have
      "10 \<le> uint caplen - rt_it_len b - ?k" "8 \<le> rt_it_len b" by simp_all
    ultimately show ?thesis using Some adm by simp
  next
    case False
    then have "\<exists>v. v \<noteq> FRAME_RT_OK \<and> frame_view_radiotap (Some f) = Some (v, rti, None, 0)"
      by (cases ok) (auto simp: gate Let_def)
    then show ?thesis using Some adm by auto
  qed
qed

text \<open>
  C35: A libpcap record is admitted exactly when it has data, between 1 and 65535 captured
  octets, no more than were on the wire, and a sane microsecond field. For an admitted
  record the radiotap gate returns, and what it hands to the 802.11 decoders lies inside the
  record: it starts right after the radiotap header, is at least 10 octets long and excludes
  exactly the FCS octets a capture cut short by the snap length still holds. A refused
  frame hands out nothing.
\<close>

theorem frame_edge_gate:
  assumes "uint caplen \<le> int (length b)"
  shows "case frame_view_init (Some b) caplen origlen s us dlt of
      None \<Rightarrow> caplen = 0 \<or> 65535 < caplen \<or> origlen < caplen \<or> us < 0 \<or> 1000000 \<le> us
    | Some f \<Rightarrow> 0 < caplen \<and> caplen \<le> 65535 \<and> caplen \<le> origlen \<and> 0 \<le> us \<and> us < 1000000
       \<and> (\<exists>v rti d l. frame_view_radiotap (Some f) = Some (v, rti, d, l)
          \<and> (if v = FRAME_RT_OK
             then d = Some (drop (nat (rt_it_len b)) b) \<and> 10 \<le> l \<and> 8 \<le> rt_it_len b
                \<and> l = uint caplen - rt_it_len b
                      - fcs_left (rt_fcs_present rti) (uint caplen) (uint origlen)
             else d = None \<and> l = 0))"
  by (rule edge_gate [OF assms])

lemma frame_edge_gate_witness:
  "case frame_view_init (Some (sample_rt @ replicate 24 0)) 37 37 0 0 127 of
      None \<Rightarrow> (37 :: u32) = 0 \<or> 65535 < (37 :: u32) \<or> (37 :: u32) < 37 \<or> (0 :: int) < 0 \<or> 1000000 \<le> (0 :: int)
    | Some f \<Rightarrow> 0 < (37 :: u32) \<and> (37 :: u32) \<le> 65535 \<and> (37 :: u32) \<le> 37 \<and> (0 :: int) \<le> 0 \<and> (0 :: int) < 1000000
       \<and> (\<exists>v rti d l. frame_view_radiotap (Some f) = Some (v, rti, d, l)
          \<and> (if v = FRAME_RT_OK
             then d = Some (drop (nat (rt_it_len (sample_rt @ replicate 24 0))) (sample_rt @ replicate 24 0))
                \<and> 10 \<le> l \<and> 8 \<le> rt_it_len (sample_rt @ replicate 24 0)
                \<and> l = uint (37 :: u32) - rt_it_len (sample_rt @ replicate 24 0)
                      - fcs_left (rt_fcs_present rti) (uint (37 :: u32)) (uint (37 :: u32))
             else d = None \<and> l = 0))"
  by (rule frame_edge_gate) (simp add: length_sample_rt)

end
