(* ===== verification/Netstr.thy ===== *)
theory Netstr
  imports Prelude
begin

text \<open>
  \<open>src/netstr.c\<close>: what a string off the air may contain before it is stored or drawn.
  \<open>netstr_copy\<close> yields the octets it writes before the terminating NUL;
  \<open>netstr_utf8_decode\<close> the length and code point (length 0 for an ill-formed sequence);
  \<open>display_sanitize\<close> works in place on a buffer, with the C read and write indices.
  The specifications are the UTF-8 encoder of RFC 3629 and a filter over code points.
\<close>

section \<open>Bounded copy\<close>

definition mark :: "u8 \<Rightarrow> u8" where
  "mark c = (if c < 0x20 \<or> c = 0x7f then 0x3f else c)"

function netstr_copy_loop :: "bytes \<Rightarrow> int \<Rightarrow> int \<Rightarrow> int \<Rightarrow> bytes \<Rightarrow> bytes option" where
  "netstr_copy_loop src n dstsz i dst =
     (if i < n \<and> int (length dst) + 1 < dstsz
      then do {
        c \<leftarrow> byte_at src i;
        if c = 0 then Some dst else netstr_copy_loop src n dstsz (i + 1) (dst @ [mark c]) }
      else Some dst)"
  by pat_completeness auto
termination by (relation "measure (\<lambda>(_, n, _, i, _). nat (n - i))") auto

declare netstr_copy_loop.simps [simp del]

definition netstr_copy :: "int \<Rightarrow> bytes option \<Rightarrow> int \<Rightarrow> bytes option" where
  "netstr_copy dstsz src n =
     (if dstsz = 0 then Some []
      else case src of None \<Rightarrow> Some [] | Some s \<Rightarrow> netstr_copy_loop s n dstsz 0 [])"

section \<open>UTF-8\<close>

function utf8_loop :: "bytes \<Rightarrow> int \<Rightarrow> u8 \<Rightarrow> u8 \<Rightarrow> int \<Rightarrow> u32 \<Rightarrow> u32 option option" where
  "utf8_loop s len lo hi i v =
     (if i < len
      then do {
        b \<leftarrow> byte_at s i;
        let l = (if i = 1 then lo else 0x80);
        let h = (if i = 1 then hi else 0xbf);
        if b < l \<or> b > h then Some None
        else utf8_loop s len lo hi (i + 1) (push_bit 6 v OR ucast (b AND 0x3f)) }
      else Some (Some v))"
  by pat_completeness auto
termination by (relation "measure (\<lambda>(_, len, _, _, i, _). nat (len - i))") auto

declare utf8_loop.simps [simp del]

definition netstr_utf8_decode :: "bytes option \<Rightarrow> int \<Rightarrow> (int \<times> u32) option" where
  "netstr_utf8_decode so n =
     (case so of None \<Rightarrow> Some (0, 0)
      | Some s \<Rightarrow>
         if n = 0 then Some (0, 0)
         else do {
           b0 \<leftarrow> byte_at s 0;
           if b0 < 0x80 then Some (1, ucast b0)
           else
             let (len, v, lo, hi) =
               (if b0 \<ge> 0xc2 \<and> b0 \<le> 0xdf then (2, ucast (b0 AND 0x1f), 0x80, 0xbf)
                else if b0 \<ge> 0xe0 \<and> b0 \<le> 0xef
                then (3, ucast (b0 AND 0x0f), if b0 = 0xe0 then 0xa0 else 0x80,
                      if b0 = 0xed then 0x9f else 0xbf)
                else if b0 \<ge> 0xf0 \<and> b0 \<le> 0xf4
                then (4, ucast (b0 AND 0x07), if b0 = 0xf0 then 0x90 else 0x80,
                      if b0 = 0xf4 then 0x8f else 0xbf)
                else (0, 0, 0, 0))
             in if len = 0 then Some (0, 0)
                else if len > n then Some (0, 0)
                else do {
                  r \<leftarrow> utf8_loop s len lo hi 1 v;
                  Some (case r of None \<Rightarrow> (0, 0) | Some cp \<Rightarrow> (len, cp)) } })"

definition netstr_is_display_control :: "u32 \<Rightarrow> bool" where
  "netstr_is_display_control cp =
     (if cp < 0x20 then cp \<noteq> 10
      else cp = 0x7f \<or> (cp \<ge> 0x80 \<and> cp \<le> 0x9f) \<or> (cp \<ge> 0x202a \<and> cp \<le> 0x202e)
           \<or> (cp \<ge> 0x2066 \<and> cp \<le> 0x2069))"

section \<open>Display\<close>

text \<open>\<open>memmove(buf + w, buf + r, len)\<close> inside one buffer.\<close>

definition memmove :: "bytes \<Rightarrow> nat \<Rightarrow> nat \<Rightarrow> nat \<Rightarrow> bytes" where
  "memmove buf w r len = take w buf @ take len (drop r buf) @ drop (w + len) buf"

function sanitize_loop :: "bytes \<Rightarrow> nat \<Rightarrow> nat \<Rightarrow> nat \<Rightarrow> nat \<Rightarrow> (bytes \<times> nat \<times> nat) option" where
  "sanitize_loop buf r w left subs =
     (if left > 0
      then (case netstr_utf8_decode (Some (drop r buf)) (int left) of
          None \<Rightarrow> None
        | Some (len, cp) \<Rightarrow>
            if len \<le> 0
            then sanitize_loop (buf[w := 0x3f]) (r + 1) (w + 1) (left - 1) (subs + 1)
            else if netstr_is_display_control cp
            then sanitize_loop (buf[w := 0x3f]) (r + nat len) (w + 1) (left - nat len) (subs + 1)
            else sanitize_loop (if w \<noteq> r then memmove buf w r (nat len) else buf)
                   (r + nat len) (w + nat len) (left - nat len) subs)
      else Some (buf[w := 0], w, subs))"
  by pat_completeness auto
termination by (relation "measure (\<lambda>(_, _, _, left, _). left)") auto

declare sanitize_loop.simps [simp del]

text \<open>
  The C string in \<open>buf\<close> (its octets before the first NUL) and the number of substitutions.
  The loop tests \<open>len == 0\<close>; the decoder never returns a negative length, so the model's
  \<open>\<le>\<close>, which makes termination evident, is the same test.
\<close>

definition c_str :: "bytes \<Rightarrow> bytes" where "c_str b = takeWhile (\<lambda>c. c \<noteq> 0) b"

definition display_sanitize :: "bytes option \<Rightarrow> (bytes \<times> nat) option" where
  "display_sanitize so =
     (case so of None \<Rightarrow> Some ([], 0)
      | Some s \<Rightarrow> do {
          (buf, w, subs) \<leftarrow> sanitize_loop s 0 0 (length (c_str s)) 0;
          Some (buf, subs) })"

section \<open>The copy\<close>

lemma netstr_copy_loop_spec:
  assumes "n \<le> int (length s)" "0 \<le> i"
  shows "netstr_copy_loop s n dstsz i dst = Some (dst @ map mark
     (takeWhile (\<lambda>c. c \<noteq> 0)
       (take (min (nat (n - i)) (nat (dstsz - 1 - int (length dst)))) (drop (nat i) s))))"
  using assms
proof (induction s n dstsz i dst rule: netstr_copy_loop.induct)
  case (1 s n dstsz i dst)
  show ?case
  proof (cases "i < n \<and> int (length dst) + 1 < dstsz")
    case True
    let ?k = "min (nat (n - i)) (nat (dstsz - 1 - int (length dst)))"
    have d: "drop (nat i) s = s ! nat i # drop (nat (i + 1)) s"
      using Cons_nth_drop_Suc [of "nat i" s] True "1.prems" by (simp add: nat_add_distrib nat_less_iff)
    have k: "?k = Suc (min (nat (n - (i + 1))) (nat (dstsz - 1 - int (length (dst @ [mark (s ! nat i)])))))"
      using True by auto
    have c: "byte_at s i = Some (s ! nat i)" using True "1.prems" by simp
    show ?thesis
    proof (cases "s ! nat i = 0")
      case True': True
      then show ?thesis using True c unfolding d k by (simp add: netstr_copy_loop.simps)
    next
      case False
      then show ?thesis
        using "1.IH" [OF True c False] True c "1.prems"
        unfolding d k by (subst netstr_copy_loop.simps) simp
    qed
  next
    case False
    then have "min (nat (n - i)) (nat (dstsz - 1 - int (length dst))) = 0" by auto
    with False show ?thesis by (subst netstr_copy_loop.simps) auto
  qed
qed

lemma netstr_copy_spec:
  assumes "n \<le> int (length s)" "0 \<le> dstsz"
  shows "netstr_copy dstsz (Some s) n
     = Some (map mark (takeWhile (\<lambda>c. c \<noteq> 0) (take (nat (min n (dstsz - 1))) s)))"
  using netstr_copy_loop_spec [OF assms(1), of 0 dstsz "[]"] assms(2)
  by (auto simp: netstr_copy_def min_def nat_diff_distrib)

section \<open>RFC 3629\<close>

definition scalar :: "int \<Rightarrow> bool" where
  "scalar c \<longleftrightarrow> 0 \<le> c \<and> c \<le> 0x10FFFF \<and> \<not> (0xD800 \<le> c \<and> c \<le> 0xDFFF)"

definition utf8_enc :: "int \<Rightarrow> bytes" where
  "utf8_enc c = map word_of_int
     (if c < 0x80 then [c]
      else if c < 0x800 then [0xC0 + c div 64, 0x80 + c mod 64]
      else if c < 0x10000 then [0xE0 + c div 4096, 0x80 + c div 64 mod 64, 0x80 + c mod 64]
      else [0xF0 + c div 262144, 0x80 + c div 4096 mod 64, 0x80 + c div 64 mod 64, 0x80 + c mod 64])"

lemma push_and_low:
  fixes v x :: "'a::len word"
  assumes "uint x < 2 ^ n"
  shows "push_bit n v AND x = 0"
  using bit_below [OF assms] by (auto simp: bit_eq_iff bit_simps) (meson not_le)

lemma utf8_join:
  fixes v :: u32 and b :: u8
  assumes "uint v = x" "x < 2 ^ 20" "0x80 \<le> b" "b \<le> 0xbf"
  shows "uint (push_bit 6 v OR ucast (b AND 0x3f)) = 64 * x + (uint b - 128)"
proof -
  have "uint b mod 64 = uint b - 128" using assms(3,4) by (simp add: word_le_def, presburger)
  then have m: "uint (b AND 0x3f) = uint b - 128"
    unfolding u8_masks uint_and_mask by simp
  have c: "uint (ucast (b AND 0x3f) :: u32) = uint b - 128" and lt: "uint b - 128 < 64" "0 \<le> uint b - 128"
    using m assms(3,4) by (simp_all add: unsigned_ucast_eq take_bit_int_eq_self word_le_def)
  have p: "uint (push_bit 6 v) = 64 * x"
    unfolding unsigned_push_bit_eq using assms(1,2) uint_ge_0 [of v]
    by (simp add: push_bit_eq_mult take_bit_int_eq_self)
  have "push_bit 6 v AND ucast (b AND 0x3f) = 0"
    using c lt by (intro push_and_low) simp
  then have "push_bit 6 v OR ucast (b AND 0x3f) = push_bit 6 v + ucast (b AND 0x3f)"
    by (rule or_disjoint_add)
  then show ?thesis
    using p c lt assms(1,2) uint_ge_0 [of v] by (simp add: uint_plus_if')
qed


text \<open>The loop accepts exactly continuation octets, and joins six bits of each.\<close>

lemma utf8_loop_done: "len \<le> i \<Longrightarrow> utf8_loop s len lo hi i v = Some (Some v)"
  by (subst utf8_loop.simps) simp

lemma utf8_loop_step:
  assumes "i < len" "byte_at s i = Some b" "i = 1 \<and> l = lo \<and> h = hi \<or> i \<noteq> 1 \<and> l = 0x80 \<and> h = 0xbf"
    and v: "uint v = x" "x < 2 ^ 20" "0x80 \<le> l" "h \<le> 0xbf"
  shows "utf8_loop s len lo hi i v =
    (if l \<le> b \<and> b \<le> h then utf8_loop s len lo hi (i + 1) (word_of_int (64 * x + (uint b - 128)))
     else Some None)"
proof (cases "l \<le> b \<and> b \<le> h")
  case True
  then have "uint (push_bit 6 v OR ucast (b AND 0x3f)) = 64 * x + (uint b - 128)"
    using v by (intro utf8_join) auto
  then have "push_bit 6 v OR ucast (b AND 0x3f) = word_of_int (64 * x + (uint b - 128))"
    by (metis word_of_int_uint)
  then show ?thesis
    using True assms(1-3) by (subst utf8_loop.simps) (auto simp: Let_def not_less)
next
  case False
  then show ?thesis
    using assms(1-3) by (subst utf8_loop.simps) (auto simp: Let_def not_le not_less)
qed

lemma lead_bits:
  fixes b :: u8
  shows "0xc0 \<le> uint b \<Longrightarrow> uint b < 0xe0 \<Longrightarrow> (ucast (b AND 0x1f) :: u32) = word_of_int (uint b - 0xc0)"
    and "0xe0 \<le> uint b \<Longrightarrow> uint b < 0xf0 \<Longrightarrow> (ucast (b AND 0x0f) :: u32) = word_of_int (uint b - 0xe0)"
    and "0xf0 \<le> uint b \<Longrightarrow> uint b < 0xf8 \<Longrightarrow> (ucast (b AND 0x07) :: u32) = word_of_int (uint b - 0xf0)"
proof -
  have "(ucast w :: u32) = word_of_int (uint w)" for w :: u8
    by (simp add: word_uint_eq_iff unsigned_ucast_eq take_bit_eq_mod uint_word_of_int)
  moreover have "0xc0 \<le> x \<Longrightarrow> x < 0xe0 \<Longrightarrow> x mod 2 ^ 5 = x - 0xc0"
    "0xe0 \<le> x \<Longrightarrow> x < 0xf0 \<Longrightarrow> x mod 2 ^ 4 = x - 0xe0"
    "0xf0 \<le> x \<Longrightarrow> x < 0xf8 \<Longrightarrow> x mod 2 ^ 3 = x - 0xf0" for x :: int
    by (simp_all, presburger+)
  ultimately show "0xc0 \<le> uint b \<Longrightarrow> uint b < 0xe0 \<Longrightarrow> (ucast (b AND 0x1f) :: u32) = word_of_int (uint b - 0xc0)"
    "0xe0 \<le> uint b \<Longrightarrow> uint b < 0xf0 \<Longrightarrow> (ucast (b AND 0x0f) :: u32) = word_of_int (uint b - 0xe0)"
    "0xf0 \<le> uint b \<Longrightarrow> uint b < 0xf8 \<Longrightarrow> (ucast (b AND 0x07) :: u32) = word_of_int (uint b - 0xf0)"
    unfolding u8_masks by (simp_all only: uint_and_mask)
qed

lemma decode_lead:
  assumes "0 < n"
  shows "netstr_utf8_decode (Some (b0 # r)) n =
    (if uint b0 < 0x80 then Some (1, ucast b0)
     else if uint b0 < 0xc2 \<or> 0xf4 < uint b0 then Some (0, 0)
     else let len = (if uint b0 < 0xe0 then 2 else if uint b0 < 0xf0 then 3 else 4);
              base = (if uint b0 < 0xe0 then 0xc0 else if uint b0 < 0xf0 then 0xe0 else 0xf0);
              lo = (if uint b0 = 0xe0 then 0xa0 else if uint b0 = 0xf0 then 0x90 else 0x80);
              hi = (if uint b0 = 0xed then 0x9f else if uint b0 = 0xf4 then 0x8f else 0xbf)
          in if len > n then Some (0, 0)
             else do { v \<leftarrow> utf8_loop (b0 # r) len lo hi 1 (word_of_int (uint b0 - base));
                       Some (case v of None \<Rightarrow> (0, 0) | Some cp \<Rightarrow> (len, cp)) })"
proof -
  have b0: "byte_at (b0 # r) 0 = Some b0" by (simp add: byte_at_def)
  note rd = netstr_utf8_decode_def word_le_def word_less_def word_uint_eq_iff [of b0]
  consider "uint b0 < 128" | "128 \<le> uint b0" "uint b0 < 194" | "194 \<le> uint b0" "uint b0 < 224"
    | "224 \<le> uint b0" "uint b0 < 240" | "240 \<le> uint b0" "uint b0 \<le> 244" | "244 < uint b0" by linarith
  then show ?thesis
    using b0 assms lead_bits [of b0] by cases (simp_all add: rd)
qed

text \<open>One to three continuation octets.\<close>

lemma loop1:
  assumes "0 \<le> x" "x < 2 ^ 5" "0x80 \<le> uint lo" "uint hi \<le> 0xbf"
  shows "utf8_loop (b0 # b1 # r) 2 lo hi 1 (word_of_int x) =
    Some (if lo \<le> b1 \<and> b1 \<le> hi then Some (word_of_int (64 * x + (uint b1 - 128))) else None)"
  using assms utf8_loop_step [of 1 2 "b0 # b1 # r" b1 lo lo hi hi "word_of_int x" x]
  by (simp add: utf8_loop_done uint_word_of_int word_le_def)

lemma loop2:
  assumes "0 \<le> x" "x < 2 ^ 5" "0x80 \<le> uint lo" "uint hi \<le> 0xbf"
  shows "utf8_loop (b0 # b1 # b2 # r) 3 lo hi 1 (word_of_int x) =
    Some (if lo \<le> b1 \<and> b1 \<le> hi \<and> 0x80 \<le> b2 \<and> b2 \<le> 0xbf
          then Some (word_of_int (64 * (64 * x + (uint b1 - 128)) + (uint b2 - 128))) else None)"
proof -
  define y where "y = 64 * x + (uint b1 - 128)"
  have "utf8_loop (b0 # b1 # b2 # r) 3 lo hi 1 (word_of_int x) =
     (if lo \<le> b1 \<and> b1 \<le> hi then utf8_loop (b0 # b1 # b2 # r) 3 lo hi 2 (word_of_int y) else Some None)"
    using assms utf8_loop_step [of 1 3 "b0 # b1 # b2 # r" b1 lo lo hi hi "word_of_int x" x]
    unfolding y_def [symmetric] by (simp add: uint_word_of_int word_le_def)
  moreover have "utf8_loop (b0 # b1 # b2 # r) 3 lo hi 2 (word_of_int y) =
     Some (if 0x80 \<le> b2 \<and> b2 \<le> 0xbf then Some (word_of_int (64 * y + (uint b2 - 128))) else None)"
    if "lo \<le> b1" "b1 \<le> hi"
  proof -
    have "0 \<le> y" "y < 2 ^ 11" using that assms by (simp_all add: y_def word_le_def)
    then show ?thesis
      using utf8_loop_step [of 2 3 "b0 # b1 # b2 # r" b2 "0x80" lo "0xbf" hi "word_of_int y" y]
      by (simp add: utf8_loop_done uint_word_of_int word_le_def)
  qed
  ultimately show ?thesis unfolding y_def [symmetric] by simp
qed

lemma loop3:
  assumes "0 \<le> x" "x < 2 ^ 5" "0x80 \<le> uint lo" "uint hi \<le> 0xbf"
  shows "utf8_loop (b0 # b1 # b2 # b3 # r) 4 lo hi 1 (word_of_int x) =
    Some (if lo \<le> b1 \<and> b1 \<le> hi \<and> 0x80 \<le> b2 \<and> b2 \<le> 0xbf \<and> 0x80 \<le> b3 \<and> b3 \<le> 0xbf
          then Some (word_of_int (64 * (64 * (64 * x + (uint b1 - 128)) + (uint b2 - 128)) + (uint b3 - 128)))
          else None)"
proof -
  let ?s = "b0 # b1 # b2 # b3 # r"
  define y where "y = 64 * x + (uint b1 - 128)"
  define z where "z = 64 * y + (uint b2 - 128)"
  have "utf8_loop ?s 4 lo hi 1 (word_of_int x) =
     (if lo \<le> b1 \<and> b1 \<le> hi then utf8_loop ?s 4 lo hi 2 (word_of_int y) else Some None)"
    using assms utf8_loop_step [of 1 4 ?s b1 lo lo hi hi "word_of_int x" x]
    unfolding y_def [symmetric] by (simp add: uint_word_of_int word_le_def)
  moreover have "utf8_loop ?s 4 lo hi 2 (word_of_int y) =
     (if 0x80 \<le> b2 \<and> b2 \<le> 0xbf
      then Some (if 0x80 \<le> b3 \<and> b3 \<le> 0xbf then Some (word_of_int (64 * z + (uint b3 - 128))) else None)
      else Some None)"
    if b1: "lo \<le> b1" "b1 \<le> hi"
  proof -
    have y: "0 \<le> y" "y < 2 ^ 11" using b1 assms by (simp_all add: y_def word_le_def)
    have "utf8_loop ?s 4 lo hi 2 (word_of_int y) =
       (if 0x80 \<le> b2 \<and> b2 \<le> 0xbf then utf8_loop ?s 4 lo hi 3 (word_of_int z) else Some None)"
      using y utf8_loop_step [of 2 4 ?s b2 "0x80" lo "0xbf" hi "word_of_int y" y]
      unfolding z_def [symmetric] by (simp add: uint_word_of_int word_le_def)
    moreover have "utf8_loop ?s 4 lo hi 3 (word_of_int z) =
       Some (if 0x80 \<le> b3 \<and> b3 \<le> 0xbf then Some (word_of_int (64 * z + (uint b3 - 128))) else None)"
      if "0x80 \<le> b2" "b2 \<le> 0xbf"
    proof -
      have "0 \<le> z" "z < 2 ^ 17" using that y by (simp_all add: z_def word_le_def)
      then show ?thesis
        using utf8_loop_step [of 3 4 ?s b3 "0x80" lo "0xbf" hi "word_of_int z" z]
        by (simp add: utf8_loop_done uint_word_of_int word_le_def)
    qed
    ultimately show ?thesis by simp
  qed
  ultimately show ?thesis unfolding y_def [symmetric] z_def [symmetric] by simp
qed

text \<open>The encoder by the number of octets.\<close>

lemma d64: "0 \<le> t \<Longrightarrow> t < 64 \<Longrightarrow> (64 * y + t) div 64 = (y :: int)"
  "0 \<le> t \<Longrightarrow> t < 64 \<Longrightarrow> (64 * y + t) mod 64 = (t :: int)"
  by simp_all

lemma div_64s: "(c :: int) div 4096 = c div 64 div 64" "(c :: int) div 262144 = c div 64 div 64 div 64"
  using zdiv_zmult2_eq [of 64 c 64] zdiv_zmult2_eq [of 64 "c" 4096] by simp_all

lemma utf8_enc_join:
  "0 \<le> p \<Longrightarrow> p < 0x80 \<Longrightarrow> utf8_enc p = [word_of_int p]"
  "2 \<le> p \<Longrightarrow> p < 0x20 \<Longrightarrow> 0 \<le> q \<Longrightarrow> q < 64 \<Longrightarrow>
     utf8_enc (64 * p + q) = [word_of_int (0xC0 + p), word_of_int (0x80 + q)]"
  "0 \<le> p \<Longrightarrow> p < 0x10 \<Longrightarrow> 0 \<le> q \<Longrightarrow> q < 64 \<Longrightarrow> 0 \<le> t \<Longrightarrow> t < 64 \<Longrightarrow> p = 0 \<longrightarrow> 32 \<le> q \<Longrightarrow>
     utf8_enc (64 * (64 * p + q) + t) = [word_of_int (0xE0 + p), word_of_int (0x80 + q), word_of_int (0x80 + t)]"
  "0 \<le> p \<Longrightarrow> p < 8 \<Longrightarrow> 0 \<le> q \<Longrightarrow> q < 64 \<Longrightarrow> 0 \<le> t \<Longrightarrow> t < 64 \<Longrightarrow> 0 \<le> u \<Longrightarrow> u < 64 \<Longrightarrow> p = 0 \<longrightarrow> 16 \<le> q \<Longrightarrow>
     utf8_enc (64 * (64 * (64 * p + q) + t) + u)
       = [word_of_int (0xF0 + p), word_of_int (0x80 + q), word_of_int (0x80 + t), word_of_int (0x80 + u)]"
proof -
  show "0 \<le> p \<Longrightarrow> p < 0x80 \<Longrightarrow> utf8_enc p = [word_of_int p]" by (simp add: utf8_enc_def)
  show "utf8_enc (64 * p + q) = [word_of_int (0xC0 + p), word_of_int (0x80 + q)]"
    if "2 \<le> p" "p < 0x20" "0 \<le> q" "q < 64"
  proof -
    have "(64 * p + q) div 64 = p" "(64 * p + q) mod 64 = q" using that by simp_all
    then show ?thesis using that by (simp add: utf8_enc_def)
  qed
  show "utf8_enc (64 * (64 * p + q) + t) = [word_of_int (0xE0 + p), word_of_int (0x80 + q), word_of_int (0x80 + t)]"
    if "0 \<le> p" "p < 0x10" "0 \<le> q" "q < 64" "0 \<le> t" "t < 64" "p = 0 \<longrightarrow> 32 \<le> q"
  proof -
    let ?c = "64 * (64 * p + q) + t"
    have "?c div 64 = 64 * p + q" "?c mod 64 = t" "(64 * p + q) mod 64 = q"
      using that by (simp_all only: d64)
    moreover have "?c div 4096 = p" using that by (simp only: div_64s d64)
    moreover have "0x800 \<le> ?c" "?c < 0x10000" using that by (cases "p = 0"; simp)+
    ultimately show ?thesis by (simp add: utf8_enc_def)
  qed
  show "utf8_enc (64 * (64 * (64 * p + q) + t) + u)
       = [word_of_int (0xF0 + p), word_of_int (0x80 + q), word_of_int (0x80 + t), word_of_int (0x80 + u)]"
    if "0 \<le> p" "p < 8" "0 \<le> q" "q < 64" "0 \<le> t" "t < 64" "0 \<le> u" "u < 64" "p = 0 \<longrightarrow> 16 \<le> q"
  proof -
    let ?c = "64 * (64 * (64 * p + q) + t) + u"
    have "?c div 64 = 64 * (64 * p + q) + t" "?c mod 64 = u" "(64 * (64 * p + q) + t) mod 64 = t"
      using that by (simp_all only: d64)
    moreover have "?c div 4096 = 64 * p + q" "(64 * p + q) mod 64 = q" "?c div 262144 = p"
      using that by (simp_all only: div_64s d64)
    moreover have "0x10000 \<le> ?c" using that by (cases "p = 0"; simp)
    moreover define c where "c = ?c"
    ultimately have "c div 64 mod 64 = t" "c mod 64 = u" "c div 4096 mod 64 = q" "c div 262144 = p" "0x10000 \<le> c"
      by (simp_all only: c_def)
    then have "utf8_enc c
       = [word_of_int (0xF0 + p), word_of_int (0x80 + q), word_of_int (0x80 + t), word_of_int (0x80 + u)]"
      by (simp add: utf8_enc_def)
    then show ?thesis by (simp only: c_def)
  qed
qed

text \<open>Every scalar value splits into six-bit groups.\<close>

lemma scalar_split:
  assumes "scalar c"
  obtains (1) "0 \<le> c" "c < 0x80"
  | (2) p q where "c = 64 * p + q" "2 \<le> p" "p < 0x20" "0 \<le> q" "q < 64"
  | (3) p q t where "c = 64 * (64 * p + q) + t" "0 \<le> p" "p < 0x10" "0 \<le> q" "q < 64" "0 \<le> t" "t < 64"
      "p = 0 \<longrightarrow> 32 \<le> q" "p = 13 \<longrightarrow> q < 32"
  | (4) p q t u where "c = 64 * (64 * (64 * p + q) + t) + u" "0 \<le> p" "p \<le> 4" "0 \<le> q" "q < 64"
      "0 \<le> t" "t < 64" "0 \<le> u" "u < 64" "p = 0 \<longrightarrow> 16 \<le> q" "p = 4 \<longrightarrow> q < 16"
proof -
  define c1 where "c1 = c div 64"
  define c2 where "c2 = c1 div 64"
  define c3 where "c3 = c2 div 64"
  have e: "c = 64 * c1 + c mod 64" "c1 = 64 * c2 + c1 mod 64" "c2 = 64 * c3 + c2 mod 64"
    by (simp_all add: c1_def c2_def c3_def)
  have b: "0 \<le> c mod 64" "c mod 64 < 64" "0 \<le> c1 mod 64" "c1 mod 64 < 64" "0 \<le> c2 mod 64" "c2 mod 64 < 64"
    by simp_all
  have c: "0 \<le> c" "c \<le> 0x10FFFF" "\<not> (0xD800 \<le> c \<and> c \<le> 0xDFFF)" using assms by (auto simp: scalar_def)
  have c0: "0 \<le> c1" "0 \<le> c2" "0 \<le> c3" using c by (simp_all add: c1_def c2_def c3_def pos_imp_zdiv_nonneg_iff)
  consider "c < 0x80" | "0x80 \<le> c" "c < 0x800" | "0x800 \<le> c" "c < 0x10000" | "0x10000 \<le> c" by linarith
  then show thesis
  proof cases
    case 1
    with c show ?thesis by (intro that(1))
  next
    case 2
    have "2 \<le> c1" "c1 < 0x20" using 2 e(1) b by linarith+
    then show ?thesis using e(1) b by (intro that(2) [of c1 "c mod 64"])
  next
    case 3
    have "c = 64 * (64 * c2 + c1 mod 64) + c mod 64" using e by simp
    moreover have "c2 < 0x10" "c2 = 0 \<longrightarrow> 32 \<le> c1 mod 64" "c2 = 13 \<longrightarrow> c1 mod 64 < 32"
      using 3 e(1,2) b c by linarith+
    ultimately show ?thesis using b c0 by (intro that(3) [of c2 "c1 mod 64" "c mod 64"])
  next
    case 4
    have "c = 64 * (64 * (64 * c3 + c2 mod 64) + c1 mod 64) + c mod 64" using e by simp
    moreover have "c3 \<le> 4" "c3 = 0 \<longrightarrow> 16 \<le> c2 mod 64" "c3 = 4 \<longrightarrow> c2 mod 64 < 16"
      using 4 e(1-3) b c by linarith+
    ultimately show ?thesis using b c0 by (intro that(4) [of c3 "c2 mod 64" "c1 mod 64" "c mod 64"])
  qed
qed

lemma uint_u8_of: "0 \<le> x \<Longrightarrow> x < 256 \<Longrightarrow> uint (word_of_int x :: u8) = x"
  by (simp add: uint_word_of_int)

lemma utf8_decode_complete:
  assumes "scalar c" "int (length (utf8_enc c)) \<le> n"
  shows "netstr_utf8_decode (Some (utf8_enc c @ r)) n = Some (int (length (utf8_enc c)), word_of_int c)"
  using assms(1)
proof (cases rule: scalar_split)
  case 1
  then show ?thesis
    using assms(2) utf8_enc_join(1) [of c] decode_lead [of n "word_of_int c" r]
    by (simp add: uint_u8_of word_uint_eq_iff unsigned_ucast_eq take_bit_int_eq_self uint_word_of_int)
next
  case (2 p q)
  note enc = utf8_enc_join(2) [OF 2(2-5)]
  have b: "uint (word_of_int (0xC0 + p) :: u8) = 0xC0 + p" "uint (word_of_int (0x80 + q) :: u8) = 0x80 + q"
    using 2 by (intro uint_u8_of; simp)+
  have lp: "utf8_loop (word_of_int (0xC0 + p) # word_of_int (0x80 + q) # r) 2 0x80 0xbf 1 (word_of_int p)
     = Some (Some (word_of_int (64 * p + q)))"
    using 2 loop1 [of p "0x80" "0xbf" "word_of_int (0xC0 + p)" "word_of_int (0x80 + q)" r]
    unfolding word_le_def b by simp
  have n: "2 \<le> n" using assms(2) unfolding 2(1) enc by simp
  show ?thesis
    using lp n 2 decode_lead [of n "word_of_int (0xC0 + p)" "word_of_int (0x80 + q) # r"]
    unfolding 2(1) enc b by (simp del: of_int_add of_int_mult)
next
  case (3 p q t)
  note enc = utf8_enc_join(3) [OF 3(2-8)]
  have b: "uint (word_of_int (0xE0 + p) :: u8) = 0xE0 + p" "uint (word_of_int (0x80 + q) :: u8) = 0x80 + q"
    "uint (word_of_int (0x80 + t) :: u8) = 0x80 + t"
    using 3 by (intro uint_u8_of; simp)+
  let ?lo = "if 0xE0 + p = 0xE0 then 0xa0 else if 0xE0 + p = 0xF0 then 0x90 else 0x80 :: u8"
  let ?hi = "if 0xE0 + p = 0xED then 0x9f else if 0xE0 + p = 0xF4 then 0x8f else 0xbf :: u8"
  have lh: "uint ?lo \<le> 0x80 + q" "0x80 + q \<le> uint ?hi" "0x80 \<le> uint ?lo" "uint ?hi \<le> 0xbf"
    using 3 by auto
  have lp: "utf8_loop (word_of_int (0xE0 + p) # word_of_int (0x80 + q) # word_of_int (0x80 + t) # r) 3 ?lo ?hi 1 (word_of_int p)
     = Some (Some (word_of_int (64 * (64 * p + q) + t)))"
    using 3 lh loop2 [of p ?lo ?hi "word_of_int (0xE0 + p)" "word_of_int (0x80 + q)" "word_of_int (0x80 + t)" r]
    unfolding word_le_def b by (simp del: of_int_add of_int_mult split del: if_split)
  have n: "3 \<le> n" using assms(2) unfolding 3(1) enc by simp
  show ?thesis
    using lp n 3(2-8) decode_lead [of n "word_of_int (0xE0 + p)" "word_of_int (0x80 + q) # word_of_int (0x80 + t) # r"]
    unfolding 3(1) enc b by (simp del: of_int_add of_int_mult split del: if_split)
next
  case (4 p q t u)
  then have p8: "p < 8" by simp
  note enc = utf8_enc_join(4) [OF 4(2) p8 4(4-10)]
  have b: "uint (word_of_int (0xF0 + p) :: u8) = 0xF0 + p" "uint (word_of_int (0x80 + q) :: u8) = 0x80 + q"
    "uint (word_of_int (0x80 + t) :: u8) = 0x80 + t" "uint (word_of_int (0x80 + u) :: u8) = 0x80 + u"
    using 4 by (intro uint_u8_of; simp)+
  let ?lo = "if 0xF0 + p = 0xE0 then 0xa0 else if 0xF0 + p = 0xF0 then 0x90 else 0x80 :: u8"
  let ?hi = "if 0xF0 + p = 0xED then 0x9f else if 0xF0 + p = 0xF4 then 0x8f else 0xbf :: u8"
  have lh: "uint ?lo \<le> 0x80 + q" "0x80 + q \<le> uint ?hi" "0x80 \<le> uint ?lo" "uint ?hi \<le> 0xbf"
    using 4 by auto
  have lp: "utf8_loop (word_of_int (0xF0 + p) # word_of_int (0x80 + q) # word_of_int (0x80 + t) # word_of_int (0x80 + u) # r)
       4 ?lo ?hi 1 (word_of_int p)
     = Some (Some (word_of_int (64 * (64 * (64 * p + q) + t) + u)))"
    using 4 lh loop3 [of p ?lo ?hi "word_of_int (0xF0 + p)" "word_of_int (0x80 + q)" "word_of_int (0x80 + t)" "word_of_int (0x80 + u)" r]
    unfolding word_le_def b by (simp del: of_int_add of_int_mult split del: if_split)
  have n: "4 \<le> n" using assms(2) unfolding 4(1) enc by simp
  show ?thesis
    using lp n 4(2-10) decode_lead [of n "word_of_int (0xF0 + p)" "word_of_int (0x80 + q) # word_of_int (0x80 + t) # word_of_int (0x80 + u) # r"]
    unfolding 4(1) enc b by (simp del: of_int_add of_int_mult split del: if_split)
qed

text \<open>What the decoder may answer for a buffer whose first \<open>n\<close> octets it may read.\<close>

definition utf8_ans :: "bytes \<Rightarrow> int \<Rightarrow> int \<times> u32 \<Rightarrow> bool" where
  "utf8_ans s n a \<longleftrightarrow> (let (len, cp) = a in
     len = 0 \<or> scalar (uint cp) \<and> len = int (length (utf8_enc (uint cp))) \<and> len \<le> n
       \<and> take (nat len) s = utf8_enc (uint cp))"

lemma utf8_ansI:
  assumes "scalar c" "utf8_enc c = take k s" "k \<le> length s" "int k \<le> n"
  shows "utf8_ans s n (int k, word_of_int c)"
proof -
  have "uint (word_of_int c :: u32) = c"
    using assms(1) by (simp add: scalar_def uint_word_of_int)
  with assms show ?thesis by (simp add: utf8_ans_def)
qed

lemma utf8_ans_0 [simp]: "utf8_ans s n (0, cp)" by (simp add: utf8_ans_def)

lemma case_if_option:
  "(case if c then Some x else None of None \<Rightarrow> a | Some y \<Rightarrow> f y) = (if c then f x else a)"
  by simp

lemma utf8_decode_sound:
  assumes "0 \<le> n" "n \<le> int (length s)"
  shows "\<exists>a. netstr_utf8_decode (Some s) n = Some a \<and> utf8_ans s n a"
proof (cases "n = 0")
  case True
  then show ?thesis by (simp add: netstr_utf8_decode_def)
next
  case False
  with assms obtain b0 r where s: "s = b0 # r" by (cases s) auto
  note wu = word_of_int_uint
  let ?x = "uint b0"
  let ?lo = "if ?x = 0xE0 then 0xa0 else if ?x = 0xF0 then 0x90 else 0x80 :: u8"
  let ?hi = "if ?x = 0xED then 0x9f else if ?x = 0xF4 then 0x8f else 0xbf :: u8"
  have lh: "0x80 \<le> uint ?lo" "uint ?hi \<le> 0xbf" by simp_all
  note lead = decode_lead [of n b0 r]
  consider "?x < 0x80" | "0x80 \<le> ?x" "?x < 0xc2" | "0xc2 \<le> ?x" "?x < 0xe0" | "0xe0 \<le> ?x" "?x < 0xf0"
    | "0xf0 \<le> ?x" "?x \<le> 0xf4" | "0xf4 < ?x" by linarith
  then show ?thesis
  proof cases
    case 1
    have "utf8_ans s n (int 1, word_of_int ?x)"
    proof (rule utf8_ansI)
      show "scalar ?x" using 1 by (simp add: scalar_def)
      show "utf8_enc ?x = take 1 s" using 1 utf8_enc_join(1) [of ?x] by (simp add: s)
      show "1 \<le> length s" "int 1 \<le> n" using False assms(1) by (simp_all add: s)
    qed
    moreover have "netstr_utf8_decode (Some s) n = Some (1, ucast b0)" using 1 False assms lead by (simp add: s)
    moreover have "ucast b0 = (word_of_int ?x :: u32)"
      by (simp add: word_uint_eq_iff unsigned_ucast_eq take_bit_eq_mod uint_word_of_int)
    ultimately show ?thesis by (metis of_nat_1)
  next
    case 3
    show ?thesis
    proof (cases "n < 2")
      case True
      then show ?thesis using 3 False assms lead by (simp add: s)
    next
      case F: False
      with assms obtain b1 r' where r: "r = b1 # r'" by (cases r) (auto simp: s)
      have lp: "utf8_loop (b0 # r) 2 ?lo ?hi 1 (word_of_int (?x - 0xc0)) =
          Some (if 0x80 \<le> b1 \<and> b1 \<le> 0xbf then Some (word_of_int (64 * (?x - 0xc0) + (uint b1 - 128))) else None)"
        using 3 loop1 [of "?x - 0xc0" "0x80" "0xbf" b0 b1 r'] by (simp add: r del: of_int_add of_int_mult of_int_diff)
      have dec: "netstr_utf8_decode (Some s) n = Some (if 0x80 \<le> b1 \<and> b1 \<le> 0xbf
          then (int 2, word_of_int (64 * (?x - 0xc0) + (uint b1 - 128))) else (0, 0))"
        using lead lp 3 F by (simp add: s del: of_int_add of_int_mult of_int_diff)
      show ?thesis
      proof (cases "0x80 \<le> b1 \<and> b1 \<le> 0xbf")
        case True
        then have q: "0 \<le> uint b1 - 128" "uint b1 - 128 < 64" by (simp_all add: word_le_def)
        have "utf8_ans s n (int 2, word_of_int (64 * (?x - 0xc0) + (uint b1 - 128)))"
          using 3 q F assms utf8_enc_join(2) [of "?x - 0xc0" "uint b1 - 128"]
          by (intro utf8_ansI) (simp_all add: s r scalar_def wu)
        with dec True show ?thesis by simp
      next
        case no: False
        show ?thesis using dec unfolding if_not_P [OF no] by simp
      qed
    qed
  next
    case 4
    show ?thesis
    proof (cases "n < 3")
      case True
      then show ?thesis using 4 False assms lead by (simp add: s)
    next
      case F: False
      with assms obtain b1 b2 r' where r: "r = b1 # b2 # r'"
        by (cases r; cases "tl r") (auto simp: s)
      let ?c = "64 * (64 * (?x - 0xe0) + (uint b1 - 128)) + (uint b2 - 128)"
      let ?ok = "?lo \<le> b1 \<and> b1 \<le> ?hi \<and> 0x80 \<le> b2 \<and> b2 \<le> 0xbf"
      have "utf8_loop (b0 # r) 3 ?lo ?hi 1 (word_of_int (?x - 0xe0)) =
          Some (if ?ok then Some (word_of_int ?c) else None)"
        unfolding r using 4 lh by (intro loop2) auto
      then have dec: "netstr_utf8_decode (Some s) n = Some (if ?ok then (int 3, word_of_int ?c) else (0, 0))"
        using lead 4 F by (simp add: s case_if_option cong: if_cong del: of_int_add of_int_mult of_int_diff split del: if_split)
      show ?thesis
      proof (cases ?ok)
        case True
        then have q: "uint ?lo \<le> uint b1" "uint b1 \<le> uint ?hi" "128 \<le> uint b2" "uint b2 \<le> 191"
          by (simp_all add: word_le_def)
        have "utf8_ans s n (int 3, word_of_int ?c)"
        proof (rule utf8_ansI)
          show "scalar ?c" using 4 q by (auto simp: scalar_def split: if_splits)
          have "128 \<le> uint b1" "uint b1 \<le> 191" "?x = 0xe0 \<longrightarrow> 160 \<le> uint b1"
            using q(1,2) by (auto split: if_splits)
          then have "utf8_enc ?c = [b0, b1, b2]"
            using 4 q utf8_enc_join(3) [of "?x - 0xe0" "uint b1 - 128" "uint b2 - 128"] by (simp add: wu)
          then show "utf8_enc ?c = take 3 s" by (simp add: s r)
        qed (use F assms s r in simp_all)
        with dec True show ?thesis by simp
      next
        case no: False
        show ?thesis using dec unfolding if_not_P [OF no] by simp
      qed
    qed
  next
    case 5
    show ?thesis
    proof (cases "n < 4")
      case True
      then show ?thesis using 5 False assms lead by (simp add: s)
    next
      case F: False
      with assms obtain b1 b2 b3 r' where r: "r = b1 # b2 # b3 # r'"
        by (cases r; cases "tl r"; cases "tl (tl r)") (auto simp: s)
      let ?c = "64 * (64 * (64 * (?x - 0xf0) + (uint b1 - 128)) + (uint b2 - 128)) + (uint b3 - 128)"
      let ?ok = "?lo \<le> b1 \<and> b1 \<le> ?hi \<and> 0x80 \<le> b2 \<and> b2 \<le> 0xbf \<and> 0x80 \<le> b3 \<and> b3 \<le> 0xbf"
      have "utf8_loop (b0 # r) 4 ?lo ?hi 1 (word_of_int (?x - 0xf0)) =
          Some (if ?ok then Some (word_of_int ?c) else None)"
        unfolding r using 5 lh by (intro loop3) auto
      then have dec: "netstr_utf8_decode (Some s) n = Some (if ?ok then (int 4, word_of_int ?c) else (0, 0))"
        using lead 5 F by (simp add: s case_if_option cong: if_cong del: of_int_add of_int_mult of_int_diff split del: if_split)
      show ?thesis
      proof (cases ?ok)
        case True
        then have q: "uint ?lo \<le> uint b1" "uint b1 \<le> uint ?hi" "128 \<le> uint b2" "uint b2 \<le> 191"
          "128 \<le> uint b3" "uint b3 \<le> 191"
          by (simp_all add: word_le_def)
        have "utf8_ans s n (int 4, word_of_int ?c)"
        proof (rule utf8_ansI)
          show "scalar ?c" using 5 q by (auto simp: scalar_def split: if_splits)
          have "128 \<le> uint b1" "uint b1 \<le> 191" "?x = 0xf0 \<longrightarrow> 144 \<le> uint b1"
            using q(1,2) 5 by (auto split: if_splits)
          then have "utf8_enc ?c = [b0, b1, b2, b3]"
            using 5 q utf8_enc_join(4) [of "?x - 0xf0" "uint b1 - 128" "uint b2 - 128" "uint b3 - 128"]
            by (simp add: wu)
          then show "utf8_enc ?c = take 4 s" by (simp add: s r)
        qed (use F assms s r in simp_all)
        with dec True show ?thesis by simp
      next
        case no: False
        show ?thesis using dec unfolding if_not_P [OF no] by simp
      qed
    qed
  qed (use False assms lead in \<open>simp_all add: s\<close>)
qed

lemma utf8_decode_0: "netstr_utf8_decode so n = Some (0, cp) \<Longrightarrow> cp = 0"
  by (auto simp: netstr_utf8_decode_def Let_def bind_Some_iff split: option.splits if_splits)

lemma length_utf8_enc: "1 \<le> length (utf8_enc c)" "length (utf8_enc c) \<le> 4"
  by (auto simp: utf8_enc_def)

text \<open>The decoder sees only the \<open>n\<close> octets it was given.\<close>

lemma utf8_decode_found:
  assumes "scalar c" "take (length (utf8_enc c)) s = utf8_enc c" "int (length (utf8_enc c)) \<le> n"
  shows "netstr_utf8_decode (Some s) n = Some (int (length (utf8_enc c)), word_of_int c)"
proof -
  have "s = utf8_enc c @ drop (length (utf8_enc c)) s" using assms(2) by (metis append_take_drop_id)
  with utf8_decode_complete [OF assms(1,3)] show ?thesis by metis
qed

lemma utf8_decode_take:
  assumes "n \<le> length s"
  shows "netstr_utf8_decode (Some (take n s)) (int n) = netstr_utf8_decode (Some s) (int n)"
proof -
  from utf8_decode_sound [of "int n" s] assms obtain l cp where
    a: "netstr_utf8_decode (Some s) (int n) = Some (l, cp)" "utf8_ans s (int n) (l, cp)" by auto
  from utf8_decode_sound [of "int n" "take n s"] assms obtain l' cp' where
    b: "netstr_utf8_decode (Some (take n s)) (int n) = Some (l', cp')" "utf8_ans (take n s) (int n) (l', cp')"
    by auto
  show ?thesis
  proof (cases "l = 0")
    case False
    with a(2) have "netstr_utf8_decode (Some (take n s)) (int n) = Some (l, word_of_int (uint cp))"
      using utf8_decode_found [of "uint cp" "take n s" "int n"] by (auto simp: utf8_ans_def min_def)
    with a(1) show ?thesis by simp
  next
    case True
    show ?thesis
    proof (cases "l' = 0")
      case t: True
      with a(1) b(1) True utf8_decode_0 show ?thesis by metis
    next
      case f: False
      with b(2) have "netstr_utf8_decode (Some s) (int n) = Some (l', word_of_int (uint cp'))"
        using utf8_decode_found [of "uint cp'" s "int n"] by (auto simp: utf8_ans_def min_def)
      with b(1) show ?thesis by simp
    qed
  qed
qed

section \<open>Sanitising\<close>

text \<open>The specification: what one pass makes of the octets of a string.\<close>

function san :: "bytes \<Rightarrow> bytes \<times> nat" where
  "san xs =
     (if xs = [] then ([], 0)
      else let (len, cp) = the (netstr_utf8_decode (Some xs) (int (length xs)));
               (out, k) = san (drop (max 1 (nat len)) xs) in
           if len \<le> 0 \<or> netstr_is_display_control cp then (0x3f # out, k + 1)
           else (take (nat len) xs @ out, k))"
  by pat_completeness auto
termination by (relation "measure length") auto

declare san.simps [simp del]

definition clean :: "bytes \<Rightarrow> bool" where
  "clean out \<longleftrightarrow> (\<exists>cps. out = concat (map utf8_enc cps)
     \<and> (\<forall>c \<in> set cps. scalar c \<and> \<not> netstr_is_display_control (word_of_int c)))"

lemma clean_Nil [simp]: "clean []" by (auto simp: clean_def intro: exI [of _ "[]"])

lemma clean_append:
  assumes "scalar c" "\<not> netstr_is_display_control (word_of_int c)" "clean out"
  shows "clean (utf8_enc c @ out)"
proof -
  from assms(3) obtain cps where "out = concat (map utf8_enc cps)"
    "\<forall>c \<in> set cps. scalar c \<and> \<not> netstr_is_display_control (word_of_int c)" by (auto simp: clean_def)
  with assms(1,2) show ?thesis unfolding clean_def by (intro exI [of _ "c # cps"]) simp
qed

lemma clean_mark: "clean out \<Longrightarrow> clean (0x3f # out)"
  using clean_append [of 63 out] by (simp add: scalar_def utf8_enc_def netstr_is_display_control_def)

lemma san_clean: "clean (fst (san xs)) \<and> length (fst (san xs)) \<le> length xs"
proof (induction xs rule: san.induct)
  case (1 xs)
  show ?case
  proof (cases "xs = []")
    case False
    from utf8_decode_sound [of "int (length xs)" xs] obtain len cp where
      d: "netstr_utf8_decode (Some xs) (int (length xs)) = Some (len, cp)" "utf8_ans xs (int (length xs)) (len, cp)"
      by auto
    obtain out k where r: "san (drop (max 1 (nat len)) xs) = (out, k)" by fastforce
    have ih: "clean out \<and> length out \<le> length xs - max 1 (nat len)"
      using "1.IH" [OF False _ refl, of len cp] d(1) r by simp
    have eq: "san xs = (if len \<le> 0 \<or> netstr_is_display_control cp then (0x3f # out, k + 1)
        else (take (nat len) xs @ out, k))"
      using False d(1) r by (subst san.simps) simp
    have lx: "1 \<le> length xs" using False by (cases xs) auto
    show ?thesis
    proof (cases "len \<le> 0 \<or> netstr_is_display_control cp")
      case True
      with ih lx show ?thesis unfolding eq by (auto intro: clean_mark)
    next
      case f: False
      with d(2) have "scalar (uint cp)" "take (nat len) xs = utf8_enc (uint cp)" "nat len \<le> length xs" "1 \<le> nat len"
        "length (utf8_enc (uint cp)) = nat len"
        using length_utf8_enc(1) [of "uint cp"] by (auto simp: utf8_ans_def)
      with ih f show ?thesis unfolding eq by (auto intro: clean_append)
    qed
  qed (simp add: san.simps)
qed


text \<open>The in-place loop computes \<open>san\<close>: writing never catches up with reading.\<close>

lemma drop_memmove:
  "w \<le> r \<Longrightarrow> r + n \<le> length b \<Longrightarrow> drop (r + n) (memmove b w r n) = drop (r + n) b"
  "w \<le> r \<Longrightarrow> r + n \<le> length b \<Longrightarrow> length (memmove b w r n) = length b"
  "w \<le> r \<Longrightarrow> r + n \<le> length b \<Longrightarrow> take (w + n) (memmove b w r n) = take w b @ take n (drop r b)"
  by (simp_all add: memmove_def)

lemma memmove_same: "w \<le> length b \<Longrightarrow> memmove b w w n = b"
  by (simp add: memmove_def) (metis add.commute append_take_drop_id drop_drop)

lemma sanitize_loop_san:
  assumes "w \<le> r" "r + left < length buf" "san (take left (drop r buf)) = (out, k)"
  shows "\<exists>buf'. sanitize_loop buf r w left subs = Some (buf', w + length out, subs + k)
     \<and> length buf' = length buf \<and> take (w + length out) buf' = take w buf @ out
     \<and> buf' ! (w + length out) = 0 \<and> w + length out < length buf"
  using assms
proof (induction buf r w left subs arbitrary: out k rule: sanitize_loop.induct)
  case (1 buf r w left subs)
  let ?xs = "take left (drop r buf)"
  show ?case
  proof (cases "left = 0")
    case True
    with "1.prems" have "out = []" "k = 0" by (simp_all add: san.simps)
    with True "1.prems" show ?thesis by (simp add: sanitize_loop.simps)
  next
    case False
    have lx: "length ?xs = left" using "1.prems" by simp
    from utf8_decode_sound [of "int left" ?xs] lx "1.prems"(2) obtain len cp where
      d: "netstr_utf8_decode (Some ?xs) (int left) = Some (len, cp)" "utf8_ans ?xs (int left) (len, cp)"
      by auto
    have dec: "netstr_utf8_decode (Some (drop r buf)) (int left) = Some (len, cp)"
      using utf8_decode_take [of left "drop r buf"] d(1) "1.prems"(2) by simp
    let ?n = "max 1 (nat len)"
    obtain out' k' where s': "san (drop ?n ?xs) = (out', k')" by fastforce
    have eq: "san ?xs = (if len \<le> 0 \<or> netstr_is_display_control cp then (0x3f # out', k' + 1)
        else (take (nat len) ?xs @ out', k'))"
      using False d(1) lx s' by (subst san.simps) auto
    have nl: "?n \<le> left" using False d(2) by (auto simp: utf8_ans_def)
    have dt: "drop ?n ?xs = take (left - ?n) (drop (r + ?n) buf)"
      by (simp add: drop_take add.commute)
    consider (bad) "len \<le> 0" | (ctl) "\<not> len \<le> 0" "netstr_is_display_control cp"
      | (good) "\<not> len \<le> 0" "\<not> netstr_is_display_control cp" by blast
    then show ?thesis
    proof cases
      case bad
      then have n1: "?n = 1" by simp
      let ?b = "buf[w := 0x3f]"
      have "san (take (left - 1) (drop (r + 1) ?b)) = (out', k')"
        using s' dt n1 "1.prems"(1) by (simp add: drop_update_cancel)
      from "1.IH"(1) [OF _ dec refl bad _ _ this] False "1.prems"(1,2) obtain b' where
        b': "sanitize_loop ?b (r + 1) (w + 1) (left - 1) (subs + 1) = Some (b', w + 1 + length out', subs + 1 + k')"
          "length b' = length ?b" "take (w + 1 + length out') b' = take (w + 1) ?b @ out'"
          "b' ! (w + 1 + length out') = 0" "w + 1 + length out' < length ?b" by auto
      have "take (w + 1) ?b = take w buf @ [0x3f]" using "1.prems" by (simp add: take_Suc_conv_app_nth)
      with b' bad dec False eq "1.prems"(3) show ?thesis
        by (subst sanitize_loop.simps) auto
    next
      case ctl
      then have n1: "?n = nat len" by simp
      let ?b = "buf[w := 0x3f]"
      have "san (take (left - nat len) (drop (r + nat len) ?b)) = (out', k')"
        using s' dt n1 "1.prems"(1) ctl by (simp add: drop_update_cancel)
      moreover have "Suc w \<le> r + nat len" using ctl(1) "1.prems"(1) by arith
      ultimately obtain b' where
        b': "sanitize_loop ?b (r + nat len) (w + 1) (left - nat len) (subs + 1)
             = Some (b', w + 1 + length out', subs + 1 + k')"
          "length b' = length ?b" "take (w + 1 + length out') b' = take (w + 1) ?b @ out'"
          "b' ! (w + 1 + length out') = 0" "w + 1 + length out' < length ?b"
        using "1.IH"(2) [OF _ dec refl ctl, of out' k'] False nl n1 ctl "1.prems"(1,2) by auto
      have "take (w + 1) ?b = take w buf @ [0x3f]" using "1.prems" by (simp add: take_Suc_conv_app_nth)
      with b' ctl dec False eq "1.prems"(3) show ?thesis
        by (subst sanitize_loop.simps) auto
    next
      case good
      then have n1: "?n = nat len" by simp
      let ?b = "if w \<noteq> r then memmove buf w r (nat len) else buf"
      have b: "?b = memmove buf w r (nat len)" using "1.prems" by (simp add: memmove_same)
      have rl: "r + nat len \<le> length buf" using nl n1 "1.prems"(2) by simp
      note mm = drop_memmove [OF "1.prems"(1) rl]
      have "san (take (left - nat len) (drop (r + nat len) ?b)) = (out', k')"
        using s' dt n1 unfolding b by (simp add: mm)
      from "1.IH"(3) [OF _ dec refl good _ _ this] False nl n1 good "1.prems"(1,2) obtain b' where
        b': "sanitize_loop ?b (r + nat len) (w + nat len) (left - nat len) subs
             = Some (b', w + nat len + length out', subs + k')"
          "length b' = length buf" "take (w + nat len + length out') b' = take (w + nat len) ?b @ out'"
          "b' ! (w + nat len + length out') = 0" "w + nat len + length out' < length buf"
        unfolding b by (auto simp: mm)
      have "take (nat len) ?xs = take (nat len) (drop r buf)" using nl n1 by (simp add: min_def)
      moreover have "length (take (nat len) (drop r buf)) = nat len" using rl by simp
      moreover have "take (w + nat len) ?b = take w buf @ take (nat len) (drop r buf)"
        unfolding b by (rule mm(3))
      ultimately show ?thesis
        using b' good dec False eq "1.prems"(3)
        by (subst sanitize_loop.simps) (auto simp: add.assoc)
    qed
  qed
qed

lemma sanitize_loop_clean:
  assumes "take left (drop r buf) = concat (map utf8_enc cps)" "r + left < length buf"
    "\<forall>c \<in> set cps. scalar c \<and> \<not> netstr_is_display_control (word_of_int c)"
  shows "sanitize_loop buf r r left subs = Some (buf[r + left := 0], r + left, subs)"
  using assms
proof (induction cps arbitrary: r left)
  case Nil
  then have "left = 0" by simp
  then show ?case by (simp add: sanitize_loop.simps)
next
  case (Cons c cps)
  let ?n = "length (utf8_enc c)"
  have pre: "take left (drop r buf) = utf8_enc c @ concat (map utf8_enc cps)" using Cons.prems(1) by simp
  have l: "left = ?n + length (concat (map utf8_enc cps))"
    using arg_cong [OF pre, of length] Cons.prems(2) by simp
  have n: "?n \<le> left" "1 \<le> ?n" using l length_utf8_enc(1) by simp_all
  have "take ?n (take left (drop r buf)) = utf8_enc c" unfolding pre by simp
  then have t: "take ?n (drop r buf) = utf8_enc c" using n(1) by (simp add: min_def)
  have dec: "netstr_utf8_decode (Some (drop r buf)) (int left) = Some (int ?n, word_of_int c)"
    using Cons.prems(3) t n by (intro utf8_decode_found) simp_all
  have "take (left - ?n) (drop (r + ?n) buf) = drop ?n (take left (drop r buf))"
    by (simp add: drop_take add.commute)
  also have "\<dots> = concat (map utf8_enc cps)" unfolding pre by simp
  finally have "sanitize_loop buf (r + ?n) (r + ?n) (left - ?n) subs = Some (buf[r + left := 0], r + left, subs)"
    using Cons.IH [of "left - ?n" "r + ?n"] Cons.prems n by simp
  with dec n Cons.prems(3) show ?case by (subst sanitize_loop.simps) auto
qed

lemma u8_of_nonzero: "1 \<le> x \<Longrightarrow> x < 256 \<Longrightarrow> (0 :: u8) \<noteq> word_of_int x"
  using uint_u8_of [of x] by (auto simp: word_uint_eq_iff)

lemma utf8_enc_nonzero:
  assumes "scalar c" "c \<noteq> 0"
  shows "0 \<notin> set (utf8_enc c)"
  using assms(1)
proof (cases rule: scalar_split)
  case 1
  with assms(2) u8_of_nonzero [of c] show ?thesis unfolding utf8_enc_join(1) [OF 1] by simp
next
  case (2 p q)
  with u8_of_nonzero [of "0xC0 + p"] u8_of_nonzero [of "0x80 + q"] show ?thesis
    unfolding 2(1) utf8_enc_join(2) [OF 2(2-5)] by (simp del: of_int_add)
next
  case (3 p q t)
  with u8_of_nonzero [of "0xE0 + p"] u8_of_nonzero [of "0x80 + q"] u8_of_nonzero [of "0x80 + t"] show ?thesis
    unfolding 3(1) utf8_enc_join(3) [OF 3(2-8)] by (simp del: of_int_add)
next
  case (4 p q t u)
  then have p8: "p < 8" by simp
  from 4 u8_of_nonzero [of "0xF0 + p"] u8_of_nonzero [of "0x80 + q"] u8_of_nonzero [of "0x80 + t"]
    u8_of_nonzero [of "0x80 + u"]
  show ?thesis unfolding 4(1) utf8_enc_join(4) [OF 4(2) p8 4(4-10)] by (simp del: of_int_add)
qed

lemma clean_nonzero: "clean out \<Longrightarrow> 0 \<notin> set out"
proof -
  assume "clean out"
  then obtain cps where cps: "out = concat (map utf8_enc cps)"
    "\<forall>c \<in> set cps. scalar c \<and> \<not> netstr_is_display_control (word_of_int c)" by (auto simp: clean_def)
  have "c \<noteq> 0" if "c \<in> set cps" for c
    using that cps(2) by (auto simp: netstr_is_display_control_def)
  with cps utf8_enc_nonzero show "0 \<notin> set out" by auto
qed

lemma c_str_at: "take n b = out \<Longrightarrow> 0 \<notin> set out \<Longrightarrow> n < length b \<Longrightarrow> b ! n = 0 \<Longrightarrow> c_str b = out"
proof -
  assume a: "take n b = out" "0 \<notin> set out" "n < length b" "b ! n = 0"
  then have "b = out @ 0 # drop (Suc n) b" by (metis id_take_nth_drop)
  moreover have "takeWhile (\<lambda>c. c \<noteq> 0) (out @ 0 # xs) = out" for xs using a(2) by (rule takeWhile_upto)
  ultimately show "c_str b = out" unfolding c_str_def by metis
qed

lemma c_str_split:
  assumes "0 \<in> set s"
  shows "length (c_str s) < length s" "take (length (c_str s)) s = c_str s" "s ! length (c_str s) = 0"
    "0 \<notin> set (c_str s)"
proof -
  obtain xs ys where s: "s = xs @ 0 # ys" "0 \<notin> set xs" using assms by (meson split_list_first)
  then have "c_str s = xs" by (simp add: c_str_def)
  with s show "length (c_str s) < length s" "take (length (c_str s)) s = c_str s" "s ! length (c_str s) = 0"
    "0 \<notin> set (c_str s)" by simp_all
qed

lemma display_sanitize_san:
  assumes "0 \<in> set s"
  shows "\<exists>buf. display_sanitize (Some s) = Some (buf, snd (san (c_str s)))
    \<and> length buf = length s \<and> c_str buf = fst (san (c_str s)) \<and> 0 \<in> set buf"
proof -
  obtain out k where sn: "san (c_str s) = (out, k)" by fastforce
  note cs = c_str_split [OF assms]
  from sanitize_loop_san [of 0 0 "length (c_str s)" s out k 0] cs sn obtain buf where
    b: "sanitize_loop s 0 0 (length (c_str s)) 0 = Some (buf, length out, k)" "length buf = length s"
      "take (length out) buf = out" "buf ! length out = 0" "length out < length s" by auto
  have "clean out" using san_clean [of "c_str s"] sn by simp
  then have "c_str buf = out" using b clean_nonzero by (intro c_str_at) auto
  moreover have "0 \<in> set buf" using b(2,4,5) by (metis nth_mem)
  ultimately show ?thesis using b sn by (simp add: display_sanitize_def)
qed

section \<open>Properties\<close>

text \<open>
  A name-class copy writes at most \<open>dstsz - 1\<close> octets and a NUL, reads at most \<open>n\<close>
  octets and never past a NUL, and is the octet-by-octet marking of what it read: no C0 or
  DEL octet survives, every octet above 0x7f is kept.
\<close>

theorem netstr_copy_marks:
  assumes "n \<le> int (length s)" and "1 \<le> dstsz"
  shows "\<exists>out. netstr_copy dstsz (Some s) n = Some out \<and> int (length out) < dstsz
     \<and> out = map mark (takeWhile (\<lambda>c. c \<noteq> 0) (take (nat (min n (dstsz - 1))) s))
     \<and> (\<forall>c \<in> set out. 0x20 \<le> c \<and> c \<noteq> 0x7f)
     \<and> filter (\<lambda>c. 0x80 \<le> c) out
         = filter (\<lambda>c. 0x80 \<le> c) (takeWhile (\<lambda>c. c \<noteq> 0) (take (nat (min n (dstsz - 1))) s))"
proof -
  let ?t = "takeWhile (\<lambda>c. c \<noteq> 0) (take (nat (min n (dstsz - 1))) s)"
  have "length ?t \<le> length (take (nat (min n (dstsz - 1))) s)" by (rule length_takeWhile_le)
  then have "int (length ?t) < dstsz" using assms by (simp add: min_def split: if_splits)
  moreover have "0x20 \<le> mark c \<and> mark c \<noteq> 0x7f" for c by (auto simp: mark_def not_less)
  moreover have "filter (\<lambda>c. 0x80 \<le> c) (map mark xs) = filter (\<lambda>c. 0x80 \<le> c) xs" for xs
  proof (induction xs)
    case (Cons x xs)
    have "(0x80 \<le> mark x) = (0x80 \<le> x)" "0x80 \<le> x \<Longrightarrow> mark x = x"
      by (auto simp: mark_def word_le_def word_less_def word_uint_eq_iff)
    with Cons show ?case by simp
  qed simp
  ultimately show ?thesis
    using netstr_copy_spec [OF assms(1), of dstsz] assms(2) by auto
qed

lemma netstr_copy_marks_witness:
  "\<exists>out. netstr_copy 4 (Some [0x41, 10, 0xC3, 0xA9, 0x42]) 5 = Some out \<and> int (length out) < 4
     \<and> out = map mark (takeWhile (\<lambda>c. c \<noteq> 0) (take (nat (min 5 (4 - 1))) [0x41, 10, 0xC3, 0xA9, 0x42]))
     \<and> (\<forall>c \<in> set out. 0x20 \<le> c \<and> c \<noteq> 0x7f)
     \<and> filter (\<lambda>c. 0x80 \<le> c) out
         = filter (\<lambda>c. 0x80 \<le> c) (takeWhile (\<lambda>c. c \<noteq> 0) (take (nat (min 5 (4 - 1))) [0x41, 10, 0xC3, 0xA9, 0x42]))"
  by (rule netstr_copy_marks) simp_all

text \<open>
  C36: The decoder accepts exactly the well-formed UTF-8 of RFC 3629: given \<open>n\<close> readable
  octets it returns, and it reports a code point of a given length exactly when the octets
  begin with the encoding of that scalar value; overlong forms, surrogates, values above
  U+10FFFF and truncated sequences are all refused.
\<close>

theorem netstr_utf8_decode_exact:
  assumes "0 \<le> n" and "n \<le> int (length s)"
  shows "\<exists>len cp. netstr_utf8_decode (Some s) n = Some (len, cp)
     \<and> (if \<exists>c. scalar c \<and> int (length (utf8_enc c)) \<le> n \<and> take (length (utf8_enc c)) s = utf8_enc c
        then scalar (uint cp) \<and> len = int (length (utf8_enc (uint cp))) \<and> 1 \<le> len \<and> len \<le> 4
           \<and> take (nat len) s = utf8_enc (uint cp)
        else len = 0)"
proof -
  from utf8_decode_sound [OF assms] obtain len cp where
    d: "netstr_utf8_decode (Some s) n = Some (len, cp)" "utf8_ans s n (len, cp)" by auto
  show ?thesis
  proof (cases "\<exists>c. scalar c \<and> int (length (utf8_enc c)) \<le> n \<and> take (length (utf8_enc c)) s = utf8_enc c")
    case True
    then obtain c where "scalar c" "int (length (utf8_enc c)) \<le> n" "take (length (utf8_enc c)) s = utf8_enc c" by auto
    with utf8_decode_found [of c s n] d(1) have "len = int (length (utf8_enc c))" by simp
    with length_utf8_enc [of c] have "1 \<le> len" "len \<le> 4" by simp_all
    with True d show ?thesis by (auto simp: utf8_ans_def)
  next
    case False
    with d show ?thesis by (auto simp: utf8_ans_def)
  qed
qed

lemma netstr_utf8_decode_exact_witness:
  "\<exists>len cp. netstr_utf8_decode (Some [0xE2, 0x80, 0xAE]) 3 = Some (len, cp)
     \<and> (if \<exists>c. scalar c \<and> int (length (utf8_enc c)) \<le> 3
             \<and> take (length (utf8_enc c)) [0xE2, 0x80, 0xAE] = utf8_enc c
        then scalar (uint cp) \<and> len = int (length (utf8_enc (uint cp))) \<and> 1 \<le> len \<and> len \<le> 4
           \<and> take (nat len) [0xE2, 0x80, 0xAE] = utf8_enc (uint cp)
        else len = 0)"
  by (rule netstr_utf8_decode_exact) simp_all

text \<open>
  Sanitising a NUL-terminated string in place never writes outside it and leaves a
  string, no longer than before, that is well-formed UTF-8 without a single code point a
  terminal would act on (only the newline survives); sanitising the result again changes
  nothing and reports no substitution.
\<close>

theorem display_sanitize_safe:
  assumes "0 \<in> set s"
  shows "\<exists>buf k. display_sanitize (Some s) = Some (buf, k) \<and> length buf = length s
     \<and> length (c_str buf) \<le> length (c_str s)
     \<and> (\<exists>cps. c_str buf = concat (map utf8_enc cps)
           \<and> (\<forall>c \<in> set cps. scalar c \<and> \<not> netstr_is_display_control (word_of_int c)))
     \<and> display_sanitize (Some buf) = Some (buf, 0)"
proof -
  from display_sanitize_san [OF assms] obtain buf where
    b: "display_sanitize (Some s) = Some (buf, snd (san (c_str s)))" "length buf = length s"
      "c_str buf = fst (san (c_str s))" "0 \<in> set buf" by blast
  have cl: "clean (c_str buf)" "length (c_str buf) \<le> length (c_str s)"
    using san_clean [of "c_str s"] b(3) by simp_all
  then obtain cps where cps: "c_str buf = concat (map utf8_enc cps)"
    "\<forall>c \<in> set cps. scalar c \<and> \<not> netstr_is_display_control (word_of_int c)" by (auto simp: clean_def)
  note cs = c_str_split [OF b(4)]
  have "sanitize_loop buf 0 0 (length (c_str buf)) 0
     = Some (buf[length (c_str buf) := 0], length (c_str buf), 0)"
    using sanitize_loop_clean [of "length (c_str buf)" 0 buf cps 0] cs cps by simp
  moreover have "buf[length (c_str buf) := 0] = buf" using cs(3) by (metis list_update_id)
  ultimately have "display_sanitize (Some buf) = Some (buf, 0)" by (simp add: display_sanitize_def)
  with b(1,2) cl(2) cps show ?thesis by blast
qed

lemma display_sanitize_safe_witness:
  "\<exists>buf k. display_sanitize (Some [0x1b, 0xC3, 0xA9, 0xE2, 0x80, 0xAE, 0xC3, 0]) = Some (buf, k)
     \<and> length buf = length [0x1b :: u8, 0xC3, 0xA9, 0xE2, 0x80, 0xAE, 0xC3, 0]
     \<and> length (c_str buf) \<le> length (c_str [0x1b, 0xC3, 0xA9, 0xE2, 0x80, 0xAE, 0xC3, 0])
     \<and> (\<exists>cps. c_str buf = concat (map utf8_enc cps)
           \<and> (\<forall>c \<in> set cps. scalar c \<and> \<not> netstr_is_display_control (word_of_int c)))
     \<and> display_sanitize (Some buf) = Some (buf, 0)"
  by (rule display_sanitize_safe) simp

end
