(* ===== verification/RsnIe.thy ===== *)
theory RsnIe
  imports Bytes
begin

text \<open>
  \<open>src/rsn_ie.c\<close>: the RSN element (IEEE 802.11-2020, 9.4.2.24), parsed once. The record
  has the fields of \<open>rsn_ie_t\<close>; the pointers into the caller's buffer are the octets
  readable from them. The specification is an encoder of the element cut off at any field
  boundary; the parser is exact for it, in both directions.
\<close>

section \<open>Model\<close>

definition RSN_SUITE_BIT :: "nat \<Rightarrow> u32" where "RSN_SUITE_BIT t = push_bit t 1"

definition RSN_SEL_OUI :: "u32 \<Rightarrow> u32" where "RSN_SEL_OUI sel = drop_bit 8 sel"
definition RSN_SEL_TYPE :: "u32 \<Rightarrow> u8" where "RSN_SEL_TYPE sel = ucast (sel AND 0xff)"
definition RSN_SEL_STD :: "u32 \<Rightarrow> bool" where "RSN_SEL_STD sel \<longleftrightarrow> RSN_SEL_OUI sel = 0x000FAC"

definition RSN_AKM_SAE_FAMILY :: u32 where
  "RSN_AKM_SAE_FAMILY = RSN_SUITE_BIT 8 OR RSN_SUITE_BIT 9 OR RSN_SUITE_BIT 24 OR RSN_SUITE_BIT 25"

definition RSN_AKM_PSK_FAMILY :: u32 where
  "RSN_AKM_PSK_FAMILY = RSN_SUITE_BIT 2 OR RSN_SUITE_BIT 4 OR RSN_SUITE_BIT 6"

definition RSN_AKM_FAMILY_SAE :: "u32 \<Rightarrow> bool" where
  "RSN_AKM_FAMILY_SAE bits \<longleftrightarrow> bits AND RSN_AKM_SAE_FAMILY \<noteq> 0"

record rsn_ie_t =
  rsn_version :: u16
  has_group :: bool
  group_sel :: u32
  pairwise_count :: int
  pairwise :: "bytes option"
  pairwise_bits :: u32
  first_pairwise_sel :: u32
  akm_count :: int
  akm :: "bytes option"
  akm_bits :: u32
  first_akm_sel :: u32
  has_caps :: bool
  rsn_caps :: u16
  mfpc :: bool
  mfpr :: bool
  has_pmkids :: bool
  pmkid_count :: int
  pmkids :: "bytes option"
  has_group_mgmt :: bool
  group_mgmt_sel :: u32
  truncated :: bool

text \<open>\<open>memset(out, 0, sizeof *out)\<close>\<close>

definition rsn_zero :: rsn_ie_t where
  "rsn_zero = \<lparr>rsn_version = 0, has_group = False, group_sel = 0,
     pairwise_count = 0, pairwise = None, pairwise_bits = 0, first_pairwise_sel = 0,
     akm_count = 0, akm = None, akm_bits = 0, first_akm_sel = 0,
     has_caps = False, rsn_caps = 0, mfpc = False, mfpr = False,
     has_pmkids = False, pmkid_count = 0, pmkids = None,
     has_group_mgmt = False, group_mgmt_sel = 0, truncated = False\<rparr>"

definition field_ok :: "rd_t \<Rightarrow> int \<Rightarrow> rsn_ie_t \<Rightarrow> bool \<times> rsn_ie_t" where
  "field_ok r n out =
     (let rem = rd_rem r in
      if rem \<ge> n then (True, out)
      else (False, if rem > 0 then out\<lparr>truncated := True\<rparr> else out))"

text \<open>
  The four out-parameters of \<open>suite_list\<close> travel as \<open>(count, list, bits, first)\<close>. The
  loop returns whether it ran to its end.
\<close>

type_synonym suites_t = "int \<times> bytes option \<times> u32 \<times> u32"

function suites_loop ::
  "int \<Rightarrow> int \<Rightarrow> rd_t \<Rightarrow> rsn_ie_t \<Rightarrow> suites_t \<Rightarrow> (bool \<times> rd_t \<times> rsn_ie_t \<times> suites_t) option" where
  "suites_loop k n r out (count, lst, bits, first) =
     (if k < n
      then if \<not> (rd_off r + 4 \<le> rd_len r)
           then Some (False, r, out\<lparr>truncated := True\<rparr>, (count, lst, bits, first))
           else do {
             p \<leftarrow> rd_p r;
             sel \<leftarrow> be32 p (rd_off r);
             let t = RSN_SEL_TYPE sel;
             suites_loop (k + 1) n (r\<lparr>rd_off := rd_off r + 4\<rparr>) out
               (count + 1, lst,
                if RSN_SEL_STD sel \<and> t < 32 then bits OR RSN_SUITE_BIT (unat t) else bits,
                if k = 0 then sel else first) }
      else Some (True, r, out, (count, lst, bits, first)))"
  by pat_completeness auto
termination by (relation "measure (\<lambda>(k, n, _, _, _). nat (n - k))") auto

declare suites_loop.simps [simp del]

definition suite_list :: "rd_t \<Rightarrow> rsn_ie_t \<Rightarrow> (bool \<times> rd_t \<times> rsn_ie_t \<times> suites_t) option" where
  "suite_list r out =
     (let (ok, out1) = field_ok r 2 out in
      if \<not> ok then Some (False, r, out1, (0, None, 0, 0))
      else do {
        (n, r1) \<leftarrow> rd_le16 r;
        suites_loop 0 (uint n) r1 out1
          (0, map_option (drop (nat (rd_off r1))) (rd_p r1), 0, 0) })"

function pmkid_loop :: "int \<Rightarrow> int \<Rightarrow> rd_t \<Rightarrow> rsn_ie_t \<Rightarrow> bool \<times> rd_t \<times> rsn_ie_t" where
  "pmkid_loop k np r out =
     (if k < np
      then if \<not> (rd_off r + 16 \<le> rd_len r)
           then (False, r, out\<lparr>truncated := True\<rparr>)
           else pmkid_loop (k + 1) np (r\<lparr>rd_off := rd_off r + 16\<rparr>)
                  (out\<lparr>pmkid_count := pmkid_count out + 1\<rparr>)
      else (True, r, out))"
  by pat_completeness auto
termination by (relation "measure (\<lambda>(k, np, _, _). nat (np - k))") auto

declare pmkid_loop.simps [simp del]

text \<open>The tail of the parser, from one optional field to the next.\<close>

definition parse_group_mgmt :: "rd_t \<Rightarrow> rsn_ie_t \<Rightarrow> rsn_ie_t option" where
  "parse_group_mgmt r out =
     (let (ok, out1) = field_ok r 4 out in
      if \<not> ok then Some out1
      else do {
        (v, r1) \<leftarrow> rd_be32 r;
        Some (out1\<lparr>has_group_mgmt := True, group_mgmt_sel := v\<rparr>) })"

definition parse_pmkids :: "rd_t \<Rightarrow> rsn_ie_t \<Rightarrow> rsn_ie_t option" where
  "parse_pmkids r out =
     (let (ok, out1) = field_ok r 2 out in
      if \<not> ok then Some out1
      else do {
        (np, r1) \<leftarrow> rd_le16 r;
        let (ok, r2, out2) = pmkid_loop 0 (uint np) r1
              (out1\<lparr>has_pmkids := True, pmkids := map_option (drop (nat (rd_off r1))) (rd_p r1)\<rparr>);
        if \<not> ok then Some out2 else parse_group_mgmt r2 out2 })"

definition parse_caps :: "rd_t \<Rightarrow> rsn_ie_t \<Rightarrow> rsn_ie_t option" where
  "parse_caps r out =
     (let (ok, out1) = field_ok r 2 out in
      if \<not> ok then Some out1
      else do {
        (c, r1) \<leftarrow> rd_le16 r;
        parse_pmkids r1
          (out1\<lparr>has_caps := True, rsn_caps := c, mfpr := bit c 6, mfpc := bit c 7\<rparr>) })"

definition parse_akms :: "rd_t \<Rightarrow> rsn_ie_t \<Rightarrow> rsn_ie_t option" where
  "parse_akms r out = do {
     (ok, r1, out1, (count, lst, bits, first)) \<leftarrow> suite_list r out;
     let out2 = out1\<lparr>akm_count := count, akm := lst, akm_bits := bits, first_akm_sel := first\<rparr>;
     if \<not> ok then Some out2 else parse_caps r1 out2 }"

definition parse_pairwise :: "rd_t \<Rightarrow> rsn_ie_t \<Rightarrow> rsn_ie_t option" where
  "parse_pairwise r out = do {
     (ok, r1, out1, (count, lst, bits, first)) \<leftarrow> suite_list r out;
     let out2 = out1\<lparr>pairwise_count := count, pairwise := lst, pairwise_bits := bits,
                     first_pairwise_sel := first\<rparr>;
     if \<not> ok then Some out2 else parse_akms r1 out2 }"

definition parse_group :: "rd_t \<Rightarrow> rsn_ie_t \<Rightarrow> rsn_ie_t option" where
  "parse_group r out =
     (let (ok, out1) = field_ok r 4 out in
      if \<not> ok then Some out1
      else do {
        (v, r1) \<leftarrow> rd_be32 r;
        parse_pairwise r1 (out1\<lparr>has_group := True, group_sel := v\<rparr>) })"

definition rsn_ie_parse :: "bytes option \<Rightarrow> int \<Rightarrow> (bool \<times> rsn_ie_t) option" where
  "rsn_ie_parse body len =
     (let r = rd_init body len in
      if rd_rem r < 2 then Some (False, rsn_zero\<lparr>truncated := True\<rparr>)
      else do {
        (v, r1) \<leftarrow> rd_le16 r;
        let out = rsn_zero\<lparr>rsn_version := v\<rparr>;
        if v \<noteq> 1 then Some (False, out)
        else do { out' \<leftarrow> parse_group r1 out; Some (True, out') } })"

section \<open>Names and ranks\<close>

definition rsn_cipher_name :: "u8 \<Rightarrow> string" where
  "rsn_cipher_name t =
     (if t = 0 then ''GROUP'' else if t = 1 then ''WEP-40'' else if t = 2 then ''TKIP''
      else if t = 4 then ''CCMP'' else if t = 5 then ''WEP-104'' else if t = 6 then ''BIP''
      else if t = 8 then ''GCMP'' else if t = 9 then ''GCMP-256''
      else if t = 10 then ''CCMP-256'' else ''?'')"

definition rsn_akm_name :: "u8 \<Rightarrow> string" where
  "rsn_akm_name t =
     (if t = 1 then ''802.1X'' else if t = 2 then ''PSK'' else if t = 3 then ''FT-802.1X''
      else if t = 4 then ''FT-PSK'' else if t = 5 then ''802.1X-SHA256''
      else if t = 6 then ''PSK-SHA256'' else if t = 8 then ''SAE'' else if t = 9 then ''FT-SAE''
      else if t = 11 then ''Suite-B'' else if t = 12 then ''Suite-B-192''
      else if t = 18 then ''OWE'' else if t = 19 then ''FT-PSK-SHA384''
      else if t = 24 then ''SAE-EXT-KEY'' else if t = 25 then ''FT-SAE-EXT-KEY'' else ''?'')"

definition rsn_cipher_rank :: "u8 \<Rightarrow> int" where
  "rsn_cipher_rank t =
     (if t = 1 then 1 else if t = 2 then 1 else if t = 5 then 1
      else if t = 4 then 2 else if t = 8 then 2
      else if t = 9 then 3 else if t = 10 then 3 else 0)"

definition rsn_cipher_rank_best :: "u32 \<Rightarrow> int" where
  "rsn_cipher_rank_best bits =
     fold (\<lambda>t best.
        if bits AND RSN_SUITE_BIT t = 0 then best
        else let r = rsn_cipher_rank (word_of_nat t) in if r > best then r else best)
       [0..<32] 0"

section \<open>The element, as the standard lays it out\<close>

text \<open>Every field after the version may be left out, but only together with all that follow it.\<close>

datatype rsn_mgmt = NoMgmt | Mgmt u32 bytes
datatype rsn_pmk = NoPmk | Pmk "bytes list" rsn_mgmt
datatype rsn_cap = NoCap | Cap u16 rsn_pmk
datatype rsn_akms = NoAkms | Akms "u32 list" rsn_cap
datatype rsn_pair = NoPair | Pair "u32 list" rsn_akms
datatype rsn_elem = NoGroup | Group u32 rsn_pair

definition u16le :: "u16 \<Rightarrow> bytes" where "u16le v = [ucast v, ucast (drop_bit 8 v)]"

definition u32be :: "u32 \<Rightarrow> bytes" where
  "u32be v = [ucast (drop_bit 24 v), ucast (drop_bit 16 v), ucast (drop_bit 8 v), ucast v]"

definition suites_enc :: "u32 list \<Rightarrow> bytes" where
  "suites_enc ss = u16le (word_of_nat (length ss)) @ concat (map u32be ss)"

primrec mgmt_enc where
  "mgmt_enc NoMgmt = []"
| "mgmt_enc (Mgmt v ext) = u32be v @ ext"

primrec pmk_enc where
  "pmk_enc NoPmk = []"
| "pmk_enc (Pmk l c) = u16le (word_of_nat (length l)) @ concat l @ mgmt_enc c"

primrec cap_enc where
  "cap_enc NoCap = []"
| "cap_enc (Cap v c) = u16le v @ pmk_enc c"

primrec akms_enc where
  "akms_enc NoAkms = []"
| "akms_enc (Akms ss c) = suites_enc ss @ cap_enc c"

primrec pair_enc where
  "pair_enc NoPair = []"
| "pair_enc (Pair ss c) = suites_enc ss @ akms_enc c"

primrec rsn_enc where
  "rsn_enc NoGroup = u16le 1"
| "rsn_enc (Group g c) = u16le 1 @ u32be g @ pair_enc c"

text \<open>Counts fit their 16-bit field and a PMKID has 16 octets.\<close>

primrec pmk_wf where
  "pmk_wf NoPmk = True"
| "pmk_wf (Pmk l c) = (length l < 65536 \<and> (\<forall>k \<in> set l. length k = 16))"

primrec cap_wf where "cap_wf NoCap = True" | "cap_wf (Cap v c) = pmk_wf c"

primrec akms_wf where
  "akms_wf NoAkms = True"
| "akms_wf (Akms ss c) = (length ss < 65536 \<and> cap_wf c)"

primrec pair_wf where
  "pair_wf NoPair = True"
| "pair_wf (Pair ss c) = (length ss < 65536 \<and> akms_wf c)"

primrec rsn_wf where "rsn_wf NoGroup = True" | "rsn_wf (Group g c) = pair_wf c"

text \<open>What a parser owes for it; \<open>mem\<close> is the memory behind the element.\<close>

definition suites_bits :: "u32 list \<Rightarrow> u32" where
  "suites_bits ss = fold (\<lambda>s bits. if RSN_SEL_STD s \<and> RSN_SEL_TYPE s < 32
     then bits OR RSN_SUITE_BIT (unat (RSN_SEL_TYPE s)) else bits) ss 0"

definition suites_first :: "u32 list \<Rightarrow> u32" where
  "suites_first ss = (case ss of [] \<Rightarrow> 0 | s # _ \<Rightarrow> s)"

primrec mgmt_read where
  "mgmt_read NoMgmt mem out = out"
| "mgmt_read (Mgmt v ext) mem out = out\<lparr>has_group_mgmt := True, group_mgmt_sel := v\<rparr>"

primrec pmk_read where
  "pmk_read NoPmk mem out = out"
| "pmk_read (Pmk l c) mem out = mgmt_read c mem
     (out\<lparr>has_pmkids := True, pmkids := Some (concat l @ mgmt_enc c @ mem),
          pmkid_count := pmkid_count out + int (length l)\<rparr>)"

primrec cap_read where
  "cap_read NoCap mem out = out"
| "cap_read (Cap v c) mem out = pmk_read c mem
     (out\<lparr>has_caps := True, rsn_caps := v, mfpr := bit v 6, mfpc := bit v 7\<rparr>)"

primrec akms_read where
  "akms_read NoAkms mem out = out"
| "akms_read (Akms ss c) mem out = cap_read c mem
     (out\<lparr>akm_count := int (length ss), akm := Some (concat (map u32be ss) @ cap_enc c @ mem),
          akm_bits := suites_bits ss, first_akm_sel := suites_first ss\<rparr>)"

primrec pair_read where
  "pair_read NoPair mem out = out"
| "pair_read (Pair ss c) mem out = akms_read c mem
     (out\<lparr>pairwise_count := int (length ss), pairwise := Some (concat (map u32be ss) @ akms_enc c @ mem),
          pairwise_bits := suites_bits ss, first_pairwise_sel := suites_first ss\<rparr>)"

primrec rsn_read where
  "rsn_read NoGroup mem = rsn_zero\<lparr>rsn_version := 1\<rparr>"
| "rsn_read (Group g c) mem =
     pair_read c mem (rsn_zero\<lparr>rsn_version := 1, has_group := True, group_sel := g\<rparr>)"

section \<open>Reading at a cursor\<close>

text \<open>The cursor stands before \<open>xs\<close>, the rest of its region, with \<open>mem\<close> behind the region.\<close>

definition rd_at :: "rd_t \<Rightarrow> bytes \<Rightarrow> bytes \<Rightarrow> bool" where
  "rd_at r xs mem \<longleftrightarrow> \<not> rd_fault r
     \<and> (\<exists>pre. rd_p r = Some (pre @ xs @ mem) \<and> rd_off r = int (length pre)
          \<and> rd_len r = int (length pre + length xs))"

lemma rd_at_init: "rd_at (rd_init (Some (xs @ mem)) (int (length xs))) xs mem"
  by (auto simp: rd_at_def rd_init_def intro: exI [of _ "[]"])

lemma rd_at_rem: "rd_at r xs mem \<Longrightarrow> rd_rem r = int (length xs)"
  by (auto simp: rd_at_def rd_rem_def)

lemma rd_at_fits: "rd_at r xs mem \<Longrightarrow> rd_off r + n \<le> rd_len r \<longleftrightarrow> n \<le> int (length xs)"
  by (auto simp: rd_at_def)

lemma rd_at_move: "rd_at r (ys @ xs) mem \<Longrightarrow> rd_at (r\<lparr>rd_off := rd_off r + int (length ys)\<rparr>) xs mem"
  unfolding rd_at_def by (fastforce simp: exI [of _ "_ @ ys"])

lemma rd_at_ptr: "rd_at r xs mem \<Longrightarrow> map_option (drop (nat (rd_off r))) (rd_p r) = Some (xs @ mem)"
  by (auto simp: rd_at_def)

lemma u16le_join: "u16le (ucast a OR push_bit 8 (ucast b)) = [a, b :: u8]"
  "ucast (ucast v :: u8) OR push_bit 8 (ucast (ucast (drop_bit 8 v) :: u8)) = (v :: u16)"
  by (auto simp: u16le_def bit_eq_iff bit_simps dest: bit_imp_le_length)

definition join32 :: "u8 \<Rightarrow> u8 \<Rightarrow> u8 \<Rightarrow> u8 \<Rightarrow> u32" where
  "join32 a b c d = push_bit 24 (ucast a) OR push_bit 16 (ucast b) OR push_bit 8 (ucast c) OR ucast d"

lemma u32be_join: "u32be (join32 a b c d) = [a, b, c, d]"
  "join32 (ucast (drop_bit 24 v)) (ucast (drop_bit 16 v)) (ucast (drop_bit 8 v)) (ucast v) = v"
proof -
  show "u32be (join32 a b c d) = [a, b, c, d]"
    by (auto simp: u32be_def join32_def bit_eq_iff bit_simps dest: bit_imp_le_length)
  show "join32 (ucast (drop_bit 24 v)) (ucast (drop_bit 16 v)) (ucast (drop_bit 8 v)) (ucast v) = v"
  proof (rule bit_word_eqI)
    fix n assume "n < LENGTH(32)"
    then consider "n < 8" | "8 \<le> n" "n < 16" | "16 \<le> n" "n < 24" | "24 \<le> n" "n < 32" by fastforce
    then show "bit (join32 (ucast (drop_bit 24 v)) (ucast (drop_bit 16 v)) (ucast (drop_bit 8 v)) (ucast v)) n
        = bit v n"
      by cases (auto simp: join32_def bit_simps)
  qed
qed

lemma length_enc [simp]: "length (u16le v) = 2" "length (u32be w) = 4"
  by (simp_all add: u16le_def u32be_def)

lemma split_u16le: "2 \<le> length xs \<Longrightarrow> \<exists>v ys. xs = u16le v @ ys"
proof -
  assume "2 \<le> length xs"
  then obtain a b ys where "xs = a # b # ys" by (cases xs; cases "tl xs") auto
  then have "xs = u16le (ucast a OR push_bit 8 (ucast b)) @ ys" by (simp add: u16le_join)
  then show ?thesis by blast
qed

lemma split_u32be: "4 \<le> length xs \<Longrightarrow> \<exists>v ys. xs = u32be v @ ys"
proof -
  assume "4 \<le> length xs"
  then obtain a b c d ys where "xs = a # b # c # d # ys"
    by (auto simp: numeral_eq_Suc Suc_le_length_iff)
  then have "xs = u32be (join32 a b c d) @ ys" by (simp add: u32be_join)
  then show ?thesis by blast
qed

lemma be32_enc: "be32 (pre @ u32be v @ ys) (int (length pre)) = Some v"
  by (simp add: be32_in u32be_def nth_append nat_add_distrib numeral_2_eq_2 numeral_3_eq_3
      u32be_join(2) [unfolded join32_def])

lemma le16_enc: "le16 (pre @ u16le v @ ys) (int (length pre)) = Some v"
  by (simp add: u16le_def nth_append nat_add_distrib u16le_join(2))

lemma rd_le16_at:
  assumes "rd_at r (u16le v @ xs) mem"
  shows "rd_le16 r = Some (v, r\<lparr>rd_off := rd_off r + 2\<rparr>)" "rd_at (r\<lparr>rd_off := rd_off r + 2\<rparr>) xs mem"
  using assms rd_at_move [OF assms] rd_at_rem [OF assms] le16_enc [of _ v "xs @ mem"]
  by (auto simp: rd_le16_def rd_load_val rd_at_def)

lemma rd_be32_at:
  assumes "rd_at r (u32be v @ xs) mem"
  shows "rd_be32 r = Some (v, r\<lparr>rd_off := rd_off r + 4\<rparr>)" "rd_at (r\<lparr>rd_off := rd_off r + 4\<rparr>) xs mem"
  using assms rd_at_move [OF assms] rd_at_rem [OF assms] be32_enc [of _ v "xs @ mem"]
  by (auto simp: rd_be32_def rd_load_val rd_at_def)

section \<open>The suite loop\<close>

definition suite_upd :: "u32 \<Rightarrow> u32 \<Rightarrow> u32" where
  "suite_upd s bits = (if RSN_SEL_STD s \<and> RSN_SEL_TYPE s < 32
     then bits OR RSN_SUITE_BIT (unat (RSN_SEL_TYPE s)) else bits)"

lemma suites_bits_fold: "suites_bits ss = fold suite_upd ss 0"
  by (simp add: suites_bits_def suite_upd_def [abs_def])

lemma suites_loop_spec:
  assumes "rd_at r (concat (map u32be ss) @ ys) mem" "0 \<le> k" "k + int (length ss) \<le> n"
    "k + int (length ss) = n \<or> length ys < 4"
  shows "suites_loop k n r out (count, lst, bits, first) =
     Some (k + int (length ss) = n, r\<lparr>rd_off := rd_off r + 4 * int (length ss)\<rparr>,
       if k + int (length ss) = n then out else out\<lparr>truncated := True\<rparr>,
       (count + int (length ss), lst, fold suite_upd ss bits,
        if k = 0 \<and> ss \<noteq> [] then hd ss else first))
     \<and> rd_at (r\<lparr>rd_off := rd_off r + 4 * int (length ss)\<rparr>) ys mem"
  using assms
proof (induction ss arbitrary: k r count bits first)
  case Nil
  then show ?case by (auto simp: suites_loop.simps rd_at_fits)
next
  case (Cons s ss)
  from Cons.prems(1) have at: "rd_at r (u32be s @ concat (map u32be ss) @ ys) mem" by simp
  note b = rd_be32_at [OF at]
  obtain pre where p: "rd_p r = Some (pre @ u32be s @ (concat (map u32be ss) @ ys) @ mem)" "rd_off r = int (length pre)"
    using at by (auto simp: rd_at_def)
  have sel: "be32 (pre @ u32be s @ (concat (map u32be ss) @ ys) @ mem) (rd_off r) = Some s"
    unfolding p(2) by (rule be32_enc)
  have fits: "rd_off r + 4 \<le> rd_len r" using at by (simp add: rd_at_fits)
  have eq: "suites_loop k n r out (count, lst, bits, first) =
     suites_loop (k + 1) n (r\<lparr>rd_off := rd_off r + 4\<rparr>) out
       (count + 1, lst, suite_upd s bits, if k = 0 then s else first)"
    using Cons.prems p(1) sel fits by (subst suites_loop.simps) (simp add: suite_upd_def Let_def)
  from Cons.IH [OF b(2), of "k + 1" "count + 1" "suite_upd s bits" "if k = 0 then s else first"] Cons.prems
  have "suites_loop k n r out (count, lst, bits, first) =
     Some (k + 1 + int (length ss) = n, r\<lparr>rd_off := rd_off r + 4 + 4 * int (length ss)\<rparr>,
       if k + 1 + int (length ss) = n then out else out\<lparr>truncated := True\<rparr>,
       (count + 1 + int (length ss), lst, fold suite_upd ss (suite_upd s bits), if k = 0 then s else first))
     \<and> rd_at (r\<lparr>rd_off := rd_off r + 4 + 4 * int (length ss)\<rparr>) ys mem"
    unfolding eq by (simp add: add.assoc)
  then show ?case by (simp add: add.assoc add.commute add.left_commute)
qed

lemma pmkid_loop_spec:
  assumes "rd_at r (concat l @ ys) mem" "0 \<le> k" "\<forall>x \<in> set l. length x = 16" "k + int (length l) \<le> n"
    "k + int (length l) = n \<or> length ys < 16"
  shows "pmkid_loop k n r out =
     (k + int (length l) = n, r\<lparr>rd_off := rd_off r + 16 * int (length l)\<rparr>,
       (if k + int (length l) = n then out else out\<lparr>truncated := True\<rparr>)
         \<lparr>pmkid_count := pmkid_count out + int (length l)\<rparr>)
     \<and> rd_at (r\<lparr>rd_off := rd_off r + 16 * int (length l)\<rparr>) ys mem"
  using assms
proof (induction l arbitrary: k r out)
  case Nil
  have keep: "x\<lparr>pmkid_count := pmkid_count x + int 0\<rparr> = x" for x :: rsn_ie_t by simp
  from Nil show ?case by (cases "k = n") (simp_all add: pmkid_loop.simps rd_at_fits)
next
  case (Cons x l)
  from Cons.prems have at: "rd_at r (x @ concat l @ ys) mem" and x: "length x = 16" by simp_all
  have mv: "rd_at (r\<lparr>rd_off := rd_off r + 16\<rparr>) (concat l @ ys) mem" using rd_at_move [OF at] x by simp
  have fits: "rd_off r + 16 \<le> rd_len r" using at x by (simp add: rd_at_fits)
  have eq: "pmkid_loop k n r out =
     pmkid_loop (k + 1) n (r\<lparr>rd_off := rd_off r + 16\<rparr>) (out\<lparr>pmkid_count := pmkid_count out + 1\<rparr>)"
    using Cons.prems fits by (subst pmkid_loop.simps) simp
  from Cons.IH [OF mv, of "k + 1" "out\<lparr>pmkid_count := pmkid_count out + 1\<rparr>"] Cons.prems
  have "pmkid_loop k n r out =
     (k + 1 + int (length l) = n, r\<lparr>rd_off := rd_off r + 16 + 16 * int (length l)\<rparr>,
       (if k + 1 + int (length l) = n then out else out\<lparr>truncated := True\<rparr>)
         \<lparr>pmkid_count := pmkid_count out + 1 + int (length l)\<rparr>)
     \<and> rd_at (r\<lparr>rd_off := rd_off r + 16 + 16 * int (length l)\<rparr>) ys mem"
    unfolding eq by (simp add: add.assoc)
  then show ?case by (simp add: add.assoc add.commute add.left_commute)
qed

text \<open>Any region starts with as many selectors (or PMKIDs) as its count says and it holds.\<close>

lemma split_selectors:
  "\<exists>ss ys. xs = concat (map u32be ss) @ ys \<and> length ss \<le> n \<and> (length ss = n \<or> length ys < 4)"
proof (induction n arbitrary: xs)
  case 0
  show ?case by (rule exI [of _ "[]"], rule exI [of _ xs]) simp
next
  case (Suc n)
  show ?case
  proof (cases "4 \<le> length xs")
    case True
    from split_u32be [OF True] obtain v zs where xs: "xs = u32be v @ zs" by blast
    from Suc [of zs] obtain ss ys where "zs = concat (map u32be ss) @ ys" "length ss \<le> n" "length ss = n \<or> length ys < 4"
      by blast
    with xs show ?thesis by (intro exI [of _ "v # ss"] exI [of _ ys]) auto
  next
    case False
    then show ?thesis by (intro exI [of _ "[]"] exI [of _ xs]) auto
  qed
qed

lemma split_pmkids:
  "\<exists>l ys. xs = concat l @ ys \<and> (\<forall>x \<in> set l. length x = 16) \<and> length l \<le> n
     \<and> (length l = n \<or> length ys < 16)"
proof (induction n arbitrary: xs)
  case 0
  show ?case by (rule exI [of _ "[]"], rule exI [of _ xs]) simp
next
  case (Suc n)
  show ?case
  proof (cases "16 \<le> length (xs :: 'a list)")
    case True
    from Suc [of "drop 16 xs"] obtain l ys where
      "drop 16 xs = concat l @ ys" "\<forall>x \<in> set l. length x = 16" "length l \<le> n" "length l = n \<or> length ys < 16" by blast
    moreover obtain x where "x = take 16 xs" by blast
    ultimately have "length x = 16" "xs = x @ concat l @ ys" using True by (simp, metis append_take_drop_id)
    then show ?thesis
      using \<open>\<forall>x \<in> set l. length x = 16\<close> \<open>length l \<le> n\<close> \<open>length l = n \<or> length ys < 16\<close>
      by (intro exI [of _ "x # l"] exI [of _ ys]) simp
  next
    case False
    then show ?thesis by (intro exI [of _ "[]"] exI [of _ xs]) auto
  qed
qed

section \<open>Stages\<close>

lemma field_ok_at: "rd_at r xs mem \<Longrightarrow> field_ok r n out =
   (if n \<le> int (length xs) then (True, out)
    else (False, if xs \<noteq> [] then out\<lparr>truncated := True\<rparr> else out))"
  by (simp add: field_ok_def rd_at_rem)

lemma u16_count: "n < 65536 \<Longrightarrow> uint (word_of_nat n :: u16) = int n"
  by (simp add: uint_nat unat_of_nat)

text \<open>A suite list: absent, cut in its count, cut in its list, or complete.\<close>

lemma suite_list_full:
  assumes "rd_at r (suites_enc ss @ ys) mem" "length ss < 65536"
  shows "\<exists>r'. suite_list r out = Some (True, r', out,
     (int (length ss), Some (concat (map u32be ss) @ ys @ mem), suites_bits ss, suites_first ss))
     \<and> rd_at r' ys mem"
proof -
  from assms(1) have at: "rd_at r (u16le (word_of_nat (length ss)) @ concat (map u32be ss) @ ys) mem"
    by (simp add: suites_enc_def)
  note l = rd_le16_at [OF at]
  let ?r = "r\<lparr>rd_off := rd_off r + 2\<rparr>"
  have "field_ok r 2 out = (True, out)" using field_ok_at [OF at] by simp
  then have "suite_list r out = suites_loop 0 (int (length ss)) ?r out
     (0, Some (concat (map u32be ss) @ ys @ mem), 0, 0)"
    using l(1) rd_at_ptr [OF l(2)] u16_count [OF assms(2)] by (simp add: suite_list_def del: option.map_sel map_option_eq_Some)
  with suites_loop_spec [OF l(2), of 0 "int (length ss)"] show ?thesis
    by (cases ss) (auto simp: suites_bits_fold suites_first_def)
qed

lemma suite_list_any:
  assumes at: "rd_at r xs mem"
  obtains (none) "xs = []" "suite_list r out = Some (False, r, out, (0, None, 0, 0))"
  | (cut) p ss q where "suite_list r out = Some (False, q, out\<lparr>truncated := True\<rparr>,
       (int (length ss), p, suites_bits ss, suites_first ss))"
     "p = None \<and> ss = [] \<or> (\<exists>ys. p = Some (concat (map u32be ss) @ ys))"
     "4 * length ss \<le> length xs"
  | (full) ss ys where "xs = suites_enc ss @ ys" "length ss < 65536"
proof (cases "2 \<le> length xs")
  case False
  note f = field_ok_at [OF at, of 2 out]
  show thesis
  proof (cases "xs = []")
    case True
    with f none show thesis by (simp add: suite_list_def)
  next
    case x: False
    with False f have "suite_list r out = Some (False, r, out\<lparr>truncated := True\<rparr>,
       (int (length []), None, suites_bits [], suites_first []))"
      by (simp add: suite_list_def suites_bits_def suites_first_def)
    then show thesis by (rule cut) simp_all
  qed
next
  case True
  from split_u16le [OF this] obtain v zs where xs: "xs = u16le v @ zs" by blast
  obtain ss ys where s: "zs = concat (map u32be ss) @ ys" "length ss \<le> unat v" "length ss = unat v \<or> length ys < 4"
    using split_selectors by blast
  have v: "unat v < 65536" using unsigned_less [of v] by simp
  show thesis
  proof (cases "length ss = unat v")
    case eq: True
    then have "xs = suites_enc ss @ ys" unfolding suites_enc_def eq using xs s(1) by simp
    then show thesis by (rule full) (simp add: eq v)
  next
    case neq: False
    note l = rd_le16_at [OF at [unfolded xs s(1)]]
    have "field_ok r 2 out = (True, out)" using field_ok_at [OF at] True by simp
    then have "suite_list r out = suites_loop 0 (uint v) (r\<lparr>rd_off := rd_off r + 2\<rparr>) out
       (0, Some (concat (map u32be ss) @ ys @ mem), 0, 0)"
      using l(1) rd_at_ptr [OF l(2)] by (simp add: suite_list_def del: map_option_eq_Some)
    moreover have "int (length ss) < uint v" using s(2) neq by (metis nat_less_le of_nat_less_iff uint_nat)
    moreover have "length ys < 4" using s(3) neq by simp
    moreover have "(if ss \<noteq> [] then hd ss else 0) = suites_first ss"
      by (cases ss) (simp_all add: suites_first_def)
    ultimately have "suite_list r out = Some (False, r\<lparr>rd_off := rd_off r + 2 + 4 * int (length ss)\<rparr>, out\<lparr>truncated := True\<rparr>,
      (int (length ss), Some (concat (map u32be ss) @ ys @ mem), suites_bits ss, suites_first ss))"
      using suites_loop_spec [OF l(2), of 0 "uint v" out 0 _ 0 0] by (simp add: suites_bits_fold)
    then show thesis by (rule cut) (simp_all add: xs s(1) length_concat comp_def sum_list_triv)
  qed
qed

text \<open>
  What a reader of the result may rely on, whatever the octets were: a suite list holds
  \<open>count\<close> whole selectors of the caller's buffer, and the bitmap is theirs.
\<close>

definition sel_ok :: "int \<Rightarrow> suites_t \<Rightarrow> bool" where
  "sel_ok len q = (case q of (count, p, bits, first) \<Rightarrow> \<exists>ss. count = int (length ss) \<and> 4 * count \<le> len
     \<and> bits = suites_bits ss \<and> first = suites_first ss
     \<and> (p = None \<and> ss = [] \<or> (\<exists>ys. p = Some (concat (map u32be ss) @ ys))))"

definition out_ok :: "int \<Rightarrow> rsn_ie_t \<Rightarrow> bool" where
  "out_ok len out \<longleftrightarrow>
     sel_ok len (pairwise_count out, pairwise out, pairwise_bits out, first_pairwise_sel out)
   \<and> sel_ok len (akm_count out, akm out, akm_bits out, first_akm_sel out)"

lemma sel_ok_zero: "0 \<le> len \<Longrightarrow> sel_ok len (0, None, 0, 0)"
  by (auto simp: sel_ok_def suites_bits_def suites_first_def)

lemma sel_ok_suites:
  "4 * int (length ss) \<le> len \<Longrightarrow> p = None \<and> ss = [] \<or> (\<exists>ys. p = Some (concat (map u32be ss) @ ys)) \<Longrightarrow>
   sel_ok len (int (length ss), p, suites_bits ss, suites_first ss)"
  by (auto simp: sel_ok_def)

text \<open>A stage that succeeds, keeps the result readable, and is complete unless it flags a cut.\<close>

definition stage_ok :: "int \<Rightarrow> rsn_ie_t \<Rightarrow> rsn_ie_t option \<Rightarrow> bool \<Rightarrow> bool" where
  "stage_ok len out res whole \<longleftrightarrow>
     (\<exists>out'. res = Some out' \<and> (out_ok len out \<longrightarrow> out_ok len out') \<and> (\<not> truncated out' \<longrightarrow> whole))"

lemma stage_mono:
  "stage_ok len out1 res w1 \<Longrightarrow> (out_ok len out \<Longrightarrow> out_ok len out1) \<Longrightarrow> (w1 \<Longrightarrow> w) \<Longrightarrow> stage_ok len out res w"
  unfolding stage_ok_def by blast

lemma stage_done:
  "(out_ok len out \<Longrightarrow> out_ok len out') \<Longrightarrow> (\<not> truncated out' \<Longrightarrow> w) \<Longrightarrow> stage_ok len out (Some out') w"
  unfolding stage_ok_def by blast

lemma parse_group_mgmt_full:
  "rd_at r (mgmt_enc c) mem \<Longrightarrow> parse_group_mgmt r out = Some (mgmt_read c mem out)"
proof (cases c)
  case NoMgmt
  moreover assume "rd_at r (mgmt_enc c) mem"
  ultimately have at: "rd_at r [] mem" by simp
  show ?thesis using NoMgmt field_ok_at [OF at, of 4 out] by (simp add: parse_group_mgmt_def)
next
  case (Mgmt v ext)
  moreover assume "rd_at r (mgmt_enc c) mem"
  ultimately have at: "rd_at r (u32be v @ ext) mem" by simp
  show ?thesis using Mgmt field_ok_at [OF at, of 4 out] rd_be32_at [OF at] by (simp add: parse_group_mgmt_def)
qed

lemma parse_group_mgmt_any:
  assumes at: "rd_at r xs mem"
  shows "stage_ok len out (parse_group_mgmt r out) (\<exists>c. xs = mgmt_enc c)"
proof (cases "4 \<le> length xs")
  case True
  then obtain v ys where "xs = mgmt_enc (Mgmt v ys)" using split_u32be by fastforce
  with parse_group_mgmt_full [of r "Mgmt v ys"] at show ?thesis
    by (auto simp: stage_ok_def out_ok_def) (metis mgmt_enc.simps(2))
next
  case False
  with field_ok_at [OF at, of 4 out] show ?thesis
    by (auto simp: stage_ok_def out_ok_def parse_group_mgmt_def intro: exI [of _ NoMgmt])
qed

lemma parse_pmkids_full:
  assumes "rd_at r (pmk_enc c) mem" "pmk_wf c"
  shows "parse_pmkids r out = Some (pmk_read c mem out)"
proof (cases c)
  case NoPmk
  with assms have at: "rd_at r [] mem" by simp
  show ?thesis using NoPmk field_ok_at [OF at, of 2 out] by (simp add: parse_pmkids_def)
next
  case (Pmk l g)
  with assms(1) have at: "rd_at r (u16le (word_of_nat (length l)) @ concat l @ mgmt_enc g) mem" by simp
  note v = rd_le16_at [OF at]
  let ?out = "out\<lparr>has_pmkids := True, pmkids := Some (concat l @ mgmt_enc g @ mem)\<rparr>"
  from pmkid_loop_spec [OF v(2), of 0 "int (length l)" ?out] assms(2) Pmk obtain r2 where
    p: "pmkid_loop 0 (int (length l)) (r\<lparr>rd_off := rd_off r + 2\<rparr>) ?out
        = (True, r2, ?out\<lparr>pmkid_count := pmkid_count out + int (length l)\<rparr>)" "rd_at r2 (mgmt_enc g) mem"
    by auto
  have "parse_pmkids r out = parse_group_mgmt r2 (?out\<lparr>pmkid_count := pmkid_count out + int (length l)\<rparr>)"
    using v(1) rd_at_ptr [OF v(2)] field_ok_at [OF at, of 2 out] u16_count [of "length l"] assms(2) Pmk p(1)
    by (simp add: parse_pmkids_def del: map_option_eq_Some)
  with parse_group_mgmt_full [OF p(2)] show ?thesis by (simp add: Pmk)
qed

lemma parse_pmkids_any:
  assumes at: "rd_at r xs mem"
  shows "stage_ok len out (parse_pmkids r out) (\<exists>c. xs = pmk_enc c \<and> pmk_wf c)"
proof (cases "2 \<le> length xs")
  case False
  with field_ok_at [OF at, of 2 out] show ?thesis
    by (auto simp: stage_ok_def out_ok_def parse_pmkids_def intro: exI [of _ NoPmk])
next
  case True
  from split_u16le [OF this] obtain v zs where xs: "xs = u16le v @ zs" by blast
  obtain l ys where s: "zs = concat l @ ys" "\<forall>x \<in> set l. length x = 16" "length l \<le> unat v"
    "length l = unat v \<or> length ys < 16" using split_pmkids by blast
  note v = rd_le16_at [OF at [unfolded xs s(1)]]
  let ?out = "out\<lparr>has_pmkids := True, pmkids := Some ((concat l @ ys) @ mem)\<rparr>"
  let ?out' = "?out\<lparr>pmkid_count := pmkid_count out + int (length l)\<rparr>"
  define m where "m = uint v"
  have m: "m = int (unat v)" "int (length l) \<le> m"
    unfolding m_def using s(3) by (metis uint_nat, metis of_nat_le_iff uint_nat)
  have "field_ok r 2 out = (True, out)" using field_ok_at [OF at] True by simp
  then have eq: "parse_pmkids r out =
     (case pmkid_loop 0 m (r\<lparr>rd_off := rd_off r + 2\<rparr>) ?out of (ok, r2, out2) \<Rightarrow>
        if \<not> ok then Some out2 else parse_group_mgmt r2 out2)"
    using v(1) rd_at_ptr [OF v(2)] by (simp add: parse_pmkids_def m_def del: map_option_eq_Some)
  from pmkid_loop_spec [OF v(2), of 0 m ?out] s(2,4) m obtain r2 where
    p: "pmkid_loop 0 m (r\<lparr>rd_off := rd_off r + 2\<rparr>) ?out =
         (int (length l) = m, r2, if int (length l) = m then ?out' else ?out'\<lparr>truncated := True\<rparr>)"
       "rd_at r2 ys mem" by auto
  show ?thesis
  proof (cases "int (length l) = m")
    case eq': True
    have lv: "length l = unat v" using eq' m(1) by (metis of_nat_eq_iff)
    have w: "xs = pmk_enc (Pmk l c) \<and> pmk_wf (Pmk l c)" if "ys = mgmt_enc c" for c
    proof -
      have "unat v < 65536" using unsigned_less [of v] by simp
      moreover have "u16le (word_of_nat (length l)) = u16le v" unfolding lv by simp
      ultimately show ?thesis using that xs s lv by simp
    qed
    have "\<exists>c. xs = pmk_enc c \<and> pmk_wf c" if "\<exists>c. ys = mgmt_enc c" using that w by blast
    with stage_mono [OF parse_group_mgmt_any [OF p(2), of len ?out']] p(1) eq' show ?thesis
      unfolding eq by (simp add: out_ok_def)
  next
    case False
    with p(1) show ?thesis unfolding eq by (simp add: stage_ok_def out_ok_def)
  qed
qed

lemma parse_caps_full:
  assumes "rd_at r (cap_enc c) mem" "cap_wf c"
  shows "parse_caps r out = Some (cap_read c mem out)"
proof (cases c)
  case NoCap
  with assms have at: "rd_at r [] mem" by simp
  show ?thesis using NoCap field_ok_at [OF at, of 2 out] by (simp add: parse_caps_def)
next
  case (Cap v p)
  with assms have at: "rd_at r (u16le v @ pmk_enc p) mem" by simp
  note v = rd_le16_at [OF at]
  from v field_ok_at [OF at, of 2 out] parse_pmkids_full [OF v(2)] assms(2) Cap show ?thesis
    by (simp add: parse_caps_def)
qed

lemma parse_caps_any:
  assumes at: "rd_at r xs mem"
  shows "stage_ok len out (parse_caps r out) (\<exists>c. xs = cap_enc c \<and> cap_wf c)"
proof (cases "2 \<le> length xs")
  case False
  with field_ok_at [OF at, of 2 out] show ?thesis
    by (auto simp: stage_ok_def out_ok_def parse_caps_def intro: exI [of _ NoCap])
next
  case True
  from split_u16le [OF this] obtain v zs where xs: "xs = u16le v @ zs" by blast
  note v = rd_le16_at [OF at [unfolded xs]]
  let ?out = "out\<lparr>has_caps := True, rsn_caps := v, mfpr := bit v 6, mfpc := bit v 7\<rparr>"
  have "parse_caps r out = parse_pmkids (r\<lparr>rd_off := rd_off r + 2\<rparr>) ?out"
    using v field_ok_at [OF at, of 2 out] True by (simp add: parse_caps_def)
  moreover have "\<exists>c. xs = cap_enc c \<and> cap_wf c" if "\<exists>p. zs = pmk_enc p \<and> pmk_wf p"
  proof -
    from that obtain p where "zs = pmk_enc p" "pmk_wf p" by blast
    then have "xs = cap_enc (Cap v p) \<and> cap_wf (Cap v p)" using xs by simp
    then show ?thesis by blast
  qed
  ultimately show ?thesis
    using stage_mono [OF parse_pmkids_any [OF v(2), of len ?out]] by (simp add: out_ok_def)
qed

text \<open>The two suite lists; both start from the zeroed fields of the result.\<close>

lemma parse_akms_full:
  assumes "rd_at r (akms_enc c) mem" "akms_wf c"
    and z: "akm_count out = 0" "akm out = None" "akm_bits out = 0" "first_akm_sel out = 0"
  shows "parse_akms r out = Some (akms_read c mem out)"
proof (cases c)
  case NoAkms
  with assms have at: "rd_at r [] mem" by simp
  have "suite_list r out = Some (False, r, out, (0, None, 0, 0))"
    using field_ok_at [OF at, of 2 out] by (simp add: suite_list_def)
  moreover have "out\<lparr>akm_count := 0, akm := None, akm_bits := 0, first_akm_sel := 0\<rparr> = out"
    using z by (cases out) simp
  ultimately show ?thesis using NoAkms by (simp add: parse_akms_def)
next
  case (Akms ss p)
  with assms(1,2) have at: "rd_at r (suites_enc ss @ cap_enc p) mem" and n: "length ss < 65536" "cap_wf p" by simp_all
  from suite_list_full [OF at n(1), of out] parse_caps_full [OF _ n(2)] Akms show ?thesis
    by (auto simp: parse_akms_def)
qed

lemma out_ok_akms: "out_ok len out \<Longrightarrow> sel_ok len (n, p, b, f) \<Longrightarrow>
   out_ok len (out\<lparr>truncated := t, akm_count := n, akm := p, akm_bits := b, first_akm_sel := f\<rparr>)"
  "out_ok len out \<Longrightarrow> sel_ok len (n, p, b, f) \<Longrightarrow>
   out_ok len (out\<lparr>akm_count := n, akm := p, akm_bits := b, first_akm_sel := f\<rparr>)"
  by (simp_all add: out_ok_def)

lemma out_ok_pairwise: "out_ok len out \<Longrightarrow> sel_ok len (n, p, b, f) \<Longrightarrow>
   out_ok len (out\<lparr>truncated := t, pairwise_count := n, pairwise := p, pairwise_bits := b, first_pairwise_sel := f\<rparr>)"
  "out_ok len out \<Longrightarrow> sel_ok len (n, p, b, f) \<Longrightarrow>
   out_ok len (out\<lparr>pairwise_count := n, pairwise := p, pairwise_bits := b, first_pairwise_sel := f\<rparr>)"
  by (simp_all add: out_ok_def)

lemma length_suites: "length (concat (map u32be ss)) = 4 * length ss"
  by (induction ss) simp_all

lemma parse_akms_any:
  assumes at: "rd_at r xs mem" and len: "int (length xs) \<le> len"
  shows "stage_ok len out (parse_akms r out) (\<exists>c. xs = akms_enc c \<and> akms_wf c)"
  using at
proof (cases rule: suite_list_any [where out = out])
  case none
  then have "parse_akms r out = Some (out\<lparr>akm_count := 0, akm := None, akm_bits := 0, first_akm_sel := 0\<rparr>)"
    by (simp add: parse_akms_def)
  moreover have "\<exists>c. xs = akms_enc c \<and> akms_wf c" using none by (intro exI [of _ NoAkms]) simp
  moreover have "0 \<le> len" using len by simp
  note out_ok_akms(2) [OF _ sel_ok_zero [OF this]]
  ultimately show ?thesis by (simp add: stage_done)
next
  case (cut p ss q)
  then have "parse_akms r out = Some (out\<lparr>truncated := True, akm_count := int (length ss), akm := p,
      akm_bits := suites_bits ss, first_akm_sel := suites_first ss\<rparr>)"
    by (simp add: parse_akms_def)
  moreover have "sel_ok len (int (length ss), p, suites_bits ss, suites_first ss)"
    using cut len by (intro sel_ok_suites) simp_all
  ultimately show ?thesis using out_ok_akms(1) by (auto intro!: stage_done)
next
  case (full ss ys)
  from suite_list_full [OF at [unfolded full(1)] full(2), of out] obtain r' where
    r': "suite_list r out = Some (True, r', out,
       (int (length ss), Some (concat (map u32be ss) @ ys @ mem), suites_bits ss, suites_first ss))"
    "rd_at r' ys mem" by blast
  have "sel_ok len (int (length ss), Some (concat (map u32be ss) @ ys @ mem), suites_bits ss, suites_first ss)"
    using full(1) len by (intro sel_ok_suites) (simp_all add: suites_enc_def length_suites)
  note keep = out_ok_akms(2) [OF _ this]
  have "\<exists>c. xs = akms_enc c \<and> akms_wf c" if "\<exists>p. ys = cap_enc p \<and> cap_wf p"
    using that full by (metis akms_enc.simps(2) akms_wf.simps(2))
  with r'(1) stage_mono [OF parse_caps_any [OF r'(2), of len] keep] show ?thesis
    by (simp add: parse_akms_def)
qed

lemma parse_pairwise_full:
  assumes "rd_at r (pair_enc c) mem" "pair_wf c"
    and z: "pairwise_count out = 0" "pairwise out = None" "pairwise_bits out = 0" "first_pairwise_sel out = 0"
      "akm_count out = 0" "akm out = None" "akm_bits out = 0" "first_akm_sel out = 0"
  shows "parse_pairwise r out = Some (pair_read c mem out)"
proof (cases c)
  case NoPair
  with assms have at: "rd_at r [] mem" by simp
  have "suite_list r out = Some (False, r, out, (0, None, 0, 0))"
    using field_ok_at [OF at, of 2 out] by (simp add: suite_list_def)
  moreover have "out\<lparr>pairwise_count := 0, pairwise := None, pairwise_bits := 0, first_pairwise_sel := 0\<rparr> = out"
    using z by (cases out) simp
  ultimately show ?thesis using NoPair by (simp add: parse_pairwise_def)
next
  case (Pair ss p)
  with assms(1,2) have at: "rd_at r (suites_enc ss @ akms_enc p) mem" and n: "length ss < 65536" "akms_wf p" by simp_all
  from suite_list_full [OF at n(1), of out] parse_akms_full [OF _ n(2)] Pair z show ?thesis
    by (auto simp: parse_pairwise_def)
qed

lemma parse_pairwise_any:
  assumes at: "rd_at r xs mem" and len: "int (length xs) \<le> len"
  shows "stage_ok len out (parse_pairwise r out) (\<exists>c. xs = pair_enc c \<and> pair_wf c)"
  using at
proof (cases rule: suite_list_any [where out = out])
  case none
  then have "parse_pairwise r out =
     Some (out\<lparr>pairwise_count := 0, pairwise := None, pairwise_bits := 0, first_pairwise_sel := 0\<rparr>)"
    by (simp add: parse_pairwise_def)
  moreover have "\<exists>c. xs = pair_enc c \<and> pair_wf c" using none by (intro exI [of _ NoPair]) simp
  moreover have "0 \<le> len" using len by simp
  note out_ok_pairwise(2) [OF _ sel_ok_zero [OF this]]
  ultimately show ?thesis by (simp add: stage_done)
next
  case (cut p ss q)
  then have "parse_pairwise r out = Some (out\<lparr>truncated := True, pairwise_count := int (length ss), pairwise := p,
      pairwise_bits := suites_bits ss, first_pairwise_sel := suites_first ss\<rparr>)"
    by (simp add: parse_pairwise_def)
  moreover have "sel_ok len (int (length ss), p, suites_bits ss, suites_first ss)"
    using cut len by (intro sel_ok_suites) simp_all
  ultimately show ?thesis using out_ok_pairwise(1) by (auto intro!: stage_done)
next
  case (full ss ys)
  from suite_list_full [OF at [unfolded full(1)] full(2), of out] obtain r' where
    r': "suite_list r out = Some (True, r', out,
       (int (length ss), Some (concat (map u32be ss) @ ys @ mem), suites_bits ss, suites_first ss))"
    "rd_at r' ys mem" by blast
  have "sel_ok len (int (length ss), Some (concat (map u32be ss) @ ys @ mem), suites_bits ss, suites_first ss)"
    using full(1) len by (intro sel_ok_suites) (simp_all add: suites_enc_def length_suites)
  note keep = out_ok_pairwise(2) [OF _ this]
  have "\<exists>c. xs = pair_enc c \<and> pair_wf c" if "\<exists>p. ys = akms_enc p \<and> akms_wf p"
    using that full by (metis pair_enc.simps(2) pair_wf.simps(2))
  moreover have "int (length ys) \<le> len" using full(1) len by simp
  ultimately show ?thesis
    using r'(1) stage_mono [OF parse_akms_any [OF r'(2)] keep] by (simp add: parse_pairwise_def)
qed

lemma parse_group_any:
  assumes at: "rd_at r xs mem" and len: "int (length xs) \<le> len"
  shows "stage_ok len out (parse_group r out) (\<exists>c. u16le 1 @ xs = rsn_enc c \<and> rsn_wf c)"
proof (cases "4 \<le> length xs")
  case True
  from split_u32be [OF this] obtain v ys where xs: "xs = u32be v @ ys" by blast
  note v = rd_be32_at [OF at [unfolded xs]]
  let ?out = "out\<lparr>has_group := True, group_sel := v\<rparr>"
  have "parse_group r out = parse_pairwise (r\<lparr>rd_off := rd_off r + 4\<rparr>) ?out"
    using v field_ok_at [OF at, of 4 out] True by (simp add: parse_group_def)
  moreover have "\<exists>c. u16le 1 @ xs = rsn_enc c \<and> rsn_wf c" if "\<exists>p. ys = pair_enc p \<and> pair_wf p"
    using that xs by (metis rsn_enc.simps(2) rsn_wf.simps(2))
  moreover have "int (length ys) \<le> len" using len xs by simp
  ultimately show ?thesis
    using stage_mono [OF parse_pairwise_any [OF v(2), of len ?out]] by (simp add: out_ok_def)
next
  case False
  with field_ok_at [OF at, of 4 out] show ?thesis
    by (auto simp: stage_ok_def out_ok_def parse_group_def intro: exI [of _ NoGroup])
qed

lemma parse_group_full:
  assumes "rd_at r xs mem" "rsn_enc c = u16le 1 @ xs" "rsn_wf c"
  shows "parse_group r (rsn_zero\<lparr>rsn_version := 1\<rparr>) = Some (rsn_read c mem)"
proof (cases c)
  case NoGroup
  with assms(1,2) have at: "rd_at r [] mem" by simp
  show ?thesis using NoGroup field_ok_at [OF at, of 4] by (simp add: parse_group_def)
next
  case (Group g p)
  with assms have at: "rd_at r (u32be g @ pair_enc p) mem" by simp
  note v = rd_be32_at [OF at]
  have "parse_pairwise (r\<lparr>rd_off := rd_off r + 4\<rparr>) (rsn_zero\<lparr>rsn_version := 1, has_group := True, group_sel := g\<rparr>)
     = Some (pair_read p mem (rsn_zero\<lparr>rsn_version := 1, has_group := True, group_sel := g\<rparr>))"
    using assms(3) Group by (intro parse_pairwise_full [OF v(2)]) (simp_all add: rsn_zero_def)
  then show ?thesis using Group v(1) field_ok_at [OF at, of 4] by (simp add: parse_group_def)
qed

section \<open>The bitmaps\<close>

lemma uint_sel_type: "uint (RSN_SEL_TYPE s) = uint s mod 256"
proof -
  have "(0xff :: u32) = mask 8" by (simp add: mask_eq_exp_minus_1)
  then have "uint (s AND 0xff) = uint s mod 256" using uint_and_mask [of s 8] by simp
  then show ?thesis by (simp add: RSN_SEL_TYPE_def unsigned_ucast_eq take_bit_eq_mod)
qed

lemma sel_std_iff:
  assumes "t < 32"
  shows "RSN_SEL_STD s \<and> unat (RSN_SEL_TYPE s) = t \<longleftrightarrow> s = 0x000FAC00 + word_of_nat t"
proof -
  have "uint (word_of_int (0x000FAC00 + int t) :: u32) = 0x000FAC00 + int t"
    unfolding uint_word_of_int using assms by simp
  then have t: "uint (0x000FAC00 + word_of_nat t :: u32) = 0x000FAC00 + int t" by simp
  have "RSN_SEL_STD s \<longleftrightarrow> uint s div 256 = 0x000FAC"
    by (simp add: RSN_SEL_STD_def RSN_SEL_OUI_def word_uint_eq_iff uint_drop)
  moreover have "unat (RSN_SEL_TYPE s) = t \<longleftrightarrow> uint (RSN_SEL_TYPE s) = int t"
    unfolding uint_nat of_nat_eq_iff ..
  then have "unat (RSN_SEL_TYPE s) = t \<longleftrightarrow> uint s mod 256 = int t" unfolding uint_sel_type .
  moreover have "s = 0x000FAC00 + word_of_nat t \<longleftrightarrow> uint s = 0x000FAC00 + int t"
    using t by (simp add: word_uint_eq_iff)
  moreover have "d = 0x000FAC \<and> m = int t \<longleftrightarrow> 256 * d + m = 0x000FAC00 + int t" if "0 \<le> m" "m < 256" for d m :: int
  proof
    assume e: "256 * d + m = 0x000FAC00 + int t"
    then have "d < 0xFAD" "0xFAB < d" using that assms by linarith+
    then have "d = 0x000FAC" by simp
    with e show "d = 0x000FAC \<and> m = int t" by simp
  qed simp
  from this [of "uint s mod 256" "uint s div 256"]
  have "uint s div 256 = 0x000FAC \<and> uint s mod 256 = int t \<longleftrightarrow> uint s = 0x000FAC00 + int t" by simp
  ultimately show ?thesis by blast
qed

lemma bit_suite_fold:
  "bit (fold suite_upd ss b) t \<longleftrightarrow> bit b t \<or> (t < 32 \<and> 0x000FAC00 + word_of_nat t \<in> set ss)"
proof (induction ss arbitrary: b)
  case (Cons s ss)
  have "bit (suite_upd s b) t \<longleftrightarrow> bit b t \<or> (t < 32 \<and> 0x000FAC00 + word_of_nat t = s)"
  proof (cases "t < 32")
    case True
    have "RSN_SEL_TYPE s < 32 \<longleftrightarrow> unat (RSN_SEL_TYPE s) < 32" by (simp add: word_less_nat_alt)
    then show ?thesis using True sel_std_iff [OF True, of s]
      by (auto simp: suite_upd_def RSN_SUITE_BIT_def bit_simps)
  next
    case False
    then have "\<not> bit w t" for w :: u32 using bit_imp_le_length [of w t] by auto
    with False show ?thesis by simp
  qed
  with Cons show ?case by auto
qed auto

lemma bit_suites_bits: "bit (suites_bits ss) t \<longleftrightarrow> t < 32 \<and> 0x000FAC00 + word_of_nat t \<in> set ss"
  by (simp add: suites_bits_fold bit_suite_fold)

lemma selector_nth:
  "k < length ss \<Longrightarrow> be32 (concat (map u32be ss) @ ys) (4 * int k) = Some (ss ! k)"
proof (induction ss arbitrary: k)
  case (Cons s ss)
  show ?case
  proof (cases k)
    case 0
    then show ?thesis using be32_enc [of "[]" s "concat (map u32be ss) @ ys"] by simp
  next
    case (Suc j)
    have sh: "byte_at (u32be s @ zs) (4 + i) = byte_at zs i" if "0 \<le> i" for zs i
      using that by (simp add: byte_at_def nth_append nat_add_distrib)
    have "be32 (u32be s @ zs) (4 + i) = be32 zs i" if "0 \<le> i" for zs i
      using sh [of i zs] sh [of "i + 1" zs] sh [of "i + 2" zs] sh [of "i + 3" zs] that
      by (simp add: be32_def add.assoc del: One_nat_def)
    from this [of "4 * int j" "concat (map u32be ss) @ ys"] Cons.IH [of j] Cons.prems Suc show ?thesis
      by (simp add: distrib_left)
  qed
qed simp

text \<open>The bitmap read against the octets the list points at.\<close>

lemma sel_ok_bits:
  assumes "sel_ok len (count, p, bits, first)"
  shows "bit bits t \<longleftrightarrow> t < 32 \<and> (\<exists>k. 0 \<le> k \<and> k < count
     \<and> Option.bind p (\<lambda>b. be32 b (4 * k)) = Some (0x000FAC00 + word_of_nat t))"
proof -
  from assms obtain ss where ss: "count = int (length ss)" "bits = suites_bits ss"
    "p = None \<and> ss = [] \<or> (\<exists>ys. p = Some (concat (map u32be ss) @ ys))" by (auto simp: sel_ok_def)
  have "v \<in> set ss \<longleftrightarrow> (\<exists>k. 0 \<le> k \<and> k < count \<and> Option.bind p (\<lambda>b. be32 b (4 * k)) = Some v)" for v
  proof
    assume "v \<in> set ss"
    then obtain j where j: "j < length ss" "ss ! j = v" by (meson in_set_conv_nth)
    then obtain ys where "p = Some (concat (map u32be ss) @ ys)" using ss(3) by auto
    with selector_nth [OF j(1), of ys] j ss(1) show
      "\<exists>k. 0 \<le> k \<and> k < count \<and> Option.bind p (\<lambda>b. be32 b (4 * k)) = Some v"
      by (intro exI [of _ "int j"]) simp
  next
    assume "\<exists>k. 0 \<le> k \<and> k < count \<and> Option.bind p (\<lambda>b. be32 b (4 * k)) = Some v"
    then obtain k where k: "0 \<le> k" "k < count" "Option.bind p (\<lambda>b. be32 b (4 * k)) = Some v" by blast
    then have j: "nat k < length ss" using ss(1) by simp
    then obtain ys where "p = Some (concat (map u32be ss) @ ys)" using ss(3) by auto
    with selector_nth [OF j, of ys] k have "v = ss ! nat k" by simp
    with j show "v \<in> set ss" by simp
  qed
  then show ?thesis unfolding ss(2) bit_suites_bits by simp
qed

section \<open>The parser\<close>

lemma rsn_ie_parse_stages:
  assumes "n \<le> length b" "take n b = u16le v @ xs"
  shows "\<exists>r. rsn_ie_parse (Some b) (int n) =
     (if v \<noteq> 1 then Some (False, rsn_zero\<lparr>rsn_version := v\<rparr>)
      else do { out \<leftarrow> parse_group r (rsn_zero\<lparr>rsn_version := 1\<rparr>); Some (True, out) })
     \<and> rd_at r xs (drop n b)"
proof -
  have b: "b = (u16le v @ xs) @ drop n b" using assms(2) by (metis append_take_drop_id)
  have n: "n = length (u16le v @ xs)" using assms by (metis length_take min.absorb2)
  have at: "rd_at (rd_init (Some b) (int n)) (u16le v @ xs) (drop n b)"
    using rd_at_init [of "u16le v @ xs" "drop n b"] b n by metis
  note v = rd_le16_at [OF at]
  have "\<not> rd_rem (rd_init (Some b) (int n)) < 2" using rd_at_rem [OF at] by simp
  then have "rsn_ie_parse (Some b) (int n) =
     (if v \<noteq> 1 then Some (False, rsn_zero\<lparr>rsn_version := v\<rparr>)
      else do { out \<leftarrow> parse_group (rd_init (Some b) (int n)\<lparr>rd_off := rd_off (rd_init (Some b) (int n)) + 2\<rparr>)
                  (rsn_zero\<lparr>rsn_version := 1\<rparr>); Some (True, out) })"
    using v(1) by (simp add: rsn_ie_parse_def Let_def)
  with v(2) show ?thesis by blast
qed

lemma rsn_ie_parse_any:
  assumes "n \<le> length b"
  obtains ret out where "rsn_ie_parse (Some b) (int n) = Some (ret, out)" "out_ok (int n) out"
    "ret \<and> \<not> truncated out \<Longrightarrow> \<exists>c. take n b = rsn_enc c \<and> rsn_wf c"
proof (cases "2 \<le> n")
  case False
  have z: "out_ok (int n) (rsn_zero\<lparr>truncated := True\<rparr>)" by (simp add: out_ok_def sel_ok_zero rsn_zero_def)
  from False assms show thesis
    by (intro that [of False "rsn_zero\<lparr>truncated := True\<rparr>"])
      (auto simp: rsn_ie_parse_def rd_rem_def rd_init_def z)
next
  case True
  then have "2 \<le> length (take n b)" using assms by simp
  from split_u16le [OF this] obtain v xs where t: "take n b = u16le v @ xs" by blast
  from rsn_ie_parse_stages [OF assms t] obtain r where
    r: "rsn_ie_parse (Some b) (int n) = (if v \<noteq> 1 then Some (False, rsn_zero\<lparr>rsn_version := v\<rparr>)
      else do { out \<leftarrow> parse_group r (rsn_zero\<lparr>rsn_version := 1\<rparr>); Some (True, out) })"
    "rd_at r xs (drop n b)" by blast
  have z: "out_ok (int n) (rsn_zero\<lparr>rsn_version := v\<rparr>)" by (simp add: out_ok_def sel_ok_zero rsn_zero_def)
  show thesis
  proof (cases "v = 1")
    case False
    with r z show thesis by (intro that [of False "rsn_zero\<lparr>rsn_version := v\<rparr>"]) auto
  next
    case v1: True
    have "int (length xs) \<le> int n" using arg_cong [OF t, of length] assms by simp
    from parse_group_any [OF r(2) this, of "rsn_zero\<lparr>rsn_version := 1\<rparr>"] obtain out where
      "parse_group r (rsn_zero\<lparr>rsn_version := 1\<rparr>) = Some out" "out_ok (int n) out"
      "\<not> truncated out \<Longrightarrow> \<exists>c. u16le 1 @ xs = rsn_enc c \<and> rsn_wf c"
      using z unfolding v1 stage_ok_def by blast
    with r(1) t v1 show thesis by (intro that [of True out]) simp_all
  qed
qed

lemma rsn_ie_parse_enc:
  assumes "rsn_wf c" "n \<le> length b" "take n b = rsn_enc c"
  shows "rsn_ie_parse (Some b) (int n) = Some (True, rsn_read c (drop n b))"
proof -
  obtain xs where xs: "rsn_enc c = u16le 1 @ xs" by (cases c) simp_all
  from rsn_ie_parse_stages [OF assms(2) assms(3) [unfolded xs]] obtain r where
    "rsn_ie_parse (Some b) (int n) = do { out \<leftarrow> parse_group r (rsn_zero\<lparr>rsn_version := 1\<rparr>); Some (True, out) }"
    "rd_at r xs (drop n b)" by auto
  with parse_group_full [OF _ xs assms(1)] show ?thesis by simp
qed

lemma truncated_read: "\<not> truncated (rsn_read c mem)"
proof -
  have m: "truncated (mgmt_read c mem out) = truncated out" for c out by (cases c) simp_all
  have p: "truncated (pmk_read c mem out) = truncated out" for c out by (cases c) (simp_all add: m)
  have k: "truncated (cap_read c mem out) = truncated out" for c out by (cases c) (simp_all add: p)
  have a: "truncated (akms_read c mem out) = truncated out" for c out by (cases c) (simp_all add: k)
  have q: "truncated (pair_read c mem out) = truncated out" for c out by (cases c) (simp_all add: a)
  show ?thesis by (cases c) (simp_all add: q rsn_zero_def)
qed

section \<open>Properties\<close>

text \<open>
  C20: On any octets the RSN parser returns, and it reports a complete element of version 1
  (nothing truncated) exactly when the octets are the encoding of an RSN element cut off at
  a field boundary; a stray octet or a count whose list does not fit is always a truncation.
\<close>

theorem rsn_ie_parse_exact:
  assumes "n \<le> length b"
  shows "\<exists>ret out. rsn_ie_parse (Some b) (int n) = Some (ret, out)
     \<and> (ret \<and> \<not> truncated out \<longleftrightarrow> (\<exists>c. rsn_wf c \<and> take n b = rsn_enc c))"
proof -
  from rsn_ie_parse_any [OF assms] obtain ret out where
    r: "rsn_ie_parse (Some b) (int n) = Some (ret, out)"
    "ret \<and> \<not> truncated out \<Longrightarrow> \<exists>c. take n b = rsn_enc c \<and> rsn_wf c" by metis
  have "ret \<and> \<not> truncated out" if "rsn_wf c" "take n b = rsn_enc c" for c
    using rsn_ie_parse_enc [OF that(1) assms that(2)] r(1) truncated_read by auto
  with r show ?thesis by blast
qed

lemma rsn_ie_parse_exact_witness:
  "\<exists>ret out. rsn_ie_parse (Some [1, 0, 0, 0x0F, 0xAC, 4, 2, 0, 0, 0x0F, 0xAC, 4]) (int 12) = Some (ret, out)
     \<and> (ret \<and> \<not> truncated out \<longleftrightarrow>
         (\<exists>c. rsn_wf c \<and> take 12 [1, 0, 0, 0x0F, 0xAC, 4, 2, 0, 0, 0x0F, 0xAC, 4] = rsn_enc c))"
  by (rule rsn_ie_parse_exact) simp

text \<open>
  Parsing the encoding of any RSN element, with or without memory behind it, yields
  exactly its fields: suites, counts, bitmaps, capabilities, PMKIDs and the group
  management cipher, with every omitted field absent.
\<close>

theorem rsn_ie_roundtrip:
  assumes "rsn_wf c"
  shows "rsn_ie_parse (Some (rsn_enc c @ mem)) (int (length (rsn_enc c))) = Some (True, rsn_read c mem)"
  using rsn_ie_parse_enc [OF assms, of "length (rsn_enc c)" "rsn_enc c @ mem"] by simp

lemma rsn_ie_roundtrip_witness:
  "\<exists>c. c = Group 0x000FAC04 (Pair [0x000FAC04, 0x000FAC02] (Akms [0x000FAC08] (Cap 0xC0 NoPmk)))
     \<and> rsn_ie_parse (Some (rsn_enc c @ [7])) (int (length (rsn_enc c))) = Some (True, rsn_read c [7])"
  by (rule exI, rule conjI [OF refl]) (rule rsn_ie_roundtrip, simp)

text \<open>
  Whatever the element claims, even a truncated one, each suite list holds \<open>count\<close> whole
  selectors of the caller's buffer that fit in the element, and bit \<open>t\<close> of its bitmap is set
  exactly when the list holds the selector 00-0F-AC:t; a vendor suite never sets a bit.
\<close>

theorem rsn_ie_bitmaps_exact:
  assumes "n \<le> length b" and "rsn_ie_parse (Some b) (int n) = Some (ret, out)"
  shows "4 * pairwise_count out \<le> int n \<and> 4 * akm_count out \<le> int n
     \<and> (\<forall>t. bit (pairwise_bits out) t = (t < 32 \<and> (\<exists>k. 0 \<le> k \<and> k < pairwise_count out
           \<and> Option.bind (pairwise out) (\<lambda>p. be32 p (4 * k)) = Some (0x000FAC00 + word_of_nat t))))
     \<and> (\<forall>t. bit (akm_bits out) t = (t < 32 \<and> (\<exists>k. 0 \<le> k \<and> k < akm_count out
           \<and> Option.bind (akm out) (\<lambda>p. be32 p (4 * k)) = Some (0x000FAC00 + word_of_nat t))))"
proof -
  from rsn_ie_parse_any [OF assms(1)] assms(2) have ok: "out_ok (int n) out" by (metis option.inject prod.inject)
  then have p: "sel_ok (int n) (pairwise_count out, pairwise out, pairwise_bits out, first_pairwise_sel out)"
    and a: "sel_ok (int n) (akm_count out, akm out, akm_bits out, first_akm_sel out)" by (simp_all add: out_ok_def)
  from p a have "4 * pairwise_count out \<le> int n" "4 * akm_count out \<le> int n" by (auto simp: sel_ok_def)
  with sel_ok_bits [OF p] sel_ok_bits [OF a] show ?thesis by blast
qed

lemma rsn_parse_example:
  "\<exists>out. rsn_ie_parse (Some [1, 0, 0, 0x0F, 0xAC, 4, 0, 0, 2, 0, 0, 0x0F, 0xAC, 8]) (int 14) = Some (True, out)"
proof -
  have s: "\<exists>ret out. rsn_ie_parse (Some b) (int n) = Some (ret, out)" if "n \<le> length b" for b n
    using rsn_ie_parse_any [OF that] by metis
  from s [of 14 "[1, 0, 0, 0x0F, 0xAC, 4, 0, 0, 2, 0, 0, 0x0F, 0xAC, 8]"] obtain ret out where
    r: "rsn_ie_parse (Some [1, 0, 0, 0x0F, 0xAC, 4, 0, 0, 2, 0, 0, 0x0F, 0xAC, 8]) (int 14) = Some (ret, out)"
    by auto
  have t: "take 14 [1, 0, 0, 0x0F, 0xAC, 4, 0, 0, 2, 0, 0, 0x0F, 0xAC, 8 :: u8]
     = u16le 1 @ [0, 0x0F, 0xAC, 4, 0, 0, 2, 0, 0, 0x0F, 0xAC, 8]" by (simp add: u16le_def)
  from rsn_ie_parse_stages [OF _ t] obtain r' where
    "rsn_ie_parse (Some [1, 0, 0, 0x0F, 0xAC, 4, 0, 0, 2, 0, 0, 0x0F, 0xAC, 8]) (int 14)
     = do { out \<leftarrow> parse_group r' (rsn_zero\<lparr>rsn_version := 1\<rparr>); Some (True, out) }" by auto
  then have "Option.bind (parse_group r' (rsn_zero\<lparr>rsn_version := 1\<rparr>)) (\<lambda>out. Some (True, out)) = Some (ret, out)"
    using r by argo
  then have "ret" by (simp add: bind_iff)
  with r show ?thesis by simp
qed

lemma rsn_ie_bitmaps_exact_witness:
  "\<exists>out. rsn_ie_parse (Some [1, 0, 0, 0x0F, 0xAC, 4, 0, 0, 2, 0, 0, 0x0F, 0xAC, 8]) (int 14) = Some (True, out)
     \<and> 4 * pairwise_count out \<le> int 14 \<and> 4 * akm_count out \<le> int 14
     \<and> (\<forall>t. bit (pairwise_bits out) t = (t < 32 \<and> (\<exists>k. 0 \<le> k \<and> k < pairwise_count out
           \<and> Option.bind (pairwise out) (\<lambda>p. be32 p (4 * k)) = Some (0x000FAC00 + word_of_nat t))))
     \<and> (\<forall>t. bit (akm_bits out) t = (t < 32 \<and> (\<exists>k. 0 \<le> k \<and> k < akm_count out
           \<and> Option.bind (akm out) (\<lambda>p. be32 p (4 * k)) = Some (0x000FAC00 + word_of_nat t))))"
proof -
  from rsn_parse_example obtain out where
    r: "rsn_ie_parse (Some [1, 0, 0, 0x0F, 0xAC, 4, 0, 0, 2, 0, 0, 0x0F, 0xAC, 8]) (int 14) = Some (True, out)" ..
  from rsn_ie_bitmaps_exact [OF _ r] r show ?thesis by fastforce
qed

end
