(* ===== verification/Dot11Ie.thy ===== *)
theory Dot11Ie
  imports Bytes SensorHealth Netstr
begin

text \<open>
  \<open>src/dot11_ie.c\<close>: the element-list helpers. Each is a loop over the iterator of \<open>Bytes\<close>,
  so each loop body is an interpretation of the contract \<open>tlv_consumer\<close>, and what the loop
  computes is a fold over the elements of the region. A \<open>(pointer, length)\<close> pair handed out
  is the list of its octets; the parse-fault tally is threaded through.
\<close>

section \<open>Model\<close>

definition find_body ::
  "u8 \<Rightarrow> int \<Rightarrow> bytes option \<Rightarrow> u16 \<Rightarrow> int \<Rightarrow> bytes \<Rightarrow> (bytes option \<times> bool) option" where
  "find_body tag ext s t l b =
     (if t \<noteq> ucast tag then Some (s, False)
      else if ext \<ge> 0
      then if l < 1 then Some (s, False)
           else do {
             b0 \<leftarrow> byte_at b 0;
             if b0 \<noteq> word_of_int ext then Some (s, False)
             else Some (Some (take (nat (l - 1)) (drop 1 b)), True) }
      else Some (Some (take (nat l) b), True))"

definition find_first ::
  "bytes option \<Rightarrow> int \<Rightarrow> u8 \<Rightarrow> int \<Rightarrow> sh_t \<Rightarrow> (bytes option \<times> sh_t) option" where
  "find_first ies len tag ext h = do {
     (r, it) \<leftarrow> tlv_walk (find_body tag ext) (tlv_init ies len) None;
     Some (r, if r = None \<and> it_status it = TLV_OVERRUN
              then sh_parse_fault_note SH_PF_IE_OVERRUN h else h) }"

definition dot11_ie_find :: "bytes option \<Rightarrow> int \<Rightarrow> u8 \<Rightarrow> sh_t \<Rightarrow> (bytes option \<times> sh_t) option" where
  "dot11_ie_find ies len tag h = find_first ies len tag (-1) h"

definition dot11_ie_find_ext :: "bytes option \<Rightarrow> int \<Rightarrow> u8 \<Rightarrow> sh_t \<Rightarrow> (bytes option \<times> sh_t) option" where
  "dot11_ie_find_ext ies len ext_id h = find_first ies len 255 (uint ext_id) h"

text \<open>The SSID string without its NUL, and whether the element claimed more than 32 octets.\<close>

definition dot11_ie_ssid_copy :: "bytes option \<Rightarrow> int \<Rightarrow> (bytes \<times> bool) option" where
  "dot11_ie_ssid_copy body blen =
     (let n = if blen < 32 then blen else 32;
          n = if n < 0 \<or> body = None then 0 else n
      in do { out \<leftarrow> netstr_copy 33 body n; Some (out, blen > 32) })"

definition dot11_ie_ssid :: "bytes option \<Rightarrow> int \<Rightarrow> sh_t \<Rightarrow> ((bytes \<times> bool) option \<times> sh_t) option" where
  "dot11_ie_ssid ies len h = do {
     (r, h1) \<leftarrow> dot11_ie_find ies len 0 h;
     case r of None \<Rightarrow> Some (None, h1)
     | Some b \<Rightarrow> do {
         (out, over) \<leftarrow> dot11_ie_ssid_copy (Some b) (int (length b));
         Some (Some (out, over), h1) } }"

record dot11_phy_t =
  ht :: bool
  vht :: bool
  he :: bool
  eht :: bool

definition phy_ext :: "u8 \<Rightarrow> dot11_phy_t \<Rightarrow> dot11_phy_t" where
  "phy_ext ext p =
     (let p = (if ext = 35 then p\<lparr>he := True\<rparr> else p)
      in if ext = 106 \<or> ext = 107 \<or> ext = 108 then p\<lparr>eht := True\<rparr> else p)"

definition dot11_ie_phy_note :: "dot11_phy_t \<Rightarrow> u8 \<Rightarrow> bytes \<Rightarrow> int \<Rightarrow> dot11_phy_t option" where
  "dot11_ie_phy_note p tag body blen =
     (let p = (if tag = 45 then p\<lparr>ht := True\<rparr> else p);
          p = (if tag = 191 then p\<lparr>vht := True\<rparr> else p)
      in if tag = 255 \<and> blen \<ge> 1 then do { ext \<leftarrow> byte_at body 0; Some (phy_ext ext p) }
         else Some p)"

definition phy_body :: "dot11_phy_t \<Rightarrow> u16 \<Rightarrow> int \<Rightarrow> bytes \<Rightarrow> (dot11_phy_t \<times> bool) option" where
  "phy_body p t l b = do { p' \<leftarrow> dot11_ie_phy_note p (ucast t) b l; Some (p', False) }"

definition dot11_ie_phy :: "bytes option \<Rightarrow> int \<Rightarrow> sh_t \<Rightarrow> (dot11_phy_t \<times> sh_t) option" where
  "dot11_ie_phy ies len h = do {
     (p, it) \<leftarrow> tlv_walk phy_body (tlv_init ies len)
       \<lparr>ht = False, vht = False, he = False, eht = False\<rparr>;
     Some (p, if it_status it = TLV_OVERRUN then sh_parse_fault_note SH_PF_IE_OVERRUN h else h) }"

definition dot11_phy_tier :: "dot11_phy_t option \<Rightarrow> string" where
  "dot11_phy_tier po =
     (case po of None \<Rightarrow> ''legacy''
      | Some p \<Rightarrow>
          if eht p then ''Wi-Fi 7'' else if he p then ''Wi-Fi 6'' else if vht p then ''Wi-Fi 5''
          else if ht p then ''Wi-Fi 4'' else ''legacy'')"

definition k_oui :: "(bytes \<times> string) list" where
  "k_oui =
    [([0x00, 0x17, 0xf2], ''Apple''),
     ([0x00, 0x40, 0x96], ''Cisco''),
     ([0x00, 0x03, 0x7f], ''Atheros''),
     ([0x00, 0x10, 0x18], ''Broadcom''),
     ([0x4c, 0x5e, 0x0c], ''Mikrotik''),
     ([0x00, 0x15, 0x6d], ''Ubiquiti''),
     ([0xdc, 0x9f, 0xdb], ''Ubiquiti''),
     ([0x24, 0x0a, 0xc4], ''Espressif''),
     ([0x00, 0x0d, 0x97], ''Ruckus''),
     ([0x00, 0x24, 0x6c], ''Aruba''),
     ([0xc0, 0xc9, 0xe3], ''TP-Link''),
     ([0x00, 0x09, 0x5b], ''Netgear''),
     ([0x00, 0x18, 0xe7], ''D-Link''),
     ([0x00, 0x14, 0x6c], ''Netgear''),
     ([0x50, 0x6f, 0x9a], ''Wi-Fi Alliance''),
     ([0x00, 0x50, 0xf2], ''Microsoft'')]"

definition dot11_oui_vendor :: "bytes option \<Rightarrow> string option" where
  "dot11_oui_vendor oui =
     (case oui of None \<Rightarrow> None
      | Some o3 \<Rightarrow> map_option snd (find (\<lambda>e. fst e = take 3 o3) k_oui))"

section \<open>The loop bodies keep the iterator's contract\<close>

definition find_pure :: "u8 \<Rightarrow> int \<Rightarrow> bytes option \<Rightarrow> u16 \<Rightarrow> bytes \<Rightarrow> bytes option \<times> bool" where
  "find_pure tag ext s t b =
     (if t \<noteq> ucast tag then (s, False)
      else if ext \<ge> 0
      then (case b of [] \<Rightarrow> (s, False)
            | b0 # r \<Rightarrow> if b0 \<noteq> word_of_int ext then (s, False) else (Some r, True))
      else (Some b, True))"

interpretation find: tlv_consumer "find_body tag ext" "find_pure tag ext" for tag ext
proof unfold_locales
  fix l s t and b :: bytes
  assume l: "l \<le> length b"
  show "find_body tag ext s t (int l) b = Some (find_pure tag ext s t (take l b))"
  proof (cases l)
    case 0
    then show ?thesis by (simp add: find_body_def find_pure_def)
  next
    case (Suc k)
    with l obtain b0 r where "b = b0 # r" by (cases b) auto
    with Suc show ?thesis by (simp add: find_body_def find_pure_def byte_at_def nat_add_distrib)
  qed
qed

definition phy_pure :: "dot11_phy_t \<Rightarrow> u16 \<Rightarrow> bytes \<Rightarrow> dot11_phy_t \<times> bool" where
  "phy_pure p t b = (the (dot11_ie_phy_note p (ucast t) b (int (length b))), False)"

interpretation phy: tlv_consumer phy_body phy_pure
proof unfold_locales
  fix l p and t :: u16 and b :: bytes
  assume l: "l \<le> length b"
  have "phy_body p t (int l) b = Some (phy_pure p t (take l b))"
  proof (cases l)
    case 0
    then show ?thesis by (simp add: phy_body_def phy_pure_def dot11_ie_phy_note_def Let_def)
  next
    case (Suc k)
    with l obtain b0 r where b: "b = b0 # r" "k \<le> length r" by (cases b) auto
    have "byte_at (b0 # r) 0 = Some b0" "byte_at (b0 # take k r) 0 = Some b0" by (simp_all add: byte_at_def)
    with Suc b show ?thesis
      by (simp add: phy_body_def phy_pure_def dot11_ie_phy_note_def Let_def if_distrib [of the] if_distrib [of "\<lambda>x. Option.bind x _"] cong: if_cong)
  qed
  then show "phy_body p t (int l) b = Some (phy_pure p t (take l b))" .
qed

section \<open>What the loops compute\<close>

definition first_ie :: "u8 \<Rightarrow> (u16 \<times> bytes) list \<Rightarrow> bytes option" where
  "first_ie tag es = map_option snd (find (\<lambda>e. fst e = ucast tag) es)"

definition first_ext :: "u8 \<Rightarrow> (u16 \<times> bytes) list \<Rightarrow> bytes option" where
  "first_ext ext es = map_option (\<lambda>e. tl (snd e)) (find (\<lambda>e. fst e = 255 \<and> snd e \<noteq> [] \<and> hd (snd e) = ext) es)"

lemma elems_run_find: "elems_run (find_pure tag (-1)) None es = (first_ie tag es, first_ie tag es \<noteq> None)"
  by (induction es) (auto simp: find_pure_def first_ie_def)

lemma elems_run_find_ext:
  "elems_run (find_pure 255 (uint ext)) None es = (first_ext ext es, first_ext ext es \<noteq> None)"
  by (induction es) (auto simp: find_pure_def first_ext_def split: list.splits)

lemma tlv_status_if [simp]:
  "(if a then TLV_OK else if ok then TLV_END else TLV_OVERRUN) = TLV_OVERRUN \<longleftrightarrow> \<not> a \<and> \<not> ok"
  by auto

lemma find_first_spec:
  assumes "n \<le> length b" "tlv_spec Tlv8 (take n b) = (es, ok)"
    "elems_run (find_pure tag ext) None es = (r, r \<noteq> None)"
  shows "find_first (Some b) (int n) tag ext h =
     Some (r, if r = None \<and> \<not> ok then sh_parse_fault_note SH_PF_IE_OVERRUN h else h)"
proof -
  have "tlv_wf Tlv8 (tlv_init (Some b) (int n))" using assms(1) by (simp add: tlv_wf_init)
  from find.walk_run [OF this tlv_init_OK(1), of tag ext None] assms(2,3) obtain it where
    "tlv_walk (find_body tag ext) (tlv_init (Some b) (int n)) None = Some (r, it)"
    "it_status it = (if r \<noteq> None then TLV_OK else if ok then TLV_END else TLV_OVERRUN)"
    by (auto simp: tlv_rest_init)
  then show ?thesis by (auto simp: find_first_def)
qed

lemma phy_spec:
  assumes "n \<le> length b" "tlv_spec Tlv8 (take n b) = (es, ok)"
  shows "dot11_ie_phy (Some b) (int n) h =
     Some (fst (elems_run phy_pure \<lparr>ht = False, vht = False, he = False, eht = False\<rparr> es),
           if ok then h else sh_parse_fault_note SH_PF_IE_OVERRUN h)"
proof -
  let ?z = "\<lparr>ht = False, vht = False, he = False, eht = False\<rparr>"
  have ns: "snd (elems_run phy_pure s es) = False" for s es
    by (induction es arbitrary: s) (auto simp: phy_pure_def)
  have "tlv_wf Tlv8 (tlv_init (Some b) (int n))" using assms(1) by (simp add: tlv_wf_init)
  from phy.walk_run [OF this tlv_init_OK(1), of ?z] assms(2) ns show ?thesis
    by (auto simp: dot11_ie_phy_def tlv_rest_init split: if_splits)
qed

lemma phy_pure_flags:
  "fst (elems_run phy_pure p es) = p
     \<lparr>ht := ht p \<or> (\<exists>b. (45, b) \<in> set (map (\<lambda>e. (ucast (fst e) :: u8, snd e)) es)),
      vht := vht p \<or> (\<exists>b. (191, b) \<in> set (map (\<lambda>e. (ucast (fst e) :: u8, snd e)) es)),
      he := he p \<or> (\<exists>r. (255, 35 # r) \<in> set (map (\<lambda>e. (ucast (fst e) :: u8, snd e)) es)),
      eht := eht p \<or> (\<exists>x r. x \<in> {106, 107, 108} \<and> (255, x # r) \<in> set (map (\<lambda>e. (ucast (fst e) :: u8, snd e)) es))\<rparr>"
  (is "_ = p\<lparr>ht := ht p \<or> ?has 45 es, vht := vht p \<or> ?has 191 es, he := he p \<or> ?he es, eht := eht p \<or> ?eht es\<rparr>")
proof (induction es arbitrary: p)
  case (Cons e es)
  obtain t b where e: "e = (t, b)" by fastforce
  have b: "b = [] \<or> (\<exists>x r. b = x # r \<and> byte_at b 0 = Some x)" by (cases b) (simp_all add: byte_at_def)
  define q where "q = fst (phy_pure p t b)"
  have q: "q = p\<lparr>ht := ht p \<or> ucast t = (45 :: u8), vht := vht p \<or> ucast t = (191 :: u8),
     he := he p \<or> (ucast t = (255 :: u8) \<and> (\<exists>r. b = 35 # r)),
     eht := eht p \<or> (ucast t = (255 :: u8) \<and> (\<exists>x r. x \<in> {106, 107, 108} \<and> b = x # r))\<rparr>"
    using b by (cases p) (auto simp: q_def phy_pure_def dot11_ie_phy_note_def phy_ext_def Let_def)
  have "fst (elems_run phy_pure p (e # es)) = fst (elems_run phy_pure q es)"
    by (simp add: e q_def phy_pure_def)
  also note Cons.IH [of q]
  finally have ih: "fst (elems_run phy_pure p (e # es)) = q
     \<lparr>ht := ht q \<or> ?has 45 es, vht := vht q \<or> ?has 191 es, he := he q \<or> ?he es, eht := eht q \<or> ?eht es\<rparr>" .
  have c: "?has x (e # es) \<longleftrightarrow> ucast t = x \<or> ?has x es" for x by (auto simp: e)
  have d: "?he (e # es) \<longleftrightarrow> (ucast t = (255 :: u8) \<and> (\<exists>r. b = 35 # r)) \<or> ?he es" by (auto simp: e)
  have f: "?eht (e # es) \<longleftrightarrow> (ucast t = (255 :: u8) \<and> (\<exists>x r. x \<in> {106, 107, 108} \<and> b = x # r)) \<or> ?eht es"
  proof -
    obtain M where M: "M = {106, 107, 108 :: u8}" by blast
    show ?thesis unfolding e list.map list.set insert_iff [where A = "set (map _ _)"] prod.inject fst_conv snd_conv
      M [symmetric] conj_disj_distribL ex_disj_distrib by (metis (no_types, lifting))
  qed
  show ?case unfolding ih c d f q by (simp add: disj_assoc)
qed simp

section \<open>Properties\<close>

text \<open>
  A first-match search over any element list reads nothing outside it and returns the
  body of the first element with the tag (for an extended element: with the tag 255 and the
  extension octet, which is stripped); the overrun fault is tallied exactly when the search
  failed and the list does not end on an element boundary.
\<close>

theorem dot11_ie_find_exact:
  assumes "n \<le> length b"
  shows "\<exists>es rest. take n b = tlv_encode Tlv8 es @ rest \<and> tlv_spec Tlv8 (take n b) = (es, rest = [])
     \<and> dot11_ie_find (Some b) (int n) tag h = Some (first_ie tag es,
         if first_ie tag es = None \<and> rest \<noteq> [] then sh_parse_fault_note SH_PF_IE_OVERRUN h else h)
     \<and> dot11_ie_find_ext (Some b) (int n) ext h = Some (first_ext ext es,
         if first_ext ext es = None \<and> rest \<noteq> [] then sh_parse_fault_note SH_PF_IE_OVERRUN h else h)"
proof -
  obtain es ok where s: "tlv_spec Tlv8 (take n b) = (es, ok)" by fastforce
  from tlv_spec_sound [OF s] obtain rest where r: "take n b = tlv_encode Tlv8 es @ rest" "ok \<longleftrightarrow> rest = []" by blast
  from find_first_spec [OF assms s elems_run_find] find_first_spec [OF assms s elems_run_find_ext] r s
  show ?thesis unfolding dot11_ie_find_def dot11_ie_find_ext_def
    by (intro exI [of _ es] exI [of _ rest]) simp
qed

lemma dot11_ie_find_exact_witness:
  "\<exists>es rest. take 7 [0, 2, 0x41, 0x42, 255, 1, 107, 3, 9] = tlv_encode Tlv8 es @ rest
     \<and> tlv_spec Tlv8 (take 7 [0, 2, 0x41, 0x42, 255, 1, 107, 3, 9]) = (es, rest = [])
     \<and> dot11_ie_find (Some [0, 2, 0x41, 0x42, 255, 1, 107, 3, 9]) (int 7) 0 sh_init = Some (first_ie 0 es,
         if first_ie 0 es = None \<and> rest \<noteq> [] then sh_parse_fault_note SH_PF_IE_OVERRUN sh_init else sh_init)
     \<and> dot11_ie_find_ext (Some [0, 2, 0x41, 0x42, 255, 1, 107, 3, 9]) (int 7) 107 sh_init = Some (first_ext 107 es,
         if first_ext 107 es = None \<and> rest \<noteq> [] then sh_parse_fault_note SH_PF_IE_OVERRUN sh_init else sh_init)"
  by (rule dot11_ie_find_exact) simp

text \<open>
  On any element list the SSID reader and the PHY classifier return: the SSID is the
  marking of at most 32 octets of the first SSID element, up to its first NUL, flagged
  oversize exactly when the element claims more; and each PHY generation is reported exactly
  when one of its elements is in the list, Multi-Link (extension 107) counting for 802.11be.
\<close>

theorem dot11_ie_ssid_phy_exact:
  assumes "n \<le> length b" and "tlv_spec Tlv8 (take n b) = (es, ok)"
  shows "\<exists>h1. dot11_ie_ssid (Some b) (int n) h = Some (map_option (\<lambda>body.
        (map mark (takeWhile (\<lambda>c. c \<noteq> 0) (take 32 body)), 32 < length body)) (first_ie 0 es), h1)
     \<and> (\<exists>p h2. dot11_ie_phy (Some b) (int n) h = Some (p, h2)
         \<and> (ht p \<longleftrightarrow> (\<exists>x. (45, x) \<in> set (map (\<lambda>e. (ucast (fst e) :: u8, snd e)) es)))
         \<and> (vht p \<longleftrightarrow> (\<exists>x. (191, x) \<in> set (map (\<lambda>e. (ucast (fst e) :: u8, snd e)) es)))
         \<and> (he p \<longleftrightarrow> (\<exists>r. (255, 35 # r) \<in> set (map (\<lambda>e. (ucast (fst e) :: u8, snd e)) es)))
         \<and> (eht p \<longleftrightarrow> (\<exists>x r. x \<in> {106, 107, 108}
                \<and> (255, x # r) \<in> set (map (\<lambda>e. (ucast (fst e) :: u8, snd e)) es))))"
proof -
  have ssid: "dot11_ie_ssid_copy (Some body) (int (length body))
     = Some (map mark (takeWhile (\<lambda>c. c \<noteq> 0) (take 32 body)), 32 < length body)" for body
    using netstr_copy_spec [of "min 32 (int (length body))" body 33]
    by (auto simp: dot11_ie_ssid_copy_def min_def split: if_splits)
  from find_first_spec [OF assms elems_run_find, of 0 h] obtain h1 where
    "dot11_ie_find (Some b) (int n) 0 h = Some (first_ie 0 es, h1)" by (auto simp: dot11_ie_find_def)
  then have "dot11_ie_ssid (Some b) (int n) h = Some (map_option (\<lambda>body.
        (map mark (takeWhile (\<lambda>c. c \<noteq> 0) (take 32 body)), 32 < length body)) (first_ie 0 es), h1)"
    using ssid by (cases "first_ie 0 es") (simp_all add: dot11_ie_ssid_def)
  with phy_spec [OF assms, of h] show ?thesis unfolding phy_pure_flags by auto
qed

lemma dot11_ie_ssid_phy_exact_witness:
  "\<exists>h1. dot11_ie_ssid (Some [0, 2, 0x41, 0x42, 255, 1, 107]) (int 7) sh_init = Some (map_option (\<lambda>body.
        (map mark (takeWhile (\<lambda>c. c \<noteq> 0) (take 32 body)), 32 < length body)) (first_ie 0 [(0, [0x41, 0x42]), (255, [107])]), h1)
     \<and> (\<exists>p h2. dot11_ie_phy (Some [0, 2, 0x41, 0x42, 255, 1, 107]) (int 7) sh_init = Some (p, h2)
         \<and> (ht p \<longleftrightarrow> (\<exists>x. (45, x) \<in> set (map (\<lambda>e. (ucast (fst e) :: u8, snd e)) [(0 :: u16, [0x41, 0x42 :: u8]), (255, [107])])))
         \<and> (vht p \<longleftrightarrow> (\<exists>x. (191, x) \<in> set (map (\<lambda>e. (ucast (fst e) :: u8, snd e)) [(0 :: u16, [0x41, 0x42 :: u8]), (255, [107])])))
         \<and> (he p \<longleftrightarrow> (\<exists>r. (255, 35 # r) \<in> set (map (\<lambda>e. (ucast (fst e) :: u8, snd e)) [(0 :: u16, [0x41, 0x42 :: u8]), (255, [107])])))
         \<and> (eht p \<longleftrightarrow> (\<exists>x r. x \<in> {106, 107, 108}
                \<and> (255, x # r) \<in> set (map (\<lambda>e. (ucast (fst e) :: u8, snd e)) [(0 :: u16, [0x41, 0x42 :: u8]), (255, [107])]))))"
  by (rule dot11_ie_ssid_phy_exact [where ok = True])
    (use tlv_spec_encode [of "[(0, [0x41, 0x42]), (255, [107])]" Tlv8] in simp_all)

end
