(* ===== verification/Stab.thy ===== *)
theory Stab
  imports SensorHealth "HOL-Library.Multiset"
begin

text \<open>
  \<open>src/stab.c\<close>: the bounded, keyed table the trackers are built on. The record has the C
  fields; \<open>last_seen_off\<close> is the pair of a reader and a writer of that field, \<open>memset\<close> of a
  row stores the zero row, and a row pointer is the slot it points at. The tally is the
  \<open>sensor_health\<close> state, passed in and returned. The optional mutex is not modelled: each
  operation is atomic.
\<close>

section \<open>Model\<close>

datatype stab_policy_t = STAB_OLDEST | STAB_REFUSE_AGING | STAB_RING

record ('r, 'k) stab_t =
  st_rows :: "'r list"
  st_cap :: nat
  st_n :: nat
  st_ls :: "'r \<Rightarrow> time_t"
  st_set_ls :: "time_t \<Rightarrow> 'r \<Rightarrow> 'r"
  st_zero :: 'r
  st_policy :: stab_policy_t
  st_age :: time_t
  st_tally :: sh_evict_t
  st_key_eq :: "'r \<Rightarrow> 'k \<Rightarrow> bool"
  st_ring_head :: nat

definition row_of :: "('r, 'k) stab_t \<Rightarrow> nat \<Rightarrow> 'r" where
  "row_of t i = st_rows t ! i"

definition ls_of :: "('r, 'k) stab_t \<Rightarrow> nat \<Rightarrow> time_t" where
  "ls_of t i = st_ls t (row_of t i)"

function find_loop :: "('r, 'k) stab_t \<Rightarrow> 'k \<Rightarrow> nat \<Rightarrow> nat option" where
  "find_loop t key i =
     (if i < st_n t then if st_key_eq t (row_of t i) key then Some i else find_loop t key (i + 1)
      else None)"
  by pat_completeness auto
termination by (relation "measure (\<lambda>(t, _, i). st_n t - i)") auto

declare find_loop.simps [simp del]

definition find_idx :: "('r, 'k) stab_t \<Rightarrow> 'k \<Rightarrow> nat option" where
  "find_idx t key = find_loop t key 0"

function oldest_loop :: "('r, 'k) stab_t \<Rightarrow> nat \<Rightarrow> nat \<Rightarrow> nat" where
  "oldest_loop t i slot =
     (if i < st_n t then oldest_loop t (i + 1) (if ls_of t i < ls_of t slot then i else slot)
      else slot)"
  by pat_completeness auto
termination by (relation "measure (\<lambda>(t, i, _). st_n t - i)") auto

declare oldest_loop.simps [simp del]

definition oldest_idx :: "('r, 'k) stab_t \<Rightarrow> nat" where
  "oldest_idx t = oldest_loop t 1 0"

definition stab_find :: "('r, 'k) stab_t \<Rightarrow> 'k \<Rightarrow> nat option" where
  "stab_find t key = find_idx t key"

text \<open>A write through the pointer of slot \<open>i\<close>.\<close>

definition stab_put :: "nat \<Rightarrow> 'r \<Rightarrow> ('r, 'k) stab_t \<Rightarrow> ('r, 'k) stab_t" where
  "stab_put i r t = t\<lparr>st_rows := (st_rows t)[i := r]\<rparr>"

text \<open>The slot a new row goes to, \<open>None\<close> being a refusal.\<close>

definition stab_slot :: "('r, 'k) stab_t \<Rightarrow> time_t \<Rightarrow> sh_t \<Rightarrow> nat option \<times> ('r, 'k) stab_t \<times> sh_t" where
  "stab_slot t now h =
     (if st_n t < st_cap t then (Some (st_n t), t\<lparr>st_n := st_n t + 1\<rparr>, h)
      else case st_policy t of
        STAB_REFUSE_AGING \<Rightarrow>
          let slot = oldest_idx t in
          if now - ls_of t slot < st_age t then (None, t, sh_evict_note (st_tally t) h)
          else (Some slot, t, h)
      | STAB_RING \<Rightarrow>
          (Some (st_ring_head t), t\<lparr>st_ring_head := (st_ring_head t + 1) mod st_cap t\<rparr>,
           sh_evict_note (st_tally t) h)
      | STAB_OLDEST \<Rightarrow> (Some (oldest_idx t), t, sh_evict_note (st_tally t) h))"

text \<open>The row pointer (\<open>None\<close> is \<open>NULL\<close>), the \<open>created\<close> flag, the table and the tally.\<close>

definition stab_get ::
  "('r, 'k) stab_t \<Rightarrow> 'k \<Rightarrow> time_t \<Rightarrow> sh_t \<Rightarrow> nat option \<times> bool \<times> ('r, 'k) stab_t \<times> sh_t" where
  "stab_get t key now h =
     (case find_idx t key of
        Some i \<Rightarrow> (Some i, False, t, h)
      | None \<Rightarrow>
          (case stab_slot t now h of
             (None, t1, h1) \<Rightarrow> (None, False, t1, h1)
           | (Some slot, t1, h1) \<Rightarrow>
               (Some slot, True, stab_put slot (st_set_ls t1 now (st_zero t1)) t1, h1)))"

definition stab_snapshot :: "('r, 'k) stab_t \<Rightarrow> int \<Rightarrow> 'r list" where
  "stab_snapshot t maxn =
     (let n = if int (st_n t) < maxn then int (st_n t) else maxn;
          n = if n < 0 then 0 else n
      in take (nat n) (st_rows t))"

definition stab_count :: "('r, 'k) stab_t \<Rightarrow> nat" where
  "stab_count t = st_n t"

definition stab_at :: "('r, 'k) stab_t \<Rightarrow> int \<Rightarrow> nat option" where
  "stab_at t i = (if i \<ge> 0 \<and> i < int (st_n t) then Some (nat i) else None)"

definition del_idx :: "('r, 'k) stab_t \<Rightarrow> nat \<Rightarrow> ('r, 'k) stab_t" where
  "del_idx t i =
     (let last = st_n t - 1;
          t1 = (if i \<noteq> last then stab_put i (row_of t last) t else t)
      in (stab_put last (st_zero t) t1)\<lparr>st_n := st_n t - 1\<rparr>)"

text \<open>A foreign pointer equals no slot of the table.\<close>

definition stab_del :: "('r, 'k) stab_t \<Rightarrow> nat option \<Rightarrow> bool \<times> ('r, 'k) stab_t" where
  "stab_del t row =
     (case row of None \<Rightarrow> (False, t)
      | Some i \<Rightarrow>
          if st_policy t = STAB_RING then (False, t)
          else if i < st_n t then (True, del_idx t i) else (False, t))"

fun expire_loop :: "nat \<Rightarrow> ('r, 'k) stab_t \<Rightarrow> time_t \<Rightarrow> time_t \<Rightarrow> nat \<Rightarrow> nat \<times> ('r, 'k) stab_t" where
  "expire_loop 0 t now age removed = (removed, t)"
| "expire_loop (Suc i) t now age removed =
     (if now - ls_of t i > age then expire_loop i (del_idx t i) now age (removed + 1)
      else expire_loop i t now age removed)"

definition stab_expire :: "('r, 'k) stab_t \<Rightarrow> time_t \<Rightarrow> time_t \<Rightarrow> nat \<times> ('r, 'k) stab_t" where
  "stab_expire t now age =
     (if st_policy t = STAB_RING then (0, t) else expire_loop (st_n t) t now age 0)"

definition stab_clear :: "('r, 'k) stab_t \<Rightarrow> ('r, 'k) stab_t" where
  "stab_clear t = t\<lparr>st_n := 0, st_ring_head := 0, st_rows := replicate (st_cap t) (st_zero t)\<rparr>"

text \<open>\<open>STAB_DECL\<close> and \<open>STAB_DECL_AGE\<close>: a table with no rows.\<close>

definition STAB_DECL_AGE ::
  "'r \<Rightarrow> nat \<Rightarrow> ('r \<Rightarrow> time_t) \<Rightarrow> (time_t \<Rightarrow> 'r \<Rightarrow> 'r) \<Rightarrow> stab_policy_t \<Rightarrow> time_t \<Rightarrow> sh_evict_t
     \<Rightarrow> ('r \<Rightarrow> 'k \<Rightarrow> bool) \<Rightarrow> ('r, 'k) stab_t" where
  "STAB_DECL_AGE zero cap ls set_ls pol age kind eq =
     \<lparr>st_rows = replicate cap zero, st_cap = cap, st_n = 0, st_ls = ls, st_set_ls = set_ls,
      st_zero = zero, st_policy = pol, st_age = age, st_tally = kind, st_key_eq = eq,
      st_ring_head = 0\<rparr>"

section \<open>The rows of a table\<close>

definition rows :: "('r, 'k) stab_t \<Rightarrow> 'r list" where
  "rows t = take (st_n t) (st_rows t)"

definition stab_wf :: "('r, 'k) stab_t \<Rightarrow> bool" where
  "stab_wf t \<longleftrightarrow> 0 < st_cap t \<and> length (st_rows t) = st_cap t \<and> st_n t \<le> st_cap t
     \<and> st_ring_head t < st_cap t"

text \<open>The parts of a table no operation changes.\<close>

definition same_decl :: "('r, 'k) stab_t \<Rightarrow> ('r, 'k) stab_t \<Rightarrow> bool" where
  "same_decl t t' \<longleftrightarrow> st_cap t' = st_cap t \<and> st_ls t' = st_ls t \<and> st_set_ls t' = st_set_ls t
     \<and> st_zero t' = st_zero t \<and> st_policy t' = st_policy t \<and> st_age t' = st_age t
     \<and> st_tally t' = st_tally t \<and> st_key_eq t' = st_key_eq t"

lemma same_decl_refl [simp]: "same_decl t t" by (simp add: same_decl_def)

lemma same_decl_trans: "same_decl t u \<Longrightarrow> same_decl u v \<Longrightarrow> same_decl t v"
  by (auto simp: same_decl_def)

lemma length_rows: "stab_wf t \<Longrightarrow> length (rows t) = st_n t"
  by (simp add: rows_def stab_wf_def)

lemma row_of_rows: "i < st_n t \<Longrightarrow> row_of t i = rows t ! i"
  by (simp add: rows_def row_of_def)

text \<open>The first row with the key, and the first of the oldest rows.\<close>

lemma find_loop_spec:
  assumes "i \<le> st_n t"
  shows "(case find_loop t key i of
     None \<Rightarrow> (\<forall>j. i \<le> j \<and> j < st_n t \<longrightarrow> \<not> st_key_eq t (row_of t j) key)
   | Some j \<Rightarrow> i \<le> j \<and> j < st_n t \<and> st_key_eq t (row_of t j) key
       \<and> (\<forall>k. i \<le> k \<and> k < j \<longrightarrow> \<not> st_key_eq t (row_of t k) key))"
  using assms
proof (induction t key i rule: find_loop.induct)
  case (1 t key i)
  show ?case
  proof (cases "i < st_n t \<and> \<not> st_key_eq t (row_of t i) key")
    case True
    with 1 have ih: "(case find_loop t key (i + 1) of
       None \<Rightarrow> (\<forall>j. i + 1 \<le> j \<and> j < st_n t \<longrightarrow> \<not> st_key_eq t (row_of t j) key)
     | Some j \<Rightarrow> i + 1 \<le> j \<and> j < st_n t \<and> st_key_eq t (row_of t j) key
         \<and> (\<forall>k. i + 1 \<le> k \<and> k < j \<longrightarrow> \<not> st_key_eq t (row_of t k) key))" by simp
    have "find_loop t key i = find_loop t key (i + 1)" using True by (subst find_loop.simps) simp
    with ih True show ?thesis
      by (auto split: option.splits simp: Suc_le_eq) (metis le_neq_implies_less Suc_le_eq)+
  next
    case False
    then show ?thesis using "1.prems" by (subst find_loop.simps) auto
  qed
qed

lemma oldest_loop_spec:
  assumes "slot < i" "i \<le> st_n t" "\<forall>j < i. ls_of t slot \<le> ls_of t j"
    "\<forall>j < slot. ls_of t slot < ls_of t j"
  shows "oldest_loop t i slot < st_n t \<and> (\<forall>j < st_n t. ls_of t (oldest_loop t i slot) \<le> ls_of t j)
     \<and> (\<forall>j < oldest_loop t i slot. ls_of t (oldest_loop t i slot) < ls_of t j)"
  using assms
proof (induction t i slot rule: oldest_loop.induct)
  case (1 t i slot)
  show ?case
  proof (cases "i < st_n t")
    case True
    have eq: "oldest_loop t i slot = oldest_loop t (i + 1) (if ls_of t i < ls_of t slot then i else slot)"
      using True by (subst oldest_loop.simps) simp
    show ?thesis unfolding eq
    proof (rule "1.IH" [OF True])
      show "(if ls_of t i < ls_of t slot then i else slot) < i + 1" using "1.prems" by simp
      show "i + 1 \<le> st_n t" using True by simp
      show "\<forall>j<i + 1. ls_of t (if ls_of t i < ls_of t slot then i else slot) \<le> ls_of t j"
        using "1.prems"(3) by (auto simp: less_Suc_eq)
      show "\<forall>j<if ls_of t i < ls_of t slot then i else slot.
          ls_of t (if ls_of t i < ls_of t slot then i else slot) < ls_of t j"
        using "1.prems" by (auto dest: order_less_le_trans)
    qed
  next
    case False
    with "1.prems" show ?thesis by (subst (1 2 3 4) oldest_loop.simps) auto
  qed
qed

lemma oldest_idx_spec:
  assumes "0 < st_n t"
  shows "oldest_idx t < st_n t" "\<And>j. j < st_n t \<Longrightarrow> ls_of t (oldest_idx t) \<le> ls_of t j"
    "\<And>j. j < oldest_idx t \<Longrightarrow> ls_of t (oldest_idx t) < ls_of t j"
  using oldest_loop_spec [of 0 1 t] assms by (auto simp: oldest_idx_def)

section \<open>Lists of keyed rows\<close>

definition key_map :: "('r \<Rightarrow> 'k) \<Rightarrow> 'r list \<Rightarrow> 'k \<Rightarrow> 'r option" where
  "key_map key_of xs = map_of (map (\<lambda>r. (key_of r, r)) xs)"

lemma key_map_simps [simp]:
  "key_map key_of [] = Map.empty"
  "key_map key_of (x # xs) = (key_map key_of xs)(key_of x \<mapsto> x)"
  by (simp_all add: key_map_def)

lemma key_map_None: "key_map key_of xs k = None \<longleftrightarrow> k \<notin> key_of ` set xs"
  by (auto simp: key_map_def map_of_eq_None_iff image_image)

lemma key_map_Some:
  "distinct (map key_of xs) \<Longrightarrow> key_map key_of xs k = Some r \<longleftrightarrow> r \<in> set xs \<and> key_of r = k"
  by (induction xs) (auto simp: image_iff)

lemma key_map_dom: "dom (key_map key_of xs) = key_of ` set xs"
  using key_map_None [of key_of xs] by (auto simp: dom_def)

lemma key_map_append: "key_map key_of (xs @ ys) = key_map key_of ys ++ key_map key_of xs"
  by (simp add: key_map_def)

lemma key_map_snoc:
  "key_of r \<notin> key_of ` set xs \<Longrightarrow> key_map key_of (xs @ [r]) = (key_map key_of xs)(key_of r \<mapsto> r)"
proof
  fix k
  assume "key_of r \<notin> key_of ` set xs"
  then have "key_map key_of xs (key_of r) = None" by (simp add: key_map_None)
  then show "key_map key_of (xs @ [r]) k = ((key_map key_of xs)(key_of r \<mapsto> r)) k"
    by (cases "key_map key_of xs k") (auto simp: key_map_append map_add_def)
qed

lemma distinct_update:
  assumes "distinct (map key_of xs)" "i < length xs" "key_of r \<notin> key_of ` set xs - {key_of (xs ! i)}"
  shows "distinct (map key_of (xs[i := r]))"
    "key_map key_of (xs[i := r]) = ((key_map key_of xs)(key_of (xs ! i) := None))(key_of r \<mapsto> r)"
proof -
  obtain a b where xs: "xs = a @ xs ! i # b" "length a = i"
    using id_take_nth_drop [OF assms(2)] assms(2) by (metis length_take less_or_eq_imp_le min.absorb2)
  then have u: "xs[i := r] = a @ r # b" by (metis list_update_length)
  have d: "distinct (map key_of (a @ xs ! i # b))" using assms(1) xs(1) by metis
  have n: "key_of r \<notin> key_of ` set (a @ xs ! i # b) - {key_of (xs ! i)}" using assms(3) xs(1) by metis
  from n have "key_of r = key_of (xs ! i) \<or> key_of r \<notin> key_of ` set a \<and> key_of r \<notin> key_of ` set b"
    unfolding set_append list.set image_Un image_insert by blast
  then have n': "key_of r \<notin> key_of ` set a" "key_of r \<notin> key_of ` set b"
    and x: "key_of (xs ! i) \<notin> key_of ` set a" "key_of (xs ! i) \<notin> key_of ` set b" using d by fastforce+
  from d n' show "distinct (map key_of (xs[i := r]))" unfolding u by simp
  have "key_map key_of (a @ r # b) = ((key_map key_of (a @ xs ! i # b))(key_of (xs ! i) := None))(key_of r \<mapsto> r)"
  proof
    fix k
    show "key_map key_of (a @ r # b) k = (((key_map key_of (a @ xs ! i # b))(key_of (xs ! i) := None))(key_of r \<mapsto> r)) k"
      using n' x unfolding key_map_None [symmetric]
      by (cases "key_map key_of a k") (auto simp: key_map_append map_add_def)
  qed
  then show "key_map key_of (xs[i := r]) = ((key_map key_of xs)(key_of (xs ! i) := None))(key_of r \<mapsto> r)"
    using u xs(1) by metis
qed

lemma distinct_mset_remove:
  assumes "distinct (map key_of xs)" "mset ys = mset xs - {#x#}" "x \<in> set xs"
  shows "distinct (map key_of ys)" "set ys = set xs - {x}" "key_map key_of ys = (key_map key_of xs)(key_of x := None)"
proof -
  have m: "mset xs = mset (x # ys)" using assms(2,3) by simp
  have im: "mset (map key_of xs) = mset (map key_of (x # ys))" using m by simp
  then have d: "distinct (map key_of (x # ys))" using assms(1) mset_eq_imp_distinct_iff by blast
  then show dy: "distinct (map key_of ys)" by simp
  have "set xs = set (x # ys)" using m mset_eq_setD by blast
  moreover have "x \<notin> set ys" using d by auto
  ultimately show s: "set ys = set xs - {x}" by auto
  show "key_map key_of ys = (key_map key_of xs)(key_of x := None)"
  proof (rule ext)
    fix k
    show "key_map key_of ys k = ((key_map key_of xs)(key_of x := None)) k"
    proof (cases "k = key_of x")
      case True
      with d show ?thesis by (simp add: key_map_None)
    next
      case False
      then have "key_map key_of ys k = Some r \<longleftrightarrow> key_map key_of xs k = Some r" for r
        unfolding key_map_Some [OF dy] key_map_Some [OF assms(1)] using s by auto
      with False show ?thesis by (metis fun_upd_other not_Some_eq)
    qed
  qed
qed

section \<open>Every operation on the rows\<close>

lemma rows_put: "rows (stab_put i r t) = (rows t)[i := r]"
  by (simp add: rows_def stab_put_def take_update_swap)

lemma stab_put_simps [simp]:
  "st_n (stab_put i r t) = st_n t" "st_cap (stab_put i r t) = st_cap t" "st_ls (stab_put i r t) = st_ls t"
  "st_zero (stab_put i r t) = st_zero t" "st_key_eq (stab_put i r t) = st_key_eq t"
  "st_policy (stab_put i r t) = st_policy t" "st_set_ls (stab_put i r t) = st_set_ls t"
  "st_age (stab_put i r t) = st_age t" "st_tally (stab_put i r t) = st_tally t" "st_ring_head (stab_put i r t) = st_ring_head t"
  "stab_wf (stab_put i r t) = stab_wf t" "same_decl u (stab_put i r t) = same_decl u t"
  by (simp_all add: stab_put_def stab_wf_def same_decl_def)

lemma rows_del:
  assumes "stab_wf t" "i < st_n t"
  shows "rows (del_idx t i) = take i (rows t) @ (if i = st_n t - 1 then [] else last (rows t) # drop (Suc i) (butlast (rows t)))"
proof -
  have n: "length (rows t) = st_n t" by (rule length_rows [OF assms(1)])
  then have ne: "rows t \<noteq> []" using assms(2) by auto
  have l: "row_of t (st_n t - 1) = last (rows t)"
    using row_of_rows [of "st_n t - 1" t] assms(2) n ne by (simp add: last_conv_nth)
  let ?u = "if i \<noteq> st_n t - 1 then stab_put i (row_of t (st_n t - 1)) t else t"
  have "rows (del_idx t i) = take (st_n t - 1) (st_rows ?u)"
    by (simp add: del_idx_def rows_def stab_put_def Let_def)
  also have "\<dots> = take (st_n t - 1) (rows ?u)"
    using assms(2) by (simp add: rows_def)
  also have "rows ?u = (if i \<noteq> st_n t - 1 then (rows t)[i := last (rows t)] else rows t)"
    using l by (simp add: rows_put)
  also have "take (st_n t - 1) \<dots> = butlast \<dots>" using n by (simp add: butlast_conv_take)
  also have "\<dots> = take i (rows t) @ (if i = st_n t - 1 then [] else last (rows t) # drop (Suc i) (butlast (rows t)))"
    using assms(2) n Suc_diff_Suc [of "Suc i" "st_n t"]
    by (auto simp: butlast_list_update butlast_conv_take upd_conv_take_nth_drop min_def drop_take take_Cons')
  finally show ?thesis .
qed

lemma del_idx_simps [simp]:
  "st_n (del_idx t i) = st_n t - 1" "st_cap (del_idx t i) = st_cap t" "st_ls (del_idx t i) = st_ls t"
  "same_decl u (del_idx t i) = same_decl u t" "st_policy (del_idx t i) = st_policy t"
  "st_set_ls (del_idx t i) = st_set_ls t" "st_zero (del_idx t i) = st_zero t" "st_age (del_idx t i) = st_age t"
  "st_tally (del_idx t i) = st_tally t" "st_key_eq (del_idx t i) = st_key_eq t"
  by (auto simp: del_idx_def Let_def same_decl_def)

lemma stab_wf_del: "stab_wf t \<Longrightarrow> stab_wf (del_idx t i)"
  by (auto simp: stab_wf_def del_idx_def Let_def stab_put_def)

lemma mset_del:
  assumes "stab_wf t" "i < st_n t"
  shows "mset (rows (del_idx t i)) = mset (rows t) - {#rows t ! i#}"
    "mset (drop i (rows (del_idx t i))) = mset (drop (Suc i) (rows t))"
    "take i (rows (del_idx t i)) = take i (rows t)"
proof -
  have n: "length (rows t) = st_n t" by (rule length_rows [OF assms(1)])
  then have ne: "rows t \<noteq> []" using assms(2) by auto
  note r = rows_del [OF assms]
  show t: "take i (rows (del_idx t i)) = take i (rows t)" unfolding r using n assms(2) by auto
  show d: "mset (drop i (rows (del_idx t i))) = mset (drop (Suc i) (rows t))"
  proof (cases "i = st_n t - 1")
    case True
    with r n assms(2) show ?thesis by simp
  next
    case False
    have "drop (Suc i) (rows t) = drop (Suc i) (butlast (rows t) @ [last (rows t)])" using ne by simp
    also have "\<dots> = drop (Suc i) (butlast (rows t)) @ [last (rows t)]" using False n assms(2) by simp
    finally show ?thesis using r n assms(2) False by simp
  qed
  have "mset (rows t) = mset (take i (rows t)) + {#rows t ! i#} + mset (drop (Suc i) (rows t))"
    using id_take_nth_drop [of i "rows t"] assms(2) n by (metis mset_append mset.simps(2) add_mset_add_single union_assoc union_commute)
  moreover have "mset (rows (del_idx t i)) = mset (take i (rows t)) + mset (drop (Suc i) (rows t))"
    unfolding d [symmetric] t [symmetric] by (metis append_take_drop_id mset_append)
  ultimately show "mset (rows (del_idx t i)) = mset (rows t) - {#rows t ! i#}" by simp
qed

lemma expire_loop_spec:
  assumes "stab_wf t" "i \<le> st_n t"
  shows "case expire_loop i t now age removed of (k, t') \<Rightarrow> stab_wf t' \<and> same_decl t t'
     \<and> mset (rows t') = mset (drop i (rows t)) + filter_mset (\<lambda>r. \<not> now - st_ls t r > age) (mset (take i (rows t)))
     \<and> k + st_n t' = removed + st_n t"
  using assms
proof (induction i arbitrary: t removed)
  case (Suc i)
  have n: "length (rows t) = st_n t" by (rule length_rows [OF Suc.prems(1)])
  have i: "i < st_n t" using Suc.prems by simp
  have tk: "take (Suc i) (rows t) = take i (rows t) @ [rows t ! i]" using i n by (simp add: take_Suc_conv_app_nth)
  have dr: "drop i (rows t) = rows t ! i # drop (Suc i) (rows t)" using i n by (simp add: Cons_nth_drop_Suc)
  have ls: "ls_of t i = st_ls t (rows t ! i)" using i by (simp add: ls_of_def row_of_rows)
  note md = mset_del [OF Suc.prems(1) i]
  show ?case
  proof (cases "now - ls_of t i > age")
    case True
    with Suc.IH [of "del_idx t i" "removed + 1"] Suc.prems i md tk ls stab_wf_del [OF Suc.prems(1)] show ?thesis
      by (auto simp: same_decl_def split: prod.splits)
  next
    case False
    with Suc.IH [of t removed] Suc.prems tk dr ls show ?thesis by (auto split: prod.splits)
  qed
qed simp

lemma stab_expire_spec:
  assumes "stab_wf t" "st_policy t \<noteq> STAB_RING" "stab_expire t now age = (k, t')"
  shows "stab_wf t'" "same_decl t t'" "k + st_n t' = st_n t"
    "mset (rows t') = filter_mset (\<lambda>r. \<not> now - st_ls t r > age) (mset (rows t))"
  using expire_loop_spec [OF assms(1) le_refl, where now = now and age = age and removed = 0] assms length_rows [OF assms(1)]
  by (auto simp: stab_expire_def)

section \<open>A table as a bounded map\<close>

definition tab_ok :: "('r \<Rightarrow> 'k) \<Rightarrow> ('r, 'k) stab_t \<Rightarrow> bool" where
  "tab_ok key_of t \<longleftrightarrow> stab_wf t \<and> distinct (map key_of (rows t))"

definition tab_map :: "('r \<Rightarrow> 'k) \<Rightarrow> ('r, 'k) stab_t \<Rightarrow> 'k \<Rightarrow> 'r option" where
  "tab_map key_of t = key_map key_of (rows t)"

text \<open>
  What a client does with a table: get the row, then write it through the pointer; \<open>upd\<close>
  sees whether the row was created and fills in the key when it was.
\<close>

definition stab_upsert ::
  "(bool \<Rightarrow> 'r \<Rightarrow> 'r) \<Rightarrow> 'k \<Rightarrow> time_t \<Rightarrow> sh_t \<Rightarrow> ('r, 'k) stab_t \<Rightarrow> ('r, 'k) stab_t \<times> sh_t" where
  "stab_upsert upd key now h t =
     (case stab_get t key now h of
        (None, _, t1, h1) \<Rightarrow> (t1, h1)
      | (Some i, created, t1, h1) \<Rightarrow> (stab_put i (upd created (row_of t1 i)) t1, h1))"

definition keeps_key :: "('r \<Rightarrow> 'k) \<Rightarrow> 'k \<Rightarrow> (bool \<Rightarrow> 'r \<Rightarrow> 'r) \<Rightarrow> bool" where
  "keeps_key key_of k upd \<longleftrightarrow>
     (\<forall>r. key_of (upd True r) = k) \<and> (\<forall>r. key_of r = k \<longrightarrow> key_of (upd False r) = k)"

text \<open>
  The contract of a client: \<open>key_eq\<close> compares the row's key, and the stamp it stores is
  the one it reads.
\<close>

locale keyed_table =
  fixes decl :: "('r, 'k) stab_t" and key_of :: "'r \<Rightarrow> 'k"
  assumes key_eq: "st_key_eq decl r k \<longleftrightarrow> key_of r = k"
    and stamp: "st_ls decl (st_set_ls decl now r) = now"
begin

lemma find_None:
  assumes "same_decl decl t" "stab_wf t"
  shows "find_idx t k = None \<longleftrightarrow> tab_map key_of t k = None"
proof -
  have "st_key_eq t r k \<longleftrightarrow> key_of r = k" for r using assms(1) key_eq by (simp add: same_decl_def)
  moreover have "k \<in> key_of ` set (rows t) \<longleftrightarrow> (\<exists>j < st_n t. key_of (row_of t j) = k)"
    unfolding set_conv_nth length_rows [OF assms(2)] by (auto simp: row_of_rows)
  ultimately show ?thesis
    using find_loop_spec [of 0 t k] by (auto simp: find_idx_def tab_map_def key_map_None split: option.splits)
qed

lemma find_Some:
  assumes "same_decl decl t" "tab_ok key_of t" "find_idx t k = Some i"
  shows "i < st_n t" "key_of (row_of t i) = k" "tab_map key_of t k = Some (row_of t i)"
proof -
  have "st_key_eq t r k \<longleftrightarrow> key_of r = k" for r using assms(1) key_eq by (simp add: same_decl_def)
  with find_loop_spec [of 0 t k] assms(3) show i: "i < st_n t" and k: "key_of (row_of t i) = k"
    by (auto simp: find_idx_def)
  have "row_of t i \<in> set (rows t)"
    using i row_of_rows [OF i] length_rows [of t] assms(2) by (simp add: tab_ok_def)
  with k assms(2) show "tab_map key_of t k = Some (row_of t i)" by (simp add: tab_map_def key_map_Some tab_ok_def)
qed

text \<open>Writing a row back under its own key.\<close>

lemma put_same:
  assumes "tab_ok key_of t" "i < st_n t" "key_of r = key_of (row_of t i)"
  shows "tab_ok key_of (stab_put i r t)" "tab_map key_of (stab_put i r t) = (tab_map key_of t)(key_of r \<mapsto> r)"
proof -
  have i: "i < length (rows t)" "row_of t i = rows t ! i"
    using assms(1,2) by (simp_all add: tab_ok_def length_rows row_of_rows)
  from assms i distinct_update [of key_of "rows t" i r]
  show "tab_ok key_of (stab_put i r t)" "tab_map key_of (stab_put i r t) = (tab_map key_of t)(key_of r \<mapsto> r)"
    by (auto simp: tab_ok_def tab_map_def rows_put)
qed

text \<open>Replacing the row of slot \<open>i\<close> by one with a key the table does not hold.\<close>

lemma put_other:
  assumes "tab_ok key_of t" "i < st_n t" "tab_map key_of t (key_of r) = None"
  shows "tab_ok key_of (stab_put i r t)"
    "tab_map key_of (stab_put i r t) = ((tab_map key_of t)(key_of (row_of t i) := None))(key_of r \<mapsto> r)"
proof -
  have i: "i < length (rows t)" "row_of t i = rows t ! i"
    using assms(1,2) by (simp_all add: tab_ok_def length_rows row_of_rows)
  moreover have "key_of r \<notin> key_of ` set (rows t)" using assms(3) by (simp add: tab_map_def key_map_None)
  ultimately show "tab_ok key_of (stab_put i r t)"
    "tab_map key_of (stab_put i r t) = ((tab_map key_of t)(key_of (row_of t i) := None))(key_of r \<mapsto> r)"
    using assms(1) distinct_update [of key_of "rows t" i r] by (auto simp: tab_ok_def tab_map_def rows_put)
qed

lemma rows_grow:
  assumes "stab_wf t" "st_n t < st_cap t"
  shows "rows (stab_put (st_n t) r (t\<lparr>st_n := st_n t + 1\<rparr>)) = rows t @ [r]"
  using assms by (simp add: rows_def stab_put_def stab_wf_def take_Suc_conv_app_nth)

lemma put_grow:
  assumes "tab_ok key_of t" "st_n t < st_cap t" "tab_map key_of t (key_of r) = None"
  shows "tab_ok key_of (stab_put (st_n t) r (t\<lparr>st_n := st_n t + 1\<rparr>))"
    "tab_map key_of (stab_put (st_n t) r (t\<lparr>st_n := st_n t + 1\<rparr>)) = (tab_map key_of t)(key_of r \<mapsto> r)"
  using assms rows_grow [of t r]
  by (auto simp: tab_ok_def tab_map_def key_map_None key_map_snoc stab_wf_def stab_put_def rows_def)

end

text \<open>
  The bounded map of the specification: what a client's write makes of a key, by policy.
  \<open>victims\<close> are the rows a full table may give up.
\<close>

definition victims :: "('r, 'k) stab_t \<Rightarrow> 'r set" where
  "victims t = (if st_policy t = STAB_RING then set (rows t)
     else {v \<in> set (rows t). \<forall>r \<in> set (rows t). st_ls t v \<le> st_ls t r})"

definition upsert_spec ::
  "('r \<Rightarrow> 'k) \<Rightarrow> (bool \<Rightarrow> 'r \<Rightarrow> 'r) \<Rightarrow> 'k \<Rightarrow> time_t \<Rightarrow> sh_t \<Rightarrow> ('r, 'k) stab_t \<Rightarrow> ('r, 'k) stab_t \<Rightarrow> sh_t \<Rightarrow> bool" where
  "upsert_spec key_of upd k now h t t' h' \<longleftrightarrow>
     (let m = tab_map key_of t; fresh = upd True (st_set_ls t now (st_zero t)) in
      case m k of
        Some r \<Rightarrow> tab_map key_of t' = m(k \<mapsto> upd False r) \<and> h' = h
      | None \<Rightarrow>
          if card (dom m) < st_cap t then tab_map key_of t' = m(k \<mapsto> fresh) \<and> h' = h
          else if st_policy t = STAB_REFUSE_AGING \<and> (\<forall>r \<in> ran m. now - st_ls t r < st_age t)
          then tab_map key_of t' = m \<and> h' = sh_evict_note (st_tally t) h
          else (\<exists>v \<in> victims t. tab_map key_of t' = (m(key_of v := None))(k \<mapsto> fresh))
             \<and> h' = (if st_policy t = STAB_REFUSE_AGING then h else sh_evict_note (st_tally t) h))"

lemma tab_card: "tab_ok key_of t \<Longrightarrow> card (dom (tab_map key_of t)) = st_n t"
  using length_rows [of t] distinct_card [of "map key_of (rows t)"]
  by (simp add: tab_ok_def tab_map_def key_map_dom)

lemma tab_ran: "tab_ok key_of t \<Longrightarrow> ran (tab_map key_of t) = set (rows t)"
  by (auto simp: ran_def tab_map_def key_map_Some tab_ok_def)

lemma oldest_victim:
  assumes "stab_wf t" "0 < st_n t" "st_policy t \<noteq> STAB_RING"
  shows "row_of t (oldest_idx t) \<in> victims t"
proof -
  have l: "length (rows t) = st_n t" by (rule length_rows [OF assms(1)])
  note o = oldest_idx_spec [OF assms(2)]
  have "row_of t (oldest_idx t) \<in> set (rows t)" using o(1) l row_of_rows [OF o(1)] by simp
  moreover have "st_ls t (row_of t (oldest_idx t)) \<le> st_ls t r" if r: "r \<in> set (rows t)" for r
  proof -
    from r l obtain j where "j < st_n t" "r = row_of t j" by (metis in_set_conv_nth row_of_rows)
    with o(2) [of j] show ?thesis by (simp add: ls_of_def)
  qed
  ultimately show ?thesis using assms(3) by (simp add: victims_def)
qed

context keyed_table
begin

lemma upsert_refines:
  assumes d: "same_decl decl t" and ok: "tab_ok key_of t" and kk: "keeps_key key_of k upd"
  shows "case stab_upsert upd k now h t of (t', h') \<Rightarrow>
     same_decl decl t' \<and> tab_ok key_of t' \<and> upsert_spec key_of upd k now h t t' h'"
proof (cases "find_idx t k")
  case (Some i)
  note f = find_Some [OF d ok Some]
  have "key_of (upd False (row_of t i)) = k" using kk f(2) by (simp add: keeps_key_def)
  with put_same [OF ok f(1), of "upd False (row_of t i)"] f Some d show ?thesis
    by (simp add: stab_upsert_def stab_get_def upsert_spec_def)
next
  case None
  have wf: "stab_wf t" using ok by (simp add: tab_ok_def)
  have m: "tab_map key_of t k = None" using None find_None [OF d wf] by simp
  let ?fresh = "upd True (st_set_ls t now (st_zero t))"
  have kf: "key_of ?fresh = k" using kk by (simp add: keeps_key_def)
  show ?thesis
  proof (cases "st_n t < st_cap t")
    case True
    have e: "stab_upsert upd k now h t = (stab_put (st_n t) ?fresh (t\<lparr>st_n := st_n t + 1\<rparr>), h)"
      using None True wf
      by (simp add: stab_upsert_def stab_get_def stab_slot_def stab_put_def row_of_def stab_wf_def)
    have "same_decl decl (stab_put (st_n t) ?fresh (t\<lparr>st_n := st_n t + 1\<rparr>))"
      using d by (simp add: same_decl_def)
    with put_grow [OF ok True, of ?fresh] kf m True tab_card [OF ok] show ?thesis
      unfolding e by (simp add: upsert_spec_def)
  next
    case False
    then have full: "st_n t = st_cap t" "0 < st_n t" using wf by (simp_all add: stab_wf_def)
    note o = oldest_idx_spec [OF full(2)]
    note put = put_other [OF ok _ , of _ ?fresh, unfolded kf, OF _ m]
    have put2: "stab_put i ?fresh (stab_put i x u) = stab_put i ?fresh u" for i x u
      by (simp add: stab_put_def)
    have at: "row_of (stab_put i x t) i = x" if "i < st_n t" for i x
      using that wf full by (simp add: stab_put_def row_of_def stab_wf_def)
    have ls_min: "ls_of t (oldest_idx t) \<le> st_ls t r" if "r \<in> set (rows t)" for r
    proof -
      from that length_rows [OF wf] obtain j where "j < st_n t" "r = row_of t j" by (metis in_set_conv_nth row_of_rows)
      with o(2) [of j] show ?thesis by (simp add: ls_of_def)
    qed
    have v: "st_policy t \<noteq> STAB_RING \<Longrightarrow> row_of t (oldest_idx t) \<in> victims t"
      by (rule oldest_victim [OF wf full(2)])
    consider (refuse) "st_policy t = STAB_REFUSE_AGING" "now - ls_of t (oldest_idx t) < st_age t"
      | (reclaim) "st_policy t = STAB_REFUSE_AGING" "\<not> now - ls_of t (oldest_idx t) < st_age t"
      | (ring) "st_policy t = STAB_RING" | (oldest) "st_policy t = STAB_OLDEST"
      by (cases "st_policy t") auto
    then show ?thesis
    proof cases
      case refuse
      have e: "stab_upsert upd k now h t = (t, sh_evict_note (st_tally t) h)"
        using None False refuse by (simp add: stab_upsert_def stab_get_def stab_slot_def Let_def)
      have "now - st_ls t r < st_age t" if "r \<in> set (rows t)" for r
        using ls_min [OF that] refuse(2) by linarith
      then show ?thesis unfolding e using d ok m full refuse(1) tab_card [OF ok] tab_ran [OF ok]
        by (simp add: upsert_spec_def)
    next
      case reclaim
      have e: "stab_upsert upd k now h t = (stab_put (oldest_idx t) ?fresh t, h)"
        using None False reclaim at [OF o(1)] put2
        by (simp add: stab_upsert_def stab_get_def stab_slot_def Let_def)
      have "\<not> (\<forall>r \<in> ran (tab_map key_of t). now - st_ls t r < st_age t)"
        using reclaim(2) v reclaim(1) unfolding tab_ran [OF ok] by (auto simp: victims_def ls_of_def)
      then show ?thesis unfolding e using put [OF o(1)] v reclaim(1) d m full tab_card [OF ok]
        by (auto simp: upsert_spec_def Let_def)
    next
      case ring
      let ?t = "t\<lparr>st_ring_head := (st_ring_head t + 1) mod st_cap t\<rparr>" and ?i = "st_ring_head t"
      have i: "?i < st_n t" using wf full(1) by (simp add: stab_wf_def)
      have r: "rows ?t = rows t" by (simp add: rows_def)
      have ok': "tab_ok key_of ?t" using ok unfolding tab_ok_def r by (simp add: stab_wf_def)
      have m': "tab_map key_of ?t = tab_map key_of t" by (simp only: tab_map_def r)
      have at': "row_of (stab_put ?i x ?t) ?i = x" for x
        using i wf full by (simp add: stab_put_def row_of_def stab_wf_def)
      have e: "stab_upsert upd k now h t = (stab_put ?i ?fresh ?t, sh_evict_note (st_tally t) h)"
        using None False ring at' by (simp add: stab_upsert_def stab_get_def stab_slot_def stab_put_def)
      have v: "row_of t ?i \<in> victims t"
        using i row_of_rows [OF i] length_rows [OF wf] ring by (simp add: victims_def)
      have "row_of ?t ?i = row_of t ?i" by (simp add: row_of_def)
      with put_other [OF ok', of ?i ?fresh, unfolded kf m'] i m
      have "tab_ok key_of (stab_put ?i ?fresh ?t)"
        "tab_map key_of (stab_put ?i ?fresh ?t) = ((tab_map key_of t)(key_of (row_of t ?i) := None))(k \<mapsto> ?fresh)"
        by simp_all
      moreover have "same_decl decl ?t" using d by (simp add: same_decl_def)
      ultimately show ?thesis unfolding e using v ring m full tab_card [OF ok]
        by (auto simp: upsert_spec_def Let_def)
    next
      case oldest
      have e: "stab_upsert upd k now h t = (stab_put (oldest_idx t) ?fresh t, sh_evict_note (st_tally t) h)"
        using None False oldest at [OF o(1)] put2
        by (simp add: stab_upsert_def stab_get_def stab_slot_def)
      show ?thesis unfolding e using put [OF o(1)] v oldest d m full tab_card [OF ok]
        by (auto simp: upsert_spec_def Let_def)
    qed
  qed
qed

end

section \<open>Reachable tables\<close>

inductive stab_reach :: "('r \<Rightarrow> 'k) \<Rightarrow> ('r, 'k) stab_t \<Rightarrow> ('r, 'k) stab_t \<Rightarrow> bool"
  for key_of decl where
  init: "stab_reach key_of decl decl"
| upsert: "stab_reach key_of decl t \<Longrightarrow> keeps_key key_of k upd \<Longrightarrow> stab_upsert upd k now h t = (t', h')
     \<Longrightarrow> stab_reach key_of decl t'"
| del: "stab_reach key_of decl t \<Longrightarrow> stab_del t row = (ok, t') \<Longrightarrow> stab_reach key_of decl t'"
| expire: "stab_reach key_of decl t \<Longrightarrow> stab_expire t now age = (k, t') \<Longrightarrow> stab_reach key_of decl t'"
| clear: "stab_reach key_of decl t \<Longrightarrow> stab_reach key_of decl (stab_clear t)"

lemma stab_decl_ok:
  "0 < cap \<Longrightarrow> tab_ok key_of (STAB_DECL_AGE zero cap ls set_ls pol age kind eq)"
  by (simp add: tab_ok_def stab_wf_def rows_def STAB_DECL_AGE_def)

lemma tab_clear:
  "tab_ok key_of t \<Longrightarrow> tab_ok key_of (stab_clear t)" "same_decl d t \<Longrightarrow> same_decl d (stab_clear t)"
  "rows (stab_clear t) = []" "tab_map key_of (stab_clear t) = Map.empty"
  by (auto simp: tab_ok_def stab_wf_def stab_clear_def rows_def same_decl_def tab_map_def)

lemma tab_ok_del:
  assumes "tab_ok key_of t" "i < st_n t"
  shows "tab_ok key_of (del_idx t i)"
    "tab_map key_of (del_idx t i) = (tab_map key_of t)(key_of (row_of t i) := None)"
proof -
  have wf: "stab_wf t" and d: "distinct (map key_of (rows t))" using assms(1) by (simp_all add: tab_ok_def)
  have r: "row_of t i = rows t ! i" "rows t ! i \<in> set (rows t)"
    using assms(2) row_of_rows length_rows [OF wf] by auto
  from distinct_mset_remove [OF d mset_del(1) [OF wf assms(2)] r(2)] r(1) stab_wf_del [OF wf]
  show "tab_ok key_of (del_idx t i)"
    "tab_map key_of (del_idx t i) = (tab_map key_of t)(key_of (row_of t i) := None)"
    by (simp_all add: tab_ok_def tab_map_def)
qed

lemma tab_ok_expire:
  assumes "tab_ok key_of t" "stab_expire t now age = (k, t')"
  shows "tab_ok key_of t'" "same_decl t t'"
proof -
  have "tab_ok key_of t' \<and> same_decl t t'"
  proof (cases "st_policy t = STAB_RING")
    case True
    with assms show ?thesis by (simp add: stab_expire_def)
  next
    case False
    have wf: "stab_wf t" and d: "distinct (map key_of (rows t))" using assms(1) by (simp_all add: tab_ok_def)
    note e = stab_expire_spec [OF wf False assms(2)]
    have "mset (map key_of (rows t')) = mset (map key_of (filter (\<lambda>r. \<not> now - st_ls t r > age) (rows t)))"
      using e(4) by simp
    then have "distinct (map key_of (rows t')) \<longleftrightarrow> distinct (map key_of (filter (\<lambda>r. \<not> now - st_ls t r > age) (rows t)))"
      by (rule mset_eq_imp_distinct_iff)
    with e(1,2) d show ?thesis by (simp add: tab_ok_def distinct_map_filter)
  qed
  then show "tab_ok key_of t'" "same_decl t t'" by simp_all
qed

context keyed_table
begin

lemma reach_ok:
  assumes "stab_reach key_of decl t" "tab_ok key_of decl"
  shows "same_decl decl t \<and> tab_ok key_of t"
  using assms
proof (induction rule: stab_reach.induct)
  case (upsert t k upd now h t' h')
  with upsert_refines [of t k upd now h] show ?case by auto
next
  case (del t row ok t')
  then show ?case by (auto simp: stab_del_def tab_ok_del split: option.splits if_splits)
next
  case (expire t now age k t')
  with tab_ok_expire [of key_of t now age k t'] show ?case by (metis same_decl_trans)
next
  case (clear t)
  then show ?case by (auto simp: stab_clear_def same_decl_def tab_ok_def stab_wf_def rows_def)
qed simp

end

section \<open>Properties\<close>

text \<open>
  C37: However a table is used (rows created, updated, retired, expired, all cleared, under
  any of the three policies), it never holds more rows than its capacity nor two rows with
  the same key, so the first match a lookup stops at is the only one.
\<close>

theorem stab_never_duplicates:
  assumes "stab_reach key_of (STAB_DECL_AGE zero cap ls set_ls pol age kind (\<lambda>r k. key_of r = k)) t"
    and "0 < cap" and "\<And>now r. ls (set_ls now r) = now"
  shows "st_n t \<le> cap \<and> length (rows t) = st_n t \<and> distinct (map key_of (rows t))
     \<and> (\<forall>k. case find_idx t k of None \<Rightarrow> k \<notin> key_of ` set (rows t)
           | Some i \<Rightarrow> i < st_n t \<and> key_of (rows t ! i) = k)"
proof -
  let ?d = "STAB_DECL_AGE zero cap ls set_ls pol age kind (\<lambda>r k. key_of r = k)"
  have kt: "keyed_table ?d key_of" by unfold_locales (simp_all add: STAB_DECL_AGE_def assms(3))
  from keyed_table.reach_ok [OF kt assms(1) stab_decl_ok [OF assms(2)]]
  have d: "same_decl ?d t" and ok: "tab_ok key_of t" by simp_all
  have wf: "stab_wf t" using ok by (simp add: tab_ok_def)
  have "case find_idx t k of None \<Rightarrow> k \<notin> key_of ` set (rows t) | Some i \<Rightarrow> i < st_n t \<and> key_of (rows t ! i) = k" for k
  proof (cases "find_idx t k")
    case None
    with keyed_table.find_None [OF kt d wf, of k] show ?thesis by (simp add: tab_map_def key_map_None)
  next
    case (Some i)
    with keyed_table.find_Some [OF kt d ok Some] show ?thesis by (simp add: row_of_rows)
  qed
  moreover have "st_n t \<le> cap" using wf d by (simp add: stab_wf_def same_decl_def STAB_DECL_AGE_def)
  ultimately show ?thesis using ok length_rows [OF wf] by (simp add: tab_ok_def)
qed

lemma stab_never_duplicates_witness:
  "\<exists>t :: (int \<times> time_t, int) stab_t.
     stab_reach fst (STAB_DECL_AGE (0, 0) 2 snd (\<lambda>n r. (fst r, n)) STAB_OLDEST 0 SH_EVICT_DEVICE (\<lambda>r k. fst r = k)) t
     \<and> st_n t \<le> 2 \<and> length (rows t) = st_n t \<and> distinct (map fst (rows t))
     \<and> (\<forall>k. case find_idx t k of None \<Rightarrow> k \<notin> fst ` set (rows t)
           | Some i \<Rightarrow> i < st_n t \<and> fst (rows t ! i) = k)"
proof -
  let ?d = "STAB_DECL_AGE (0, 0) 2 snd (\<lambda>n r. (fst r, n)) STAB_OLDEST 0 SH_EVICT_DEVICE (\<lambda>r k. fst r = k)
    :: (int \<times> time_t, int) stab_t"
  obtain t h where u: "stab_upsert (\<lambda>c r. (7, snd r)) 7 100 sh_init ?d = (t, h)" by fastforce
  have "stab_reach fst ?d t" by (rule stab_reach.upsert [OF stab_reach.init _ u]) (simp add: keeps_key_def)
  with stab_never_duplicates [of fst "(0, 0)" 2 snd "\<lambda>n r. (fst r, n)" STAB_OLDEST 0 SH_EVICT_DEVICE t]
  show ?thesis by (intro exI [of _ t]) simp
qed



text \<open>
  Expiring a table keeps exactly the rows seen within the age, whatever the swaps do to
  their order, and reports how many it removed.
\<close>

theorem stab_expire_exact:
  assumes "stab_wf t" and "st_policy t \<noteq> STAB_RING" and "stab_expire t now age = (k, t')"
  shows "mset (rows t') = filter_mset (\<lambda>r. now - st_ls t r \<le> age) (mset (rows t)) \<and> k + st_n t' = st_n t"
  using stab_expire_spec [OF assms] by (simp add: not_less)

lemma stab_expire_exact_witness:
  "\<exists>(t :: (int \<times> time_t, int) stab_t) k t'.
     t = (STAB_DECL_AGE (0, 0) 3 snd (\<lambda>n r. (fst r, n)) STAB_OLDEST 0 SH_EVICT_DEVICE (\<lambda>r k. fst r = k))
           \<lparr>st_rows := [(1, 10), (2, 90), (3, 20)], st_n := 3\<rparr>
     \<and> stab_expire t 100 30 = (k, t')
     \<and> mset (rows t') = filter_mset (\<lambda>r. 100 - st_ls t r \<le> 30) (mset (rows t)) \<and> k + st_n t' = st_n t"
proof -
  define t :: "(int \<times> time_t, int) stab_t" where
    "t = (STAB_DECL_AGE (0, 0) 3 snd (\<lambda>n r. (fst r, n)) STAB_OLDEST 0 SH_EVICT_DEVICE (\<lambda>r k. fst r = k))
           \<lparr>st_rows := [(1, 10), (2, 90), (3, 20)], st_n := 3\<rparr>"
  obtain k t' where e: "stab_expire t 100 30 = (k, t')" by fastforce
  have "stab_wf t" "st_policy t \<noteq> STAB_RING" by (simp_all add: t_def stab_wf_def STAB_DECL_AGE_def)
  from stab_expire_exact [OF this e] e show ?thesis unfolding t_def [symmetric] by blast
qed

section \<open>Getting a row of a table that never refuses\<close>

lemma row_of_put: "i < length (st_rows t) \<Longrightarrow> row_of (stab_put i r t) i = r"
  by (simp add: row_of_def stab_put_def)

lemma stab_put_put [simp]: "stab_put i r (stab_put i q t) = stab_put i r t"
  by (simp add: stab_put_def)

context keyed_table
begin

lemma get_oldest:
  assumes d: "same_decl decl t" and ok: "tab_ok key_of t" and pol: "st_policy decl = STAB_OLDEST"
  obtains i t1 h1 where
    "stab_get t k now h = (Some i, tab_map key_of t k = None, t1, h1)"
    "i < st_n t1" "i < length (st_rows t1)" "same_decl decl t1"
    "tab_map key_of t k = None \<Longrightarrow> row_of t1 i = st_set_ls decl now (st_zero decl)"
    "tab_map key_of t k \<noteq> None \<Longrightarrow> t1 = t \<and> h1 = h \<and> tab_map key_of t k = Some (row_of t i)"
    "\<And>upd. stab_upsert upd k now h t = (stab_put i (upd (tab_map key_of t k = None) (row_of t1 i)) t1, h1)"
proof (cases "find_idx t k")
  case (Some i)
  note f = find_Some [OF d ok Some]
  have l: "i < length (st_rows t)" using f(1) ok by (simp add: tab_ok_def stab_wf_def)
  show thesis
    by (rule that [of i t h]) (use Some f l d in \<open>simp_all add: stab_get_def stab_upsert_def\<close>)
next
  case None
  have wf: "stab_wf t" using ok by (simp add: tab_ok_def)
  then have m: "tab_map key_of t k = None" using None find_None [OF d wf] by simp
  have dz: "st_set_ls t = st_set_ls decl" "st_zero t = st_zero decl" "st_policy t = STAB_OLDEST"
    using d pol by (simp_all add: same_decl_def)
  obtain i t0 h0 where s: "stab_slot t now h = (Some i, t0, h0)" "i < st_n t0" "st_rows t0 = st_rows t"
    "i < length (st_rows t)" "same_decl decl t0" "st_set_ls t0 = st_set_ls t" "st_zero t0 = st_zero t"
  proof (cases "st_n t < st_cap t")
    case True
    with that [of "st_n t" "t\<lparr>st_n := st_n t + 1\<rparr>" h] wf d show thesis
      by (simp add: stab_slot_def stab_wf_def same_decl_def)
  next
    case False
    with wf have "0 < st_n t" "st_n t = st_cap t" by (simp_all add: stab_wf_def)
    with that [of "oldest_idx t" t "sh_evict_note (st_tally t) h"] oldest_idx_spec(1) [of t] False dz wf d show thesis
      by (simp add: stab_slot_def stab_wf_def)
  qed
  let ?t1 = "stab_put i (st_set_ls decl now (st_zero decl)) t0"
  have g: "stab_get t k now h = (Some i, True, ?t1, h0)"
    using None s dz by (simp add: stab_get_def)
  show thesis
    by (rule that [of i ?t1 h0])
      (use g m s in \<open>simp_all add: stab_upsert_def row_of_put, simp_all add: stab_put_def\<close>)
qed

text \<open>What one upsert makes of the map: other keys keep their row or lose it to the eviction.\<close>

lemma upsert_map:
  assumes d: "same_decl decl t" and ok: "tab_ok key_of t" and pol: "st_policy decl = STAB_OLDEST"
    and kk: "keeps_key key_of k upd" and u: "stab_upsert upd k now h t = (t', h')"
  shows "same_decl decl t'" "tab_ok key_of t'"
    "tab_map key_of t' k = Some (case tab_map key_of t k of
        Some r \<Rightarrow> upd False r | None \<Rightarrow> upd True (st_set_ls decl now (st_zero decl)))"
    "\<And>k'. k' \<noteq> k \<Longrightarrow> tab_map key_of t' k' \<in> {tab_map key_of t k', None}"
    "\<And>k'. k' \<noteq> k \<Longrightarrow> tab_map key_of t k \<noteq> None \<or> st_n t < st_cap t \<Longrightarrow> tab_map key_of t' k' = tab_map key_of t k'"
    "tab_map key_of t k \<noteq> None \<or> st_n t < st_cap t \<Longrightarrow> h' = h"
proof -
  from upsert_refines [OF d ok kk, of now h] u
  have r: "same_decl decl t'" "tab_ok key_of t'" "upsert_spec key_of upd k now h t t' h'" by simp_all
  have p: "st_policy t = STAB_OLDEST" "st_set_ls t = st_set_ls decl" "st_zero t = st_zero decl"
    using d pol by (simp_all add: same_decl_def)
  show "same_decl decl t'" "tab_ok key_of t'" by (rule r)+
  note s = r(3) [unfolded upsert_spec_def Let_def p tab_card [OF ok]]
  show "tab_map key_of t' k = Some (case tab_map key_of t k of
        Some r \<Rightarrow> upd False r | None \<Rightarrow> upd True (st_set_ls decl now (st_zero decl)))"
    using s by (auto split: option.splits if_splits)
  show "\<And>k'. k' \<noteq> k \<Longrightarrow> tab_map key_of t' k' \<in> {tab_map key_of t k', None}"
    using s by (auto split: option.splits if_splits)
  show "\<And>k'. k' \<noteq> k \<Longrightarrow> tab_map key_of t k \<noteq> None \<or> st_n t < st_cap t \<Longrightarrow> tab_map key_of t' k' = tab_map key_of t k'"
    using s by (auto split: option.splits if_splits)
  show "tab_map key_of t k \<noteq> None \<or> st_n t < st_cap t \<Longrightarrow> h' = h"
    using s by (auto split: option.splits if_splits)
qed

lemma upsert_rows:
  assumes d: "same_decl decl t" and ok: "tab_ok key_of t" and pol: "st_policy decl = STAB_OLDEST"
    and kk: "keeps_key key_of k upd" and u: "stab_upsert upd k now h t = (t', h')"
    and P: "\<And>r. r \<in> set (rows t) \<Longrightarrow> P r" "\<And>r. P r \<Longrightarrow> P (upd False r)" "P (upd True (st_set_ls decl now (st_zero decl)))"
  shows "\<forall>r \<in> set (rows t'). P r"
proof
  fix r assume "r \<in> set (rows t')"
  note m = upsert_map [OF d ok pol kk u]
  have P': "P q" if "tab_map key_of t k' = Some q" for k' q
    using that P(1) tab_ran [OF ok] by (metis ranI)
  from \<open>r \<in> set (rows t')\<close> obtain k' where k': "tab_map key_of t' k' = Some r"
    unfolding tab_ran [OF m(2), symmetric] by (auto simp: ran_def)
  show "P r"
  proof (cases "k' = k")
    case True
    with k' m(3) P P' show ?thesis by (auto split: option.splits)
  next
    case False
    with k' m(4) [OF False] P' show ?thesis by auto
  qed
qed

end

text \<open>Rows updated in place, keys kept.\<close>

definition each_row :: "('r \<Rightarrow> 'r) \<Rightarrow> ('r, 'k) stab_t \<Rightarrow> ('r, 'k) stab_t" where
  "each_row g t = fold (\<lambda>i t. stab_put i (g (row_of t i)) t) [0..<stab_count t] t"

lemma each_row_fold:
  assumes "m \<le> st_n t" "stab_wf t"
  shows "fold (\<lambda>i t. stab_put i (g (row_of t i)) t) [0..<m] t
     = t\<lparr>st_rows := map g (take m (st_rows t)) @ drop m (st_rows t)\<rparr>"
  using assms(1)
proof (induction m)
  case (Suc m)
  have l: "m < length (st_rows t)" using Suc.prems assms(2) by (simp add: stab_wf_def)
  let ?xs = "map g (take m (st_rows t)) @ drop m (st_rows t)"
  have n: "?xs ! m = st_rows t ! m" using l by (simp add: nth_append)
  have "?xs[m := g (st_rows t ! m)] = map g (take (Suc m) (st_rows t)) @ drop (Suc m) (st_rows t)"
    using l by (simp add: list_update_append take_Suc_conv_app_nth Cons_nth_drop_Suc [symmetric])
  with Suc n l show ?case by (simp add: stab_put_def row_of_def)
qed simp

lemma each_row_spec:
  assumes "stab_wf t"
  shows "rows (each_row g t) = map g (rows t)" "stab_wf (each_row g t)"
    "same_decl d (each_row g t) = same_decl d t" "st_n (each_row g t) = st_n t"
  using each_row_fold [OF le_refl assms, of g] assms
  by (simp_all add: each_row_def stab_count_def rows_def stab_wf_def same_decl_def)

lemma each_row_ok:
  assumes "tab_ok key_of t" "\<And>r. key_of (g r) = key_of r"
  shows "tab_ok key_of (each_row g t)"
proof -
  have "map key_of (map g (rows t)) = map key_of (rows t)" by (simp add: assms(2))
  with assms(1) each_row_spec [where t = t and g = g] show ?thesis by (simp only: tab_ok_def)
qed

section \<open>Tables whose rows are seen through a function\<close>

text \<open>
  A function on rows that keeps what the table looks at, the key and the stamp, commutes with every
  lookup, so that what the function forgets has no influence on the table.
\<close>

definition map_rows :: "('r \<Rightarrow> 'r) \<Rightarrow> ('r, 'k) stab_t \<Rightarrow> ('r, 'k) stab_t" where
  "map_rows g t = t\<lparr>st_rows := map g (st_rows t)\<rparr>"

definition blind :: "('r \<Rightarrow> 'r) \<Rightarrow> ('r, 'k) stab_t \<Rightarrow> bool" where
  "blind g t \<longleftrightarrow> (\<forall>r k. st_key_eq t (g r) k = st_key_eq t r k) \<and> (\<forall>r. st_ls t (g r) = st_ls t r)
     \<and> (\<forall>r now. g (st_set_ls t now r) = st_set_ls t now (g r)) \<and> g (st_zero t) = st_zero t"

lemma map_rows_simps [simp]:
  "st_n (map_rows g t) = st_n t" "st_cap (map_rows g t) = st_cap t" "st_ls (map_rows g t) = st_ls t"
  "st_set_ls (map_rows g t) = st_set_ls t" "st_zero (map_rows g t) = st_zero t" "st_policy (map_rows g t) = st_policy t"
  "st_age (map_rows g t) = st_age t" "st_tally (map_rows g t) = st_tally t" "st_key_eq (map_rows g t) = st_key_eq t"
  "st_ring_head (map_rows g t) = st_ring_head t" "st_rows (map_rows g t) = map g (st_rows t)"
  by (simp_all add: map_rows_def)

lemma map_rows_row: "i < length (st_rows t) \<Longrightarrow> row_of (map_rows g t) i = g (row_of t i)"
  by (simp add: row_of_def)

lemma map_rows_put: "map_rows g (stab_put i r t) = stab_put i (g r) (map_rows g t)"
  by (simp add: map_rows_def stab_put_def map_update)

lemma find_loop_map:
  assumes "blind g t" "st_n t \<le> length (st_rows t)"
  shows "find_loop (map_rows g t) k i = find_loop t k i"
  using assms
proof (induction t k i rule: find_loop.induct)
  case (1 t k i)
  show ?case
    by (subst (1 2) find_loop.simps) (use 1 in \<open>simp add: map_rows_row blind_def\<close>)
qed

lemma oldest_loop_map:
  assumes "blind g t" "st_n t \<le> length (st_rows t)" "slot < length (st_rows t)"
  shows "oldest_loop (map_rows g t) i slot = oldest_loop t i slot"
  using assms
proof (induction t i slot rule: oldest_loop.induct)
  case (1 t i slot)
  show ?case
    by (subst (1 2) oldest_loop.simps) (use 1 in \<open>simp add: ls_of_def map_rows_row blind_def\<close>)
qed

lemma get_map_rows:
  assumes b: "blind g t" and wf: "stab_wf t" and pol: "st_policy t = STAB_OLDEST"
  shows "stab_get (map_rows g t) k now h =
    (case stab_get t k now h of (i, created, t', h') \<Rightarrow> (i, created, map_rows g t', h'))"
proof -
  have l: "st_n t \<le> length (st_rows t)" "0 < length (st_rows t)" using wf by (simp_all add: stab_wf_def)
  have f: "find_idx (map_rows g t) k = find_idx t k" by (simp add: find_idx_def find_loop_map [OF b l(1)])
  have o: "oldest_idx (map_rows g t) = oldest_idx t" by (simp add: oldest_idx_def oldest_loop_map [OF b l])
  have p: "stab_put i (st_set_ls t now (st_zero t)) (map_rows g u) = map_rows g (stab_put i (st_set_ls t now (st_zero t)) u)" for i u
    using b by (simp add: map_rows_put blind_def)
  have n: "(map_rows g t)\<lparr>st_n := x\<rparr> = map_rows g (t\<lparr>st_n := x\<rparr>)" for x by (simp add: map_rows_def)
  show ?thesis unfolding stab_get_def f stab_slot_def o
    by (auto simp: pol p n split: option.splits)
qed

end
