(* ===== verification/EvCite.thy ===== *)
theory EvCite
  imports Prelude
begin

text \<open>
  \<open>src/ev_cite.h\<close>: the bounded citation rings in which a detector keeps the evidence ids of
  the frames behind its alert. The caller's storage is a record of the array, the count
  and the head; the two octet counters hold at most \<open>cap\<close>, which is at most 255.
  Specification: the latest distinct ids, oldest first.
\<close>

section \<open>Model\<close>

record ev_ring_t =
  ev_ids :: "u64 list"
  ev_n :: nat
  ev_head :: nat

definition ev_zero :: "nat \<Rightarrow> ev_ring_t" where
  "ev_zero cap = \<lparr>ev_ids = replicate cap 0, ev_n = 0, ev_head = 0\<rparr>"

text \<open>The slot of logical index \<open>l\<close>, 0 being the oldest.\<close>

definition ev_slot :: "nat \<Rightarrow> nat \<Rightarrow> nat \<Rightarrow> nat \<Rightarrow> nat" where
  "ev_slot cap have head l = (if have < cap then l else (head + l) mod cap)"

function cite_find :: "u64 list \<Rightarrow> nat \<Rightarrow> nat \<Rightarrow> nat \<Rightarrow> u64 \<Rightarrow> nat \<Rightarrow> nat option" where
  "cite_find ids cap have head eid l =
     (if l < have
      then if ids ! ev_slot cap have head l \<noteq> eid then cite_find ids cap have head eid (l + 1)
           else Some l
      else None)"
  by pat_completeness auto
termination by (relation "measure (\<lambda>(_, _, have, _, _, l). have - l)") auto

declare cite_find.simps [simp del]

function cite_shift :: "nat \<Rightarrow> nat \<Rightarrow> nat \<Rightarrow> nat \<Rightarrow> u64 list \<Rightarrow> u64 list" where
  "cite_shift cap have head l ids =
     (if l < have - 1
      then cite_shift cap have head (l + 1)
             (ids[ev_slot cap have head l := ids ! ev_slot cap have head (l + 1)])
      else ids)"
  by pat_completeness auto
termination by (relation "measure (\<lambda>(_, have, _, l, _). have - l)") auto

declare cite_shift.simps [simp del]

definition ev_cite_push :: "nat \<Rightarrow> u64 \<Rightarrow> ev_ring_t \<Rightarrow> ev_ring_t" where
  "ev_cite_push cap eid r =
     (if eid = 0 \<or> cap = 0 then r
      else let have = (if ev_n r < cap then ev_n r else cap) in
      case cite_find (ev_ids r) cap have (ev_head r) eid 0 of
        Some l \<Rightarrow>
          r\<lparr>ev_ids := (cite_shift cap have (ev_head r) l (ev_ids r))
                       [ev_slot cap have (ev_head r) (have - 1) := eid]\<rparr>
      | None \<Rightarrow>
          r\<lparr>ev_ids := (ev_ids r)[ev_head r mod cap := eid],
            ev_head := ((ev_head r + 1) mod cap) mod 256,
            ev_n := (if ev_n r < cap then ev_n r + 1 else ev_n r)\<rparr>)"

definition ev_cite_flatten :: "nat \<Rightarrow> ev_ring_t \<Rightarrow> nat \<Rightarrow> u64 list" where
  "ev_cite_flatten cap r maxn =
     (if maxn = 0 \<or> cap = 0 then []
      else let have = (if ev_n r < cap then ev_n r else cap);
               skip = (if have > maxn then have - maxn else 0)
           in map (\<lambda>e. ev_ids r ! (if have < cap then e else (ev_head r + e) mod cap)) [skip..<have])"

fun ev_cite_merge :: "nat \<Rightarrow> u64 list \<Rightarrow> u64 list \<Rightarrow> u64 list" where
  "ev_cite_merge maxn dst [] = dst"
| "ev_cite_merge maxn dst (s # src) =
     (if \<not> length dst < maxn then dst
      else if s = 0 then ev_cite_merge maxn dst src
      else if s \<in> set dst then ev_cite_merge maxn dst src
      else ev_cite_merge maxn (dst @ [s]) src)"

fun reverse_loop :: "nat \<Rightarrow> nat \<Rightarrow> u64 list \<Rightarrow> u64 list" where
  "reverse_loop 0 k ids = ids"
| "reverse_loop (Suc todo) k ids =
     (let i = k div 2 - Suc todo; t = ids ! i
      in reverse_loop todo k (ids[i := ids ! (k - 1 - i), k - 1 - i := t]))"

definition ev_cite_reverse :: "u64 list \<Rightarrow> nat \<Rightarrow> u64 list" where
  "ev_cite_reverse ids k = reverse_loop (k div 2) k ids"

section \<open>The ring as a list\<close>

definition ev_wf :: "nat \<Rightarrow> ev_ring_t \<Rightarrow> bool" where
  "ev_wf cap r \<longleftrightarrow> 0 < cap \<and> cap \<le> 255 \<and> length (ev_ids r) = cap \<and> ev_n r \<le> cap
     \<and> ev_head r < cap \<and> (ev_n r < cap \<longrightarrow> ev_head r = ev_n r)"

definition ev_list :: "nat \<Rightarrow> ev_ring_t \<Rightarrow> u64 list" where
  "ev_list cap r = map (\<lambda>l. ev_ids r ! ev_slot cap (ev_n r) (ev_head r) l) [0..<ev_n r]"

lemma ev_wf_zero: "0 < cap \<Longrightarrow> cap \<le> 255 \<Longrightarrow> ev_wf cap (ev_zero cap)"
  by (simp add: ev_wf_def ev_zero_def)

lemma ev_list_zero [simp]: "ev_list cap (ev_zero cap) = []"
  by (simp add: ev_list_def ev_zero_def)

lemma length_ev_list [simp]: "length (ev_list cap r) = ev_n r"
  by (simp add: ev_list_def)

lemma slot_less: "ev_wf cap r \<Longrightarrow> l < ev_n r \<Longrightarrow> ev_slot cap (ev_n r) (ev_head r) l < cap"
  by (auto simp: ev_slot_def ev_wf_def)

lemma mod_add_inj:
  fixes h :: nat
  assumes "(h + i) mod c = (h + j) mod c" "i < c" "j < c"
  shows "i = j"
proof -
  have "\<not> (a < b \<and> b < c \<and> (h + a) mod c = (h + b) mod c)" for a b
  proof
    assume a: "a < b \<and> b < c \<and> (h + a) mod c = (h + b) mod c"
    then have "c dvd (h + b) - (h + a)" using mod_eq_dvd_iff_nat [of "h + a" "h + b" c] by simp
    with a show False by (auto dest: dvd_imp_le)
  qed
  with assms show ?thesis by (metis linorder_neq_iff)
qed

lemma slot_inj:
  assumes "ev_wf cap r" "i < ev_n r" "j < ev_n r"
    "ev_slot cap (ev_n r) (ev_head r) i = ev_slot cap (ev_n r) (ev_head r) j"
  shows "i = j"
  using assms by (auto simp: ev_slot_def ev_wf_def intro: mod_add_inj split: if_splits)

text \<open>Writing the slot of a logical index writes that place of the list.\<close>

lemma ev_list_write:
  assumes "ev_wf cap r" "l < ev_n r"
  shows "ev_list cap (r\<lparr>ev_ids := (ev_ids r)[ev_slot cap (ev_n r) (ev_head r) l := x]\<rparr>) = (ev_list cap r)[l := x]"
proof (rule nth_equalityI)
  fix i assume "i < length (ev_list cap (r\<lparr>ev_ids := (ev_ids r)[ev_slot cap (ev_n r) (ev_head r) l := x]\<rparr>))"
  then have i: "i < ev_n r" by simp
  have "ev_slot cap (ev_n r) (ev_head r) l < length (ev_ids r)"
    using slot_less [OF assms] assms(1) by (simp add: ev_wf_def)
  with slot_inj [OF assms(1) i assms(2)] i assms(2)
  show "ev_list cap (r\<lparr>ev_ids := (ev_ids r)[ev_slot cap (ev_n r) (ev_head r) l := x]\<rparr>) ! i = (ev_list cap r)[l := x] ! i"
    by (auto simp: ev_list_def nth_list_update)
qed simp

lemma ev_list_nth: "l < ev_n r \<Longrightarrow> ev_list cap r ! l = ev_ids r ! ev_slot cap (ev_n r) (ev_head r) l"
  by (simp add: ev_list_def)

text \<open>The search is the search of the list.\<close>

lemma cite_find_spec:
  assumes "l \<le> ev_n r"
  shows "(case cite_find (ev_ids r) cap (ev_n r) (ev_head r) eid l of
      None \<Rightarrow> eid \<notin> set (drop l (ev_list cap r))
    | Some i \<Rightarrow> l \<le> i \<and> i < ev_n r \<and> ev_list cap r ! i = eid)"
  using assms
proof (induction "ev_n r - l" arbitrary: l)
  case 0
  then show ?case by (subst cite_find.simps) simp
next
  case (Suc d)
  then have l: "l < ev_n r" by simp
  have dr: "drop l (ev_list cap r) = ev_list cap r ! l # drop (Suc l) (ev_list cap r)"
    using l by (simp add: Cons_nth_drop_Suc)
  show ?case
  proof (cases "ev_list cap r ! l = eid")
    case True
    then show ?thesis using l ev_list_nth [OF l, of cap] by (subst cite_find.simps) simp
  next
    case False
    then have "cite_find (ev_ids r) cap (ev_n r) (ev_head r) eid l
       = cite_find (ev_ids r) cap (ev_n r) (ev_head r) eid (Suc l)"
      using l ev_list_nth [OF l, of cap] by (subst cite_find.simps) simp
    moreover have "d = ev_n r - Suc l" "Suc l \<le> ev_n r" using Suc.hyps(2) l by simp_all
    note ih = Suc.hyps(1) [OF this]
    ultimately show ?thesis using False dr ih by (auto split: option.splits)
  qed
qed

text \<open>Moving an element to the end.\<close>

lemma cite_shift_spec:
  assumes "ev_wf cap r" "l < ev_n r"
  shows "ev_list cap (r\<lparr>ev_ids := (cite_shift cap (ev_n r) (ev_head r) l (ev_ids r))
            [ev_slot cap (ev_n r) (ev_head r) (ev_n r - 1) := eid]\<rparr>)
       = take l (ev_list cap r) @ drop (Suc l) (ev_list cap r) @ [eid]
     \<and> length (cite_shift cap (ev_n r) (ev_head r) l (ev_ids r)) = cap"
  using assms
proof (induction "ev_n r - l" arbitrary: l r)
  case (Suc d)
  show ?case
  proof (cases "l < ev_n r - 1")
    case False
    then have l: "l = ev_n r - 1" using Suc.prems by simp
    have e: "cite_shift cap (ev_n r) (ev_head r) l (ev_ids r) = ev_ids r"
      using False by (subst cite_shift.simps) simp
    have "(ev_list cap r)[l := eid] = take l (ev_list cap r) @ drop (Suc l) (ev_list cap r) @ [eid]"
      using l Suc.prems(2) by (simp add: upd_conv_take_nth_drop)
    with ev_list_write [OF Suc.prems, of eid] Suc.prems(1) show ?thesis unfolding e l [symmetric]
      by (simp add: ev_wf_def)
  next
    case True
    let ?r = "r\<lparr>ev_ids := (ev_ids r)[ev_slot cap (ev_n r) (ev_head r) l := ev_list cap r ! Suc l]\<rparr>"
    have e: "cite_shift cap (ev_n r) (ev_head r) l (ev_ids r)
       = cite_shift cap (ev_n ?r) (ev_head ?r) (Suc l) (ev_ids ?r)"
      using True ev_list_nth [of "Suc l" r cap] by (subst cite_shift.simps) simp
    have wf: "ev_wf cap ?r" using Suc.prems(1) by (simp add: ev_wf_def)
    have L: "ev_list cap ?r = (ev_list cap r)[l := ev_list cap r ! Suc l]"
      by (rule ev_list_write [OF Suc.prems])
    have "take (Suc l) (ev_list cap ?r) @ drop (Suc (Suc l)) (ev_list cap ?r)
      = take l (ev_list cap r) @ drop (Suc l) (ev_list cap r)"
      unfolding L using True by (simp add: take_Suc_conv_app_nth Cons_nth_drop_Suc)
    with Suc.hyps(1) [of ?r "Suc l"] Suc.hyps(2) wf True show ?thesis
      unfolding e by simp
  qed
qed simp

lemma ev_wf_have: "ev_wf cap r \<Longrightarrow> (if ev_n r < cap then ev_n r else cap) = ev_n r"
  by (auto simp: ev_wf_def)

lemma push_known:
  assumes wf: "ev_wf cap r" and nz: "eid \<noteq> 0" and m: "eid \<in> set (ev_list cap r)" and d: "distinct (ev_list cap r)"
  shows "ev_wf cap (ev_cite_push cap eid r)"
    "ev_list cap (ev_cite_push cap eid r) = filter (\<lambda>x. x \<noteq> eid) (ev_list cap r) @ [eid]"
proof -
  from cite_find_spec [of 0 r, where cap = cap and eid = eid] m obtain l where
    l: "cite_find (ev_ids r) cap (ev_n r) (ev_head r) eid 0 = Some l" "l < ev_n r" "ev_list cap r ! l = eid"
    by (auto split: option.splits)
  let ?ids = "(cite_shift cap (ev_n r) (ev_head r) l (ev_ids r))[ev_slot cap (ev_n r) (ev_head r) (ev_n r - 1) := eid]"
  have p: "ev_cite_push cap eid r = r\<lparr>ev_ids := ?ids\<rparr>"
    using l nz wf by (simp add: ev_cite_push_def ev_wf_have [OF wf] Let_def) (simp add: ev_wf_def)
  note s = cite_shift_spec [OF wf l(2), of eid]
  have "ev_list cap r = take l (ev_list cap r) @ eid # drop (Suc l) (ev_list cap r)"
    using id_take_nth_drop [of l "ev_list cap r"] l by simp
  moreover have "filter (\<lambda>x. x \<noteq> eid) (a @ eid # b) = a @ b" if "distinct (a @ eid # b)" for a b :: "u64 list"
    using that by (simp add: filter_id_conv) (metis (mono_tags, lifting) filter_True)
  ultimately have "filter (\<lambda>x. x \<noteq> eid) (ev_list cap r) = take l (ev_list cap r) @ drop (Suc l) (ev_list cap r)"
    using d by metis
  with s p show "ev_list cap (ev_cite_push cap eid r) = filter (\<lambda>x. x \<noteq> eid) (ev_list cap r) @ [eid]" by simp
  show "ev_wf cap (ev_cite_push cap eid r)" using wf s unfolding p by (simp add: ev_wf_def)
qed

lemma push_new:
  assumes wf: "ev_wf cap r" and nz: "eid \<noteq> 0" and m: "eid \<notin> set (ev_list cap r)"
  shows "ev_wf cap (ev_cite_push cap eid r)"
    "ev_list cap (ev_cite_push cap eid r) = (if ev_n r < cap then ev_list cap r else tl (ev_list cap r)) @ [eid]"
proof -
  have cap: "0 < cap" "cap \<le> 255" "length (ev_ids r) = cap" "ev_head r < cap" "ev_n r \<le> cap"
    and h: "ev_n r < cap \<Longrightarrow> ev_head r = ev_n r" using wf by (simp_all add: ev_wf_def)
  have "(ev_head r + 1) mod cap < cap" using cap(1) by simp
  then have b: "((ev_head r + 1) mod cap) mod 256 = (ev_head r + 1) mod cap" using cap(2) by simp
  have n: "cite_find (ev_ids r) cap (ev_n r) (ev_head r) eid 0 = None"
    using cite_find_spec [of 0 r, where cap = cap and eid = eid] m by (auto split: option.splits)
  let ?r = "r\<lparr>ev_ids := (ev_ids r)[ev_head r := eid], ev_head := (ev_head r + 1) mod cap,
     ev_n := if ev_n r < cap then ev_n r + 1 else ev_n r\<rparr>"
  have p: "ev_cite_push cap eid r = ?r"
    using n nz cap(1,4) unfolding ev_cite_push_def ev_wf_have [OF wf] Let_def b by simp
  have hd: "(ev_head r + 1) mod cap = (if ev_head r + 1 = cap then 0 else ev_head r + 1)" using cap(4) by simp
  show "ev_wf cap (ev_cite_push cap eid r)" unfolding p using wf hd by (auto simp: ev_wf_def)
  show "ev_list cap (ev_cite_push cap eid r) = (if ev_n r < cap then ev_list cap r else tl (ev_list cap r)) @ [eid]"
  proof (cases "ev_n r < cap")
    case True
    have "ev_list cap ?r ! i = (ev_list cap r @ [eid]) ! i" if "i < Suc (ev_n r)" for i
      using that True h cap hd by (auto simp: ev_list_def ev_slot_def nth_append less_Suc_eq nth_list_update mod_less simp del: upt_Suc)
    then have "ev_list cap ?r = ev_list cap r @ [eid]" using True by (intro nth_equalityI) simp_all
    with True show ?thesis unfolding p by simp
  next
    case False
    then have full: "ev_n r = cap" using cap by simp
    have "ev_list cap ?r ! i = (tl (ev_list cap r) @ [eid]) ! i" if i: "i < cap" for i
    proof (cases "i = cap - 1")
      case True
      have "((ev_head r + 1) mod cap + i) mod cap = (ev_head r + 1 + i) mod cap" by (rule mod_add_left_eq)
      also have "ev_head r + 1 + i = ev_head r + cap" using True cap(1) by simp
      also have "(ev_head r + cap) mod cap = ev_head r" using cap(4) by simp
      finally have "((ev_head r + 1) mod cap + i) mod cap = ev_head r" .
      with True full cap i show ?thesis by (simp add: ev_list_def ev_slot_def nth_append)
    next
      case f: False
      have e: "((ev_head r + 1) mod cap + i) mod cap = (ev_head r + Suc i) mod cap" by (simp add: mod_add_left_eq)
      have "Suc i < cap" using f i by linarith
      then have "(ev_head r + Suc i) mod cap \<noteq> (ev_head r + 0) mod cap"
        using mod_add_inj [of "ev_head r" "Suc i" cap 0] cap(1) by blast
      then have "(ev_head r + Suc i) mod cap \<noteq> ev_head r" using cap(4) by simp
      moreover have "i < cap - 1" using \<open>Suc i < cap\<close> by simp
      ultimately show ?thesis using e \<open>Suc i < cap\<close> full cap by (simp add: ev_list_def ev_slot_def nth_append nth_tl)
    qed
    then have "ev_list cap ?r = tl (ev_list cap r) @ [eid]" using full cap(1) by (intro nth_equalityI) simp_all
    with False show ?thesis unfolding p by simp
  qed
qed

section \<open>The specification\<close>

text \<open>The last \<open>n\<close> elements.\<close>

definition last_n :: "nat \<Rightarrow> 'a list \<Rightarrow> 'a list" where
  "last_n n xs = drop (length xs - n) xs"

lemma last_n_snoc: "0 < n \<Longrightarrow> last_n n (xs @ [x]) = last_n (n - 1) xs @ [x]"
  by (cases n) (simp_all add: last_n_def Suc_diff_le)

lemma last_n_last_n: "last_n m (last_n n xs) = last_n (min m n) xs"
  by (simp add: last_n_def) (rule arg_cong [where f = "\<lambda>k. drop k xs"], arith)

lemma length_last_n: "length (last_n n xs) = min n (length xs)"
  by (auto simp: last_n_def)

lemma remdups_snoc: "remdups (xs @ [x]) = filter (\<lambda>y. y \<noteq> x) (remdups xs) @ [x]"
  by (induction xs) auto

lemma last_n_filter:
  assumes "distinct xs" "x \<in> set (last_n n xs)"
  shows "filter (\<lambda>y. y \<noteq> x) (last_n n xs) = last_n (n - 1) (filter (\<lambda>y. y \<noteq> x) xs)"
proof -
  have s: "xs = take (length xs - n) xs @ last_n n xs" by (simp add: last_n_def)
  have "x \<notin> set (take (length xs - n) xs)" using assms s by (metis disjoint_iff distinct_append)
  then have "filter (\<lambda>y. y \<noteq> x) xs = take (length xs - n) xs @ filter (\<lambda>y. y \<noteq> x) (last_n n xs)"
    by (subst s) (simp add: filter_id_conv, metis (mono_tags) filter_True)
  moreover have "length (filter (\<lambda>y. y \<noteq> x) (last_n n xs)) = length (last_n n xs) - 1"
    using length_remove1 [of x "last_n n xs"] assms distinct_remove1_removeAll [of "last_n n xs" x]
    by (simp add: removeAll_filter_not_eq last_n_def eq_commute)
  moreover have "n \<le> length xs \<or> take (length xs - n) xs = []" by auto
  ultimately show ?thesis by (auto simp: last_n_def length_last_n min_def)
qed

lemma ev_cite_run:
  assumes "0 < cap" "cap \<le> 255"
  shows "ev_wf cap (fold (ev_cite_push cap) eids (ev_zero cap))
     \<and> ev_list cap (fold (ev_cite_push cap) eids (ev_zero cap)) = last_n cap (remdups (filter (\<lambda>e. e \<noteq> 0) eids))"
proof (induction eids rule: rev_induct)
  case Nil
  show ?case using ev_wf_zero [OF assms] by (simp add: last_n_def)
next
  case (snoc e eids)
  let ?r = "fold (ev_cite_push cap) eids (ev_zero cap)" and ?R = "remdups (filter (\<lambda>e. e \<noteq> 0) eids)"
  have wf: "ev_wf cap ?r" and L: "ev_list cap ?r = last_n cap ?R" using snoc by simp_all
  have n: "ev_n ?r = min cap (length ?R)" using arg_cong [OF L, of length] by (simp add: length_last_n)
  show ?case
  proof (cases "e = 0")
    case True
    then show ?thesis using snoc by (simp add: ev_cite_push_def)
  next
    case nz: False
    have goal: "last_n cap (remdups (filter (\<lambda>e. e \<noteq> 0) (eids @ [e]))) = last_n (cap - 1) (filter (\<lambda>y. y \<noteq> e) ?R) @ [e]"
      using nz assms(1) by (simp add: remdups_snoc last_n_snoc)
    show ?thesis
    proof (cases "e \<in> set (ev_list cap ?r)")
      case True
      have "distinct (ev_list cap ?r)" unfolding L by (simp add: last_n_def)
      from push_known [OF wf nz True this] last_n_filter [of ?R e cap] True show ?thesis
        unfolding goal L by simp
    next
      case False
      then have no: "e \<notin> set (last_n cap ?R)" using L by simp
      have "(if ev_n ?r < cap then ev_list cap ?r else tl (ev_list cap ?r)) = last_n (cap - 1) (filter (\<lambda>y. y \<noteq> e) ?R)"
      proof (cases "length ?R < cap")
        case True
        then have "last_n cap ?R = ?R" by (simp add: last_n_def)
        moreover from this no have "filter (\<lambda>y. y \<noteq> e) ?R = ?R" by (intro filter_True) auto
        ultimately show ?thesis using True n L by (simp add: last_n_def)
      next
        case f: False
        have s: "?R = take (length ?R - cap) ?R @ last_n cap ?R" by (simp add: last_n_def)
        have "filter (\<lambda>y. y \<noteq> e) (last_n cap ?R) = last_n cap ?R" using no by (intro filter_True) auto
        then have "filter (\<lambda>y. y \<noteq> e) ?R = filter (\<lambda>y. y \<noteq> e) (take (length ?R - cap) ?R) @ last_n cap ?R"
          using arg_cong [OF s, of "filter (\<lambda>y. y \<noteq> e)"] by (simp only: filter_append)
        moreover have "length (last_n cap ?R) = cap" using f by (simp add: length_last_n)
        ultimately have "last_n (cap - 1) (filter (\<lambda>y. y \<noteq> e) ?R) = drop 1 (last_n cap ?R)"
          using assms(1) by (simp add: last_n_def)
        then show ?thesis using f n L by (simp add: drop_Suc)
      qed
      with push_new [OF wf nz False] show ?thesis unfolding goal by simp
    qed
  qed
qed

lemma ev_cite_flatten_list:
  assumes "ev_wf cap r"
  shows "ev_cite_flatten cap r maxn = last_n maxn (ev_list cap r)"
proof (cases "maxn = 0")
  case True
  then show ?thesis by (simp add: ev_cite_flatten_def last_n_def)
next
  case False
  have c: "cap \<noteq> 0" using assms by (simp add: ev_wf_def)
  have "last_n maxn (ev_list cap r) = map (\<lambda>l. ev_ids r ! ev_slot cap (ev_n r) (ev_head r) l) [ev_n r - maxn..<ev_n r]"
    by (simp add: last_n_def ev_list_def drop_map)
  with False c show ?thesis by (auto simp: ev_cite_flatten_def ev_wf_have [OF assms] Let_def ev_slot_def)
qed

text \<open>Merging two lists of ids and turning a list round.\<close>

lemma ev_cite_merge_prefix: "\<exists>add. ev_cite_merge maxn dst src = dst @ add
   \<and> set add \<subseteq> set src - {0} - set dst \<and> distinct add \<and> length (dst @ add) \<le> max maxn (length dst)"
proof (induction maxn dst src rule: ev_cite_merge.induct)
  case (2 maxn dst s src)
  show ?case
  proof (cases "length dst < maxn \<and> s \<noteq> 0 \<and> s \<notin> set dst")
    case True
    with 2(3) obtain add where "ev_cite_merge maxn (dst @ [s]) src = (dst @ [s]) @ add"
      "set add \<subseteq> set src - {0} - set (dst @ [s])" "distinct add" "length ((dst @ [s]) @ add) \<le> max maxn (length (dst @ [s]))"
      by auto
    with True show ?thesis by (intro exI [of _ "s # add"]) auto
  next
    case False
    then have "ev_cite_merge maxn dst (s # src) = (if length dst < maxn then ev_cite_merge maxn dst src else dst)" by auto
    moreover have "\<exists>add. ev_cite_merge maxn dst src = dst @ add
        \<and> set add \<subseteq> set src - {0} - set dst \<and> distinct add \<and> length (dst @ add) \<le> max maxn (length dst)"
      if "length dst < maxn" using that False 2(1,2) by (cases "s = 0") blast+
    ultimately show ?thesis by (cases "length dst < maxn") auto
  qed
qed simp

section \<open>Properties\<close>

text \<open>
  C38: Whatever ids a detector pushes, its citation ring holds exactly the latest \<open>cap\<close>
  distinct nonzero ones, oldest first, an id pushed again having moved to the newest place;
  reading it out yields the newest of them that fit.
\<close>

theorem ev_cite_keeps_latest:
  assumes "0 < cap" and "cap \<le> 255"
  shows "ev_cite_flatten cap (fold (ev_cite_push cap) eids (ev_zero cap)) maxn
       = last_n (min maxn cap) (remdups (filter (\<lambda>e. e \<noteq> 0) eids))"
  using ev_cite_run [OF assms, of eids] by (simp add: ev_cite_flatten_list last_n_last_n)

lemma ev_cite_keeps_latest_witness:
  "ev_cite_flatten 3 (fold (ev_cite_push 3) [7, 0, 8, 7, 9, 10] (ev_zero 3)) 2
     = last_n (min 2 3) (remdups (filter (\<lambda>e. e \<noteq> 0) [7, 0, 8, 7, 9, 10]))"
  by (rule ev_cite_keeps_latest) simp_all

end
