(* ===== verification/FloodWindow.thy ===== *)
theory FloodWindow
  imports Prelude Tune "HOL-Library.Signed_Division"
begin

text \<open>
  \<open>src/flood_window.c\<close>: the sliding window behind the flood detectors, a ring of the 32
  most recent frame times on the monotonic clock, and the probe-request flood built on it.
  The ring counters are the C octets. Specification: the list of all times noted so far.
\<close>

section \<open>Model\<close>

abbreviation (input) FLOOD_WIN_CAP :: int where "FLOOD_WIN_CAP \<equiv> 32"

record flood_window_t =
  ts_ms :: "u64 list"
  win_head :: u8
  win_n :: u8
  tripped :: bool
  trip_ms :: u64

definition flood_zero :: flood_window_t where
  "flood_zero = \<lparr>ts_ms = replicate 32 0, win_head = 0, win_n = 0, tripped = False, trip_ms = 0\<rparr>"

text \<open>C's \<open>%\<close> truncates, hence \<open>smod\<close> and the correction.\<close>

definition nth_recent :: "flood_window_t \<Rightarrow> int \<Rightarrow> u64" where
  "nth_recent w k =
     (let idx = (uint (win_head w) - k) smod FLOOD_WIN_CAP;
          idx = (if idx < 0 then idx + FLOOD_WIN_CAP else idx)
      in ts_ms w ! nat idx)"

definition age_ms :: "u64 \<Rightarrow> u64 \<Rightarrow> u64" where
  "age_ms now_ms then_ms = (if now_ms > then_ms then now_ms - then_ms else 0)"

definition flood_window_note ::
  "flood_window_t \<Rightarrow> u64 \<Rightarrow> int \<Rightarrow> u32 \<Rightarrow> bool \<times> flood_window_t" where
  "flood_window_note w now_ms thresh win_ms =
     (let thresh = (if thresh < 1 then 1 else thresh);
          thresh = (if thresh > FLOOD_WIN_CAP then FLOOD_WIN_CAP else thresh);
          w = w\<lparr>ts_ms := (ts_ms w)[unat (win_head w) := now_ms],
                win_head := word_of_int ((uint (win_head w) + 1) mod FLOOD_WIN_CAP),
                win_n := (if uint (win_n w) < FLOOD_WIN_CAP then win_n w + 1 else win_n w)\<rparr>
      in if uint (win_n w) < thresh then (False, w)
         else if age_ms now_ms (nth_recent w thresh) \<ge> ucast win_ms then (False, w)
         else (True, w\<lparr>tripped := True, trip_ms := now_ms\<rparr>))"

function count_loop :: "flood_window_t \<Rightarrow> u64 \<Rightarrow> u32 \<Rightarrow> int \<Rightarrow> int \<Rightarrow> int" where
  "count_loop w now_ms win_ms k c =
     (if k \<le> uint (win_n w)
      then if age_ms now_ms (nth_recent w k) \<ge> ucast win_ms then c
           else count_loop w now_ms win_ms (k + 1) (c + 1)
      else c)"
  by pat_completeness auto
termination by (relation "measure (\<lambda>(w, _, _, k, _). nat (uint (win_n w) + 1 - k))") auto

declare count_loop.simps [simp del]

definition flood_window_count :: "flood_window_t \<Rightarrow> u64 \<Rightarrow> u32 \<Rightarrow> int" where
  "flood_window_count w now_ms win_ms = count_loop w now_ms win_ms 1 0"

definition flood_window_active :: "flood_window_t \<Rightarrow> u64 \<Rightarrow> u32 \<Rightarrow> bool" where
  "flood_window_active w now_ms hold_ms \<longleftrightarrow> tripped w \<and> age_ms now_ms (trip_ms w) < ucast hold_ms"

subsection \<open>Probe-request flood\<close>

text \<open>The fields of \<open>probe_client_t\<close> the two functions touch.\<close>

record probe_client_t =
  burst_win :: flood_window_t
  burst_frames :: int
  burst_span_ms :: u32
  pc_flood :: bool
  pc_flood_last :: time_t

definition PROBE_WIN_MS :: "tune_t \<Rightarrow> u32" where
  "PROBE_WIN_MS t = word_of_int (tune_val t TUNE_PROBE_FLOOD_WINDOW_S) * 1000"

definition PROBE_HOLD_MS :: u32 where "PROBE_HOLD_MS = 10 * 1000"

definition probe_flood_note :: "tune_t \<Rightarrow> probe_client_t \<Rightarrow> u64 \<Rightarrow> time_t \<Rightarrow> probe_client_t" where
  "probe_flood_note t c now_ms wall =
     (let k = tune_val t TUNE_PROBE_FLOOD_FRAMES;
          (hit, w) = flood_window_note (burst_win c) now_ms k (PROBE_WIN_MS t);
          c = c\<lparr>burst_win := w\<rparr>
      in if \<not> hit then c
         else let idx = (uint (win_head w) - k) smod FLOOD_WIN_CAP;
                  idx = (if idx < 0 then idx + FLOOD_WIN_CAP else idx)
              in c\<lparr>burst_frames := k,
                   burst_span_ms := ucast (age_ms now_ms (ts_ms w ! nat idx)),
                   pc_flood := True, pc_flood_last := wall\<rparr>)"

definition probe_flood_refresh :: "probe_client_t \<Rightarrow> u64 \<Rightarrow> probe_client_t" where
  "probe_flood_refresh c now_ms =
     c\<lparr>pc_flood := flood_window_active (burst_win c) now_ms PROBE_HOLD_MS\<rparr>"

section \<open>The ring holds the latest times\<close>

definition win_hist :: "flood_window_t \<Rightarrow> u64 list \<Rightarrow> bool" where
  "win_hist w ts \<longleftrightarrow> length (ts_ms w) = 32 \<and> uint (win_head w) = int (length ts) mod 32
     \<and> uint (win_n w) = min 32 (int (length ts))
     \<and> (\<forall>i < length ts. length ts \<le> i + 32 \<longrightarrow> ts_ms w ! (i mod 32) = ts ! i)"

lemma win_hist_zero: "win_hist flood_zero []"
  by (simp add: win_hist_def flood_zero_def)

lemma recent_index:
  assumes "0 \<le> h" "h < 32" "0 \<le> k" "k \<le> 32"
  shows "(let idx = (h - k) smod 32; idx = (if idx < 0 then idx + 32 else idx) in idx) = (h - k) mod (32 :: int)"
proof -
  have *: "x smod 32 = (if 0 \<le> x then x mod 32 else - ((- x) mod 32))" for x :: int
    by (simp add: signed_modulo_int_def signed_divide_int_def sgn_if abs_if)
  show ?thesis
  proof (cases "k \<le> h")
    case True
    with * show ?thesis by (simp add: Let_def)
  next
    case False
    obtain m where m: "m = (k - h) mod 32" "0 \<le> m" "m < 32" by simp
    have r: "(h - k) mod 32 = (if m = 0 then 0 else 32 - m)"
      unfolding m(1) using zmod_zminus1_eq_if [of "k - h" 32] by simp
    have "(h - k) smod 32 = - m" using * [of "h - k"] False m(1) by simp
    with r m(2,3) show ?thesis by (simp add: Let_def)
  qed
qed

lemma nth_recent_hist:
  assumes "win_hist w ts" "1 \<le> k" "k \<le> 32" "k \<le> int (length ts)"
  shows "nth_recent w k = ts ! (length ts - nat k)"
proof -
  let ?i = "length ts - nat k"
  have i: "?i < length ts" "length ts \<le> ?i + 32" using assms(2-4) by linarith+
  have h: "0 \<le> uint (win_head w)" "uint (win_head w) < 32" using assms(1) by (simp_all add: win_hist_def)
  have "(uint (win_head w) - k) mod 32 = (int (length ts) - k) mod 32"
    using assms(1) by (simp add: win_hist_def mod_diff_left_eq)
  also have "\<dots> = int (?i mod 32)" using assms(2,4) by (simp add: zmod_int of_nat_diff)
  finally have "nth_recent w k = ts_ms w ! (?i mod 32)"
    using recent_index [OF h, of k] assms(2,3) by (simp add: nth_recent_def Let_def)
  with assms(1) i show ?thesis by (simp add: win_hist_def)
qed

text \<open>The write of a note, before the threshold is looked at.\<close>

definition win_store :: "flood_window_t \<Rightarrow> u64 \<Rightarrow> flood_window_t" where
  "win_store w now_ms = w\<lparr>ts_ms := (ts_ms w)[unat (win_head w) := now_ms],
     win_head := word_of_int ((uint (win_head w) + 1) mod FLOOD_WIN_CAP),
     win_n := (if uint (win_n w) < FLOOD_WIN_CAP then win_n w + 1 else win_n w)\<rparr>"

lemma store_hist:
  assumes "win_hist w ts"
  shows "win_hist (win_store w now) (ts @ [now])"
proof -
  have u: "unat (win_head w) = length ts mod 32"
    using assms by (simp add: win_hist_def unat_eq_nat_uint nat_mod_distrib)
  have n: "uint (win_n (win_store w now)) = min 32 (int (Suc (length ts)))"
    using assms by (auto simp: win_store_def win_hist_def uint_plus_if' min_def)
  have h: "uint (win_head (win_store w now)) = int (Suc (length ts)) mod 32"
    using assms by (simp add: win_store_def win_hist_def uint_word_of_int mod_add_left_eq add.commute) presburger
  have at: "ts_ms (win_store w now) ! (i mod 32) = (ts @ [now]) ! i" if "i \<le> length ts" "Suc (length ts) \<le> i + 32" for i
  proof (cases "i = length ts")
    case True
    then show ?thesis using assms u by (simp add: win_store_def win_hist_def)
  next
    case False
    have "length ts mod 32 \<noteq> i mod 32"
    proof
      assume "length ts mod 32 = i mod 32"
      then have "32 dvd length ts - i" using that by (simp add: mod_eq_dvd_iff_nat)
      with that False show False by (auto dest: dvd_imp_le)
    qed
    with assms u False that show ?thesis by (simp add: win_store_def win_hist_def nth_append)
  qed
  show ?thesis using n h at assms by (simp add: win_hist_def win_store_def less_Suc_eq_le)
qed

lemma win_hist_trip: "win_hist (w\<lparr>tripped := a, trip_ms := b\<rparr>) ts = win_hist w ts"
  by (simp add: win_hist_def)

lemma note_store:
  assumes "1 \<le> k" "k \<le> 32"
  shows "flood_window_note w now k win =
    (if uint (win_n (win_store w now)) < k \<or> ucast win \<le> age_ms now (nth_recent (win_store w now) k)
     then (False, win_store w now)
     else (True, (win_store w now)\<lparr>tripped := True, trip_ms := now\<rparr>))"
  unfolding flood_window_note_def win_store_def [symmetric] Let_def using assms by auto

lemma note_hist:
  assumes "win_hist w ts"
  shows "win_hist (snd (flood_window_note w now k win)) (ts @ [now])"
  using store_hist [OF assms, of now]
  by (simp add: flood_window_note_def win_store_def [symmetric] Let_def win_hist_trip)

text \<open>On a monotone clock the entries inside the window are the latest ones.\<close>

lemma uint_age: "uint then_ms \<le> uint now \<Longrightarrow> uint (age_ms now then_ms) = uint now - uint then_ms"
  by (auto simp: age_ms_def word_less_def uint_sub_if')

lemma ucast_le_age:
  fixes win :: u32
  assumes "uint then_ms \<le> uint now"
  shows "(ucast win :: u64) \<le> age_ms now then_ms \<longleftrightarrow> uint win \<le> uint now - uint then_ms"
proof -
  have "uint (ucast win :: u64) = uint win"
    using uint_lt2p [of win] by (simp add: unsigned_ucast_eq take_bit_int_eq_self)
  then show ?thesis by (simp add: word_le_def uint_age [OF assms])
qed

definition in_window :: "u64 \<Rightarrow> u32 \<Rightarrow> u64 list \<Rightarrow> u64 list" where
  "in_window now win ts = filter (\<lambda>t. uint now - uint t < uint win) ts"

lemma in_window_suffix:
  assumes "sorted (map uint ts)" "j \<le> length ts"
  shows "j \<le> length (in_window now win ts) \<longleftrightarrow>
     (\<forall>i < j. uint now - uint (ts ! (length ts - Suc i)) < uint win)"
  using assms
proof (induction ts arbitrary: j rule: rev_induct)
  case (snoc t ts)
  show ?case
  proof (cases j)
    case (Suc k)
    have ih: "k \<le> length (in_window now win ts) \<longleftrightarrow> (\<forall>i < k. uint now - uint (ts ! (length ts - Suc i)) < uint win)"
      using snoc Suc by (simp add: sorted_append)
    have nth: "(ts @ [t]) ! (length (ts @ [t]) - Suc i) = (if i = 0 then t else ts ! (length ts - Suc (i - 1)))"
      if "i < j" for i using that snoc.prems(2) by (auto simp: nth_append)
    show ?thesis
    proof (cases "uint now - uint t < uint win")
      case True
      have "(\<forall>i < j. uint now - uint ((ts @ [t]) ! (length (ts @ [t]) - Suc i)) < uint win)
        \<longleftrightarrow> (\<forall>i < k. uint now - uint (ts ! (length ts - Suc i)) < uint win)"
        using nth True Suc by (metis (no_types, lifting) Suc_less_eq diff_Suc_1 gr0_implies_Suc nat.distinct(1) neq0_conv)
      with ih True Suc show ?thesis by (simp add: in_window_def)
    next
      case False
      have "in_window now win (ts @ [t]) = []"
        using False snoc.prems(1) by (auto simp: in_window_def sorted_append filter_empty_conv)
      moreover have "\<not> (\<forall>i < j. uint now - uint ((ts @ [t]) ! (length (ts @ [t]) - Suc i)) < uint win)"
        using nth [of 0] False Suc by auto
      ultimately show ?thesis using Suc by simp
    qed
  qed simp
qed (simp add: in_window_def)

lemma count_loop_spec:
  assumes w: "win_hist w ts" and s: "sorted (map uint (ts @ [now]))"
    and k: "1 \<le> k" "k - 1 \<le> int (length (in_window now win ts))" "k \<le> 33"
  shows "count_loop w now win k (k - 1) = min 32 (int (length (in_window now win ts)))"
  using k
proof (induction "nat (33 - k)" arbitrary: k)
  case 0
  have "uint (win_n w) \<le> 32" using w by (simp add: win_hist_def)
  with 0 show ?case by (subst count_loop.simps) simp
next
  case (Suc d)
  have n: "uint (win_n w) = min 32 (int (length ts))" using w by (simp add: win_hist_def)
  have lw: "length (in_window now win ts) \<le> length ts" by (simp add: in_window_def)
  show ?case
  proof (cases "k \<le> int (length ts)")
    case False
    with n lw Suc.prems show ?thesis by (subst count_loop.simps) (auto simp: min_def)
  next
    case True
    have kn: "k \<le> uint (win_n w)" using True Suc.hyps(2) n by simp
    let ?t = "ts ! (length ts - nat k)"
    have r: "nth_recent w k = ?t" using nth_recent_hist [OF w Suc.prems(1) _ True] Suc.hyps(2) by simp
    have "?t \<in> set ts" using True Suc.prems(1) by simp
    then have "uint ?t \<le> uint now" using s by (simp add: sorted_append)
    note a = ucast_le_age [OF this, of win]
    have st: "sorted (map uint ts)" using s by (simp add: sorted_append)
    obtain j where j: "nat k = Suc j" "k - 1 = int j" using Suc.prems(1) by (cases "nat k") auto
    have jl: "Suc j \<le> length ts" "j \<le> length ts" using True j by simp_all
    have "\<forall>i < j. uint now - uint (ts ! (length ts - Suc i)) < uint win"
      using in_window_suffix [OF st jl(2), of now win] Suc.prems(2) j(2) by simp
    then have in_k: "nat k \<le> length (in_window now win ts) \<longleftrightarrow> uint now - uint ?t < uint win"
      unfolding j(1) in_window_suffix [OF st jl(1), of now win] less_Suc_eq by blast
    show ?thesis
    proof (cases "uint now - uint ?t < uint win")
      case True
      then have "count_loop w now win k (k - 1) = count_loop w now win (k + 1) (k + 1 - 1)"
        using kn a r by (subst count_loop.simps) simp
      also have "\<dots> = min 32 (int (length (in_window now win ts)))"
        using Suc.hyps Suc.prems in_k True by (intro Suc.hyps(1)) auto
      finally show ?thesis .
    next
      case False
      then have "count_loop w now win k (k - 1) = k - 1" using kn a r by (subst count_loop.simps) simp
      moreover have "int (length (in_window now win ts)) = k - 1" using in_k False Suc.prems by auto
      ultimately show ?thesis using Suc.hyps(2) by simp
    qed
  qed
qed

lemma note_exact:
  assumes w: "win_hist w ts" and s: "sorted (map uint (ts @ [now]))" and k: "1 \<le> k" "k \<le> 32"
  shows "fst (flood_window_note w now k win) \<longleftrightarrow> k \<le> int (length (in_window now win (ts @ [now])))"
proof -
  let ?ts = "ts @ [now]"
  note st = store_hist [OF w, of now]
  have n: "uint (win_n (win_store w now)) = min 32 (int (length ?ts))" using st by (simp add: win_hist_def)
  have lw: "length (in_window now win ?ts) \<le> length ?ts" unfolding in_window_def by (rule length_filter_le)
  show ?thesis
  proof (cases "k \<le> int (length ?ts)")
    case False
    with n lw k show ?thesis by (simp add: note_store [OF k] min_def)
  next
    case True
    let ?t = "?ts ! (length ?ts - nat k)"
    have t: "nth_recent (win_store w now) k = ?t" by (rule nth_recent_hist [OF st k True])
    have m: "\<forall>t \<in> set ?ts. uint t \<le> uint now" using s by (simp add: sorted_append)
    have "?t \<in> set ?ts" using True k by (intro nth_mem) simp
    then have "uint ?t \<le> uint now" using m by blast
    note a = ucast_le_age [OF this, of win]
    have jk: "nat k \<le> length ?ts" using True by simp
    have mono: "?ts ! i \<in> {x. uint ?t \<le> uint x}" if "length ?ts - nat k \<le> i" "i < length ?ts" for i
      using sorted_nth_mono [OF s, of "length ?ts - nat k" i] that by (simp add: nth_map del: map_append)
    have "(\<forall>i < nat k. uint now - uint (?ts ! (length ?ts - Suc i)) < uint win) \<longleftrightarrow> uint now - uint ?t < uint win"
    proof
      assume "\<forall>i < nat k. uint now - uint (?ts ! (length ?ts - Suc i)) < uint win"
      moreover have "nat k - 1 < nat k" "length ?ts - Suc (nat k - 1) = length ?ts - nat k" using k by linarith+
      ultimately show "uint now - uint ?t < uint win" by metis
    next
      assume h: "uint now - uint ?t < uint win"
      show "\<forall>i < nat k. uint now - uint (?ts ! (length ?ts - Suc i)) < uint win"
      proof (intro allI impI)
        fix i assume "i < nat k"
        then have "uint ?t \<le> uint (?ts ! (length ?ts - Suc i))"
          using mono [of "length ?ts - Suc i"] jk by auto
        with h show "uint now - uint (?ts ! (length ?ts - Suc i)) < uint win" by linarith
      qed
    qed
    then have "nat k \<le> length (in_window now win ?ts) \<longleftrightarrow> uint now - uint ?t < uint win"
      using in_window_suffix [OF s jk, of now win] by blast
    moreover have "\<not> uint (win_n (win_store w now)) < k" using n True k by simp
    ultimately show ?thesis using a k unfolding note_store [OF k] t by auto
  qed
qed

section \<open>Properties\<close>

text \<open>Every note a caller makes: time, threshold, window.\<close>

definition flood_run :: "(u64 \<times> int \<times> u32) list \<Rightarrow> flood_window_t" where
  "flood_run evs = fold (\<lambda>(t, k, win) w. snd (flood_window_note w t k win)) evs flood_zero"

lemma flood_run_hist: "win_hist (flood_run evs) (map fst evs)"
proof (induction evs rule: rev_induct)
  case Nil
  show ?case by (simp add: flood_run_def win_hist_zero)
next
  case (snoc e evs)
  then show ?case by (cases e) (simp add: flood_run_def note_hist)
qed

text \<open>
  C21: On a monotone clock, whatever thresholds and windows were asked before, a note reports
  a flood exactly when, counting this frame, at least \<open>thresh\<close> of all the frames ever noted
  lie in the half-open window, and the count is the number of frames in the window, capped
  at the 32 the ring holds.
\<close>

theorem flood_window_exact:
  assumes "sorted (map uint (map fst evs @ [now]))" and "1 \<le> thresh" and "thresh \<le> 32"
  shows "fst (flood_window_note (flood_run evs) now thresh win)
       = (thresh \<le> int (length (filter (\<lambda>t. uint now - uint t < uint win) (map fst evs @ [now]))))
     \<and> flood_window_count (flood_run evs) now win
       = min 32 (int (length (filter (\<lambda>t. uint now - uint t < uint win) (map fst evs))))"
  using note_exact [OF flood_run_hist assms, of win] count_loop_spec [OF flood_run_hist assms(1), of 1 win]
  unfolding in_window_def flood_window_count_def by simp

lemma flood_window_exact_witness:
  "fst (flood_window_note (flood_run [(0, 5, 5000), (4000, 5, 5000), (8000, 5, 5000)]) 9000 3 5000)
       = (3 \<le> int (length (filter (\<lambda>t. uint (9000 :: u64) - uint t < uint (5000 :: u32))
            (map fst [(0 :: u64, 5 :: int, 5000 :: u32), (4000, 5, 5000), (8000, 5, 5000)] @ [9000]))))
     \<and> flood_window_count (flood_run [(0, 5, 5000), (4000, 5, 5000), (8000, 5, 5000)]) 9000 5000
       = min 32 (int (length (filter (\<lambda>t. uint (9000 :: u64) - uint t < uint (5000 :: u32))
            (map fst [(0 :: u64, 5 :: int, 5000 :: u32), (4000, 5, 5000), (8000, 5, 5000)]))))"
  by (rule flood_window_exact) simp_all

end
