(* ===== verification/DeauthSnoop.thy ===== *)
theory DeauthSnoop
  imports Dot11Frame Stab FloodWindow
begin

text \<open>
  \<open>src/deauth_snoop.c\<close>: deauthentication and disassociation frames, and the two tables they
  feed: observation streams keyed (BSSID, TA, RA, subtype), and impact aggregates keyed
  (BSSID, victim). The module's statics are one record; the clock seam's two readings are
  arguments; the mutex makes each entry point atomic. A dereference of a row that
  \<open>stab_get\<close> refused would be undefined behaviour, hence the option results.
\<close>

section \<open>Model\<close>

subsection \<open>Frames\<close>

record deauth_frame_t =
  df_src :: mac
  df_dst :: mac
  df_bssid :: mac
  df_subtype :: u8
  df_fc_flags :: u8
  df_retry :: bool
  df_protected :: bool
  df_truncated :: bool
  df_reason_valid :: bool
  df_reason :: u16
  df_seq :: u16
  df_frag :: u8
  df_event_id :: u64

definition mac_at :: "bytes \<Rightarrow> int option \<Rightarrow> mac option" where
  "mac_at b p = do { i \<leftarrow> p; bytes_at b i 6 }"

definition deauth_parse_frame :: "dot11_frame_t option \<Rightarrow> deauth_frame_t option option" where
  "deauth_parse_frame fo =
     (case fo of None \<Rightarrow> Some None
      | Some f \<Rightarrow> (case f_p f of None \<Rightarrow> Some None
      | Some b \<Rightarrow>
          if f_len f < 24 then Some None
          else if f_type f \<noteq> 0 then Some None
          else if f_subtype f \<noteq> 10 \<and> f_subtype f \<noteq> 12 then Some None
          else let hdr = f_hdr_len f in
          if hdr < 0 then Some None
          else do {
            da \<leftarrow> mac_at b (f_da f); sa \<leftarrow> mac_at b (f_sa f); bss \<leftarrow> mac_at b (f_bssid f);
            let o' = \<lparr>df_src = sa, df_dst = da, df_bssid = bss, df_subtype = f_subtype f,
                     df_fc_flags = f_fc1 f, df_retry = f_retry f, df_protected = f_protected f,
                     df_truncated = False, df_reason_valid = False, df_reason = 0,
                     df_seq = word_of_int (f_seq_num f), df_frag = word_of_int (f_frag_num f),
                     df_event_id = 0\<rparr>;
            if df_protected o' then Some (Some o')
            else if f_len f < hdr + 2 then Some (Some (o'\<lparr>df_truncated := True\<rparr>))
            else do {
              r0 \<leftarrow> byte_at b hdr; r1 \<leftarrow> byte_at b (hdr + 1);
              Some (Some (o'\<lparr>df_reason := ucast r0 OR push_bit 8 (ucast r1),
                             df_reason_valid := True\<rparr>)) } }))"

definition deauth_parse :: "bytes option \<Rightarrow> int \<Rightarrow> deauth_frame_t option option" where
  "deauth_parse dot11 len = do {
     (ok, f) \<leftarrow> dot11_frame_decode dot11 len None;
     deauth_parse_frame (Some f) }"

subsection \<open>Tables\<close>

abbreviation (input) DEAUTH_EVIDENCE_IDS :: nat where "DEAUTH_EVIDENCE_IDS \<equiv> 8"

definition DEAUTH_WIN_MS :: "tune_t \<Rightarrow> u32" where
  "DEAUTH_WIN_MS tn = word_of_int (tune_val tn TUNE_DEAUTH_FLOOD_WINDOW_S) * 1000"

definition DEAUTH_THRESH :: "tune_t \<Rightarrow> int" where
  "DEAUTH_THRESH tn = tune_val tn TUNE_DEAUTH_FLOOD_THRESH"

definition DEAUTH_HOLD_MS :: u32 where "DEAUTH_HOLD_MS = 10 * 1000"
definition DEAUTH_AGE_MS :: u64 where "DEAUTH_AGE_MS = 60 * 1000"

record deauth_event_t =
  de_src :: mac
  de_dst :: mac
  de_bssid :: mac
  de_reason :: u16
  de_subtype :: u8
  de_first_seen :: time_t
  de_last_seen :: time_t
  de_count :: int
  de_flood :: bool
  de_fc_flags :: u8
  de_reason_valid :: bool
  de_retries :: int
  de_protected_count :: int
  de_truncated_count :: int
  de_win_count :: int
  de_flood_last :: time_t

record deauth_victim_t =
  dv_bssid :: mac
  dv_victim :: mac
  dv_first_seen :: time_t
  dv_last_seen :: time_t
  dv_frames :: int
  dv_streams :: int
  dv_reason :: u16
  dv_reason_valid :: bool
  dv_protected_count :: int
  dv_win_count :: int
  dv_peak_win :: int
  dv_flood :: bool
  dv_flood_last :: time_t
  dv_evidence_ids :: "u64 list"
  dv_evidence_id_count :: nat

record obs_t =
  ob_ev :: deauth_event_t
  ob_win :: flood_window_t
  ob_last_ms :: u64
  ob_stamp :: time_t
  ob_last_seq :: u16

record vic_t =
  vi_v :: deauth_victim_t
  vi_win :: flood_window_t
  vi_last_ms :: u64
  vi_stamp :: time_t
  vi_ids :: "u64 list"
  vi_id_count :: nat
  vi_id_head :: nat

type_synonym obs_key_t = "mac \<times> mac \<times> mac \<times> u8"
type_synonym vic_key_t = "mac \<times> mac"

definition mac0 :: mac where "mac0 = replicate 6 0"

definition event_zero :: deauth_event_t where
  "event_zero = \<lparr>de_src = mac0, de_dst = mac0, de_bssid = mac0, de_reason = 0, de_subtype = 0,
     de_first_seen = 0, de_last_seen = 0, de_count = 0, de_flood = False, de_fc_flags = 0,
     de_reason_valid = False, de_retries = 0, de_protected_count = 0, de_truncated_count = 0,
     de_win_count = 0, de_flood_last = 0\<rparr>"

definition victim_zero :: deauth_victim_t where
  "victim_zero = \<lparr>dv_bssid = mac0, dv_victim = mac0, dv_first_seen = 0, dv_last_seen = 0,
     dv_frames = 0, dv_streams = 0, dv_reason = 0, dv_reason_valid = False,
     dv_protected_count = 0, dv_win_count = 0, dv_peak_win = 0, dv_flood = False,
     dv_flood_last = 0, dv_evidence_ids = replicate DEAUTH_EVIDENCE_IDS 0,
     dv_evidence_id_count = 0\<rparr>"

definition obs_zero :: obs_t where
  "obs_zero = \<lparr>ob_ev = event_zero, ob_win = flood_zero, ob_last_ms = 0, ob_stamp = 0, ob_last_seq = 0\<rparr>"

definition vic_zero :: vic_t where
  "vic_zero = \<lparr>vi_v = victim_zero, vi_win = flood_zero, vi_last_ms = 0, vi_stamp = 0,
     vi_ids = replicate DEAUTH_EVIDENCE_IDS 0, vi_id_count = 0, vi_id_head = 0\<rparr>"

definition obs_eq :: "obs_t \<Rightarrow> obs_key_t \<Rightarrow> bool" where
  "obs_eq row k = (case k of (bssid, src, dst, subtype) \<Rightarrow>
     let e = ob_ev row in
     de_subtype e = subtype \<and> de_bssid e = bssid \<and> de_src e = src \<and> de_dst e = dst)"

definition vic_eq :: "vic_t \<Rightarrow> vic_key_t \<Rightarrow> bool" where
  "vic_eq row k = (case k of (bssid, victim) \<Rightarrow>
     let v = vi_v row in dv_bssid v = bssid \<and> dv_victim v = victim)"

record deauth_t =
  g_obs :: "(obs_t, obs_key_t) stab_t"
  g_vic :: "(vic_t, vic_key_t) stab_t"
  g_epoch_ms :: u64

definition obs_decl :: "(obs_t, obs_key_t) stab_t" where
  "obs_decl = STAB_DECL_AGE obs_zero 128 ob_stamp (\<lambda>n r. r\<lparr>ob_stamp := n\<rparr>) STAB_OLDEST 0
     SH_EVICT_DEAUTH_OBS obs_eq"

definition vic_decl :: "(vic_t, vic_key_t) stab_t" where
  "vic_decl = STAB_DECL_AGE vic_zero 128 vi_stamp (\<lambda>n r. r\<lparr>vi_stamp := n\<rparr>) STAB_OLDEST 0
     SH_EVICT_DEAUTH_VICTIM vic_eq"

definition deauth_boot :: deauth_t where
  "deauth_boot = \<lparr>g_obs = obs_decl, g_vic = vic_decl, g_epoch_ms = 0\<rparr>"

definition stamp_of :: "u64 \<Rightarrow> u64 \<Rightarrow> time_t" where
  "stamp_of epoch now_ms = (if now_ms > epoch then uint (now_ms - epoch) else 0)"

definition victim_of :: "mac \<Rightarrow> mac \<Rightarrow> mac \<Rightarrow> mac" where
  "victim_of src dst bssid = (if dst = bssid then src else dst)"

definition obs_key :: "deauth_frame_t \<Rightarrow> obs_key_t" where
  "obs_key f = (df_bssid f, df_src f, df_dst f, df_subtype f)"

text \<open>The key fields a fresh row is given.\<close>

definition obs_fill :: "deauth_frame_t \<Rightarrow> time_t \<Rightarrow> obs_t \<Rightarrow> obs_t" where
  "obs_fill f wall o' = o'\<lparr>ob_ev := (ob_ev o')\<lparr>de_src := df_src f, de_dst := df_dst f,
     de_bssid := df_bssid f, de_subtype := df_subtype f, de_first_seen := wall\<rparr>\<rparr>"

definition obs_get ::
  "deauth_frame_t \<Rightarrow> u64 \<Rightarrow> time_t \<Rightarrow> deauth_t \<Rightarrow> sh_t \<Rightarrow> (nat \<times> bool \<times> deauth_t \<times> sh_t) option" where
  "obs_get f now_ms wall st h =
     (case stab_get (g_obs st) (obs_key f) (stamp_of (g_epoch_ms st) now_ms) h of
        (None, fresh, t, h1) \<Rightarrow> None
      | (Some i, fresh, t, h1) \<Rightarrow>
          Some (i, fresh,
            st\<lparr>g_obs := (if fresh then stab_put i (obs_fill f wall (row_of t i)) t else t)\<rparr>, h1))"

definition vic_fill :: "vic_key_t \<Rightarrow> time_t \<Rightarrow> vic_t \<Rightarrow> vic_t" where
  "vic_fill k wall v = v\<lparr>vi_v := (vi_v v)\<lparr>dv_bssid := fst k, dv_victim := snd k, dv_first_seen := wall\<rparr>\<rparr>"

definition vic_get ::
  "vic_key_t \<Rightarrow> u64 \<Rightarrow> time_t \<Rightarrow> deauth_t \<Rightarrow> sh_t \<Rightarrow> (nat \<times> deauth_t \<times> sh_t) option" where
  "vic_get k now_ms wall st h =
     (case stab_get (g_vic st) k (stamp_of (g_epoch_ms st) now_ms) h of
        (None, fresh, t, h1) \<Rightarrow> None
      | (Some i, fresh, t, h1) \<Rightarrow>
          Some (i, st\<lparr>g_vic := (if fresh then stab_put i (vic_fill k wall (row_of t i)) t else t)\<rparr>, h1))"

subsection \<open>Recording a frame\<close>

definition obs_dup :: "deauth_frame_t \<Rightarrow> bool \<Rightarrow> obs_t \<Rightarrow> bool" where
  "obs_dup f fresh o' \<longleftrightarrow> \<not> fresh \<and> df_retry f \<and> df_seq f = ob_last_seq o'"

definition obs_note :: "deauth_frame_t \<Rightarrow> bool \<Rightarrow> u64 \<Rightarrow> time_t \<Rightarrow> u64 \<Rightarrow> obs_t \<Rightarrow> obs_t" where
  "obs_note f dup now_ms wall epoch o' =
     (let e = ob_ev o';
          e = e\<lparr>de_count := de_count e + 1\<rparr>;
          e = (if dup then e\<lparr>de_retries := de_retries e + 1\<rparr> else e);
          e = (if df_protected f then e\<lparr>de_protected_count := de_protected_count e + 1\<rparr> else e);
          e = (if df_truncated f then e\<lparr>de_truncated_count := de_truncated_count e + 1\<rparr> else e);
          e = e\<lparr>de_fc_flags := df_fc_flags f, de_reason := df_reason f,
                de_reason_valid := df_reason_valid f, de_last_seen := wall\<rparr>
      in o'\<lparr>ob_ev := e, ob_last_ms := now_ms, ob_stamp := stamp_of epoch now_ms,
            ob_last_seq := df_seq f\<rparr>)"

definition obs_flood :: "tune_t \<Rightarrow> u64 \<Rightarrow> time_t \<Rightarrow> obs_t \<Rightarrow> obs_t" where
  "obs_flood tn now_ms wall o' =
     (let (hit, w) = flood_window_note (ob_win o') now_ms (DEAUTH_THRESH tn) (DEAUTH_WIN_MS tn);
          o' = o'\<lparr>ob_win := w\<rparr>
      in if hit then o'\<lparr>ob_ev := (ob_ev o')\<lparr>de_flood_last := wall\<rparr>\<rparr> else o')"

definition vic_cite :: "u64 \<Rightarrow> vic_t \<Rightarrow> vic_t" where
  "vic_cite event_id v =
     (if event_id \<noteq> 0
      then v\<lparr>vi_ids := (vi_ids v)[vi_id_head v := event_id],
             vi_id_head := (vi_id_head v + 1) mod DEAUTH_EVIDENCE_IDS,
             vi_id_count := (if vi_id_count v < DEAUTH_EVIDENCE_IDS then vi_id_count v + 1 else vi_id_count v)\<rparr>
      else v)"

definition vic_note :: "tune_t \<Rightarrow> deauth_frame_t \<Rightarrow> u64 \<Rightarrow> time_t \<Rightarrow> u64 \<Rightarrow> vic_t \<Rightarrow> vic_t" where
  "vic_note tn f now_ms wall epoch r =
     (let v = vi_v r;
          v = v\<lparr>dv_frames := dv_frames v + 1\<rparr>;
          v = (if df_protected f then v\<lparr>dv_protected_count := dv_protected_count v + 1\<rparr> else v);
          v = (if df_reason_valid f then v\<lparr>dv_reason := df_reason f, dv_reason_valid := True\<rparr> else v);
          v = v\<lparr>dv_last_seen := wall\<rparr>;
          (hit, w) = flood_window_note (vi_win r) now_ms (DEAUTH_THRESH tn) (DEAUTH_WIN_MS tn);
          v = (if hit then v\<lparr>dv_flood_last := wall\<rparr> else v);
          in_win = flood_window_count w now_ms (DEAUTH_WIN_MS tn);
          v = (if in_win > dv_peak_win v then v\<lparr>dv_peak_win := in_win\<rparr> else v)
      in vic_cite (df_event_id f)
           (r\<lparr>vi_v := v, vi_win := w, vi_last_ms := now_ms, vi_stamp := stamp_of epoch now_ms\<rparr>))"

definition deauth_record ::
  "tune_t \<Rightarrow> deauth_frame_t \<Rightarrow> u64 \<Rightarrow> time_t \<Rightarrow> deauth_t \<Rightarrow> sh_t \<Rightarrow> (deauth_t \<times> sh_t) option" where
  "deauth_record tn f now_ms wall st h =
     (let st = (if stab_count (g_obs st) = 0 \<and> stab_count (g_vic st) = 0
                then st\<lparr>g_epoch_ms := (if now_ms > DEAUTH_AGE_MS then now_ms - DEAUTH_AGE_MS else 0)\<rparr>
                else st)
      in do {
        (i, fresh, st, h) \<leftarrow> obs_get f now_ms wall st h;
        let o' = row_of (g_obs st) i;
        let dup = obs_dup f fresh o';
        let o' = obs_note f dup now_ms wall (g_epoch_ms st) o';
        if dup then Some (st\<lparr>g_obs := stab_put i o' (g_obs st)\<rparr>, h)
        else do {
          let st = st\<lparr>g_obs := stab_put i (obs_flood tn now_ms wall o') (g_obs st)\<rparr>;
          (j, st, h) \<leftarrow> vic_get (df_bssid f, victim_of (df_src f) (df_dst f) (df_bssid f)) now_ms wall st h;
          Some (st\<lparr>g_vic := stab_put j (vic_note tn f now_ms wall (g_epoch_ms st) (row_of (g_vic st) j))
                                 (g_vic st)\<rparr>, h) } })"

subsection \<open>Snapshot\<close>

text \<open>The fields of \<open>sloth_state_t\<close> the module publishes.\<close>

record deauth_view_t =
  deauth_events :: "deauth_event_t list"
  deauth_sel :: int
  deauth_victims :: "deauth_victim_t list"
  deauth_flood_active :: bool

definition idle_ms :: "u64 \<Rightarrow> u64 \<Rightarrow> u64" where
  "idle_ms now_ms last_ms = (if now_ms > last_ms then now_ms - last_ms else 0)"

text \<open>
  The upward walk, re-examining slot \<open>i\<close> after each removal. \<open>stab_del\<close> refuses only on a
  ring table, which neither table is; the branch is there to make the function total. The
  loops \<open>for (i = 0; i < count; i++)\<close> over the rows are \<open>each_row\<close>.
\<close>

function age_out :: "('r \<Rightarrow> u64) \<Rightarrow> u64 \<Rightarrow> nat \<Rightarrow> ('r, 'k) stab_t \<Rightarrow> ('r, 'k) stab_t" where
  "age_out last_ms now_ms i t =
     (if i < stab_count t
      then if idle_ms now_ms (last_ms (row_of t i)) > DEAUTH_AGE_MS
           then (case stab_del t (Some i) of (True, t') \<Rightarrow> age_out last_ms now_ms i t'
                 | (False, t') \<Rightarrow> t')
           else age_out last_ms now_ms (i + 1) t
      else t)"
  by pat_completeness auto
termination
  by (relation "measure (\<lambda>(_, _, i, t). st_n t - i)")
    (auto simp: stab_count_def stab_del_def split: if_splits)

declare age_out.simps [simp del]

definition obs_refresh :: "tune_t \<Rightarrow> u64 \<Rightarrow> obs_t \<Rightarrow> obs_t" where
  "obs_refresh tn now_ms o' = o'\<lparr>ob_ev := (ob_ev o')\<lparr>
     de_flood := flood_window_active (ob_win o') now_ms DEAUTH_HOLD_MS,
     de_win_count := flood_window_count (ob_win o') now_ms (DEAUTH_WIN_MS tn)\<rparr>\<rparr>"

definition vic_streams :: "deauth_event_t list \<Rightarrow> deauth_victim_t \<Rightarrow> int" where
  "vic_streams evs v = fold (\<lambda>e n.
     if de_bssid e = dv_bssid v \<and> victim_of (de_src e) (de_dst e) (de_bssid e) = dv_victim v
     then n + 1 else n) evs 0"

definition vic_refresh :: "tune_t \<Rightarrow> u64 \<Rightarrow> deauth_event_t list \<Rightarrow> vic_t \<Rightarrow> vic_t" where
  "vic_refresh tn now_ms evs r =
     (let v = (vi_v r)\<lparr>
        dv_flood := flood_window_active (vi_win r) now_ms DEAUTH_HOLD_MS,
        dv_win_count := flood_window_count (vi_win r) now_ms (DEAUTH_WIN_MS tn),
        dv_streams := vic_streams evs (vi_v r),
        dv_evidence_ids := map (\<lambda>e. if e < vi_id_count r
          then vi_ids r ! (if vi_id_count r < DEAUTH_EVIDENCE_IDS then e
                           else (vi_id_head r + e) mod DEAUTH_EVIDENCE_IDS)
          else 0) [0..<DEAUTH_EVIDENCE_IDS],
        dv_evidence_id_count := vi_id_count r\<rparr>
      in r\<lparr>vi_v := v\<rparr>)"

definition deauth_snapshot :: "tune_t \<Rightarrow> u64 \<Rightarrow> int \<Rightarrow> deauth_t \<Rightarrow> deauth_view_t \<times> deauth_t" where
  "deauth_snapshot tn now_ms sel st =
     (let obs = age_out ob_last_ms now_ms 0 (g_obs st);
          vic = age_out vi_last_ms now_ms 0 (g_vic st);
          epoch = (if now_ms > DEAUTH_AGE_MS then now_ms - DEAUTH_AGE_MS else 0);
          obs = each_row (\<lambda>o'. o'\<lparr>ob_stamp := stamp_of epoch (ob_last_ms o')\<rparr>) obs;
          vic = each_row (\<lambda>v. v\<lparr>vi_stamp := stamp_of epoch (vi_last_ms v)\<rparr>) vic;
          obs = each_row (obs_refresh tn now_ms) obs;
          n = int (stab_count obs);
          evs = map ob_ev (stab_snapshot obs n);
          sel = (if sel \<ge> n then if n > 0 then n - 1 else 0 else sel);
          vic = each_row (vic_refresh tn now_ms evs) vic;
          vs = map vi_v (stab_snapshot vic (int (stab_count vic)))
      in (\<lparr>deauth_events = evs, deauth_sel = sel, deauth_victims = vs,
           deauth_flood_active = fold (\<lambda>v flood. if dv_flood v then True else flood) vs False\<rparr>,
          \<lparr>g_obs = obs, g_vic = vic, g_epoch_ms = epoch\<rparr>))"

definition deauth_clear :: "deauth_t \<Rightarrow> deauth_t" where
  "deauth_clear st = \<lparr>g_obs = stab_clear (g_obs st), g_vic = stab_clear (g_vic st), g_epoch_ms = 0\<rparr>"

section \<open>The tables meet the contract of a keyed table\<close>

definition obs_keyof :: "obs_t \<Rightarrow> obs_key_t" where
  "obs_keyof r = (de_bssid (ob_ev r), de_src (ob_ev r), de_dst (ob_ev r), de_subtype (ob_ev r))"

definition vic_keyof :: "vic_t \<Rightarrow> vic_key_t" where
  "vic_keyof r = (dv_bssid (vi_v r), dv_victim (vi_v r))"

interpretation obs: keyed_table obs_decl obs_keyof
  by unfold_locales (auto simp: obs_decl_def STAB_DECL_AGE_def obs_eq_def obs_keyof_def Let_def split: prod.splits)

interpretation vic: keyed_table vic_decl vic_keyof
  by unfold_locales (auto simp: vic_decl_def STAB_DECL_AGE_def vic_eq_def vic_keyof_def Let_def split: prod.splits)

lemma decl_simps [simp]:
  "st_policy obs_decl = STAB_OLDEST" "st_policy vic_decl = STAB_OLDEST"
  "st_zero obs_decl = obs_zero" "st_zero vic_decl = vic_zero"
  "st_set_ls obs_decl n r = r\<lparr>ob_stamp := n\<rparr>" "st_set_ls vic_decl n v = v\<lparr>vi_stamp := n\<rparr>"
  "tab_ok obs_keyof obs_decl" "tab_ok vic_keyof vic_decl"
  "st_n obs_decl = 0" "st_n vic_decl = 0" "st_cap obs_decl = 128" "st_cap vic_decl = 128"
  by (simp_all add: obs_decl_def vic_decl_def stab_decl_ok, simp_all add: STAB_DECL_AGE_def)

section \<open>A record is one write per table\<close>

text \<open>What a frame does to the row of its stream, and to the row of its victim.\<close>

definition obs_upd :: "tune_t \<Rightarrow> deauth_frame_t \<Rightarrow> u64 \<Rightarrow> time_t \<Rightarrow> u64 \<Rightarrow> bool \<Rightarrow> obs_t \<Rightarrow> obs_t" where
  "obs_upd tn f now_ms wall epoch fresh r =
     (let r = (if fresh then obs_fill f wall r else r); dup = obs_dup f fresh r;
          r = obs_note f dup now_ms wall epoch r
      in if dup then r else obs_flood tn now_ms wall r)"

definition vic_upd ::
  "tune_t \<Rightarrow> deauth_frame_t \<Rightarrow> vic_key_t \<Rightarrow> u64 \<Rightarrow> time_t \<Rightarrow> u64 \<Rightarrow> bool \<Rightarrow> vic_t \<Rightarrow> vic_t" where
  "vic_upd tn f k now_ms wall epoch fresh r =
     vic_note tn f now_ms wall epoch (if fresh then vic_fill k wall r else r)"

lemma obs_keyof_parts [simp]:
  "obs_keyof (obs_fill f wall r) = obs_key f"
  "obs_keyof (obs_note f dup now wall epoch r) = obs_keyof r"
  "obs_keyof (obs_flood tn now wall r) = obs_keyof r"
  by (simp_all add: obs_keyof_def obs_key_def obs_fill_def obs_note_def obs_flood_def Let_def split: prod.splits)

lemma vic_keyof_parts [simp]:
  "vic_keyof (vic_fill k wall r) = k"
  "vic_keyof (vic_note tn f now wall epoch r) = vic_keyof r"
  by (simp_all add: vic_keyof_def vic_fill_def vic_note_def vic_cite_def Let_def split: prod.splits)

lemma obs_upd_keeps: "keeps_key obs_keyof (obs_key f) (obs_upd tn f now wall epoch)"
  by (simp add: keeps_key_def obs_upd_def Let_def)

lemma vic_upd_keeps: "keeps_key vic_keyof k (vic_upd tn f k now wall epoch)"
  by (simp add: keeps_key_def vic_upd_def)

definition vic_key :: "deauth_frame_t \<Rightarrow> vic_key_t" where
  "vic_key f = (df_bssid f, victim_of (df_src f) (df_dst f) (df_bssid f))"

definition rebase :: "u64 \<Rightarrow> deauth_t \<Rightarrow> deauth_t" where
  "rebase now_ms st = (if stab_count (g_obs st) = 0 \<and> stab_count (g_vic st) = 0
     then st\<lparr>g_epoch_ms := (if now_ms > DEAUTH_AGE_MS then now_ms - DEAUTH_AGE_MS else 0)\<rparr> else st)"

text \<open>The retransmission test of the code, read off the table as a map.\<close>

definition record_dup :: "deauth_frame_t \<Rightarrow> deauth_t \<Rightarrow> bool" where
  "record_dup f st = (case tab_map obs_keyof (g_obs st) (obs_key f) of
     None \<Rightarrow> False | Some r \<Rightarrow> df_retry f \<and> df_seq f = ob_last_seq r)"

definition tabs_ok :: "deauth_t \<Rightarrow> bool" where
  "tabs_ok st \<longleftrightarrow> same_decl obs_decl (g_obs st) \<and> tab_ok obs_keyof (g_obs st)
     \<and> same_decl vic_decl (g_vic st) \<and> tab_ok vic_keyof (g_vic st)"

lemma rebase_simps [simp]: "g_obs (rebase now st) = g_obs st" "g_vic (rebase now st) = g_vic st"
  by (simp_all add: rebase_def)

lemma deauth_record_upserts:
  assumes ok: "tabs_ok st"
  shows "deauth_record tn f now wall st h =
     (let ep = g_epoch_ms (rebase now st);
          (o', h1) = stab_upsert (obs_upd tn f now wall ep) (obs_key f) (stamp_of ep now) h (g_obs st);
          (v', h2) = stab_upsert (vic_upd tn f (vic_key f) now wall ep) (vic_key f) (stamp_of ep now) h1 (g_vic st)
      in if record_dup f st then Some (\<lparr>g_obs = o', g_vic = g_vic st, g_epoch_ms = ep\<rparr>, h1)
         else Some (\<lparr>g_obs = o', g_vic = v', g_epoch_ms = ep\<rparr>, h2))"
proof -
  define ep where "ep = g_epoch_ms (rebase now st)"
  define st0 where "st0 = rebase now st"
  have st0: "st0 = \<lparr>g_obs = g_obs st, g_vic = g_vic st, g_epoch_ms = ep\<rparr>"
    by (cases st) (simp add: st0_def ep_def rebase_def)
  define fresh where "fresh \<longleftrightarrow> tab_map obs_keyof (g_obs st) (obs_key f) = None"
  have d: "same_decl obs_decl (g_obs st)" "tab_ok obs_keyof (g_obs st)"
    "same_decl vic_decl (g_vic st)" "tab_ok vic_keyof (g_vic st)" using ok by (simp_all add: tabs_ok_def)
  obtain i t1 h1 where
    g: "stab_get (g_obs st) (obs_key f) (stamp_of ep now) h = (Some i, fresh, t1, h1)"
      "i < length (st_rows t1)" "\<not> fresh \<Longrightarrow> tab_map obs_keyof (g_obs st) (obs_key f) = Some (row_of t1 i)"
      "\<And>upd. stab_upsert upd (obs_key f) (stamp_of ep now) h (g_obs st) = (stab_put i (upd fresh (row_of t1 i)) t1, h1)"
    by (rule obs.get_oldest [OF d(1,2) decl_simps(1), of "obs_key f" "stamp_of ep now" h], rule that)
      (simp_all add: fresh_def)
  obtain j t2 h2 fr2 where
    v: "stab_get (g_vic st) (vic_key f) (stamp_of ep now) h1 = (Some j, fr2, t2, h2)" "j < length (st_rows t2)"
      "\<And>upd. stab_upsert upd (vic_key f) (stamp_of ep now) h1 (g_vic st) = (stab_put j (upd fr2 (row_of t2 j)) t2, h2)"
    by (rule vic.get_oldest [OF d(3,4) decl_simps(2), of "vic_key f" "stamp_of ep now" h1], rule that) simp_all
  define r where "r = (if fresh then obs_fill f wall (row_of t1 i) else row_of t1 i)"
  define t where "t = (if fresh then stab_put i (obs_fill f wall (row_of t1 i)) t1 else t1)"
  have t: "row_of t i = r" "stab_put i x t = stab_put i x t1" for x
    using g(2) by (simp_all add: t_def r_def row_of_put)
  define q where "q = (if fr2 then vic_fill (vic_key f) wall (row_of t2 j) else row_of t2 j)"
  define u where "u = (if fr2 then stab_put j (vic_fill (vic_key f) wall (row_of t2 j)) t2 else t2)"
  have u: "row_of u j = q" "stab_put j x u = stab_put j x t2" for x
    using v(2) by (simp_all add: u_def q_def row_of_put)
  have dup: "obs_dup f fresh r \<longleftrightarrow> record_dup f st"
    using g(3) by (cases fresh) (auto simp: obs_dup_def record_dup_def fresh_def r_def)
  have og: "obs_get f now wall st0 h = Some (i, fresh, \<lparr>g_obs = t, g_vic = g_vic st, g_epoch_ms = ep\<rparr>, h1)"
    using g(1) by (simp add: obs_get_def st0 t_def)
  have vg: "vic_get (vic_key f) now wall \<lparr>g_obs = x, g_vic = g_vic st, g_epoch_ms = ep\<rparr> h1 =
      Some (j, \<lparr>g_obs = x, g_vic = u, g_epoch_ms = ep\<rparr>, h2)" for x
    using v(1) by (simp add: vic_get_def u_def)
  have e: "deauth_record tn f now wall st h =
      (do { (i, fresh, st, h) \<leftarrow> obs_get f now wall st0 h;
        let o' = row_of (g_obs st) i;
        let dup = obs_dup f fresh o';
        let o' = obs_note f dup now wall (g_epoch_ms st) o';
        if dup then Some (st\<lparr>g_obs := stab_put i o' (g_obs st)\<rparr>, h)
        else do {
          let st = st\<lparr>g_obs := stab_put i (obs_flood tn now wall o') (g_obs st)\<rparr>;
          (j, st, h) \<leftarrow> vic_get (vic_key f) now wall st h;
          Some (st\<lparr>g_vic := stab_put j (vic_note tn f now wall (g_epoch_ms st) (row_of (g_vic st) j))
                                 (g_vic st)\<rparr>, h) } })"
    unfolding deauth_record_def st0_def rebase_def vic_key_def Let_def by simp
  have upd: "obs_upd tn f now wall ep fresh (row_of t1 i) =
     (if record_dup f st then obs_note f True now wall ep r else obs_flood tn now wall (obs_note f False now wall ep r))"
    unfolding obs_upd_def Let_def r_def [symmetric] dup by simp
  have vupd: "vic_upd tn f (vic_key f) now wall ep fr2 (row_of t2 j) = vic_note tn f now wall ep q"
    by (simp add: vic_upd_def q_def)
  show ?thesis
    unfolding e og Let_def ep_def [symmetric] g(4) v(3) upd vupd
    by (cases "record_dup f st") (simp_all add: t u dup vg v(3) vupd)
qed

section \<open>Ageing out\<close>

lemma age_out_spec:
  assumes "tab_ok key_of t" "st_policy t \<noteq> STAB_RING" "i \<le> st_n t"
    "\<forall>j < i. \<not> idle_ms now (last_ms (row_of t j)) > DEAUTH_AGE_MS"
  shows "tab_ok key_of (age_out last_ms now i t) \<and> same_decl t (age_out last_ms now i t)
     \<and> mset (rows (age_out last_ms now i t))
       = filter_mset (\<lambda>r. \<not> idle_ms now (last_ms r) > DEAUTH_AGE_MS) (mset (rows t))"
  using assms
proof (induction last_ms now i t rule: age_out.induct)
  case (1 last_ms now i t)
  have wf: "stab_wf t" using "1.prems"(1) by (simp add: tab_ok_def)
  let ?P = "\<lambda>r. \<not> idle_ms now (last_ms r) > DEAUTH_AGE_MS"
  show ?case
  proof (cases "i < st_n t")
    case False
    then have n: "i = st_n t" using "1.prems"(3) by simp
    have "?P r" if "r \<in> set (rows t)" for r
    proof -
      from that length_rows [OF wf] obtain j where "j < st_n t" "r = row_of t j"
        by (metis in_set_conv_nth row_of_rows)
      with "1.prems"(4) n show ?thesis by blast
    qed
    then have "filter_mset ?P (mset (rows t)) = mset (rows t)"
      by (simp flip: mset_filter)
    moreover have "age_out last_ms now i t = t" using False by (subst age_out.simps) (simp add: stab_count_def)
    ultimately show ?thesis using "1.prems"(1) by simp
  next
    case True
    show ?thesis
    proof (cases "idle_ms now (last_ms (row_of t i)) > DEAUTH_AGE_MS")
      case old: True
      have d: "stab_del t (Some i) = (True, del_idx t i)" using True "1.prems"(2) by (simp add: stab_del_def)
      have e: "age_out last_ms now i t = age_out last_ms now i (del_idx t i)"
        using True old d by (subst age_out.simps) (simp add: stab_count_def)
      have ok: "tab_ok key_of (del_idx t i)" by (rule tab_ok_del(1) [OF "1.prems"(1) True])
      have same: "row_of (del_idx t i) j = row_of t j" if "j < i" for j
      proof -
        have "j < st_n (del_idx t i)" using that True by simp
        then have "row_of (del_idx t i) j = take i (rows (del_idx t i)) ! j" using that by (simp add: row_of_rows)
        also have "\<dots> = row_of t j"
          unfolding mset_del(3) [OF wf True] using that True by (simp add: row_of_rows)
        finally show ?thesis .
      qed
      have "tab_ok key_of (age_out last_ms now i (del_idx t i)) \<and> same_decl (del_idx t i) (age_out last_ms now i (del_idx t i))
         \<and> mset (rows (age_out last_ms now i (del_idx t i))) = filter_mset ?P (mset (rows (del_idx t i)))"
        by (rule "1.IH"(1) [OF _ old d [symmetric]])
          (use True ok "1.prems" same in \<open>auto simp: stab_count_def\<close>)
      moreover have "filter_mset ?P (mset (rows (del_idx t i))) = filter_mset ?P (mset (rows t))"
        unfolding mset_del(1) [OF wf True] using old by (simp add: row_of_rows [OF True])
      moreover have "same_decl t (del_idx t i)" by (simp add: same_decl_def)
      ultimately show ?thesis unfolding e by (metis same_decl_trans)
    next
      case young: False
      have e: "age_out last_ms now i t = age_out last_ms now (i + 1) t"
        using True young by (subst age_out.simps) (simp add: stab_count_def)
      show ?thesis unfolding e
        by (rule "1.IH"(2)) (use True young "1.prems" in \<open>auto simp: stab_count_def less_Suc_eq\<close>)
    qed
  qed
qed

lemma age_out_tab:
  assumes "tab_ok key_of t" "st_policy t \<noteq> STAB_RING"
  shows "tab_ok key_of (age_out last_ms now 0 t)" "same_decl t (age_out last_ms now 0 t)"
    "set (rows (age_out last_ms now 0 t)) = {r \<in> set (rows t). \<not> idle_ms now (last_ms r) > DEAUTH_AGE_MS}"
proof -
  note a = age_out_spec [OF assms, of 0 now last_ms]
  then show "tab_ok key_of (age_out last_ms now 0 t)" "same_decl t (age_out last_ms now 0 t)" by simp_all
  have "set_mset (mset (rows (age_out last_ms now 0 t)))
      = set_mset (filter_mset (\<lambda>r. \<not> idle_ms now (last_ms r) > DEAUTH_AGE_MS) (mset (rows t)))" using a by simp
  then show "set (rows (age_out last_ms now 0 t)) = {r \<in> set (rows t). \<not> idle_ms now (last_ms r) > DEAUTH_AGE_MS}"
    by auto
qed

section \<open>Snapshot\<close>

definition obs_restamp :: "u64 \<Rightarrow> obs_t \<Rightarrow> obs_t" where
  "obs_restamp epoch o' = o'\<lparr>ob_stamp := stamp_of epoch (ob_last_ms o')\<rparr>"

definition vic_restamp :: "u64 \<Rightarrow> vic_t \<Rightarrow> vic_t" where
  "vic_restamp epoch v = v\<lparr>vi_stamp := stamp_of epoch (vi_last_ms v)\<rparr>"

definition snap_epoch :: "u64 \<Rightarrow> u64" where
  "snap_epoch now_ms = (if now_ms > DEAUTH_AGE_MS then now_ms - DEAUTH_AGE_MS else 0)"

lemma refresh_keys [simp]:
  "obs_keyof (obs_restamp ep r) = obs_keyof r" "vic_keyof (vic_restamp ep v) = vic_keyof v"
  "obs_keyof (obs_refresh tn now r) = obs_keyof r" "vic_keyof (vic_refresh tn now evs v) = vic_keyof v"
  by (simp_all add: obs_keyof_def vic_keyof_def obs_restamp_def vic_restamp_def obs_refresh_def vic_refresh_def Let_def)

lemma snapshot_all: "stab_wf t \<Longrightarrow> stab_snapshot t (int (stab_count t)) = rows t"
  by (simp add: stab_snapshot_def stab_count_def rows_def)

lemma fold_flood: "fold (\<lambda>v flood. if dv_flood v then True else flood) vs b \<longleftrightarrow> b \<or> (\<exists>v \<in> set vs. dv_flood v)"
  by (induction vs arbitrary: b) auto

lemma deauth_snapshot_spec:
  assumes ok: "tabs_ok st" and s: "deauth_snapshot tn now sel st = (vw, st')"
  shows "tabs_ok st'" "g_epoch_ms st' = snap_epoch now"
    "rows (g_obs st') = map (obs_refresh tn now \<circ> obs_restamp (snap_epoch now)) (rows (age_out ob_last_ms now 0 (g_obs st)))"
    "rows (g_vic st') = map (vic_refresh tn now (deauth_events vw) \<circ> vic_restamp (snap_epoch now))
        (rows (age_out vi_last_ms now 0 (g_vic st)))"
    "deauth_events vw = map ob_ev (rows (g_obs st'))" "deauth_victims vw = map vi_v (rows (g_vic st'))"
    "deauth_flood_active vw \<longleftrightarrow> (\<exists>v \<in> set (deauth_victims vw). dv_flood v)"
proof -
  let ?ep = "snap_epoch now"
  let ?o0 = "age_out ob_last_ms now 0 (g_obs st)" and ?v0 = "age_out vi_last_ms now 0 (g_vic st)"
  have d: "same_decl obs_decl (g_obs st)" "tab_ok obs_keyof (g_obs st)"
    "same_decl vic_decl (g_vic st)" "tab_ok vic_keyof (g_vic st)" using ok by (simp_all add: tabs_ok_def)
  then have p: "st_policy (g_obs st) \<noteq> STAB_RING" "st_policy (g_vic st) \<noteq> STAB_RING"
    by (simp_all add: same_decl_def)
  note ao = age_out_tab [OF d(2) p(1), of ob_last_ms now] and av = age_out_tab [OF d(4) p(2), of vi_last_ms now]
  let ?o1 = "each_row (obs_restamp ?ep) ?o0" and ?v1 = "each_row (vic_restamp ?ep) ?v0"
  let ?o2 = "each_row (obs_refresh tn now) ?o1"
  let ?evs = "map ob_ev (stab_snapshot ?o2 (int (stab_count ?o2)))"
  let ?v2 = "each_row (vic_refresh tn now ?evs) ?v1"
  have ok1: "tab_ok obs_keyof ?o1" "tab_ok vic_keyof ?v1" using ao(1) av(1) by (auto intro: each_row_ok)
  have ok2: "tab_ok obs_keyof ?o2" "tab_ok vic_keyof ?v2" using ok1 by (auto intro: each_row_ok)
  have wf: "stab_wf ?o0" "stab_wf ?v0" "stab_wf ?o1" "stab_wf ?v1" "stab_wf ?o2" "stab_wf ?v2"
    using ao(1) av(1) ok1 ok2 by (simp_all add: tab_ok_def)
  have eq: "st' = \<lparr>g_obs = ?o2, g_vic = ?v2, g_epoch_ms = ?ep\<rparr>" "deauth_events vw = ?evs"
    "deauth_victims vw = map vi_v (stab_snapshot ?v2 (int (stab_count ?v2)))"
    "deauth_flood_active vw = fold (\<lambda>v flood. if dv_flood v then True else flood) (deauth_victims vw) False"
    using s [symmetric] by (simp_all add: deauth_snapshot_def obs_restamp_def [abs_def] vic_restamp_def [abs_def]
      snap_epoch_def Let_def)
  have sd: "same_decl obs_decl ?o2" "same_decl vic_decl ?v2"
    using same_decl_trans [OF d(1) ao(2)] same_decl_trans [OF d(3) av(2)] wf by (simp_all only: each_row_spec(3))
  show "tabs_ok st'" using sd ok2 by (simp add: tabs_ok_def eq(1))
  show "g_epoch_ms st' = ?ep" by (simp add: eq(1))
  show "rows (g_obs st') = map (obs_refresh tn now \<circ> obs_restamp ?ep) (rows ?o0)"
    by (simp add: eq(1) each_row_spec(1) wf)
  show "rows (g_vic st') = map (vic_refresh tn now (deauth_events vw) \<circ> vic_restamp ?ep) (rows ?v0)"
    unfolding eq(2) by (simp add: eq(1) each_row_spec(1) wf)
  show "deauth_events vw = map ob_ev (rows (g_obs st'))"
    unfolding eq(2) snapshot_all [OF wf(5)] eq(1) by simp
  show "deauth_victims vw = map vi_v (rows (g_vic st'))"
    unfolding eq(3) snapshot_all [OF wf(6)] eq(1) by simp
  show "deauth_flood_active vw \<longleftrightarrow> (\<exists>v \<in> set (deauth_victims vw). dv_flood v)"
    unfolding eq(4) fold_flood by simp
qed

section \<open>Reachable states\<close>

inductive deauth_reach :: "tune_t \<Rightarrow> deauth_t \<Rightarrow> bool" for tn where
  boot: "deauth_reach tn deauth_boot"
| rec_step: "deauth_reach tn st \<Longrightarrow> deauth_record tn f now wall st h = Some (st', h') \<Longrightarrow> deauth_reach tn st'"
| snap_step: "deauth_reach tn st \<Longrightarrow> deauth_snapshot tn now sel st = (vw, st') \<Longrightarrow> deauth_reach tn st'"
| clear_step: "deauth_reach tn st \<Longrightarrow> deauth_reach tn (deauth_clear st)"

text \<open>Every row's stamp is its last reading measured from the epoch; a citation ring is well formed.\<close>

definition obs_row_ok :: "u64 \<Rightarrow> obs_t \<Rightarrow> bool" where
  "obs_row_ok epoch r \<longleftrightarrow> ob_stamp r = stamp_of epoch (ob_last_ms r)"

definition vic_row_ok :: "u64 \<Rightarrow> vic_t \<Rightarrow> bool" where
  "vic_row_ok epoch r \<longleftrightarrow> vi_stamp r = stamp_of epoch (vi_last_ms r)
     \<and> length (vi_ids r) = 8 \<and> vi_id_count r \<le> 8 \<and> vi_id_head r < 8
     \<and> (vi_id_count r < 8 \<longrightarrow> vi_id_head r = vi_id_count r) \<and> (\<forall>i < vi_id_count r. vi_ids r ! i \<noteq> 0)"

definition deauth_ok :: "deauth_t \<Rightarrow> bool" where
  "deauth_ok st \<longleftrightarrow> tabs_ok st \<and> (\<forall>r \<in> set (rows (g_obs st)). obs_row_ok (g_epoch_ms st) r)
     \<and> (\<forall>r \<in> set (rows (g_vic st)). vic_row_ok (g_epoch_ms st) r)"

lemma obs_upd_ok: "obs_row_ok ep (obs_upd tn f now wall ep fresh r)"
  by (simp add: obs_row_ok_def obs_upd_def obs_note_def obs_flood_def Let_def split: prod.splits)

lemma vic_cite_ok:
  assumes "vic_row_ok ep r"
  shows "vic_row_ok ep (vic_cite e r)"
proof (cases "e = 0")
  case False
  have "(vi_id_head r + 1) mod 8 = (if vi_id_head r = 7 then 0 else vi_id_head r + 1)"
    using assms by (auto simp: vic_row_ok_def)
  moreover have "vi_id_count r < 8 \<or> vi_id_count r = 8" using assms by (auto simp: vic_row_ok_def)
  ultimately show ?thesis using assms False
    by (auto simp: vic_row_ok_def vic_cite_def nth_list_update less_Suc_eq)
qed (simp add: vic_cite_def assms)

lemma vic_note_ok:
  assumes "vic_row_ok ep0 r"
  shows "vic_row_ok ep (vic_note tn f now wall ep r)"
proof -
  have "\<exists>v w. vic_note tn f now wall ep r
     = vic_cite (df_event_id f) (r\<lparr>vi_v := v, vi_win := w, vi_last_ms := now, vi_stamp := stamp_of ep now\<rparr>)"
    by (auto simp: vic_note_def Let_def split: prod.splits)
  moreover have "vic_row_ok ep (r\<lparr>vi_v := v, vi_win := w, vi_last_ms := now, vi_stamp := stamp_of ep now\<rparr>)" for v w
    using assms by (simp add: vic_row_ok_def)
  ultimately show ?thesis using vic_cite_ok by metis
qed

lemma vic_row_zero: "vic_row_ok ep (vic_zero\<lparr>vi_stamp := stamp_of ep (vi_last_ms vic_zero)\<rparr>)"
  by (simp add: vic_row_ok_def vic_zero_def)

lemma vic_upd_ok:
  "vic_row_ok ep0 r \<Longrightarrow> vic_row_ok ep (vic_upd tn f k now wall ep fresh r)"
  unfolding vic_upd_def by (rule vic_note_ok) (auto simp: vic_row_ok_def vic_fill_def)

lemma vic_fields_commute: "r\<lparr>vi_stamp := n, vi_v := x\<rparr> = r\<lparr>vi_v := x, vi_stamp := n\<rparr>"
  by (cases r) simp

lemma vic_row_fresh: "vic_row_ok ep (vic_upd tn f k now wall ep True (vic_zero\<lparr>vi_stamp := n\<rparr>))"
proof -
  have "vic_upd tn f k now wall ep True (vic_zero\<lparr>vi_stamp := n\<rparr>)
      = vic_note tn f now wall ep ((vic_fill k wall vic_zero)\<lparr>vi_stamp := n\<rparr>)"
    by (simp add: vic_upd_def vic_fill_def vic_fields_commute)
  also have "\<dots> = vic_note tn f now wall ep ((vic_fill k wall vic_zero)\<lparr>vi_stamp := stamp_of ep 0\<rparr>)"
    by (simp add: vic_note_def Let_def split: prod.splits)
  finally show ?thesis using vic_note_ok [of ep] by (simp add: vic_row_ok_def vic_fill_def vic_zero_def)
qed

lemma rows_empty: "st_n t = 0 \<Longrightarrow> rows t = []" by (simp add: rows_def)

lemma deauth_record_ok:
  assumes ok: "deauth_ok st"
  shows "\<exists>st' h'. deauth_record tn f now wall st h = Some (st', h') \<and> deauth_ok st'"
proof -
  have t: "tabs_ok st" and od: "same_decl obs_decl (g_obs st)" "tab_ok obs_keyof (g_obs st)"
    and vd: "same_decl vic_decl (g_vic st)" "tab_ok vic_keyof (g_vic st)"
    using ok by (simp_all add: deauth_ok_def tabs_ok_def)
  define ep where "ep = g_epoch_ms (rebase now st)"
  have ro: "obs_row_ok ep r" if "r \<in> set (rows (g_obs st))" for r
    using that ok by (auto simp: ep_def rebase_def deauth_ok_def stab_count_def rows_empty)
  have rv: "vic_row_ok ep r" if "r \<in> set (rows (g_vic st))" for r
    using that ok by (auto simp: ep_def rebase_def deauth_ok_def stab_count_def rows_empty)
  obtain o1 h1 where o1: "stab_upsert (obs_upd tn f now wall ep) (obs_key f) (stamp_of ep now) h (g_obs st) = (o1, h1)" by fastforce
  obtain v1 h2 where v1: "stab_upsert (vic_upd tn f (vic_key f) now wall ep) (vic_key f) (stamp_of ep now) h1 (g_vic st) = (v1, h2)" by fastforce
  note om = obs.upsert_map [OF od decl_simps(1) obs_upd_keeps o1]
  note vm = vic.upsert_map [OF vd decl_simps(2) vic_upd_keeps v1]
  have "\<forall>r \<in> set (rows o1). obs_row_ok ep r"
    by (rule obs.upsert_rows [OF od decl_simps(1) obs_upd_keeps o1]) (use ro obs_upd_ok in auto)
  moreover have "\<forall>r \<in> set (rows v1). vic_row_ok ep r"
    by (rule vic.upsert_rows [OF vd decl_simps(2) vic_upd_keeps v1]) (use rv vic_upd_ok vic_row_fresh in auto)
  ultimately have "deauth_ok \<lparr>g_obs = o1, g_vic = v1, g_epoch_ms = ep\<rparr>"
    "deauth_ok \<lparr>g_obs = o1, g_vic = g_vic st, g_epoch_ms = ep\<rparr>"
    using om(1,2) vm(1,2) vd rv by (simp_all add: deauth_ok_def tabs_ok_def)
  then show ?thesis
    unfolding deauth_record_upserts [OF t] ep_def [symmetric] Let_def o1 v1 prod.case
    by (cases "record_dup f st") simp_all
qed

lemma deauth_reach_ok: "deauth_reach tn st \<Longrightarrow> deauth_ok st"
proof (induction rule: deauth_reach.induct)
  case boot
  show ?case by (simp add: deauth_ok_def tabs_ok_def deauth_boot_def rows_empty)
next
  case (rec_step st f now wall h st' h')
  with deauth_record_ok [of st tn f now wall h] show ?case by auto
next
  case (snap_step st now sel vw st')
  then have t: "tabs_ok st" by (simp add: deauth_ok_def)
  note s = deauth_snapshot_spec [OF t snap_step.hyps(2)]
  have od: "tab_ok obs_keyof (g_obs st)" "tab_ok vic_keyof (g_vic st)"
    "st_policy (g_obs st) \<noteq> STAB_RING" "st_policy (g_vic st) \<noteq> STAB_RING"
    using t by (auto simp: tabs_ok_def same_decl_def)
  have "vic_row_ok (snap_epoch now) (vic_refresh tn now evs (vic_restamp (snap_epoch now) r))" if "vic_row_ok ep r" for r ep evs
    using that by (simp add: vic_row_ok_def vic_refresh_def vic_restamp_def Let_def)
  moreover have "obs_row_ok (snap_epoch now) (obs_refresh tn now (obs_restamp (snap_epoch now) r))" for r
    by (simp add: obs_row_ok_def obs_refresh_def obs_restamp_def)
  ultimately show ?case
    using s(1) snap_step.IH age_out_tab(3) [OF od(2,4), of vi_last_ms now]
    unfolding deauth_ok_def s(2,3,4) by auto
next
  case (clear_step st)
  then show ?case
    by (auto simp: deauth_ok_def tabs_ok_def deauth_clear_def stab_clear_def rows_empty same_decl_def
        tab_ok_def stab_wf_def)
qed

section \<open>Parsing\<close>

text \<open>Octets 4, 10 and 16 on: the three addresses of a management frame.\<close>

definition mac_field :: "bytes \<Rightarrow> nat \<Rightarrow> mac" where "mac_field b i = take 6 (drop i b)"

definition mgmt_hdr :: "bytes \<Rightarrow> int" where "mgmt_hdr b = 24 + (if bit (b ! 1) 7 then 4 else 0)"

definition deauth_view :: "bytes \<Rightarrow> int \<Rightarrow> deauth_frame_t option" where
  "deauth_view b len =
     (let hdr = mgmt_hdr b;
          clear = (\<not> bit (b ! 1) 6); has = (clear \<and> hdr + 2 \<le> len)
      in if ftype b = 0 \<and> fsub b \<in> {10, 12} \<and> hdr \<le> len
         then Some \<lparr>df_src = mac_field b 10, df_dst = mac_field b 4, df_bssid = mac_field b 16,
           df_subtype = fsub b, df_fc_flags = b ! 1, df_retry = bit (b ! 1) 3,
           df_protected = bit (b ! 1) 6, df_truncated = clear \<and> \<not> has, df_reason_valid = has,
           df_reason = (if has then ucast (b ! nat hdr) OR push_bit 8 (ucast (b ! nat (hdr + 1))) else 0),
           df_seq = ucast (drop_bit 4 (fsc b) AND 0x0fff), df_frag = ucast (fsc b AND 0x000f),
           df_event_id = 0\<rparr>
         else None)"

lemma word_of_int_uint_ucast: "word_of_int (uint w) = (ucast w :: 'a::len word)"
  by (rule bit_word_eqI) (simp add: bit_simps bit_uint_iff)

lemma deauth_parse_view:
  assumes "2 \<le> len" and "len \<le> int (length b)"
  shows "deauth_parse (Some b) len = Some (deauth_view b len)"
proof -
  let ?f = "view b len None"
  have e: "deauth_parse (Some b) len = deauth_parse_frame (Some ?f)"
    using decode_view [OF assms, of None] by (simp add: deauth_parse_def)
  show ?thesis
  proof (cases "ftype b = 0 \<and> (fsub b = 10 \<or> fsub b = 12) \<and> hdr_size b \<le> len")
    case False
    then have "deauth_parse_frame (Some ?f) = Some None"
      by (auto simp: deauth_parse_frame_def Let_def view_geometry)
    moreover have "deauth_view b len = None"
      using False by (auto simp: deauth_view_def mgmt_hdr_def Let_def hdr_size_def fhtc_def fqos_def faddr4_def)
    ultimately show ?thesis using e by simp
  next
    case True
    then have t: "ftype b = 0" "fsub b = 10 \<or> fsub b = 12" "hdr_size b \<le> len" by auto
    define hdr where "hdr = mgmt_hdr b"
    have hs: "hdr_size b = hdr" using t(1) by (simp add: hdr_size_def hdr_def mgmt_hdr_def fhtc_def fqos_def faddr4_def)
    have h24: "24 \<le> hdr" by (simp add: hdr_def mgmt_hdr_def)
    have len: "24 \<le> len" "hdr \<le> len" using t(3) hs h24 by simp_all
    have a: "mac_at b (f_da ?f) = Some (mac_field b 4)" "mac_at b (f_sa ?f) = Some (mac_field b 10)"
      "mac_at b (f_bssid ?f) = Some (mac_field b 16)"
      using len assms t(1)
      by (simp_all add: mac_at_def froles_def fa_def role_da_def role_sa_def role_bssid_def mac_field_def)
    have sq: "word_of_int (f_seq_num ?f) = (ucast (drop_bit 4 (fsc b) AND 0x0fff) :: u16)"
      "word_of_int (f_frag_num ?f) = (ucast (fsc b AND 0x000f) :: u8)"
      using t(1) len by (simp_all only: view_seq word_of_int_uint_ucast) simp_all
    have g: "f_hdr_len ?f = hdr" using t hs by (simp add: view_geometry)
    show ?thesis
      unfolding e deauth_parse_frame_def option.case view_simps(1) g a Let_def sq
      using t(1,2) len h24 assms
      by (auto simp: deauth_view_def Let_def hdr_def [symmetric])
  qed
qed

section \<open>From frames to the flood verdict\<close>

lemma flood_run_snoc: "flood_run (evs @ [(t, k, win)]) = snd (flood_window_note (flood_run evs) t k win)"
  by (simp add: flood_run_def)

text \<open>The verdict of frame \<open>i\<close> of a history: it and its predecessors fill the window.\<close>

definition trips :: "u64 list \<Rightarrow> int \<Rightarrow> u32 \<Rightarrow> nat \<Rightarrow> bool" where
  "trips ts k win i \<longleftrightarrow> k \<le> int (length (in_window (ts ! i) win (take (Suc i) ts)))"

lemma ex_less_snoc: "(\<exists>i < length (xs @ [x]). P i) \<longleftrightarrow> P (length xs) \<or> (\<exists>i < length xs. P i)"
  by (auto simp: less_Suc_eq)

lemma trips_append: "i < length ts \<Longrightarrow> trips (ts @ [t]) k win i = trips ts k win i"
  by (simp add: trips_def nth_append)

lemma win_store_trip [simp]: "tripped (win_store w t) = tripped w" "trip_ms (win_store w t) = trip_ms w"
  by (simp_all add: win_store_def)

lemma note_cases:
  assumes "1 \<le> k" "k \<le> 32"
  obtains "fst (flood_window_note w t k win)" "tripped (snd (flood_window_note w t k win))"
      "trip_ms (snd (flood_window_note w t k win)) = t"
    | "\<not> fst (flood_window_note w t k win)" "tripped (snd (flood_window_note w t k win)) = tripped w"
      "trip_ms (snd (flood_window_note w t k win)) = trip_ms w"
proof (cases "uint (win_n (win_store w t)) < k \<or> ucast win \<le> age_ms t (nth_recent (win_store w t) k)")
  case True
  then show thesis by (intro that(2)) (simp_all add: note_store [OF assms])
next
  case False
  then show thesis by (intro that(1)) (simp_all add: note_store [OF assms])
qed

lemma flood_run_active:
  assumes k: "1 \<le> k" "k \<le> 32" and s: "sorted (map uint (ts @ [now]))"
  shows "flood_window_active (flood_run (map (\<lambda>t. (t, k, win)) ts)) now hold
    \<longleftrightarrow> (\<exists>i < length ts. trips ts k win i \<and> uint now - uint (ts ! i) < uint hold)"
  using s
proof (induction ts rule: rev_induct)
  case Nil
  show ?case by (simp add: flood_run_def flood_window_active_def flood_zero_def)
next
  case (snoc t ts)
  let ?w = "flood_run (map (\<lambda>t. (t, k, win)) ts)"
  have run: "flood_run (map (\<lambda>t. (t, k, win)) (ts @ [t])) = snd (flood_window_note ?w t k win)"
    by (simp add: flood_run_snoc)
  have st: "sorted (map uint (ts @ [t]))" "sorted (map uint (ts @ [now]))" "uint t \<le> uint now"
    "\<forall>x \<in> set ts. uint x \<le> uint t" using snoc.prems by (auto simp: sorted_append)
  have h: "map fst (map (\<lambda>t. (t, k, win)) ts) = ts" by (simp add: comp_def)
  have hit: "fst (flood_window_note ?w t k win) \<longleftrightarrow> trips (ts @ [t]) k win (length ts)"
    using note_exact [OF flood_run_hist, of "map (\<lambda>t. (t, k, win)) ts" t k win] st(1) k
    unfolding h trips_def by simp
  have old: "(\<exists>i < length ts. trips (ts @ [t]) k win i \<and> uint now - uint ((ts @ [t]) ! i) < uint hold)
      \<longleftrightarrow> flood_window_active ?w now hold"
    unfolding snoc.IH [OF st(2)] by (intro ex_cong1 conj_cong) (simp_all add: trips_append nth_append)
  have split: "(\<exists>i < length (ts @ [t]). trips (ts @ [t]) k win i \<and> uint now - uint ((ts @ [t]) ! i) < uint hold)
      \<longleftrightarrow> (trips (ts @ [t]) k win (length ts) \<and> uint now - uint t < uint hold) \<or> flood_window_active ?w now hold"
    unfolding ex_less_snoc old by simp
  show ?case
  proof (cases rule: note_cases [OF k, where w = ?w and t = t and win = win])
    case 1
    have "uint now - uint t < uint hold" if "flood_window_active ?w now hold"
    proof -
      from that snoc.IH [OF st(2)] obtain i where "i < length ts" "uint now - uint (ts ! i) < uint hold" by auto
      moreover from this st(4) have "uint (ts ! i) \<le> uint t" by simp
      ultimately show ?thesis by linarith
    qed
    moreover have "flood_window_active (snd (flood_window_note ?w t k win)) now hold \<longleftrightarrow> uint now - uint t < uint hold"
      using 1 ucast_le_age [OF st(3), of hold] by (auto simp: flood_window_active_def)
    ultimately show ?thesis unfolding run split using 1(1) hit by blast
  next
    case 2
    then have "flood_window_active (snd (flood_window_note ?w t k win)) now hold = flood_window_active ?w now hold"
      by (simp add: flood_window_active_def)
    with 2(1) hit show ?thesis unfolding run split by blast
  qed
qed

text \<open>A capture: frames with the clock seam's two readings.\<close>

type_synonym heard_t = "deauth_frame_t \<times> u64 \<times> time_t"

fun deauth_run :: "tune_t \<Rightarrow> heard_t list \<Rightarrow> deauth_t \<Rightarrow> sh_t \<Rightarrow> (deauth_t \<times> sh_t) option" where
  "deauth_run tn [] st h = Some (st, h)"
| "deauth_run tn ((f, now, wall) # evs) st h = do {
     (st, h) \<leftarrow> deauth_record tn f now wall st h;
     deauth_run tn evs st h }"

lemma deauth_run_snoc:
  "deauth_run tn (evs @ [(f, now, wall)]) st h = do {
     (st, h) \<leftarrow> deauth_run tn evs st h; deauth_record tn f now wall st h }"
proof (induction tn evs st h rule: deauth_run.induct)
  case (1 tn st h)
  show ?case by (cases "deauth_record tn f now wall st h") auto
next
  case (2 tn f' now' wall' evs st h)
  then show ?case by (cases "deauth_record tn f' now' wall' st h") auto
qed

definition heard_at :: "vic_key_t \<Rightarrow> heard_t list \<Rightarrow> u64 list" where
  "heard_at k evs = map (\<lambda>(f, now, wall). now) (filter (\<lambda>(f, now, wall). vic_key f = k) evs)"

definition vic_tracks :: "tune_t \<Rightarrow> heard_t list \<Rightarrow> deauth_t \<Rightarrow> bool" where
  "vic_tracks tn evs st \<longleftrightarrow> tabs_ok st \<and> (\<forall>k. case tab_map vic_keyof (g_vic st) k of
      None \<Rightarrow> heard_at k evs = []
    | Some r \<Rightarrow> heard_at k evs \<noteq> [] \<and> vi_last_ms r = last (heard_at k evs)
        \<and> vi_win r = flood_run (map (\<lambda>t. (t, DEAUTH_THRESH tn, DEAUTH_WIN_MS tn)) (heard_at k evs)))"

lemma vic_tracksD:
  assumes "vic_tracks tn evs st"
  shows "tabs_ok st" "tab_map vic_keyof (g_vic st) k = None \<Longrightarrow> heard_at k evs = []"
    "tab_map vic_keyof (g_vic st) k = Some r \<Longrightarrow> heard_at k evs \<noteq> [] \<and> vi_last_ms r = last (heard_at k evs)
        \<and> vi_win r = flood_run (map (\<lambda>t. (t, DEAUTH_THRESH tn, DEAUTH_WIN_MS tn)) (heard_at k evs))"
  using assms [unfolded vic_tracks_def, THEN conjunct1]
    assms [unfolded vic_tracks_def, THEN conjunct2, THEN spec, of k] by simp_all

lemma vic_note_parts:
  "vi_last_ms (vic_note tn f now wall ep r) = now"
  "vi_win (vic_note tn f now wall ep r) = snd (flood_window_note (vi_win r) now (DEAUTH_THRESH tn) (DEAUTH_WIN_MS tn))"
  by (simp_all add: vic_note_def vic_cite_def Let_def split: prod.splits)

lemma vic_fill_win: "vi_win (vic_fill k wall r) = vi_win r" by (simp add: vic_fill_def)

lemma heard_at_snoc:
  "heard_at k (evs @ [(f, now, wall)]) = heard_at k evs @ (if vic_key f = k then [now] else [])"
  by (simp add: heard_at_def)

lemma vic_tracks_step:
  assumes inv: "vic_tracks tn evs st" and nr: "\<not> df_retry f"
    and few: "card (insert (vic_key f) (vic_key ` fst ` set evs)) \<le> 128"
  shows "\<exists>st' h'. deauth_record tn f now wall st h = Some (st', h') \<and> vic_tracks tn (evs @ [(f, now, wall)]) st'"
proof -
  have t: "tabs_ok st" using inv by (simp add: vic_tracks_def)
  then have od: "same_decl obs_decl (g_obs st)" "tab_ok obs_keyof (g_obs st)"
    and vd: "same_decl vic_decl (g_vic st)" "tab_ok vic_keyof (g_vic st)" by (simp_all add: tabs_ok_def)
  have nd: "\<not> record_dup f st" using nr by (simp add: record_dup_def split: option.splits)
  define ep where "ep = g_epoch_ms (rebase now st)"
  let ?k = "vic_key f" and ?ev = "\<lambda>t. (t, DEAUTH_THRESH tn, DEAUTH_WIN_MS tn)"
  obtain o1 h1 where o1: "stab_upsert (obs_upd tn f now wall ep) (obs_key f) (stamp_of ep now) h (g_obs st) = (o1, h1)" by fastforce
  obtain v1 h2 where v1: "stab_upsert (vic_upd tn f ?k now wall ep) ?k (stamp_of ep now) h1 (g_vic st) = (v1, h2)" by fastforce
  note om = obs.upsert_map [OF od decl_simps(1) obs_upd_keeps o1]
  note vm = vic.upsert_map [OF vd decl_simps(2) vic_upd_keeps v1]
  have "dom (tab_map vic_keyof (g_vic st)) \<subseteq> vic_key ` fst ` set evs"
  proof
    fix k assume "k \<in> dom (tab_map vic_keyof (g_vic st))"
    then obtain r where "tab_map vic_keyof (g_vic st) k = Some r" by (auto simp only: dom_def mem_Collect_eq)
    from vic_tracksD(3) [OF inv this] have "heard_at k evs \<noteq> []" by simp
    then show "k \<in> vic_key ` fst ` set evs" by (force simp: heard_at_def filter_empty_conv)
  qed
  moreover have "st_cap (g_vic st) = 128" using vd(1) by (simp add: same_decl_def)
  ultimately have room: "tab_map vic_keyof (g_vic st) ?k \<noteq> None \<or> st_n (g_vic st) < st_cap (g_vic st)"
  proof (cases "tab_map vic_keyof (g_vic st) ?k = None")
    case True
    assume sub: "dom (tab_map vic_keyof (g_vic st)) \<subseteq> vic_key ` fst ` set evs" and cap: "st_cap (g_vic st) = 128"
    have "card (insert ?k (dom (tab_map vic_keyof (g_vic st)))) \<le> card (insert ?k (vic_key ` fst ` set evs))"
      using sub by (intro card_mono) auto
    moreover have "finite (dom (tab_map vic_keyof (g_vic st)))" using sub by (rule finite_subset) simp
    moreover have "?k \<notin> dom (tab_map vic_keyof (g_vic st))" using True by auto
    ultimately show ?thesis using tab_card [OF vd(2)] few cap by simp
  qed simp
  let ?st' = "\<lparr>g_obs = o1, g_vic = v1, g_epoch_ms = ep\<rparr>"
  have rec: "deauth_record tn f now wall st h = Some (?st', h2)"
    unfolding deauth_record_upserts [OF t] ep_def [symmetric] Let_def o1 v1 prod.case using nd by simp
  have ok: "tabs_ok ?st'" using om(1,2) vm(1,2) by (simp add: tabs_ok_def)
  have "case tab_map vic_keyof v1 k of
      None \<Rightarrow> heard_at k (evs @ [(f, now, wall)]) = []
    | Some r \<Rightarrow> heard_at k (evs @ [(f, now, wall)]) \<noteq> [] \<and> vi_last_ms r = last (heard_at k (evs @ [(f, now, wall)]))
        \<and> vi_win r = flood_run (map ?ev (heard_at k (evs @ [(f, now, wall)])))" for k
  proof (cases "k = ?k")
    case False
    then have e: "heard_at k (evs @ [(f, now, wall)]) = heard_at k evs" by (simp add: heard_at_snoc)
    show ?thesis unfolding e vm(5) [OF False room]
      using inv [unfolded vic_tracks_def, THEN conjunct2, THEN spec, of k] .
  next
    case True
    have w: "vi_win (case tab_map vic_keyof (g_vic st) ?k of Some r \<Rightarrow> r | None \<Rightarrow> vic_zero\<lparr>vi_stamp := stamp_of ep now\<rparr>)
       = flood_run (map ?ev (heard_at ?k evs))"
    proof (cases "tab_map vic_keyof (g_vic st) ?k")
      case None
      with vic_tracksD(2) [OF inv None] show ?thesis by (simp add: flood_run_def vic_zero_def)
    next
      case (Some r)
      with vic_tracksD(3) [OF inv Some] show ?thesis by simp
    qed
    show ?thesis
      using w unfolding True vm(3)
      by (auto simp: heard_at_snoc flood_run_snoc vic_upd_def vic_note_parts vic_fill_win split: option.splits)
  qed
  with ok have "vic_tracks tn (evs @ [(f, now, wall)]) ?st'" by (simp add: vic_tracks_def)
  with rec show ?thesis by blast
qed

lemma vic_tracks_run:
  assumes "\<forall>(f, now, wall) \<in> set evs. \<not> df_retry f" "card (vic_key ` fst ` set evs) \<le> 128"
  shows "\<exists>st h'. deauth_run tn evs deauth_boot h = Some (st, h') \<and> vic_tracks tn evs st"
  using assms
proof (induction evs rule: rev_induct)
  case Nil
  have "tab_map vic_keyof vic_decl k = None" for k
    by (simp add: tab_map_def rows_empty key_map_def)
  then show ?case by (simp add: vic_tracks_def heard_at_def deauth_boot_def tabs_ok_def)
next
  case (snoc e evs)
  obtain f now wall where e: "e = (f, now, wall)" by (cases e)
  have "card (vic_key ` fst ` set evs) \<le> card (insert (vic_key f) (vic_key ` fst ` set evs))"
    by (intro card_mono) auto
  with snoc e obtain st h' where "deauth_run tn evs deauth_boot h = Some (st, h')" "vic_tracks tn evs st"
    by auto
  with vic_tracks_step [of tn evs st f now wall h'] snoc.prems e show ?case
    by (auto simp: deauth_run_snoc)
qed

section \<open>Properties\<close>

text \<open>
  C23: Parsing reads exactly what the standard puts in the frame. A readable frame is accepted
  if and only if it is a management frame of subtype 10 or 12 whose whole header was captured;
  then the addresses, flags and sequence fields are those of the header. A reason code is
  reported exactly for an unprotected frame with two body octets, and it is those two octets,
  little-endian, after the HT Control field when there is one; a body cut short in the clear
  is reported as truncated. Nothing outside the frame is read.
\<close>

theorem deauth_parse_exact:
  assumes "2 \<le> len" and "len \<le> int (length b)"
  shows "deauth_parse (Some b) len =
     (let hdr = 24 + (if bit (b ! 1) 7 then 4 else 0);
          subtype = drop_bit 4 (b ! 0) AND 15;
          has = (\<not> bit (b ! 1) 6 \<and> hdr + 2 \<le> len)
      in Some (if drop_bit 2 (b ! 0) AND 3 = 0 \<and> subtype \<in> {10, 12} \<and> hdr \<le> len
         then Some \<lparr>df_src = take 6 (drop 10 b), df_dst = take 6 (drop 4 b), df_bssid = take 6 (drop 16 b),
           df_subtype = subtype, df_fc_flags = b ! 1, df_retry = bit (b ! 1) 3,
           df_protected = bit (b ! 1) 6, df_truncated = \<not> bit (b ! 1) 6 \<and> len < hdr + 2,
           df_reason_valid = has,
           df_reason = (if has then ucast (b ! nat hdr) OR push_bit 8 (ucast (b ! nat (hdr + 1))) else 0),
           df_seq = ucast (drop_bit 4 (ucast (b ! 22) OR push_bit 8 (ucast (b ! 23)) :: u16) AND 0x0fff),
           df_frag = ucast ((ucast (b ! 22) OR push_bit 8 (ucast (b ! 23)) :: u16) AND 0x000f),
           df_event_id = 0\<rparr>
         else None))"
proof -
  have "deauth_view b len = (let hdr = 24 + (if bit (b ! 1) 7 then 4 else 0);
          subtype = drop_bit 4 (b ! 0) AND 15;
          has = (\<not> bit (b ! 1) 6 \<and> hdr + 2 \<le> len)
      in if drop_bit 2 (b ! 0) AND 3 = 0 \<and> subtype \<in> {10, 12} \<and> hdr \<le> len
         then Some \<lparr>df_src = take 6 (drop 10 b), df_dst = take 6 (drop 4 b), df_bssid = take 6 (drop 16 b),
           df_subtype = subtype, df_fc_flags = b ! 1, df_retry = bit (b ! 1) 3,
           df_protected = bit (b ! 1) 6, df_truncated = \<not> bit (b ! 1) 6 \<and> len < hdr + 2,
           df_reason_valid = has,
           df_reason = (if has then ucast (b ! nat hdr) OR push_bit 8 (ucast (b ! nat (hdr + 1))) else 0),
           df_seq = ucast (drop_bit 4 (ucast (b ! 22) OR push_bit 8 (ucast (b ! 23)) :: u16) AND 0x0fff),
           df_frag = ucast ((ucast (b ! 22) OR push_bit 8 (ucast (b ! 23)) :: u16) AND 0x000f),
           df_event_id = 0\<rparr>
         else None)"
    unfolding deauth_view_def mgmt_hdr_def Let_def ftype_def fsub_def fsc_def mac_field_def
    by (intro if_cong refl) (auto simp: not_le)
  with deauth_parse_view [OF assms] show ?thesis by (simp only: Let_def)
qed

definition sample_deauth :: bytes where
  "sample_deauth = [0xc0, 0x08] @ replicate 20 7 @ [0x30, 0x12, 0x07, 0x00]"

lemma deauth_parse_exact_witness:
  "\<exists>f. deauth_parse (Some sample_deauth) 26 = Some (Some f) \<and> df_reason f = 7 \<and> df_retry f
     \<and> df_reason_valid f \<and> df_src f = replicate 6 7"
  by (subst deauth_parse_exact) (simp_all add: sample_deauth_def Let_def numeral_2_eq_2 [symmetric] nth_append bit_iff_odd)

lemma obs_upd_known:
  "de_count (ob_ev (obs_upd tn f now wall ep False r)) = de_count (ob_ev r) + 1"
  "if df_retry f \<and> df_seq f = ob_last_seq r
   then ob_win (obs_upd tn f now wall ep False r) = ob_win r
     \<and> de_retries (ob_ev (obs_upd tn f now wall ep False r)) = de_retries (ob_ev r) + 1
     \<and> de_flood_last (ob_ev (obs_upd tn f now wall ep False r)) = de_flood_last (ob_ev r)
   else ob_win (obs_upd tn f now wall ep False r)
       = snd (flood_window_note (ob_win r) now (DEAUTH_THRESH tn) (DEAUTH_WIN_MS tn))
     \<and> de_retries (ob_ev (obs_upd tn f now wall ep False r)) = de_retries (ob_ev r)"
  by (simp_all add: obs_upd_def obs_dup_def obs_note_def obs_flood_def Let_def case_prod_unfold)

lemma obs_upd_fresh:
  "de_count (ob_ev (obs_upd tn f now wall ep True (obs_zero\<lparr>ob_stamp := n\<rparr>))) = 1"
  "de_retries (ob_ev (obs_upd tn f now wall ep True (obs_zero\<lparr>ob_stamp := n\<rparr>))) = 0"
  "de_first_seen (ob_ev (obs_upd tn f now wall ep True (obs_zero\<lparr>ob_stamp := n\<rparr>))) = wall"
  by (simp_all add: obs_upd_def obs_dup_def obs_note_def obs_flood_def obs_fill_def obs_zero_def
      event_zero_def Let_def case_prod_unfold)

text \<open>
  C22: In every state the module can reach, recording any frame is defined (no row pointer is
  null) and leads to such a state. A retransmission of the frame its stream heard last is
  counted there as one more frame and one more retry, moves no flood window, and leaves the
  victim table untouched; any other frame is counted once in its victim's row, which is
  created if need be, however full the table is.
\<close>

theorem deauth_record_retransmission:
  assumes "deauth_reach tn st"
  shows "\<exists>st' h'. deauth_record tn f now wall st h = Some (st', h') \<and> deauth_reach tn st'
     \<and> (case tab_map obs_keyof (g_obs st) (obs_key f) of
          Some r \<Rightarrow> \<exists>r'. tab_map obs_keyof (g_obs st') (obs_key f) = Some r'
             \<and> de_count (ob_ev r') = de_count (ob_ev r) + 1
             \<and> (if df_retry f \<and> df_seq f = ob_last_seq r
                then ob_win r' = ob_win r \<and> de_retries (ob_ev r') = de_retries (ob_ev r) + 1
                   \<and> de_flood_last (ob_ev r') = de_flood_last (ob_ev r)
                else ob_win r' = snd (flood_window_note (ob_win r) now (DEAUTH_THRESH tn) (DEAUTH_WIN_MS tn))
                   \<and> de_retries (ob_ev r') = de_retries (ob_ev r))
        | None \<Rightarrow> \<exists>r'. tab_map obs_keyof (g_obs st') (obs_key f) = Some r'
             \<and> de_count (ob_ev r') = 1 \<and> de_retries (ob_ev r') = 0 \<and> de_first_seen (ob_ev r') = wall)
     \<and> (if record_dup f st then g_vic st' = g_vic st
        else \<exists>v'. tab_map vic_keyof (g_vic st') (vic_key f) = Some v' \<and> dv_last_seen (vi_v v') = wall
          \<and> dv_frames (vi_v v') = 1 + (case tab_map vic_keyof (g_vic st) (vic_key f) of
              Some v \<Rightarrow> dv_frames (vi_v v) | None \<Rightarrow> 0))"
proof -
  have t: "tabs_ok st" using deauth_reach_ok [OF assms] by (simp add: deauth_ok_def)
  then have od: "same_decl obs_decl (g_obs st)" "tab_ok obs_keyof (g_obs st)"
    and vd: "same_decl vic_decl (g_vic st)" "tab_ok vic_keyof (g_vic st)" by (simp_all add: tabs_ok_def)
  define ep where "ep = g_epoch_ms (rebase now st)"
  obtain o1 h1 where o1: "stab_upsert (obs_upd tn f now wall ep) (obs_key f) (stamp_of ep now) h (g_obs st) = (o1, h1)" by fastforce
  obtain v1 h2 where v1: "stab_upsert (vic_upd tn f (vic_key f) now wall ep) (vic_key f) (stamp_of ep now) h1 (g_vic st) = (v1, h2)" by fastforce
  note om = obs.upsert_map(3) [OF od decl_simps(1) obs_upd_keeps o1]
  note vm = vic.upsert_map(3) [OF vd decl_simps(2) vic_upd_keeps v1]
  let ?v = "if record_dup f st then g_vic st else v1" and ?h = "if record_dup f st then h1 else h2"
  have rec: "deauth_record tn f now wall st h = Some (\<lparr>g_obs = o1, g_vic = ?v, g_epoch_ms = ep\<rparr>, ?h)"
    unfolding deauth_record_upserts [OF t] ep_def [symmetric] Let_def o1 v1 prod.case by simp
  have frames: "dv_frames (vi_v (vic_note tn f now wall ep r)) = dv_frames (vi_v r) + 1"
    "dv_last_seen (vi_v (vic_note tn f now wall ep r)) = wall" for r
    by (simp_all add: vic_note_def vic_cite_def Let_def split: prod.splits)
  have v: "\<exists>v'. tab_map vic_keyof v1 (vic_key f) = Some v' \<and> dv_last_seen (vi_v v') = wall
          \<and> dv_frames (vi_v v') = 1 + (case tab_map vic_keyof (g_vic st) (vic_key f) of
              Some v \<Rightarrow> dv_frames (vi_v v) | None \<Rightarrow> 0)"
    unfolding vm by (auto simp: vic_upd_def frames vic_fill_def vic_zero_def victim_zero_def split: option.split)
  have o: "case tab_map obs_keyof (g_obs st) (obs_key f) of
          Some r \<Rightarrow> \<exists>r'. tab_map obs_keyof o1 (obs_key f) = Some r'
             \<and> de_count (ob_ev r') = de_count (ob_ev r) + 1
             \<and> (if df_retry f \<and> df_seq f = ob_last_seq r
                then ob_win r' = ob_win r \<and> de_retries (ob_ev r') = de_retries (ob_ev r) + 1
                   \<and> de_flood_last (ob_ev r') = de_flood_last (ob_ev r)
                else ob_win r' = snd (flood_window_note (ob_win r) now (DEAUTH_THRESH tn) (DEAUTH_WIN_MS tn))
                   \<and> de_retries (ob_ev r') = de_retries (ob_ev r))
        | None \<Rightarrow> \<exists>r'. tab_map obs_keyof o1 (obs_key f) = Some r'
             \<and> de_count (ob_ev r') = 1 \<and> de_retries (ob_ev r') = 0 \<and> de_first_seen (ob_ev r') = wall"
  proof (cases "tab_map obs_keyof (g_obs st) (obs_key f)")
    case (Some r)
    show ?thesis unfolding om unfolding Some option.case
      by (intro exI conjI, rule refl, rule obs_upd_known(1), rule obs_upd_known(2))
  qed (simp add: om obs_upd_fresh)
  show ?thesis
  proof (intro exI conjI)
    show "deauth_record tn f now wall st h = Some (\<lparr>g_obs = o1, g_vic = ?v, g_epoch_ms = ep\<rparr>, ?h)" by (rule rec)
    show "deauth_reach tn \<lparr>g_obs = o1, g_vic = ?v, g_epoch_ms = ep\<rparr>" by (rule rec_step [OF assms rec])
  qed (use o v in \<open>cases "record_dup f st"; simp only: deauth_t.simps if_True if_False simp_thms\<close>)+
qed

definition sample_frame :: deauth_frame_t where
  "sample_frame = \<lparr>df_src = replicate 6 1, df_dst = replicate 6 2, df_bssid = replicate 6 1,
     df_subtype = 12, df_fc_flags = 0, df_retry = False, df_protected = False, df_truncated = False,
     df_reason_valid = True, df_reason = 7, df_seq = 5, df_frag = 0, df_event_id = 3\<rparr>"

lemma deauth_record_retransmission_witness:
  "\<exists>st' h'. deauth_record tune_boot sample_frame 70000 5 deauth_boot sh_init = Some (st', h')
     \<and> (\<exists>v'. tab_map vic_keyof (g_vic st') (vic_key sample_frame) = Some v' \<and> dv_last_seen (vi_v v') = 5)"
proof -
  have "\<not> record_dup sample_frame deauth_boot"
    by (simp add: record_dup_def sample_frame_def split: option.split)
  then show ?thesis
    using deauth_record_retransmission [OF deauth_reach.boot, of tune_boot sample_frame 70000 5 sh_init]
    by (simp del: split_paired_Ex) blast
qed

text \<open>The verdict on one victim's row, in terms of what was heard of it.\<close>

definition victim_trips :: "tune_t \<Rightarrow> u64 \<Rightarrow> u64 list \<Rightarrow> bool" where
  "victim_trips tn now ts \<longleftrightarrow> (\<exists>i < length ts. trips ts (DEAUTH_THRESH tn) (DEAUTH_WIN_MS tn) i
     \<and> uint now - uint (ts ! i) < uint DEAUTH_HOLD_MS)"

lemma deauth_tuning:
  assumes "tune_reach tn"
  shows "1 \<le> DEAUTH_THRESH tn" "DEAUTH_THRESH tn \<le> 32"
    "uint (DEAUTH_WIN_MS tn) = 1000 * tune_val tn TUNE_DEAUTH_FLOOD_WINDOW_S"
proof -
  have v: "tune_val tn TUNE_DEAUTH_FLOOD_THRESH \<in> {2..32}" "tune_val tn TUNE_DEAUTH_FLOOD_WINDOW_S \<in> {1..600}"
    using tune_val_in [OF assms, of TUNE_DEAUTH_FLOOD_THRESH] tune_val_in [OF assms, of TUNE_DEAUTH_FLOOD_WINDOW_S]
    by (simp_all add: g_specs_def)
  then show "1 \<le> DEAUTH_THRESH tn" "DEAUTH_THRESH tn \<le> 32" by (simp_all add: DEAUTH_THRESH_def)
  show "uint (DEAUTH_WIN_MS tn) = 1000 * tune_val tn TUNE_DEAUTH_FLOOD_WINDOW_S"
    using v(2) by (simp add: DEAUTH_WIN_MS_def uint_word_ariths uint_word_of_int)
qed

lemma heard_at_sorted:
  assumes "sorted (map (\<lambda>(f, now, wall). uint now) evs @ [uint now])"
  shows "sorted (map uint (heard_at k evs @ [now]))"
proof -
  have "sorted (map (\<lambda>(f, now, wall). uint now) evs)" "\<forall>t \<in> set (heard_at k evs). uint t \<le> uint now"
    using assms by (auto simp: sorted_append heard_at_def)
  from sorted_filter [OF this(1), of "\<lambda>(f, now, wall). vic_key f = k"] this(2) show ?thesis
    by (simp add: sorted_append heard_at_def comp_def case_prod_unfold)
qed

lemma vic_row_verdict:
  assumes tn: "tune_reach tn" and inv: "vic_tracks tn evs st" and m: "tab_map vic_keyof (g_vic st) k = Some r"
    and sk: "sorted (map uint (heard_at k evs @ [now]))"
  shows "flood_window_active (vi_win r) now DEAUTH_HOLD_MS \<longleftrightarrow> victim_trips tn now (heard_at k evs)"
    "victim_trips tn now (heard_at k evs) \<Longrightarrow> \<not> idle_ms now (vi_last_ms r) > DEAUTH_AGE_MS"
proof -
  let ?ts = "heard_at k evs"
  have l: "vi_last_ms r = last ?ts" "?ts \<noteq> []" using vic_tracksD(3) [OF inv m] by simp_all
  show "flood_window_active (vi_win r) now DEAUTH_HOLD_MS \<longleftrightarrow> victim_trips tn now ?ts"
    using vic_tracksD(3) [OF inv m] flood_run_active [OF deauth_tuning(1,2) [OF tn] sk]
    by (simp add: victim_trips_def)
  assume "victim_trips tn now ?ts"
  then obtain i where i: "i < length ?ts" "uint now - uint (?ts ! i) < 10000"
    by (auto simp: victim_trips_def DEAUTH_HOLD_MS_def)
  have "uint (?ts ! i) \<le> uint (last ?ts)"
    using sorted_nth_mono [of "map uint ?ts" i "length ?ts - 1"] sk i(1) l(2)
    by (auto simp: sorted_append last_conv_nth)
  moreover have "uint (last ?ts) \<le> uint now" using sk l(2) by (simp add: sorted_append)
  ultimately have "uint (idle_ms now (vi_last_ms r)) < 10000" "uint DEAUTH_AGE_MS = 60000"
    using i(2) l(1) by (auto simp: idle_ms_def uint_sub_if' word_less_def DEAUTH_AGE_MS_def)
  then show "\<not> idle_ms now (vi_last_ms r) > DEAUTH_AGE_MS" by (simp add: word_less_def)
qed

lemma snapshot_verdict:
  assumes tn: "tune_reach tn" and inv: "vic_tracks tn evs st" and sk: "\<And>k. sorted (map uint (heard_at k evs @ [now]))"
    and snap: "deauth_snapshot tn now sel st = (vw, st')"
  shows "deauth_flood_active vw \<longleftrightarrow> (\<exists>k. victim_trips tn now (heard_at k evs))"
proof -
  have t: "tabs_ok st" by (rule vic_tracksD(1) [OF inv])
  then have vd: "tab_ok vic_keyof (g_vic st)" "st_policy (g_vic st) \<noteq> STAB_RING" by (auto simp: tabs_ok_def same_decl_def)
  note sp = deauth_snapshot_spec [OF t snap] and ag = age_out_tab(3) [OF vd, of vi_last_ms now]
  note verdict = vic_row_verdict [OF tn inv _ sk]
  have "deauth_flood_active vw \<longleftrightarrow> (\<exists>r \<in> set (rows (age_out vi_last_ms now 0 (g_vic st))).
      flood_window_active (vi_win r) now DEAUTH_HOLD_MS)"
    unfolding sp(7) sp(6) sp(4) by (simp add: vic_refresh_def vic_restamp_def Let_def)
  also have "\<dots> \<longleftrightarrow> (\<exists>k. victim_trips tn now (heard_at k evs))"
  proof
    assume "\<exists>r \<in> set (rows (age_out vi_last_ms now 0 (g_vic st))). flood_window_active (vi_win r) now DEAUTH_HOLD_MS"
    then obtain r where r: "r \<in> set (rows (g_vic st))" "flood_window_active (vi_win r) now DEAUTH_HOLD_MS"
      using ag by auto
    then obtain k where "tab_map vic_keyof (g_vic st) k = Some r"
      unfolding tab_ran [OF vd(1), symmetric] ran_def by auto
    with verdict(1) r(2) show "\<exists>k. victim_trips tn now (heard_at k evs)" by blast
  next
    assume "\<exists>k. victim_trips tn now (heard_at k evs)"
    then obtain k where a: "victim_trips tn now (heard_at k evs)" ..
    then have "heard_at k evs \<noteq> []" by (auto simp: victim_trips_def)
    then obtain r where m: "tab_map vic_keyof (g_vic st) k = Some r" using vic_tracksD(2) [OF inv] by fastforce
    then have "r \<in> set (rows (g_vic st))" unfolding tab_ran [OF vd(1), symmetric] by (rule ranI)
    with verdict [OF m] a ag
    show "\<exists>r \<in> set (rows (age_out vi_last_ms now 0 (g_vic st))). flood_window_active (vi_win r) now DEAUTH_HOLD_MS" by blast
  qed
  finally show ?thesis .
qed


definition sample_capture :: "heard_t list" where
  "sample_capture = [(sample_frame, 70000, 70), (sample_frame, 71000, 71)]"


lemma young_bound:
  assumes "\<not> idle_ms now heard > DEAUTH_AGE_MS"
  shows "uint now \<le> uint heard + 60000" "heard \<le> now \<Longrightarrow> stamp_of (snap_epoch now) heard \<le> 60000"
proof -
  have a: "uint DEAUTH_AGE_MS = 60000" by (simp add: DEAUTH_AGE_MS_def)
  show l: "uint now \<le> uint heard + 60000"
    using assms a by (auto simp: idle_ms_def word_less_def uint_sub_if' split: if_splits)
  have ep: "uint (snap_epoch now) = max 0 (uint now - 60000)"
    using a by (auto simp: snap_epoch_def word_less_def uint_sub_if' max_def)
  assume "heard \<le> now"
  then have "uint heard \<le> uint now" by (simp add: word_le_def)
  with ep show "stamp_of (snap_epoch now) heard \<le> 60000"
    by (auto simp: stamp_of_def word_less_def uint_sub_if')
qed

lemma refreshed_ids:
  assumes "vic_row_ok ep r"
  shows "let v = vi_v (vic_refresh tn now evs r) in length (dv_evidence_ids v) = 8 \<and> dv_evidence_id_count v \<le> 8
         \<and> (\<forall>e < 8. dv_evidence_ids v ! e \<noteq> 0 \<longleftrightarrow> e < dv_evidence_id_count v)"
  using assms by (auto simp: vic_row_ok_def vic_refresh_def Let_def)

text \<open>
  A snapshot publishes no stale and no duplicate row: in every reachable state it leaves at
  most 128 streams and victims with distinct keys, each heard within the last sixty seconds
  and stamped with at most that many milliseconds, and each victim cites at most eight
  evidence ids, all of them real, the unused places zero.
\<close>

theorem deauth_snapshot_bounds:
  assumes "deauth_reach tn st" and "deauth_snapshot tn now sel st = (vw, st')"
  shows "deauth_reach tn st'
    \<and> length (deauth_events vw) \<le> 128 \<and> length (deauth_victims vw) \<le> 128
    \<and> distinct (map (\<lambda>e. (de_bssid e, de_src e, de_dst e, de_subtype e)) (deauth_events vw))
    \<and> distinct (map (\<lambda>v. (dv_bssid v, dv_victim v)) (deauth_victims vw))
    \<and> (\<forall>r \<in> set (rows (g_obs st')). uint now \<le> uint (ob_last_ms r) + 60000
         \<and> (ob_last_ms r \<le> now \<longrightarrow> ob_stamp r \<le> 60000))
    \<and> (\<forall>r \<in> set (rows (g_vic st')). uint now \<le> uint (vi_last_ms r) + 60000
         \<and> (vi_last_ms r \<le> now \<longrightarrow> vi_stamp r \<le> 60000))
    \<and> (\<forall>v \<in> set (deauth_victims vw). length (dv_evidence_ids v) = 8 \<and> dv_evidence_id_count v \<le> 8
         \<and> (\<forall>e < 8. dv_evidence_ids v ! e \<noteq> 0 \<longleftrightarrow> e < dv_evidence_id_count v))"
proof -
  have o0: "deauth_ok st" and o1: "deauth_ok st'"
    using deauth_reach_ok assms snap_step by blast+
  then have t: "tabs_ok st" "tabs_ok st'" by (simp_all add: deauth_ok_def)
  then have od: "tab_ok obs_keyof (g_obs st)" "st_policy (g_obs st) \<noteq> STAB_RING"
    and vd: "tab_ok vic_keyof (g_vic st)" "st_policy (g_vic st) \<noteq> STAB_RING" by (auto simp: tabs_ok_def same_decl_def)
  note s = deauth_snapshot_spec [OF t(1) assms(2)]
  note ao = age_out_tab(3) [OF od, of ob_last_ms now] and av = age_out_tab(3) [OF vd, of vi_last_ms now]
  have n: "length (rows (g_obs st')) \<le> 128" "length (rows (g_vic st')) \<le> 128"
    using t(2) by (auto simp: tabs_ok_def tab_ok_def length_rows same_decl_def stab_wf_def)
  have d: "distinct (map obs_keyof (rows (g_obs st')))" "distinct (map vic_keyof (rows (g_vic st')))"
    using t(2) by (simp_all add: tabs_ok_def tab_ok_def)
  have fo: "ob_last_ms (obs_refresh tn now (obs_restamp ep r)) = ob_last_ms r"
    "ob_stamp (obs_refresh tn now (obs_restamp ep r)) = stamp_of ep (ob_last_ms r)" for ep r
    by (simp_all add: obs_refresh_def obs_restamp_def)
  have fv: "vi_last_ms (vic_refresh tn now evs (vic_restamp ep r)) = vi_last_ms r"
    "vi_stamp (vic_refresh tn now evs (vic_restamp ep r)) = stamp_of ep (vi_last_ms r)" for ep r evs
    by (simp_all add: vic_refresh_def vic_restamp_def Let_def)
  have o: "\<forall>r \<in> set (rows (g_obs st')). uint now \<le> uint (ob_last_ms r) + 60000
         \<and> (ob_last_ms r \<le> now \<longrightarrow> ob_stamp r \<le> 60000)"
    unfolding s(3) using ao young_bound by (simp add: fo)
  have v: "\<forall>r \<in> set (rows (g_vic st')). uint now \<le> uint (vi_last_ms r) + 60000
         \<and> (vi_last_ms r \<le> now \<longrightarrow> vi_stamp r \<le> 60000)"
    unfolding s(4) using av young_bound by (simp add: fv)
  have i: "let v = vi_v (vic_refresh tn now evs (vic_restamp ep r)) in length (dv_evidence_ids v) = 8
         \<and> dv_evidence_id_count v \<le> 8 \<and> (\<forall>e < 8. dv_evidence_ids v ! e \<noteq> 0 \<longleftrightarrow> e < dv_evidence_id_count v)"
    if "r \<in> set (rows (age_out vi_last_ms now 0 (g_vic st)))" for r evs ep
  proof -
    from that av o0 have "vic_row_ok (g_epoch_ms st) r" by (simp add: deauth_ok_def)
    then have "vic_row_ok ep (vic_restamp ep r)" by (simp add: vic_row_ok_def vic_restamp_def)
    then show ?thesis by (rule refreshed_ids)
  qed
  have ids: "\<forall>v \<in> set (deauth_victims vw). length (dv_evidence_ids v) = 8 \<and> dv_evidence_id_count v \<le> 8
         \<and> (\<forall>e < 8. dv_evidence_ids v ! e \<noteq> 0 \<longleftrightarrow> e < dv_evidence_id_count v)"
    unfolding s(6) s(4) using i [unfolded Let_def] by (simp only: set_map ball_simps comp_def) blast
  show ?thesis
    using n d o v ids snap_step [OF assms] unfolding s(5,6)
    by (simp add: comp_def obs_keyof_def [abs_def] vic_keyof_def [abs_def])
qed

lemma deauth_snapshot_bounds_witness:
  "\<exists>st st' vw h'. deauth_run tune_boot sample_capture deauth_boot sh_init = Some (st, h')
     \<and> deauth_snapshot tune_boot 72000 0 st = (vw, st') \<and> length (deauth_victims vw) \<le> 128"
proof -
  obtain st1 h1 where 1: "deauth_record tune_boot sample_frame 70000 70 deauth_boot sh_init = Some (st1, h1)" "deauth_reach tune_boot st1"
    using deauth_record_ok [OF deauth_reach_ok [OF boot]] rec_step [OF boot] by blast
  obtain st2 h2 where 2: "deauth_record tune_boot sample_frame 71000 71 st1 h1 = Some (st2, h2)" "deauth_reach tune_boot st2"
    using deauth_record_ok [OF deauth_reach_ok [OF 1(2)]] rec_step [OF 1(2)] by blast
  obtain vw st' where 3: "deauth_snapshot tune_boot 72000 0 st2 = (vw, st')" by fastforce
  have "deauth_run tune_boot sample_capture deauth_boot sh_init = Some (st2, h2)"
    using 1(1) 2(1) by (simp add: sample_capture_def)
  with 3 deauth_snapshot_bounds [OF 2(2) 3] show ?thesis by blast
qed

end
