(* ===== verification/EvidenceRing.thy ===== *)
theory EvidenceRing
  imports SensorHealth
begin

text \<open>
  \<open>src/evidence_ring.c\<close>: the bounded ring of captured frames that alerts cite by event id. A
  heap arena is a circular byte buffer, a second ring holds fixed-size metadata. Sizes
  (\<open>size_t\<close>) are naturals; a counter that would go below zero makes an operation undefined
  (\<open>None\<close>), as does a copy outside an object. Event ids are 64-bit words. Specification: a
  FIFO list of records with their octets.
\<close>

section \<open>Model\<close>

abbreviation (input) EVIDENCE_FRAME_MAX :: nat where "EVIDENCE_FRAME_MAX \<equiv> 4096"
abbreviation (input) EVIDENCE_MIN_BUDGET :: nat where "EVIDENCE_MIN_BUDGET \<equiv> 8192"
abbreviation (input) EVIDENCE_BUDGET_FLOOR :: u64 where "EVIDENCE_BUDGET_FLOOR \<equiv> 2 * 1024 * 1024"
abbreviation (input) EVIDENCE_BUDGET_CEIL :: u64 where "EVIDENCE_BUDGET_CEIL \<equiv> 32 * 1024 * 1024"
abbreviation (input) EV_MEAN_FRAME :: nat where "EV_MEAN_FRAME \<equiv> 512"

text \<open>\<open>sizeof(ev_slot_t)\<close> under the LP64 data model.\<close>

abbreviation (input) EV_SLOT_SIZE :: nat where "EV_SLOT_SIZE \<equiv> 48"

record evidence_rec_t =
  er_event_id :: u64
  er_ts_sec :: time_t
  er_ts_usec :: int
  er_orig_len :: u32
  er_cap_len :: u32
  er_freq_mhz :: u16
  er_signal_dbm :: "8 word"
  er_truncated :: bool

record ev_slot_t =
  sl_rec :: evidence_rec_t
  sl_off :: nat

record evring_t =
  g_arena :: "bytes option"
  g_cap :: nat
  g_used :: nat
  g_write :: nat
  g_meta :: "ev_slot_t list"
  g_slots :: nat
  g_tail :: nat
  g_count :: nat
  g_footprint :: nat
  g_next_id :: u64

definition evring_boot :: evring_t where
  "evring_boot = \<lparr>g_arena = None, g_cap = 0, g_used = 0, g_write = 0, g_meta = [], g_slots = 0,
     g_tail = 0, g_count = 0, g_footprint = 0, g_next_id = 0\<rparr>"

definition slot_zero :: ev_slot_t where
  "slot_zero = \<lparr>sl_rec = \<lparr>er_event_id = 0, er_ts_sec = 0, er_ts_usec = 0, er_orig_len = 0,
     er_cap_len = 0, er_freq_mhz = 0, er_signal_dbm = 0, er_truncated = False\<rparr>, sl_off = 0\<rparr>"

subsection \<open>Budget\<close>

definition evidence_budget_from_mem_kb :: "u64 \<Rightarrow> u64" where
  "evidence_budget_from_mem_kb mem_total_kb =
     (let pct_kb = mem_total_kb div 100
      in if pct_kb > EVIDENCE_BUDGET_CEIL div 1024 then EVIDENCE_BUDGET_CEIL
         else let want = pct_kb * 1024
              in if want < EVIDENCE_BUDGET_FLOOR then EVIDENCE_BUDGET_FLOOR else want)"

text \<open>
  \<open>fgets(line, 256, f)\<close>: at most 255 characters, up to and with the newline; \<open>strtoull\<close> on
  a string that starts with a digit: the decimal value of the leading digits, saturating.
\<close>

fun fgets_chunk :: "nat \<Rightarrow> bytes \<Rightarrow> bytes \<times> bytes" where
  "fgets_chunk 0 s = ([], s)"
| "fgets_chunk (Suc n) [] = ([], [])"
| "fgets_chunk (Suc n) (c # s) =
     (if c = 10 then ([c], s) else let (l, r) = fgets_chunk n s in (c # l, r))"

lemma fgets_chunk_shrinks: "s \<noteq> [] \<Longrightarrow> length (snd (fgets_chunk (Suc n) s)) < length s"
proof -
  have le: "length (snd (fgets_chunk n s)) \<le> length s" for n s
    by (induction n s rule: fgets_chunk.induct) (auto split: prod.splits)
  show "s \<noteq> [] \<Longrightarrow> ?thesis"
    using le [of n "tl s"] by (cases s) (auto split: prod.splits simp: less_Suc_eq_le)
qed

definition is_digit :: "u8 \<Rightarrow> bool" where "is_digit c \<longleftrightarrow> 48 \<le> c \<and> c \<le> 57"

definition strtoull :: "bytes \<Rightarrow> u64" where
  "strtoull s = word_of_nat (min (2 ^ 64 - 1)
     (fold (\<lambda>c n. 10 * n + (unat c - 48)) (takeWhile is_digit s) 0))"

abbreviation (input) MEMTOTAL :: bytes where
  "MEMTOTAL \<equiv> [77, 101, 109, 84, 111, 116, 97, 108, 58]"

function meminfo_loop :: "bytes \<Rightarrow> u64" where
  "meminfo_loop f =
     (if f = [] then 0
      else let (line, rest) = fgets_chunk 255 f
           in if take 9 line \<noteq> MEMTOTAL then meminfo_loop rest
              else let p = dropWhile (\<lambda>c. c = 32 \<or> c = 9) (drop 9 line)
                   in if p = [] \<or> \<not> is_digit (hd p) then 0 else strtoull p)"
  by pat_completeness auto
termination
  using fgets_chunk_shrinks [of _ 254]
  by (relation "measure length") (simp_all add: numeral_eq_Suc, metis snd_conv)

declare meminfo_loop.simps [simp del]

text \<open>The file is its contents, \<open>None\<close> when it (or the path) is missing.\<close>

definition evidence_budget_from_meminfo :: "bytes option \<Rightarrow> u64" where
  "evidence_budget_from_meminfo file =
     (case file of None \<Rightarrow> EVIDENCE_BUDGET_FLOOR
      | Some f \<Rightarrow> evidence_budget_from_mem_kb (meminfo_loop f))"

subsection \<open>Lifecycle\<close>

definition ring_free_locked :: "evring_t \<Rightarrow> evring_t" where
  "ring_free_locked st = st\<lparr>g_arena := None, g_cap := 0, g_used := 0, g_write := 0, g_meta := [],
     g_slots := 0, g_tail := 0, g_count := 0, g_footprint := 0\<rparr>"

text \<open>
  \<open>fresh\<close> is what \<open>malloc\<close> left in the arena; \<open>alloc\<close> says whether both allocations succeeded.
\<close>

definition evidence_ring_init :: "bool \<Rightarrow> (nat \<Rightarrow> bytes) \<Rightarrow> u64 \<Rightarrow> evring_t \<Rightarrow> int \<times> evring_t" where
  "evidence_ring_init alloc fresh budget st =
     (let budget_bytes = unat budget in
      if budget_bytes < EVIDENCE_MIN_BUDGET then (-1, st)
      else let slots = budget_bytes div (EV_MEAN_FRAME + EV_SLOT_SIZE) in
      if slots = 0 then (-1, st)
      else let meta_bytes = slots * EV_SLOT_SIZE in
      if meta_bytes \<ge> budget_bytes then (-1, st)
      else let arena = budget_bytes - meta_bytes in
      if arena < EVIDENCE_FRAME_MAX then (-1, st)
      else if \<not> alloc then (-1, st)
      else (0, (ring_free_locked st)\<lparr>g_arena := Some (fresh arena), g_cap := arena,
             g_meta := replicate slots slot_zero, g_slots := slots, g_footprint := arena + meta_bytes\<rparr>))"

definition evidence_ring_init_default ::
  "bool \<Rightarrow> (nat \<Rightarrow> bytes) \<Rightarrow> bytes option \<Rightarrow> evring_t \<Rightarrow> int \<times> evring_t" where
  "evidence_ring_init_default alloc fresh meminfo st =
     (if g_arena st \<noteq> None then (0, st)
      else evidence_ring_init alloc fresh (evidence_budget_from_meminfo meminfo) st)"

definition evidence_ring_shutdown :: "evring_t \<Rightarrow> evring_t" where
  "evidence_ring_shutdown st = ring_free_locked st"

definition evidence_ring_reset :: "evring_t \<Rightarrow> evring_t" where
  "evidence_ring_reset st = st\<lparr>g_used := 0, g_write := 0, g_tail := 0, g_count := 0\<rparr>"

subsection \<open>Record\<close>

definition evict_oldest_locked :: "evring_t \<Rightarrow> sh_t \<Rightarrow> (evring_t \<times> sh_t) option" where
  "evict_oldest_locked st h =
     (let sl = g_meta st ! g_tail st; n = unat (er_cap_len (sl_rec sl)) in
      if g_count st = 0 \<or> length (g_meta st) \<le> g_tail st \<or> g_used st < n then None
      else Some (st\<lparr>g_used := g_used st - n,
                    g_meta := (g_meta st)[g_tail st := sl\<lparr>sl_rec := (sl_rec sl)\<lparr>er_event_id := 0\<rparr>\<rparr>],
                    g_tail := (g_tail st + 1) mod g_slots st, g_count := g_count st - 1\<rparr>,
                 sh_evict_note SH_EVICT_EVIDENCE_FRAME h))"

function evict_loop :: "nat \<Rightarrow> evring_t \<Rightarrow> sh_t \<Rightarrow> (evring_t \<times> sh_t) option" where
  "evict_loop store st h =
     (if g_count st = g_slots st \<or> g_used st + store > g_cap st
      then (case evict_oldest_locked st h of None \<Rightarrow> None
            | Some (st', h') \<Rightarrow> evict_loop store st' h')
      else Some (st, h))"
  by pat_completeness auto
termination
  by (relation "measure (\<lambda>(_, st, _). g_count st)") (auto simp: evict_oldest_locked_def Let_def split: if_splits)

declare evict_loop.simps [simp del]

definition circ_copy_in :: "bytes \<Rightarrow> nat \<Rightarrow> nat \<Rightarrow> nat \<Rightarrow> bytes \<Rightarrow> bytes option" where
  "circ_copy_in arena cap write store frame =
     (let first = cap - write; first = (if first > store then store else first)
      in do {
        a \<leftarrow> bytes_at frame 0 (int first);
        arena \<leftarrow> blit arena write a;
        if store > first
        then do { b \<leftarrow> bytes_at frame (int first) (int (store - first)); blit arena 0 b }
        else Some arena })"

definition evidence_ring_note ::
  "bytes option \<Rightarrow> u32 \<Rightarrow> u32 \<Rightarrow> time_t \<Rightarrow> int \<Rightarrow> u16 \<Rightarrow> 8 word \<Rightarrow> evring_t \<Rightarrow> sh_t
     \<Rightarrow> (u64 \<times> evring_t \<times> sh_t) option" where
  "evidence_ring_note frame cap_len orig_len ts_sec ts_usec freq_mhz signal_dbm st h =
     (case frame of None \<Rightarrow> Some (0, st, h)
      | Some fr \<Rightarrow>
      if cap_len = 0 then Some (0, st, h)
      else case g_arena st of None \<Rightarrow> Some (0, st, h)
      | Some arena \<Rightarrow>
        (let store = unat cap_len;
             store = (if store > EVIDENCE_FRAME_MAX then EVIDENCE_FRAME_MAX else store);
             store = (if store > g_cap st then g_cap st else store)
         in do {
           (st, h) \<leftarrow> evict_loop store st h;
           let eid = g_next_id st + 1;
           let head = (g_tail st + g_count st) mod g_slots st;
           let sl = \<lparr>sl_rec = \<lparr>er_event_id = eid, er_ts_sec = ts_sec, er_ts_usec = ts_usec,
                      er_orig_len = orig_len, er_cap_len = word_of_nat store, er_freq_mhz = freq_mhz,
                      er_signal_dbm = signal_dbm,
                      er_truncated = (store < unat cap_len \<or> store < unat orig_len)\<rparr>,
                    sl_off = g_write st\<rparr>;
           arena \<leftarrow> circ_copy_in arena (g_cap st) (g_write st) store fr;
           Some (eid, st\<lparr>g_arena := Some arena, g_meta := (g_meta st)[head := sl],
                         g_write := (g_write st + store) mod g_cap st, g_used := g_used st + store,
                         g_count := g_count st + 1, g_next_id := eid\<rparr>, h) }))"

subsection \<open>Retrieval\<close>

definition circ_copy_out :: "bytes \<Rightarrow> nat \<Rightarrow> nat \<Rightarrow> nat \<Rightarrow> bytes option" where
  "circ_copy_out arena cap off want =
     (let first = cap - off; first = (if first > want then want else first)
      in do {
        a \<leftarrow> bytes_at arena (int off) (int first);
        if want > first then do { b \<leftarrow> bytes_at arena 0 (int (want - first)); Some (a @ b) }
        else Some a })"

text \<open>
  The caller's buffer is the room it offers, \<open>None\<close> for a null one. The result is the record
  and the octets copied, whose number is the value returned; \<open>None\<close> stands for -1.
\<close>

definition evidence_ring_get ::
  "u64 \<Rightarrow> nat option \<Rightarrow> evring_t \<Rightarrow> (evidence_rec_t \<times> bytes) option option" where
  "evidence_ring_get event_id room st =
     (if event_id = 0 then Some None
      else case g_arena st of None \<Rightarrow> Some None
      | Some arena \<Rightarrow>
      if g_count st = 0 then Some None
      else if length (g_meta st) \<le> g_tail st then None
      else let oldest = er_event_id (sl_rec (g_meta st ! g_tail st)) in
      if event_id < oldest \<or> event_id > g_next_id st then Some None
      else let k = unat (word_of_nat (g_tail st) + (event_id - oldest)) mod g_slots st in
      if length (g_meta st) \<le> k then None
      else let sl = g_meta st ! k in
      if er_event_id (sl_rec sl) \<noteq> event_id then Some None
      else let want = unat (er_cap_len (sl_rec sl)) in
      case room of None \<Rightarrow> Some (Some (sl_rec sl, []))
      | Some maxn \<Rightarrow>
          (let want = (if want > maxn then maxn else want)
           in if want > 0
              then do { b \<leftarrow> circ_copy_out arena (g_cap st) (sl_off sl) want; Some (Some (sl_rec sl, b)) }
              else Some (Some (sl_rec sl, []))))"

definition evidence_ring_count :: "evring_t \<Rightarrow> int" where "evidence_ring_count st = int (g_count st)"
definition evidence_ring_last_id :: "evring_t \<Rightarrow> u64" where "evidence_ring_last_id st = g_next_id st"
definition evidence_ring_bytes_used :: "evring_t \<Rightarrow> nat" where "evidence_ring_bytes_used st = g_used st"
definition evidence_ring_capacity :: "evring_t \<Rightarrow> nat" where "evidence_ring_capacity st = g_cap st"
definition evidence_ring_footprint :: "evring_t \<Rightarrow> nat" where "evidence_ring_footprint st = g_footprint st"

section \<open>Circular buffers\<close>

lemma mod_distinct: "a < b \<Longrightarrow> b - a < n \<Longrightarrow> (s + a) mod n \<noteq> (s + b) mod (n :: nat)"
proof
  assume l: "a < b" "b - a < n" and e: "(s + a) mod n = (s + b) mod n"
  have "n dvd (s + b) - (s + a)" using l(1) e [symmetric] by (subst mod_eq_dvd_iff_nat [symmetric]) simp_all
  with l show False by (auto dest: dvd_imp_le)
qed

lemma mod_offset: "A < n \<Longrightarrow> d < n \<Longrightarrow> ((A + d) mod n + n - A) mod n = (d :: nat)"
  by (cases "A + d < n") (simp_all add: le_mod_geq)

lemma mod_behind:
  assumes "p < u" "u \<le> n"
  shows "((s + p) mod n + n - (s + u) mod n) mod n = n - u + (p :: nat)"
proof -
  have n: "0 < n" "(s + u) mod n < n" "n - u + p < n" using assms by simp_all
  have "((s + u) mod n + (n - u + p)) mod n = (s + u + (n - u + p)) mod n" by (simp add: mod_add_left_eq)
  also have "s + u + (n - u + p) = (s + p) + n" using assms by simp
  finally have "(s + p) mod n = ((s + u) mod n + (n - u + p)) mod n" by simp
  then show ?thesis using mod_offset [OF n(2,3)] by simp
qed

definition circ :: "bytes \<Rightarrow> nat \<Rightarrow> nat \<Rightarrow> bytes" where
  "circ a off n = map (\<lambda>i. a ! ((off + i) mod length a)) [0..<n]"

lemma length_circ [simp]: "length (circ a off n) = n" by (simp add: circ_def)

lemma take_circ: "take m (circ a off n) = circ a off (min m n)"
  by (simp add: circ_def take_map min_def)

lemma circ_cong:
  assumes "length a = length b" "\<And>i. i < n \<Longrightarrow> a ! ((off + i) mod length a) = b ! ((off + i) mod length a)"
  shows "circ a off n = circ b off n"
  using assms by (simp add: circ_def)

lemma bytes_at_nat:
  "bytes_at b (int off) (int n) = (if off + n \<le> length b then Some (take n (drop off b)) else None)"
  "bytes_at b 0 (int n) = (if n \<le> length b then Some (take n b) else None)"
  by (simp_all add: bytes_at_def)

lemma circ_copy_out_spec:
  assumes "length a = cap" "off < cap" "want \<le> cap"
  shows "circ_copy_out a cap off want = Some (circ a off want)"
proof (cases "want > cap - off")
  case False
  then have e: "take want (drop off a) = circ a off want"
    using assms by (intro nth_equalityI) (simp_all add: circ_def)
  have "(if cap - off > want then want else cap - off) = want" using False by simp
  with False e assms show ?thesis unfolding circ_copy_out_def Let_def by (simp add: bytes_at_nat)
next
  case True
  have "take (cap - off) (drop off a) @ take (want - (cap - off)) a = circ a off want"
  proof (intro nth_equalityI)
    fix i assume i: "i < length (take (cap - off) (drop off a) @ take (want - (cap - off)) a)"
    then have "i < want" using assms True by simp
    moreover have "(off + i) mod cap = (if i < cap - off then off + i else i - (cap - off))"
      using assms \<open>i < want\<close> by (auto simp: le_mod_geq)
    ultimately show "(take (cap - off) (drop off a) @ take (want - (cap - off)) a) ! i = circ a off want ! i"
      using assms True by (auto simp: circ_def nth_append)
  qed (use assms True in simp)
  moreover have "(if cap - off > want then want else cap - off) = cap - off" using True by simp
  ultimately show ?thesis unfolding circ_copy_out_def Let_def bytes_at_nat using True assms by simp
qed

lemma circ_copy_in_spec:
  assumes a: "length a = cap" "write < cap" "store \<le> cap" and fr: "store \<le> length frame"
  obtains a' where "circ_copy_in a cap write store frame = Some a'" "length a' = cap"
    "\<And>p. p < cap \<Longrightarrow> a' ! p = (let q = (p + cap - write) mod cap in if q < store then frame ! q else a ! p)"
proof -
  define first where "first = min store (cap - write)"
  have q: "(p + cap - write) mod cap = (if write \<le> p then p - write else p + cap - write)" if "p < cap" for p
    using that a(2) by (auto simp: le_mod_geq)
  have fe: "(if cap - write > store then store else cap - write) = first" by (simp add: first_def)
  have l: "length (take first frame) = first" "write + length (take first frame) \<le> length a"
    using a fr by (simp_all add: first_def)
  obtain d where d: "blit a write (take first frame) = Some d" "length d = cap"
    "\<And>p. d ! p = (if write \<le> p \<and> p < write + first then frame ! (p - write) else a ! p)"
    using blit_Some [OF l(2)] unfolding l(1) a(1) by (elim exE conjE, intro that) auto
  show thesis
  proof (cases "store > first")
    case False
    then have f: "first = store" by (simp add: first_def)
    have "circ_copy_in a cap write store frame = Some d"
      unfolding circ_copy_in_def Let_def fe bytes_at_nat using d(1) f fr by simp
    moreover have "d ! p = (let q = (p + cap - write) mod cap in if q < store then frame ! q else a ! p)" if "p < cap" for p
      using that a f unfolding d(3) q [OF that] by (auto simp: Let_def first_def)
    ultimately show thesis using that d(2) by blast
  next
    case True
    then have f: "first = cap - write" by (simp add: first_def split: if_splits)
    have m: "length (take (store - first) (drop first frame)) = store - first"
      "0 + length (take (store - first) (drop first frame)) \<le> length d" using fr a d(2) by simp_all
    obtain e where e: "blit d 0 (take (store - first) (drop first frame)) = Some e" "length e = cap"
      "\<And>p. e ! p = (if p < store - first then frame ! (first + p) else d ! p)"
      using blit_Some [OF m(2)] unfolding m(1) d(2) by (elim exE conjE, intro that) (use fr in auto)
    have "circ_copy_in a cap write store frame = Some e"
      unfolding circ_copy_in_def Let_def fe bytes_at_nat using d(1) e(1) fr True by simp
    moreover have "e ! p = (let q = (p + cap - write) mod cap in if q < store then frame ! q else a ! p)" if "p < cap" for p
      using that a f True unfolding e(3) d(3) q [OF that] by (auto simp: Let_def algebra_simps)
    ultimately show thesis using that e(2) by blast
  qed
qed

lemma circ_written:
  assumes "length a' = cap" "write < cap" "store \<le> cap" "store \<le> length frame"
    "\<And>p. p < cap \<Longrightarrow> a' ! p = (let q = (p + cap - write) mod cap in if q < store then frame ! q else a ! p)"
  shows "circ a' write store = take store frame"
proof (rule nth_equalityI)
  fix i assume "i < length (circ a' write store)"
  then have i: "i < store" by simp
  then have "((write + i) mod cap + cap - write) mod cap = i" using assms(2,3) by (intro mod_offset) auto
  with i assms(1-4) assms(5) [of "(write + i) mod cap"] show "circ a' write store ! i = take store frame ! i"
    by (simp add: circ_def Let_def)
qed (use assms in simp)

section \<open>The live window\<close>

definition live :: "evring_t \<Rightarrow> ev_slot_t list" where
  "live st = map (\<lambda>j. g_meta st ! ((g_tail st + j) mod g_slots st)) [0..<g_count st]"

definition slen :: "ev_slot_t \<Rightarrow> nat" where "slen x = unat (er_cap_len (sl_rec x))"

fun offs_ok :: "nat \<Rightarrow> nat \<Rightarrow> ev_slot_t list \<Rightarrow> bool" where
  "offs_ok cap s [] = True"
| "offs_ok cap s (x # xs) = (sl_off x = s mod cap \<and> offs_ok cap (s + slen x) xs)"

lemma offs_ok_append:
  "offs_ok cap s (xs @ ys) = (offs_ok cap s xs \<and> offs_ok cap (s + sum_list (map slen xs)) ys)"
  by (induction xs arbitrary: s) (auto simp: add.assoc)

lemma offs_ok_pos:
  assumes "offs_ok cap s xs" "x \<in> set xs" "i < slen x"
  obtains p where "p < sum_list (map slen xs)" "(sl_off x + i) mod cap = (s + p) mod cap"
  using assms
proof (induction xs arbitrary: s thesis)
  case (Cons y ys)
  show ?case
  proof (cases "x = y")
    case True
    with Cons.prems show thesis by (intro Cons.prems(1) [of i]) (auto simp: mod_add_left_eq)
  next
    case False
    with Cons.prems obtain p where "p < sum_list (map slen ys)" "(sl_off x + i) mod cap = (s + slen y + p) mod cap"
      using Cons.IH [of "s + slen y"] by auto
    then show thesis by (intro Cons.prems(1) [of "slen y + p"]) (auto simp: add.assoc)
  qed
qed simp

lemma length_live [simp]: "length (live st) = g_count st" by (simp add: live_def)

lemma live_nth: "j < g_count st \<Longrightarrow> live st ! j = g_meta st ! ((g_tail st + j) mod g_slots st)"
  by (simp add: live_def)

definition er_ok :: "evring_t \<Rightarrow> bool" where
  "er_ok st \<longleftrightarrow> (case g_arena st of
     None \<Rightarrow> g_count st = 0 \<and> g_used st = 0 \<and> g_cap st = 0 \<and> g_footprint st = 0
   | Some a \<Rightarrow> length a = g_cap st \<and> EVIDENCE_FRAME_MAX \<le> g_cap st \<and> length (g_meta st) = g_slots st
       \<and> 0 < g_slots st \<and> g_slots st < 2 ^ 60 \<and> g_tail st < g_slots st \<and> g_count st \<le> g_slots st
       \<and> g_used st = sum_list (map slen (live st)) \<and> g_used st \<le> g_cap st
       \<and> (\<exists>s. offs_ok (g_cap st) s (live st) \<and> g_write st = (s + g_used st) mod g_cap st)
       \<and> g_count st \<le> unat (g_next_id st)
       \<and> (\<forall>j < g_count st. unat (er_event_id (sl_rec (live st ! j))) + g_count st = unat (g_next_id st) + 1 + j)
       \<and> g_footprint st = g_cap st + g_slots st * EV_SLOT_SIZE)"

definition payload :: "bytes \<Rightarrow> ev_slot_t \<Rightarrow> bytes" where "payload a x = circ a (sl_off x) (slen x)"

type_synonym evlog_t = "(evidence_rec_t \<times> bytes) list"

definition evlog :: "evring_t \<Rightarrow> evlog_t" where
  "evlog st = (case g_arena st of None \<Rightarrow> [] | Some a \<Rightarrow> map (\<lambda>x. (sl_rec x, payload a x)) (live st))"

definition log_bytes :: "evlog_t \<Rightarrow> nat" where "log_bytes xs = sum_list (map (length \<circ> snd) xs)"

text \<open>Room for one more record of \<open>store\<close> octets: drop from the front, no more than needed.\<close>

fun make_room :: "nat \<Rightarrow> nat \<Rightarrow> nat \<Rightarrow> evlog_t \<Rightarrow> evlog_t" where
  "make_room slots cap store [] = []"
| "make_room slots cap store (e # es) =
     (if length (e # es) = slots \<or> log_bytes (e # es) + store > cap
      then make_room slots cap store es else e # es)"

lemma er_okD:
  assumes "er_ok st" "g_arena st = Some a"
  shows "length a = g_cap st" "4096 \<le> g_cap st" "length (g_meta st) = g_slots st" "0 < g_slots st"
    "g_slots st < 2 ^ 60" "g_tail st < g_slots st" "g_count st \<le> g_slots st"
    "g_used st = sum_list (map slen (live st))" "g_used st \<le> g_cap st"
    "\<exists>s. offs_ok (g_cap st) s (live st) \<and> g_write st = (s + g_used st) mod g_cap st"
    "g_count st \<le> unat (g_next_id st)"
    "\<And>j. j < g_count st \<Longrightarrow> unat (er_event_id (sl_rec (live st ! j))) + g_count st = unat (g_next_id st) + 1 + j"
    "g_footprint st = g_cap st + g_slots st * 48"
proof -
  show "\<exists>s. offs_ok (g_cap st) s (live st) \<and> g_write st = (s + g_used st) mod g_cap st"
    using assms unfolding er_ok_def by auto
qed (use assms in \<open>simp_all add: er_ok_def\<close>)

lemma log_bytes_live: "log_bytes (map (\<lambda>x. (sl_rec x, payload a x)) xs) = sum_list (map slen xs)"
  by (simp add: log_bytes_def payload_def comp_def)

lemma evlog_Some: "g_arena st = Some a \<Longrightarrow> evlog st = map (\<lambda>x. (sl_rec x, payload a x)) (live st)"
  by (simp add: evlog_def)

lemma length_evlog: "er_ok st \<Longrightarrow> length (evlog st) = g_count st"
  by (auto simp: evlog_def er_ok_def split: option.splits)

subsection \<open>Dropping the oldest record\<close>

lemma live_cons:
  assumes "0 < g_count st" "g_tail st < g_slots st"
  shows "live st = (g_meta st ! g_tail st) # map (\<lambda>j. g_meta st ! ((g_tail st + Suc j) mod g_slots st)) [0..<g_count st - 1]"
  using assms by (intro nth_equalityI) (auto simp: live_def nth_Cons split: nat.split)

lemma evict_ok:
  assumes ok: "er_ok st" and a: "g_arena st = Some a" and n: "0 < g_count st"
  obtains st' where "evict_oldest_locked st h = Some (st', sh_evict_note SH_EVICT_EVIDENCE_FRAME h)"
    "er_ok st'" "live st' = tl (live st)" "evlog st' = tl (evlog st)"
    "g_arena st' = Some a" "g_cap st' = g_cap st" "g_slots st' = g_slots st" "g_next_id st' = g_next_id st"
    "g_write st' = g_write st" "g_footprint st' = g_footprint st"
proof -
  note o = er_okD [OF ok a]
  let ?x = "g_meta st ! g_tail st"
  let ?rest = "map (\<lambda>j. g_meta st ! ((g_tail st + Suc j) mod g_slots st)) [0..<g_count st - 1]"
  have L: "live st = ?x # ?rest" by (rule live_cons [OF n o(6)])
  have used: "g_used st = slen ?x + sum_list (map slen ?rest)" unfolding o(8) L by simp
  define st' where "st' = st\<lparr>g_used := g_used st - slen ?x,
      g_meta := (g_meta st)[g_tail st := ?x\<lparr>sl_rec := (sl_rec ?x)\<lparr>er_event_id := 0\<rparr>\<rparr>],
      g_tail := (g_tail st + 1) mod g_slots st, g_count := g_count st - 1\<rparr>"
  have e: "evict_oldest_locked st h = Some (st', sh_evict_note SH_EVICT_EVIDENCE_FRAME h)"
    using n o(3,6) used by (simp add: evict_oldest_locked_def st'_def Let_def slen_def)
  have same: "g_meta st' ! ((g_tail st' + j) mod g_slots st') = g_meta st ! ((g_tail st + Suc j) mod g_slots st)"
    if "j < g_count st - 1" for j
  proof -
    have "(g_tail st + 0) mod g_slots st \<noteq> (g_tail st + Suc j) mod g_slots st"
      using that o(7) by (intro mod_distinct) simp_all
    then have "g_tail st \<noteq> (g_tail st + Suc j) mod g_slots st" using o(6) by simp
    moreover have "((g_tail st + 1) mod g_slots st + j) mod g_slots st = (g_tail st + Suc j) mod g_slots st"
      by (simp add: mod_add_left_eq)
    ultimately show ?thesis by (simp add: st'_def)
  qed
  have L': "live st' = ?rest" using same by (simp add: live_def st'_def [THEN arg_cong [of _ _ g_count]])
  obtain s where s: "offs_ok (g_cap st) s (live st)" "g_write st = (s + g_used st) mod g_cap st" using o(10) by blast
  have ids: "unat (er_event_id (sl_rec (?rest ! j))) + (g_count st - 1) = unat (g_next_id st) + 1 + j"
    if "j < g_count st - 1" for j
    using o(12) [of "Suc j"] that unfolding L by simp
  have ok': "er_ok st'"
    unfolding er_ok_def L' using o s ids used a
    by (auto simp: st'_def L add.assoc intro!: exI [of _ "s + slen ?x"])
  have t: "live st' = tl (live st)" unfolding L L' by simp
  have f: "g_arena st' = Some a" "g_cap st' = g_cap st" "g_slots st' = g_slots st" "g_next_id st' = g_next_id st"
    "g_write st' = g_write st" "g_footprint st' = g_footprint st" by (simp_all add: st'_def a)
  have "evlog st' = tl (evlog st)" unfolding evlog_Some [OF a] evlog_Some [OF f(1)] t by (rule map_tl)
  then show thesis using that e ok' t f by blast
qed

fun note_times :: "nat \<Rightarrow> sh_t \<Rightarrow> sh_t" where
  "note_times 0 h = h"
| "note_times (Suc n) h = note_times n (sh_evict_note SH_EVICT_EVIDENCE_FRAME h)"

lemma make_room_suffix: "\<exists>k \<le> length xs. make_room slots cap store xs = drop k xs"
proof (induction xs)
  case (Cons e es)
  then obtain k where "k \<le> length es" "make_room slots cap store es = drop k es" by blast
  then show ?case by (cases "length (e # es) = slots \<or> log_bytes (e # es) + store > cap")
      (auto intro: exI [of _ "Suc k"] exI [of _ 0])
qed simp

lemma evict_loop_spec:
  assumes "er_ok st" "g_arena st = Some a" "store \<le> g_cap st"
  shows "\<exists>st'. evict_loop store st h
       = Some (st', note_times (g_count st - length (make_room (g_slots st) (g_cap st) store (evlog st))) h)
     \<and> er_ok st' \<and> evlog st' = make_room (g_slots st) (g_cap st) store (evlog st)
     \<and> g_count st' < g_slots st \<and> g_used st' + store \<le> g_cap st
     \<and> g_arena st' = Some a \<and> g_cap st' = g_cap st \<and> g_slots st' = g_slots st \<and> g_next_id st' = g_next_id st
     \<and> g_footprint st' = g_footprint st"
  using assms
proof (induction "g_count st" arbitrary: st h)
  case 0
  note o = er_okD [OF 0(2,3)]
  have "live st = []" using 0(1) by (simp add: live_def)
  then show ?case using 0 o by (subst evict_loop.simps) (auto simp: evlog_def)
next
  case (Suc n)
  note o = er_okD [OF Suc.prems(1,2)]
  have len: "length (evlog st) = g_count st" by (rule length_evlog [OF Suc.prems(1)])
  have used: "log_bytes (evlog st) = g_used st" unfolding evlog_Some [OF Suc.prems(2)] log_bytes_live o(8) ..
  obtain e es where l: "evlog st = e # es" using len Suc.hyps(2) by (cases "evlog st") auto
  let ?full = "g_count st = g_slots st \<or> g_used st + store > g_cap st"
  have mr: "make_room (g_slots st) (g_cap st) store (evlog st) = (if ?full
      then make_room (g_slots st) (g_cap st) store es else e # es)"
    using len used unfolding l by (simp only: make_room.simps)
  show ?case
  proof (cases ?full)
    case False
    then have "evict_loop store st h = Some (st, h)" by (subst evict_loop.simps) simp
    moreover have "g_count st - length (e # es) = 0" using len l by simp
    ultimately show ?thesis using False Suc.prems o(7) mr l by simp
  next
    case True
    obtain st1 where 1: "evict_oldest_locked st h = Some (st1, sh_evict_note SH_EVICT_EVIDENCE_FRAME h)"
      "er_ok st1" "live st1 = tl (live st)" "evlog st1 = tl (evlog st)" "g_arena st1 = Some a"
      "g_cap st1 = g_cap st" "g_slots st1 = g_slots st" "g_next_id st1 = g_next_id st"
      "g_footprint st1 = g_footprint st"
      by (rule evict_ok [OF Suc.prems(1,2), of h]) (use Suc.hyps(2) in auto)
    have c: "n = g_count st1" using Suc.hyps(2) 1(3) by (metis length_live length_tl diff_Suc_1)
    have e: "evict_loop store st h = evict_loop store st1 (sh_evict_note SH_EVICT_EVIDENCE_FRAME h)"
      using True 1(1) by (subst evict_loop.simps) simp
    obtain k where "k \<le> length es" "make_room (g_slots st) (g_cap st) store es = drop k es"
      using make_room_suffix by blast
    moreover have "length es = n" using len l Suc.hyps(2) by simp
    ultimately have m: "g_count st - length (make_room (g_slots st) (g_cap st) store es)
        = Suc (n - length (make_room (g_slots st) (g_cap st) store es))" using Suc.hyps(2) by simp
    have "evlog st1 = es" using 1(4) l by simp
    then show ?thesis
      using Suc.hyps(1) [OF c 1(2,5), of "sh_evict_note SH_EVICT_EVIDENCE_FRAME h"] Suc.prems(3) 1(6-9) True m c
      unfolding e mr by simp
  qed
qed

subsection \<open>Appending a record\<close>

lemma payload_kept:
  assumes L: "offs_ok cap s L" "x \<in> set L" and room: "sum_list (map slen L) + store \<le> cap"
    and a: "length a = cap" "length a' = cap" "0 < cap"
    "\<And>p. p < cap \<Longrightarrow> a' ! p = (let q = (p + cap - (s + sum_list (map slen L)) mod cap) mod cap
        in if q < store then frame ! q else a ! p)"
  shows "payload a' x = payload a x"
  unfolding payload_def
proof (rule circ_cong)
  fix i assume "i < slen x"
  then obtain p where p: "p < sum_list (map slen L)" "(sl_off x + i) mod cap = (s + p) mod cap"
    by (rule offs_ok_pos [OF L])
  have "((s + p) mod cap + cap - (s + sum_list (map slen L)) mod cap) mod cap = cap - sum_list (map slen L) + p"
    by (rule mod_behind) (use p room in simp_all)
  moreover have "\<not> cap - sum_list (map slen L) + p < store" using room by linarith
  ultimately have "a' ! ((s + p) mod cap) = a ! ((s + p) mod cap)"
    using a(3) a(4) [of "(s + p) mod cap"] unfolding Let_def by simp
  then show "a' ! ((sl_off x + i) mod length a') = a ! ((sl_off x + i) mod length a')"
    unfolding a(2) p(2) .
qed (use a in simp)

text \<open>The record a note writes, and the size it stores.\<close>

definition stored :: "u32 \<Rightarrow> nat" where "stored cap_len = min (unat cap_len) EVIDENCE_FRAME_MAX"

definition new_rec :: "u64 \<Rightarrow> u32 \<Rightarrow> u32 \<Rightarrow> time_t \<Rightarrow> int \<Rightarrow> u16 \<Rightarrow> 8 word \<Rightarrow> evidence_rec_t" where
  "new_rec eid cap_len orig_len ts_sec ts_usec freq sig =
     \<lparr>er_event_id = eid, er_ts_sec = ts_sec, er_ts_usec = ts_usec, er_orig_len = orig_len,
      er_cap_len = word_of_nat (stored cap_len), er_freq_mhz = freq, er_signal_dbm = sig,
      er_truncated = (stored cap_len < unat cap_len \<or> stored cap_len < unat orig_len)\<rparr>"

lemma stored_bounds: "stored cl \<le> 4096" "stored cl \<le> unat cl" "cl \<noteq> 0 \<Longrightarrow> 0 < stored cl"
  "unat (word_of_nat (stored cl) :: u32) = stored cl"
  by (simp_all add: stored_def unat_gt_0 unat_of_nat)

lemma live_push:
  assumes "g_count st < g_slots st" "length (g_meta st) = g_slots st" "g_slots st' = g_slots st"
    "g_tail st' = g_tail st" "g_count st' = g_count st + 1"
    "g_meta st' = (g_meta st)[(g_tail st + g_count st) mod g_slots st := x]"
  shows "live st' = live st @ [x]"
proof (rule nth_equalityI)
  fix j assume "j < length (live st')"
  then have j: "j \<le> g_count st" using assms(5) by simp
  have "(g_tail st + j) mod g_slots st \<noteq> (g_tail st + g_count st) mod g_slots st" if "j < g_count st"
    using that assms(1) by (intro mod_distinct) auto
  with j assms show "live st' ! j = (live st @ [x]) ! j"
    by (cases "j = g_count st") (simp_all add: live_nth nth_append)
qed (use assms in simp)

lemma append_ok:
  assumes ok: "er_ok st" and a: "g_arena st = Some a" and c: "g_count st < g_slots st"
    and room: "g_used st + store \<le> g_cap st" and fr: "store \<le> length frame"
    and x: "sl_off x = g_write st" "slen x = store" "er_event_id (sl_rec x) = g_next_id st + 1"
    and nw: "unat (g_next_id st) < 2 ^ 64 - 1"
  obtains a' st' where "circ_copy_in a (g_cap st) (g_write st) store frame = Some a'"
    "st' = st\<lparr>g_arena := Some a', g_meta := (g_meta st)[(g_tail st + g_count st) mod g_slots st := x],
        g_write := (g_write st + store) mod g_cap st, g_used := g_used st + store,
        g_count := g_count st + 1, g_next_id := g_next_id st + 1\<rparr>"
    "er_ok st'" "evlog st' = evlog st @ [(sl_rec x, take store frame)]"
proof -
  note o = er_okD [OF ok a]
  obtain s where s: "offs_ok (g_cap st) s (live st)" "g_write st = (s + g_used st) mod g_cap st" using o(10) by blast
  have w: "g_write st < g_cap st" using s(2) o(2) by simp
  obtain a' where a': "circ_copy_in a (g_cap st) (g_write st) store frame = Some a'" "length a' = g_cap st"
    "\<And>p. p < g_cap st \<Longrightarrow> a' ! p = (let q = (p + g_cap st - g_write st) mod g_cap st in if q < store then frame ! q else a ! p)"
    using circ_copy_in_spec [OF o(1) w _ fr] room by auto
  define st' where "st' = st\<lparr>g_arena := Some a', g_meta := (g_meta st)[(g_tail st + g_count st) mod g_slots st := x],
        g_write := (g_write st + store) mod g_cap st, g_used := g_used st + store,
        g_count := g_count st + 1, g_next_id := g_next_id st + 1\<rparr>"
  have ar: "g_arena st' = Some a'" by (simp add: st'_def)
  have L: "live st' = live st @ [x]" by (rule live_push [OF c o(3)]) (simp_all add: st'_def)
  have kept: "payload a' y = payload a y" if "y \<in> set (live st)" for y
    using o(2) a'(3) unfolding s(2) o(8)
    by (intro payload_kept [OF s(1) that _ o(1) a'(2)]) (use room o(8) in auto)
  have new: "payload a' x = take store frame"
    unfolding payload_def x by (rule circ_written [OF a'(2) w _ fr a'(3)]) (use room in auto)
  have nid: "unat (g_next_id st + 1) = unat (g_next_id st) + 1" using nw by (simp add: unat_word_ariths)
  have ids: "unat (er_event_id (sl_rec ((live st @ [x]) ! j))) + (g_count st + 1) = unat (g_next_id st + 1) + 1 + j"
    if "j < g_count st + 1" for j
    using o(12) [of j] that x(3) nid by (cases "j = g_count st") (simp_all add: nth_append)
  have "er_ok st'"
    unfolding er_ok_def L using o a' s x c room ids nid
    by (auto simp: st'_def offs_ok_append mod_add_left_eq add.assoc intro!: exI [of _ s])
  moreover have "evlog st' = evlog st @ [(sl_rec x, take store frame)]"
    unfolding evlog_Some [OF a] evlog_Some [OF ar] L using kept new by simp
  ultimately show thesis by (intro that [OF a'(1) st'_def])
qed

lemma note_spec:
  assumes ok: "er_ok st" and a: "g_arena st = Some a" and cl: "cap_len \<noteq> 0" "unat cap_len \<le> length frame"
    and nw: "unat (g_next_id st) < 2 ^ 64 - 1"
  shows "\<exists>st'. evidence_ring_note (Some frame) cap_len orig_len ts_sec ts_usec freq sig st h
       = Some (g_next_id st + 1, st', note_times (length (evlog st)
            - length (make_room (g_slots st) (g_cap st) (stored cap_len) (evlog st))) h)
     \<and> er_ok st' \<and> g_arena st' \<noteq> None \<and> g_next_id st' = g_next_id st + 1
     \<and> g_cap st' = g_cap st \<and> g_slots st' = g_slots st \<and> g_footprint st' = g_footprint st
     \<and> evlog st' = make_room (g_slots st) (g_cap st) (stored cap_len) (evlog st)
         @ [(new_rec (g_next_id st + 1) cap_len orig_len ts_sec ts_usec freq sig, take (stored cap_len) frame)]"
proof -
  have store: "(let store = unat cap_len; store = (if store > 4096 then 4096 else store)
      in if store > g_cap st then g_cap st else store) = stored cap_len"
    using er_okD(2) [OF ok a] by (auto simp: stored_def Let_def min_def)
  have le: "stored cap_len \<le> g_cap st" using er_okD(2) [OF ok a] stored_bounds(1) [of cap_len] by simp
  from evict_loop_spec [OF ok a le, of h] length_evlog [OF ok] obtain st1 where 1:
    "evict_loop (stored cap_len) st h = Some (st1, note_times (length (evlog st)
        - length (make_room (g_slots st) (g_cap st) (stored cap_len) (evlog st))) h)"
    "er_ok st1" "evlog st1 = make_room (g_slots st) (g_cap st) (stored cap_len) (evlog st)"
    "g_count st1 < g_slots st" "g_used st1 + stored cap_len \<le> g_cap st"
    "g_arena st1 = Some a" "g_cap st1 = g_cap st" "g_slots st1 = g_slots st" "g_next_id st1 = g_next_id st"
    "g_footprint st1 = g_footprint st" by auto
  define x where "x = \<lparr>sl_rec = new_rec (g_next_id st + 1) cap_len orig_len ts_sec ts_usec freq sig, sl_off = g_write st1\<rparr>"
  have h: "g_count st1 < g_slots st1" "g_used st1 + stored cap_len \<le> g_cap st1" "stored cap_len \<le> length frame"
    "sl_off x = g_write st1" "slen x = stored cap_len" "er_event_id (sl_rec x) = g_next_id st1 + 1"
    using 1 cl(2) stored_bounds(2) [of cap_len] stored_bounds(4) by (simp_all add: x_def new_rec_def slen_def)
  obtain a' st' where 2: "circ_copy_in a (g_cap st1) (g_write st1) (stored cap_len) frame = Some a'"
    "st' = st1\<lparr>g_arena := Some a', g_meta := (g_meta st1)[(g_tail st1 + g_count st1) mod g_slots st1 := x],
        g_write := (g_write st1 + stored cap_len) mod g_cap st1, g_used := g_used st1 + stored cap_len,
        g_count := g_count st1 + 1, g_next_id := g_next_id st1 + 1\<rparr>"
    "er_ok st'" "evlog st' = evlog st1 @ [(sl_rec x, take (stored cap_len) frame)]"
    by (rule append_ok [OF 1(2,6) h nw [folded 1(9)]], rule that)
  have "evidence_ring_note (Some frame) cap_len orig_len ts_sec ts_usec freq sig st h
       = Some (g_next_id st + 1, st', note_times (length (evlog st)
            - length (make_room (g_slots st) (g_cap st) (stored cap_len) (evlog st))) h)"
    unfolding evidence_ring_note_def option.case a store [unfolded Let_def] Let_def
    using cl(1) 1(1,9) 2(1,2) by (simp add: x_def new_rec_def)
  then show ?thesis using 1 2 by (auto simp: x_def)
qed

subsection \<open>Looking a record up\<close>

definition log_find :: "u64 \<Rightarrow> evlog_t \<Rightarrow> (evidence_rec_t \<times> bytes) option" where
  "log_find eid xs = find (\<lambda>(r, b). er_event_id r = eid) xs"

lemma get_spec:
  assumes ok: "er_ok st"
  shows "evidence_ring_get eid room st = Some (map_option
     (\<lambda>(r, b). (r, case room of None \<Rightarrow> [] | Some m \<Rightarrow> take m b)) (log_find eid (evlog st)))"
proof (cases "g_arena st = None \<or> g_count st = 0")
  case True
  then have "evlog st = []" using length_evlog [OF ok] by (auto simp: evlog_def)
  with True show ?thesis by (auto simp: evidence_ring_get_def log_find_def split: option.splits)
next
  case False
  then obtain a where a: "g_arena st = Some a" and n: "0 < g_count st" by auto
  note o = er_okD [OF ok a]
  have log: "evlog st = map (\<lambda>x. (sl_rec x, payload a x)) (live st)" by (rule evlog_Some [OF a])
  let ?id = "\<lambda>j. unat (er_event_id (sl_rec (live st ! j)))"
  define oldest where "oldest = er_event_id (sl_rec (g_meta st ! g_tail st))"
  have old: "oldest = er_event_id (sl_rec (live st ! 0))" using n o(6) by (simp add: oldest_def live_nth)
  have o0: "unat oldest + g_count st = unat (g_next_id st) + 1" using o(12) [OF n] by (simp add: old)
  have idj: "?id j = unat oldest + j" if "j < g_count st" for j using o(12) [OF that] o0 by linarith
  have pos: "0 < unat oldest" using o0 o(11) by linarith
  show ?thesis
  proof (cases "oldest \<le> eid \<and> eid \<le> g_next_id st")
    case False
    have "log_find eid (evlog st) = None"
    proof -
      have "er_event_id (sl_rec x) \<noteq> eid" if "x \<in> set (live st)" for x
      proof -
        from that obtain j where j: "j < g_count st" "x = live st ! j" by (auto simp: in_set_conv_nth)
        with idj [OF j(1)] o0 False show ?thesis by (auto simp: word_le_nat_alt)
      qed
      then show ?thesis by (auto simp: log_find_def log find_None_iff)
    qed
    moreover have "evidence_ring_get eid room st = Some None"
      using False a n o(3,6) by (auto simp: evidence_ring_get_def Let_def oldest_def [symmetric] not_le)
    ultimately show ?thesis by simp
  next
    case True
    define j where "j = unat eid - unat oldest"
    have j: "j < g_count st" "unat oldest + j = unat eid" using True o0 by (auto simp: j_def word_le_nat_alt)
    have uj: "unat (eid - oldest) = j" using True by (simp add: j_def unat_sub)
    have "unat (word_of_nat (g_tail st) + (eid - oldest) :: u64) = g_tail st + j"
      using uj j(1) o(5-7) by (simp add: unat_word_ariths unat_of_nat)
    then have k: "unat (word_of_nat (g_tail st) + (eid - oldest) :: u64) mod g_slots st = (g_tail st + j) mod g_slots st" by simp
    let ?x = "live st ! j"
    have x: "g_meta st ! ((g_tail st + j) mod g_slots st) = ?x" using j(1) by (simp add: live_nth)
    have eid: "er_event_id (sl_rec ?x) = eid" using idj [OF j(1)] j(2) by (simp add: word_unat_eq_iff)
    have find: "log_find eid (evlog st) = Some (sl_rec ?x, payload a ?x)"
      unfolding log_find_def find_Some_iff log
      by (rule exI [of _ j]) (use j(1) eid idj in \<open>auto simp: word_unat_eq_iff\<close>)
    obtain s where s: "offs_ok (g_cap st) s (live st)" using o(10) by blast
    have off: "sl_off ?x < g_cap st"
    proof -
      have "live st = take j (live st) @ ?x # drop (Suc j) (live st)" using j(1) by (simp add: id_take_nth_drop)
      with s have "offs_ok (g_cap st) s (take j (live st) @ ?x # drop (Suc j) (live st))" by simp
      with o(2) show ?thesis by (simp add: offs_ok_append)
    qed
    have len: "slen ?x \<le> g_cap st"
    proof -
      have "slen ?x \<in> set (map slen (live st))" using j(1) by simp
      from member_le_sum_list [OF this] o(8,9) show ?thesis by simp
    qed
    have ne: "eid \<noteq> 0" using True pos by (auto simp: word_le_nat_alt)
    have nl: "\<not> (eid < oldest \<or> eid > g_next_id st)" using True by auto
    have kl: "\<not> length (g_meta st) \<le> (g_tail st + j) mod g_slots st" using o(3,4) by (simp add: not_le)
    have copy: "circ_copy_out a (g_cap st) (sl_off ?x) m = Some (take m (payload a ?x))" if "m \<le> slen ?x" for m
      using circ_copy_out_spec [OF o(1) off, of m] len that by (simp add: payload_def take_circ min_absorb1)
    have z: "slen ?x = 0 \<Longrightarrow> payload a ?x = []" by (simp add: payload_def circ_def)
    show ?thesis
    proof (cases room)
      case None
      with a n ne nl kl o(3,6) find eid show ?thesis
        by (simp add: evidence_ring_get_def Let_def oldest_def [symmetric] k x)
    next
      case (Some m)
      have tk: "take (if slen ?x > m then m else slen ?x) (payload a ?x) = take m (payload a ?x)"
        by (simp add: payload_def take_circ min_def)
      have "evidence_ring_get eid room st = (let want = (if slen ?x > m then m else slen ?x) in
          if want > 0 then do { b \<leftarrow> circ_copy_out a (g_cap st) (sl_off ?x) want; Some (Some (sl_rec ?x, b)) }
          else Some (Some (sl_rec ?x, [])))"
        using Some a n ne nl kl o(3,6) eid
        by (simp add: evidence_ring_get_def Let_def oldest_def [symmetric] k x slen_def)
      also have "\<dots> = Some (Some (sl_rec ?x, take m (payload a ?x)))"
        using copy tk z by (auto simp: Let_def)
      finally show ?thesis unfolding find Some by simp
    qed
  qed
qed

subsection \<open>Every state the module can be in\<close>

text \<open>
  One call. A note is given the octets it was promised; the id counter has not run through
  all 64 bits.
\<close>

inductive evring_step :: "evring_t \<Rightarrow> evring_t \<Rightarrow> bool" where
  init_step: "\<forall>n. length (fresh n) = n \<Longrightarrow> evidence_ring_init alloc fresh budget st = (r, st') \<Longrightarrow> evring_step st st'"
| default_step: "\<forall>n. length (fresh n) = n \<Longrightarrow> evidence_ring_init_default alloc fresh meminfo st = (r, st') \<Longrightarrow> evring_step st st'"
| shutdown_step: "evring_step st (evidence_ring_shutdown st)"
| reset_step: "evring_step st (evidence_ring_reset st)"
| note_step: "buf_ok frame (uint cap_len) \<Longrightarrow> unat (g_next_id st) < 2 ^ 64 - 1
    \<Longrightarrow> evidence_ring_note frame cap_len orig_len ts_sec ts_usec freq sig st h = Some (r, st', h')
    \<Longrightarrow> evring_step st st'"

abbreviation evring_later :: "evring_t \<Rightarrow> evring_t \<Rightarrow> bool" where "evring_later \<equiv> evring_step\<^sup>*\<^sup>*"

lemma init_split:
  fixes b :: nat
  assumes "8192 \<le> b"
  shows "0 < b div 560" "b div 560 * 48 < b" "4096 \<le> b - b div 560 * 48"
proof -
  have "b div 560 * 560 \<le> b" by simp
  with assms show "b div 560 * 48 < b" "4096 \<le> b - b div 560 * 48" by linarith+
  show "0 < b div 560" using assms by (simp add: div_greater_zero_iff)
qed

lemma init_cases:
  "evidence_ring_init alloc fresh budget st =
     (if 8192 \<le> unat budget \<and> alloc
      then (0, \<lparr>g_arena = Some (fresh (unat budget - unat budget div 560 * 48)),
          g_cap = unat budget - unat budget div 560 * 48, g_used = 0, g_write = 0,
          g_meta = replicate (unat budget div 560) slot_zero, g_slots = unat budget div 560, g_tail = 0,
          g_count = 0, g_footprint = unat budget, g_next_id = g_next_id st\<rparr>)
      else (-1, st))"
proof (cases "8192 \<le> unat budget")
  case True
  note s = init_split [OF True]
  have "evidence_ring_init alloc fresh budget st = (if \<not> alloc then (-1, st) else
      (0, (ring_free_locked st)\<lparr>g_arena := Some (fresh (unat budget - unat budget div 560 * 48)),
          g_cap := unat budget - unat budget div 560 * 48, g_meta := replicate (unat budget div 560) slot_zero,
          g_slots := unat budget div 560, g_footprint := unat budget - unat budget div 560 * 48 + unat budget div 560 * 48\<rparr>))"
    using True s by (simp add: evidence_ring_init_def Let_def not_less)
  then show ?thesis using True s(2) by (simp add: ring_free_locked_def)
qed (simp add: evidence_ring_init_def Let_def)

lemma live_empty: "g_count st = 0 \<Longrightarrow> live st = []" by (simp add: live_def)

lemma init_ok:
  assumes "er_ok st" "\<forall>n. length (fresh n) = n" "evidence_ring_init alloc fresh budget st = (r, st')"
  shows "er_ok st'" "g_next_id st' = g_next_id st" "evlog st' = [] \<or> st' = st"
proof -
  let ?ini = "\<lparr>g_arena = Some (fresh (unat budget - unat budget div 560 * 48)),
          g_cap = unat budget - unat budget div 560 * 48, g_used = 0, g_write = 0,
          g_meta = replicate (unat budget div 560) slot_zero, g_slots = unat budget div 560, g_tail = 0,
          g_count = 0, g_footprint = unat budget, g_next_id = g_next_id st\<rparr>"
  have "er_ok ?ini" if b: "8192 \<le> unat budget"
  proof -
    have "unat budget < 2 ^ 64" using unsigned_less [of budget] by simp
    then have "unat budget div 560 < 2 ^ 60" by (simp add: less_mult_imp_div_less)
    with init_split [OF b] assms(2) show ?thesis
      by (auto simp: er_ok_def live_empty intro!: exI [of _ 0])
  qed
  moreover have "evlog ?ini = []" by (simp add: evlog_def live_empty)
  ultimately show "er_ok st'" "g_next_id st' = g_next_id st" "evlog st' = [] \<or> st' = st"
    using assms(1,3) unfolding init_cases by (auto split: if_splits)
qed

lemma free_ok: "er_ok (ring_free_locked st)" "evlog (ring_free_locked st) = []"
  "g_next_id (ring_free_locked st) = g_next_id st"
  by (simp_all add: er_ok_def ring_free_locked_def evlog_def)

lemma reset_ok:
  assumes "er_ok st"
  shows "er_ok (evidence_ring_reset st)" "evlog (evidence_ring_reset st) = []"
    "g_next_id (evidence_ring_reset st) = g_next_id st"
proof -
  have l: "live (evidence_ring_reset st) = []" by (simp add: evidence_ring_reset_def live_empty)
  then show "evlog (evidence_ring_reset st) = []" by (auto simp: evlog_def split: option.splits)
  show "er_ok (evidence_ring_reset st)"
    using assms unfolding er_ok_def l
    by (auto simp: evidence_ring_reset_def split: option.splits intro!: exI [of _ 0])
qed (simp add: evidence_ring_reset_def)

lemma note_ok:
  assumes ok: "er_ok st" and b: "buf_ok frame (uint cap_len)" and nw: "unat (g_next_id st) < 2 ^ 64 - 1"
  shows "\<exists>r st' h'. evidence_ring_note frame cap_len orig_len ts_sec ts_usec freq sig st h = Some (r, st', h') \<and> er_ok st'
     \<and> (st' = st \<or> g_next_id st' = g_next_id st + 1
         \<and> (\<exists>k r b. evlog st' = drop k (evlog st) @ [(r, b)] \<and> er_event_id r = g_next_id st'))"
proof (cases "frame = None \<or> cap_len = 0 \<or> g_arena st = None")
  case True
  then show ?thesis using ok by (auto simp: evidence_ring_note_def split: option.split)
next
  case False
  then obtain fr a where fa: "frame = Some fr" "g_arena st = Some a" "cap_len \<noteq> 0" by auto
  have "unat cap_len \<le> length fr" using b unfolding fa(1) unat_eq_nat_uint by (simp only: nat_le_iff buf_ok.simps)
  from note_spec [OF ok fa(2,3) this nw, of orig_len ts_sec ts_usec freq sig h] obtain r st' h' where
    "evidence_ring_note (Some fr) cap_len orig_len ts_sec ts_usec freq sig st h = Some (r, st', h')" "er_ok st'"
    "g_next_id st' = g_next_id st + 1" "evlog st' = make_room (g_slots st) (g_cap st) (stored cap_len) (evlog st)
       @ [(new_rec (g_next_id st + 1) cap_len orig_len ts_sec ts_usec freq sig, take (stored cap_len) fr)]"
    by (elim exE conjE) (erule that)
  moreover obtain k where "make_room (g_slots st) (g_cap st) (stored cap_len) (evlog st) = drop k (evlog st)"
    using make_room_suffix by blast
  moreover have "er_event_id (new_rec i cap_len orig_len ts_sec ts_usec freq sig) = i" for i by (simp add: new_rec_def)
  ultimately show ?thesis unfolding fa(1) by metis
qed

lemma evring_step_ok:
  assumes "evring_step st st'" "er_ok st"
  shows "er_ok st' \<and> (g_next_id st' = g_next_id st \<and> (evlog st' = [] \<or> evlog st' = evlog st)
     \<or> unat (g_next_id st') = unat (g_next_id st) + 1
         \<and> (\<exists>k r b. evlog st' = drop k (evlog st) @ [(r, b)] \<and> er_event_id r = g_next_id st'))"
  using assms
proof (induction rule: evring_step.induct)
  case (init_step fresh alloc budget st r st')
  from init_ok [OF init_step(3,1,2)] show ?case by auto
next
  case (default_step fresh alloc meminfo st r st')
  show ?case
  proof (cases "g_arena st")
    case None
    with default_step have "evidence_ring_init alloc fresh (evidence_budget_from_meminfo meminfo) st = (r, st')"
      by (simp add: evidence_ring_init_default_def)
    from init_ok [OF default_step(3,1) this] show ?thesis by auto
  qed (use default_step in \<open>simp add: evidence_ring_init_default_def\<close>)
next
  case (shutdown_step st)
  show ?case using free_ok by (simp add: evidence_ring_shutdown_def)
next
  case (reset_step st)
  with reset_ok show ?case by blast
next
  case (note_step frame cap_len st orig_len ts_sec ts_usec freq sig h r st' h')
  have "unat (g_next_id st + 1) = unat (g_next_id st) + 1" using note_step(2) by (simp add: unat_word_ariths)
  with note_ok [OF note_step(4,1,2), of orig_len ts_sec ts_usec freq sig h] note_step(3) show ?case by auto
qed

lemma evring_later_ok: "evring_later st st' \<Longrightarrow> er_ok st \<Longrightarrow> er_ok st'"
  by (induction rule: rtranclp_induct) (auto dest: evring_step_ok)

lemma evring_boot_ok: "er_ok evring_boot" by (simp add: er_ok_def evring_boot_def)

subsection \<open>An id is never reused\<close>

lemma log_find_drop: "distinct (map (er_event_id \<circ> fst) xs) \<Longrightarrow> log_find eid (drop k xs) \<in> {log_find eid xs, None}"
proof (induction xs arbitrary: k)
  case (Cons x xs)
  show ?case
  proof (cases k)
    case (Suc m)
    have "log_find eid (drop m xs) = None" if "er_event_id (fst x) = eid"
    proof -
      have "eid \<notin> (er_event_id \<circ> fst) ` set xs" using Cons.prems that by simp
      then have "\<forall>y \<in> set xs. er_event_id (fst y) \<noteq> eid" by (metis comp_apply image_eqI)
      then have "\<forall>y \<in> set (drop m xs). er_event_id (fst y) \<noteq> eid" using set_drop_subset [of m xs] by blast
      then show ?thesis by (auto simp: log_find_def find_None_iff)
    qed
    with Cons Suc show ?thesis by (cases "er_event_id (fst x) = eid") (auto simp: log_find_def case_prod_unfold)
  qed simp
qed (simp add: log_find_def)

lemma log_find_append:
  "log_find eid (xs @ ys) = (case log_find eid xs of None \<Rightarrow> log_find eid ys | Some e \<Rightarrow> Some e)"
  by (induction xs) (auto simp: log_find_def)

lemma log_ids:
  assumes ok: "er_ok st"
  shows "distinct (map (er_event_id \<circ> fst) (evlog st))"
    "\<forall>e \<in> set (evlog st). er_event_id (fst e) \<noteq> 0 \<and> er_event_id (fst e) \<le> g_next_id st"
proof -
  have "distinct (map (er_event_id \<circ> fst) (evlog st))
    \<and> (\<forall>e \<in> set (evlog st). er_event_id (fst e) \<noteq> 0 \<and> er_event_id (fst e) \<le> g_next_id st)"
  proof (cases "g_arena st")
    case (Some a)
    note o = er_okD [OF ok Some]
    have u: "unat (er_event_id (sl_rec (live st ! j))) = unat (g_next_id st) + 1 + j - g_count st" if "j < g_count st" for j
      using o(12) [OF that] by linarith
    have "distinct (map (er_event_id \<circ> fst) (evlog st))"
      unfolding evlog_Some [OF Some] distinct_conv_nth
    proof (intro allI impI)
      fix i j assume ij: "i < length (map (er_event_id \<circ> fst) (map (\<lambda>x. (sl_rec x, payload a x)) (live st)))"
        "j < length (map (er_event_id \<circ> fst) (map (\<lambda>x. (sl_rec x, payload a x)) (live st)))" "i \<noteq> j"
      then have "unat (er_event_id (sl_rec (live st ! i))) \<noteq> unat (er_event_id (sl_rec (live st ! j)))"
        using u o(11) by simp
      with ij show "map (er_event_id \<circ> fst) (map (\<lambda>x. (sl_rec x, payload a x)) (live st)) ! i
          \<noteq> map (er_event_id \<circ> fst) (map (\<lambda>x. (sl_rec x, payload a x)) (live st)) ! j" by auto
    qed
    moreover have "er_event_id (sl_rec x) \<noteq> 0 \<and> er_event_id (sl_rec x) \<le> g_next_id st" if "x \<in> set (live st)" for x
    proof -
      from that obtain j where "j < g_count st" "x = live st ! j" by (auto simp: in_set_conv_nth)
      with u [of j] o(11) show ?thesis by (auto simp: word_le_nat_alt)
    qed
    ultimately show ?thesis unfolding evlog_Some [OF Some] by auto
  qed (simp add: evlog_def)
  then show "distinct (map (er_event_id \<circ> fst) (evlog st))"
    "\<forall>e \<in> set (evlog st). er_event_id (fst e) \<noteq> 0 \<and> er_event_id (fst e) \<le> g_next_id st" by auto
qed

text \<open>What was noted is found under its id.\<close>

lemma note_got:
  assumes ok: "er_ok st" and a: "g_arena st = Some a" and cl: "cap_len \<noteq> 0" "unat cap_len \<le> length frame"
    and nw: "unat (g_next_id st) < 2 ^ 64 - 1"
  shows "\<exists>st1 h1. evidence_ring_note (Some frame) cap_len orig_len ts_sec ts_usec freq sig st h = Some (g_next_id st + 1, st1, h1)
     \<and> er_ok st1 \<and> g_next_id st1 = g_next_id st + 1 \<and> unat (g_next_id st + 1) = unat (g_next_id st) + 1
     \<and> log_find (g_next_id st + 1) (evlog st1)
       = Some (new_rec (g_next_id st + 1) cap_len orig_len ts_sec ts_usec freq sig, take (stored cap_len) frame)"
proof -
  from note_spec [OF ok a cl nw, of orig_len ts_sec ts_usec freq sig h] obtain st1 h1 where 1:
    "evidence_ring_note (Some frame) cap_len orig_len ts_sec ts_usec freq sig st h = Some (g_next_id st + 1, st1, h1)"
    "er_ok st1" "g_next_id st1 = g_next_id st + 1"
    "evlog st1 = make_room (g_slots st) (g_cap st) (stored cap_len) (evlog st)
         @ [(new_rec (g_next_id st + 1) cap_len orig_len ts_sec ts_usec freq sig, take (stored cap_len) frame)]"
    by (elim exE conjE) (erule that)
  let ?eid = "g_next_id st + 1"
  have u: "unat ?eid = unat (g_next_id st) + 1" using nw by (simp add: unat_word_ariths)
  obtain k where k: "make_room (g_slots st) (g_cap st) (stored cap_len) (evlog st) = drop k (evlog st)"
    using make_room_suffix by blast
  have "\<forall>e \<in> set (evlog st). er_event_id (fst e) \<noteq> ?eid"
    using log_ids(2) [OF ok] u by (auto simp: word_le_nat_alt)
  then have "\<forall>e \<in> set (drop k (evlog st)). er_event_id (fst e) \<noteq> ?eid" using set_drop_subset [of k "evlog st"] by blast
  then have "log_find ?eid (drop k (evlog st)) = None" by (auto simp: log_find_def find_None_iff)
  then have "log_find ?eid (evlog st1) = Some (new_rec ?eid cap_len orig_len ts_sec ts_usec freq sig, take (stored cap_len) frame)"
    unfolding 1(4) k log_find_append by (simp add: log_find_def new_rec_def)
  with 1 u show ?thesis by blast
qed

lemma later_find:
  assumes "evring_later st st'" "er_ok st" "unat eid \<le> unat (g_next_id st)"
  shows "unat (g_next_id st) \<le> unat (g_next_id st') \<and> log_find eid (evlog st') \<in> {log_find eid (evlog st), None}"
  using assms
proof (induction rule: rtranclp_induct)
  case (step st1 st2)
  have ok1: "er_ok st1" by (rule evring_later_ok [OF step(1,4)])
  have ih: "unat (g_next_id st) \<le> unat (g_next_id st1)" "log_find eid (evlog st1) \<in> {log_find eid (evlog st), None}"
    using step by auto
  from evring_step_ok [OF step(2) ok1] show ?case
  proof (elim conjE disjE exE)
    fix k r b assume n: "unat (g_next_id st2) = unat (g_next_id st1) + 1"
      and l: "evlog st2 = drop k (evlog st1) @ [(r, b)]" and r: "er_event_id r = g_next_id st2"
    have "er_event_id r \<noteq> eid" using r n step(5) ih(1) by auto
    then have "log_find eid (evlog st2) = log_find eid (drop k (evlog st1))"
      unfolding l log_find_append by (simp add: log_find_def split: option.split)
    with log_find_drop [OF log_ids(1) [OF ok1], of eid k] ih n show ?thesis by auto
  qed (use ih in \<open>auto simp: log_find_def\<close>)
qed simp

section \<open>Properties\<close>

text \<open>
  C4: The arena and its metadata ring are a bounded FIFO. In every state that can be reached,
  a lookup by id is the lookup in the list of retained records, with the octets up to the
  room offered; a note drops just as many of the oldest records as room needs, tallying each,
  and appends the new one with its first 4096 octets; and the counters the module reports are
  those of the list, within the capacity. No operation leaves the arena or the frame.
\<close>

theorem evidence_ring_refines_fifo:
  assumes "evring_later evring_boot st"
  shows "evidence_ring_get eid room st = Some (map_option
       (\<lambda>(r, b). (r, case room of None \<Rightarrow> [] | Some m \<Rightarrow> take m b)) (log_find eid (evlog st)))
   \<and> evidence_ring_count st = int (length (evlog st)) \<and> evidence_ring_bytes_used st = log_bytes (evlog st)
   \<and> evidence_ring_bytes_used st \<le> evidence_ring_capacity st
   \<and> evlog (evidence_ring_reset st) = [] \<and> evlog (evidence_ring_shutdown st) = []
   \<and> (g_arena st \<noteq> None \<and> cap_len \<noteq> 0 \<and> unat cap_len \<le> length frame \<and> unat (evidence_ring_last_id st) < 2 ^ 64 - 1
      \<longrightarrow> (\<exists>st'. evidence_ring_note (Some frame) cap_len orig_len ts_sec ts_usec freq sig st h
           = Some (evidence_ring_last_id st + 1, st', note_times (length (evlog st)
               - length (make_room (g_slots st) (g_cap st) (stored cap_len) (evlog st))) h)
         \<and> evlog st' = make_room (g_slots st) (g_cap st) (stored cap_len) (evlog st)
           @ [(new_rec (evidence_ring_last_id st + 1) cap_len orig_len ts_sec ts_usec freq sig, take (stored cap_len) frame)]))"
proof -
  have ok: "er_ok st" by (rule evring_later_ok [OF assms evring_boot_ok])
  have c: "g_used st = log_bytes (evlog st)" "g_used st \<le> g_cap st"
  proof -
    have "g_used st = log_bytes (evlog st) \<and> g_used st \<le> g_cap st"
    proof (cases "g_arena st")
      case None
      with ok show ?thesis by (simp add: er_ok_def evlog_def log_bytes_def)
    next
      case (Some a)
      with er_okD(8,9) [OF ok Some] show ?thesis by (simp add: evlog_Some log_bytes_live)
    qed
    then show "g_used st = log_bytes (evlog st)" "g_used st \<le> g_cap st" by simp_all
  qed
  have n: "\<exists>st'. evidence_ring_note (Some frame) cap_len orig_len ts_sec ts_usec freq sig st h
           = Some (g_next_id st + 1, st', note_times (length (evlog st)
               - length (make_room (g_slots st) (g_cap st) (stored cap_len) (evlog st))) h)
         \<and> evlog st' = make_room (g_slots st) (g_cap st) (stored cap_len) (evlog st)
           @ [(new_rec (g_next_id st + 1) cap_len orig_len ts_sec ts_usec freq sig, take (stored cap_len) frame)]"
    if "g_arena st \<noteq> None \<and> cap_len \<noteq> 0 \<and> unat cap_len \<le> length frame \<and> unat (g_next_id st) < 2 ^ 64 - 1"
  proof -
    from that obtain a where a: "g_arena st = Some a" "cap_len \<noteq> 0" "unat cap_len \<le> length frame"
      "unat (g_next_id st) < 2 ^ 64 - 1" by blast
    from note_spec [OF ok a, of orig_len ts_sec ts_usec freq sig h] show ?thesis by blast
  qed
  show ?thesis
    unfolding evidence_ring_count_def evidence_ring_bytes_used_def evidence_ring_capacity_def
      evidence_ring_last_id_def evidence_ring_shutdown_def
    using get_spec [OF ok] length_evlog [OF ok] c reset_ok(2) [OF ok] free_ok(2) n by simp
qed

definition sample_init :: "nat \<Rightarrow> bytes" where "sample_init n = replicate n 0"

definition sample_ring :: evring_t where
  "sample_ring = snd (evidence_ring_init True sample_init 8192 evring_boot)"

lemma sample_ring_reached: "evring_later evring_boot sample_ring" "g_arena sample_ring \<noteq> None"
  "evlog sample_ring = []" "g_next_id sample_ring = 0" "g_slots sample_ring = 14" "g_cap sample_ring = 7520"
proof -
  have i: "evidence_ring_init True sample_init 8192 evring_boot = (0, sample_ring)"
    unfolding sample_ring_def init_cases by simp
  then show "evring_later evring_boot sample_ring"
    by (intro r_into_rtranclp init_step [of sample_init]) (simp add: sample_init_def)
qed (simp_all add: sample_ring_def init_cases evlog_def live_empty evring_boot_def)

lemma evidence_ring_refines_fifo_witness:
  "\<exists>st' h'. evidence_ring_note (Some [1, 2, 3]) 3 5 9 0 2437 0xc8 sample_ring sh_init = Some (1, st', h')
     \<and> evlog st' = [(new_rec 1 3 5 9 0 2437 0xc8, [1, 2, 3])]"
proof -
  have "unat (3 :: u32) = 3" by simp
  then show ?thesis
    using evidence_ring_refines_fifo [OF sample_ring_reached(1), of 1 None 3 "[1, 2, 3]" 5 9 0 2437 "0xc8" sh_init]
    by (auto simp: sample_ring_reached(2-) evidence_ring_last_id_def stored_def)
qed

text \<open>
  C18: An event id names one frame for ever. Noting a frame returns an id that was never
  issued before; the record it names at once holds exactly the first 4096 octets of that
  frame, is flagged truncated exactly when they are not all of it, and at any later time,
  across resets and re-initialisations too, the id gives back that record or nothing.
\<close>

theorem evidence_id_names_one_frame:
  assumes reach: "evring_later evring_boot st" and a: "g_arena st \<noteq> None" and cl: "cap_len \<noteq> 0"
    and fr: "unat cap_len \<le> length frame" and nw: "unat (evidence_ring_last_id st) < 2 ^ 64 - 1"
  shows "\<exists>eid st1 h1 rec. evidence_ring_note (Some frame) cap_len orig_len ts_sec ts_usec freq sig st h = Some (eid, st1, h1)
     \<and> eid \<noteq> 0 \<and> (\<forall>old room. unat old \<le> unat (evidence_ring_last_id st) \<longrightarrow> old \<noteq> eid)
     \<and> (er_truncated rec \<longleftrightarrow> unat cap_len > 4096 \<or> min (unat cap_len) 4096 < unat orig_len)
     \<and> unat (er_cap_len rec) = min (unat cap_len) 4096
     \<and> evidence_ring_get eid (Some m) st1 = Some (Some (rec, take m (take (min (unat cap_len) 4096) frame)))
     \<and> (\<forall>st2. evring_later st1 st2 \<longrightarrow> evidence_ring_get eid (Some m) st2
          \<in> {Some (Some (rec, take m (take (min (unat cap_len) 4096) frame))), Some None})"
proof -
  have ok: "er_ok st" by (rule evring_later_ok [OF reach evring_boot_ok])
  from a obtain ar where ar: "g_arena st = Some ar" by blast
  note nw' = nw [unfolded evidence_ring_last_id_def]
  let ?eid = "g_next_id st + 1" and ?rec = "new_rec (g_next_id st + 1) cap_len orig_len ts_sec ts_usec freq sig"
  from note_got [OF ok ar cl fr nw', of orig_len ts_sec ts_usec freq sig h] obtain st1 h1 where 1:
    "evidence_ring_note (Some frame) cap_len orig_len ts_sec ts_usec freq sig st h = Some (?eid, st1, h1)"
    "er_ok st1" "g_next_id st1 = ?eid" and u: "unat ?eid = unat (g_next_id st) + 1"
    and f: "log_find ?eid (evlog st1) = Some (?rec, take (stored cap_len) frame)"
    by (elim exE conjE) (erule that)
  have later: "log_find ?eid (evlog st2) \<in> {Some (?rec, take (stored cap_len) frame), None}" "er_ok st2"
    if "evring_later st1 st2" for st2
    using later_find [OF that 1(2), of ?eid] 1(3) f evring_later_ok [OF that 1(2)] by simp_all
  have g: "evidence_ring_get ?eid (Some m) st2
      \<in> {Some (Some (?rec, take m (take (min (unat cap_len) 4096) frame))), Some None}" if "evring_later st1 st2" for st2
    using later [OF that] get_spec [OF later(2) [OF that], of ?eid "Some m"] by (auto simp: stored_def)
  show ?thesis
  proof (intro exI conjI)
    show "evidence_ring_note (Some frame) cap_len orig_len ts_sec ts_usec freq sig st h = Some (?eid, st1, h1)" by (rule 1(1))
    show "?eid \<noteq> 0" using u by auto
    show "\<forall>old room. unat old \<le> unat (evidence_ring_last_id st) \<longrightarrow> old \<noteq> ?eid"
      using u by (auto simp: evidence_ring_last_id_def)
    show "er_truncated ?rec \<longleftrightarrow> unat cap_len > 4096 \<or> min (unat cap_len) 4096 < unat orig_len"
      by (auto simp: new_rec_def stored_def)
    show "unat (er_cap_len ?rec) = min (unat cap_len) 4096"
      using stored_bounds(4) [of cap_len] by (simp add: new_rec_def stored_def)
    show "evidence_ring_get ?eid (Some m) st1 = Some (Some (?rec, take m (take (min (unat cap_len) 4096) frame)))"
      using get_spec [OF 1(2), of ?eid "Some m"] f by (simp add: stored_def)
    show "\<forall>st2. evring_later st1 st2 \<longrightarrow> evidence_ring_get ?eid (Some m) st2
          \<in> {Some (Some (?rec, take m (take (min (unat cap_len) 4096) frame))), Some None}" using g by blast
  qed
qed

lemma evidence_id_names_one_frame_witness:
  "\<exists>eid st1 h1 rec. evidence_ring_note (Some [1, 2, 3]) 3 5 9 0 2437 0xc8 sample_ring sh_init = Some (eid, st1, h1)
     \<and> er_truncated rec \<and> evidence_ring_get eid (Some 2) st1 = Some (Some (rec, [1, 2]))"
proof -
  have "unat (3 :: u32) = 3" "unat (5 :: u32) = 5" by simp_all
  then show ?thesis
    using evidence_id_names_one_frame [OF sample_ring_reached(1,2), of 3 "[1, 2, 3]" 5 9 0 2437 "0xc8" sh_init 2]
    by (simp add: sample_ring_reached(4) evidence_ring_last_id_def) blast
qed

text \<open>
  The memory budget holds. Whatever /proc/meminfo says, the budget derived from it lies
  between 2 and 32 MiB and is otherwise one per cent of the memory in whole kilobytes; a
  budget is refused below 8192 bytes and only then (or when the allocation fails); and what
  is allocated, arena and metadata together, is exactly the budget, with an arena that holds
  a frame of maximal size.
\<close>

theorem evidence_budget_respected:
  "let b = evidence_budget_from_meminfo file in 2 * 1024 * 1024 \<le> uint b \<and> uint b \<le> 32 * 1024 * 1024
     \<and> uint (evidence_budget_from_mem_kb kb) = max (2 * 1024 * 1024) (min (32 * 1024 * 1024) (uint kb div 100 * 1024))
     \<and> (fst (evidence_ring_init alloc fresh budget st) = (if 8192 \<le> unat budget \<and> alloc then 0 else -1))
     \<and> (let (r, st') = evidence_ring_init alloc fresh budget st
        in if r = 0 then evidence_ring_footprint st' = unat budget \<and> 4096 \<le> evidence_ring_capacity st'
             \<and> evidence_ring_capacity st' \<le> unat budget
           else st' = st)"
proof -
  have kb: "uint (evidence_budget_from_mem_kb kb) = max (2 * 1024 * 1024) (min (32 * 1024 * 1024) (uint kb div 100 * 1024))" for kb
  proof (cases "uint kb div 100 > 32768")
    case True
    then show ?thesis by (simp add: evidence_budget_from_mem_kb_def Let_def word_less_def uint_div)
  next
    case False
    have "0 \<le> uint kb div 100" by (simp add: div_int_pos_iff)
    with False have "uint kb div 100 * 1024 mod 18446744073709551616 = uint kb div 100 * 1024"
      by (intro mod_pos_pos_trivial) auto
    then have "uint (kb div 100 * 1024) = uint kb div 100 * 1024" by (simp add: uint_word_ariths uint_div)
    with False show ?thesis
      by (simp add: evidence_budget_from_mem_kb_def Let_def word_less_def uint_div min_def max_def)
  qed
  have b: "2 * 1024 * 1024 \<le> uint (evidence_budget_from_meminfo file) \<and> uint (evidence_budget_from_meminfo file) \<le> 32 * 1024 * 1024"
    using kb by (cases "file") (simp_all add: evidence_budget_from_meminfo_def)
  show ?thesis
    using b kb init_split [of "unat budget"] unfolding init_cases Let_def
    by (auto simp: evidence_ring_footprint_def evidence_ring_capacity_def)
qed

end
