(* ===== verification/FragAttack.thy ===== *)
theory FragAttack
  imports Dot11Data Stab
begin

text \<open>
  \<open>src/fragattack.c\<close>: the detectors for the FragAttacks family (CVE-2020-24586 to -26147), on
  six bounded tables. The tables are one record; the mutex makes each entry point atomic. A row
  pointer is a slot; a dereference of a null pointer or outside the frame makes an operation
  undefined (\<open>None\<close>). The key generations witnessed by \<open>src/eapol_log.c\<close> are an argument.
\<close>

section \<open>Model\<close>

subsection \<open>Tables\<close>

text \<open>\<open>stab_get\<close>, then a write through the row pointer it returned.\<close>

definition stab_write ::
  "(bool \<Rightarrow> 'r \<Rightarrow> 'r) \<Rightarrow> ('r, 'k) stab_t \<Rightarrow> 'k \<Rightarrow> time_t \<Rightarrow> sh_t \<Rightarrow> (nat \<times> ('r, 'k) stab_t \<times> sh_t) option" where
  "stab_write upd t key now h =
     (case stab_get t key now h of
        (None, created, t1, h1) \<Rightarrow> None
      | (Some i, created, t1, h1) \<Rightarrow> Some (i, stab_put i (upd created (row_of t1 i)) t1, h1))"

record frag_bss_t =
  fb_bssid :: mac
  fb_first_seen :: time_t
  fb_last_seen :: time_t
  protected_frames :: u32
  plaintext_unicast :: u32
  plaintext_bcast_frag :: u32
  cache_poison :: u32
  mixed_protect :: u32
  amsdu_flip :: u32
  amsdu_eapol_spoof :: u32
  mixed_key :: u32
  pn_gap :: u32
  eapol_relay :: u32
  eapol_mld_sibling :: u32
  fb_last_sa :: mac
  fb_last_da :: mac
  fb_last_hit :: time_t

record frag_sta_t =
  fs_bssid :: mac
  fs_sta :: mac
  fs_last_seen :: time_t

record frag_ap_t =
  fp_bssid :: mac
  fp_mld :: mac
  fp_has_mld :: bool
  fp_last_seen :: time_t

record frag_session_t =
  ss_bssid :: mac
  ss_sa :: mac
  ss_da :: mac
  ss_tid :: u8
  start_seen :: time_t
  start_protected :: bool
  start_generation :: int
  last_pn :: int
  last_fn :: int
  ss_seq_ctrl :: u16
  ss_last_seen :: time_t

record frag_assoc_evt_t =
  fa_bssid :: mac
  fa_sta :: mac
  last_assoc :: time_t

record frag_mpdu_t =
  fm_ta :: mac
  fm_bssid :: mac
  fm_pn :: int
  fm_sc :: u16
  fm_amsdu :: u8
  fm_ts :: time_t

definition mac_zero :: mac where "mac_zero = replicate 6 0"

definition bss_zero :: frag_bss_t where
  "bss_zero = \<lparr>fb_bssid = mac_zero, fb_first_seen = 0, fb_last_seen = 0, protected_frames = 0,
     plaintext_unicast = 0, plaintext_bcast_frag = 0, cache_poison = 0, mixed_protect = 0,
     amsdu_flip = 0, amsdu_eapol_spoof = 0, mixed_key = 0, pn_gap = 0, eapol_relay = 0,
     eapol_mld_sibling = 0, fb_last_sa = mac_zero, fb_last_da = mac_zero, fb_last_hit = 0\<rparr>"

definition sta_zero :: frag_sta_t where
  "sta_zero = \<lparr>fs_bssid = mac_zero, fs_sta = mac_zero, fs_last_seen = 0\<rparr>"

definition ap_zero :: frag_ap_t where
  "ap_zero = \<lparr>fp_bssid = mac_zero, fp_mld = mac_zero, fp_has_mld = False, fp_last_seen = 0\<rparr>"

definition sess_zero :: frag_session_t where
  "sess_zero = \<lparr>ss_bssid = mac_zero, ss_sa = mac_zero, ss_da = mac_zero, ss_tid = 0, start_seen = 0,
     start_protected = False, start_generation = 0, last_pn = 0, last_fn = 0, ss_seq_ctrl = 0,
     ss_last_seen = 0\<rparr>"

definition assoc_zero :: frag_assoc_evt_t where
  "assoc_zero = \<lparr>fa_bssid = mac_zero, fa_sta = mac_zero, last_assoc = 0\<rparr>"

definition mpdu_zero :: frag_mpdu_t where
  "mpdu_zero = \<lparr>fm_ta = mac_zero, fm_bssid = mac_zero, fm_pn = 0, fm_sc = 0, fm_amsdu = 0, fm_ts = 0\<rparr>"

type_synonym pair_key_t = "mac \<times> mac"
type_synonym sess_key_t = "mac \<times> mac \<times> mac \<times> u8"
type_synonym mpdu_key_t = "mac \<times> int"

definition bss_key_eq :: "frag_bss_t \<Rightarrow> mac \<Rightarrow> bool" where "bss_key_eq r k \<longleftrightarrow> fb_bssid r = k"

definition sta_key_eq :: "frag_sta_t \<Rightarrow> pair_key_t \<Rightarrow> bool" where
  "sta_key_eq r k \<longleftrightarrow> fs_bssid r = fst k \<and> fs_sta r = snd k"

definition ap_key_eq :: "frag_ap_t \<Rightarrow> mac \<Rightarrow> bool" where "ap_key_eq r k \<longleftrightarrow> fp_bssid r = k"

definition sess_key_eq :: "frag_session_t \<Rightarrow> sess_key_t \<Rightarrow> bool" where
  "sess_key_eq s k = (case k of (bssid, sa, da, tid) \<Rightarrow>
     ss_bssid s = bssid \<and> ss_sa s = sa \<and> ss_da s = da \<and> ss_tid s = tid)"

definition assoc_key_eq :: "frag_assoc_evt_t \<Rightarrow> pair_key_t \<Rightarrow> bool" where
  "assoc_key_eq r k \<longleftrightarrow> fa_bssid r = fst k \<and> fa_sta r = snd k"

definition mpdu_key_eq :: "frag_mpdu_t \<Rightarrow> mpdu_key_t \<Rightarrow> bool" where
  "mpdu_key_eq m k \<longleftrightarrow> fm_pn m = snd k \<and> fm_ta m = fst k"

record frag_t =
  g_bss :: "(frag_bss_t, mac) stab_t"
  g_sta :: "(frag_sta_t, pair_key_t) stab_t"
  g_ap :: "(frag_ap_t, mac) stab_t"
  g_sess :: "(frag_session_t, sess_key_t) stab_t"
  g_assoc_evt :: "(frag_assoc_evt_t, pair_key_t) stab_t"
  g_mpdu :: "(frag_mpdu_t, mpdu_key_t) stab_t"

definition bss_decl :: "(frag_bss_t, mac) stab_t" where
  "bss_decl = STAB_DECL_AGE bss_zero 64 fb_last_seen (\<lambda>n r. r\<lparr>fb_last_seen := n\<rparr>) STAB_OLDEST 0
     SH_EVICT_FRAG_BSS bss_key_eq"

definition sta_decl :: "(frag_sta_t, pair_key_t) stab_t" where
  "sta_decl = STAB_DECL_AGE sta_zero 128 fs_last_seen (\<lambda>n r. r\<lparr>fs_last_seen := n\<rparr>) STAB_OLDEST 0
     SH_EVICT_FRAG_STA sta_key_eq"

definition ap_decl :: "(frag_ap_t, mac) stab_t" where
  "ap_decl = STAB_DECL_AGE ap_zero 128 fp_last_seen (\<lambda>n r. r\<lparr>fp_last_seen := n\<rparr>) STAB_OLDEST 0
     SH_EVICT_FRAG_AP_IDENT ap_key_eq"

definition sess_decl :: "(frag_session_t, sess_key_t) stab_t" where
  "sess_decl = STAB_DECL_AGE sess_zero 128 ss_last_seen (\<lambda>n r. r\<lparr>ss_last_seen := n\<rparr>) STAB_OLDEST 0
     SH_EVICT_FRAG_SESSION sess_key_eq"

definition assoc_decl :: "(frag_assoc_evt_t, pair_key_t) stab_t" where
  "assoc_decl = STAB_DECL_AGE assoc_zero 128 last_assoc (\<lambda>n r. r\<lparr>last_assoc := n\<rparr>) STAB_OLDEST 0
     SH_EVICT_FRAG_ASSOC assoc_key_eq"

definition mpdu_decl :: "(frag_mpdu_t, mpdu_key_t) stab_t" where
  "mpdu_decl = STAB_DECL_AGE mpdu_zero 256 fm_ts (\<lambda>n r. r\<lparr>fm_ts := n\<rparr>) STAB_OLDEST 0
     SH_EVICT_FRAG_MPDU mpdu_key_eq"

definition frag_boot :: frag_t where
  "frag_boot = \<lparr>g_bss = bss_decl, g_sta = sta_decl, g_ap = ap_decl, g_sess = sess_decl,
     g_assoc_evt = assoc_decl, g_mpdu = mpdu_decl\<rparr>"

subsection \<open>Who the access point is\<close>

datatype frag_ap_ident_t = FRAG_AP_NO | FRAG_AP_BSSID | FRAG_AP_MLD | FRAG_AP_MLD_SIBLING

definition mld_sibling :: "mac \<Rightarrow> mac \<Rightarrow> bool" where
  "mld_sibling bssid a \<longleftrightarrow>
     (if a ! 0 AND 0x01 \<noteq> 0 then False
      else if a ! 0 AND 0x02 = 0 then False
      else if take 4 (drop 1 a) \<noteq> take 4 (drop 1 bssid) then False
      else let d = uint (a ! 5) - uint (bssid ! 5) in d \<ge> -1 \<and> d \<le> 1)"

definition ap_identity_locked :: "frag_t \<Rightarrow> mac \<Rightarrow> mac \<Rightarrow> frag_ap_ident_t" where
  "ap_identity_locked st bssid a =
     (if a = bssid then FRAG_AP_BSSID
      else case stab_find (g_ap st) bssid of
        Some i \<Rightarrow>
          let r = row_of (g_ap st) i
          in if fp_has_mld r \<and> a = fp_mld r then FRAG_AP_MLD else FRAG_AP_NO
      | None \<Rightarrow> if mld_sibling bssid a then FRAG_AP_MLD_SIBLING else FRAG_AP_NO)"

definition gate_identity :: "frag_t \<Rightarrow> mac \<Rightarrow> mac \<Rightarrow> mac" where
  "gate_identity st bssid sa =
     (let i = ap_identity_locked st bssid sa
      in if i = FRAG_AP_BSSID \<or> i = FRAG_AP_MLD then bssid else sa)"

definition frag_ap_identity :: "frag_t \<Rightarrow> mac option \<Rightarrow> mac option \<Rightarrow> frag_ap_ident_t" where
  "frag_ap_identity st bssid addr =
     (case (bssid, addr) of (Some b, Some a) \<Rightarrow> ap_identity_locked st b a | _ \<Rightarrow> FRAG_AP_NO)"

definition frag_note_beacon ::
  "mac option \<Rightarrow> mac option \<Rightarrow> time_t \<Rightarrow> frag_t \<Rightarrow> sh_t \<Rightarrow> (frag_t \<times> sh_t) option" where
  "frag_note_beacon bssid mld_mac now st h =
     (case bssid of None \<Rightarrow> Some (st, h)
      | Some b \<Rightarrow>
      if b ! 0 AND 0x01 \<noteq> 0 then Some (st, h)
      else do {
        (i, t, h) \<leftarrow> stab_write (\<lambda>created r.
          let r = (if created then r\<lparr>fp_bssid := b\<rparr> else r);
              has = (case mld_mac of None \<Rightarrow> False | Some m \<Rightarrow> m ! 0 AND 0x01 = 0);
              r = r\<lparr>fp_has_mld := has\<rparr>;
              r = (if has then r\<lparr>fp_mld := the mld_mac\<rparr> else r\<lparr>fp_mld := mac_zero\<rparr>)
          in r\<lparr>fp_last_seen := now\<rparr>) (g_ap st) b now h;
        Some (st\<lparr>g_ap := t\<rparr>, h) })"

definition frag_ap_ident_count :: "frag_t \<Rightarrow> nat" where
  "frag_ap_ident_count st = stab_count (g_ap st)"

subsection \<open>EtherTypes in the clear\<close>

definition snap_ethertype :: "bytes \<Rightarrow> int \<Rightarrow> int option" where
  "snap_ethertype b llc = do {
     l0 \<leftarrow> byte_at b llc; l1 \<leftarrow> byte_at b (llc + 1); l2 \<leftarrow> byte_at b (llc + 2);
     if l0 \<noteq> 0xaa \<or> l1 \<noteq> 0xaa \<or> l2 \<noteq> 0x03 then Some (-1)
     else do {
       e0 \<leftarrow> byte_at b (llc + 6); e1 \<leftarrow> byte_at b (llc + 7);
       Some (uint e0 * 256 + uint e1) } }"

definition first_frag_ethertype :: "dot11_frame_t \<Rightarrow> int option" where
  "first_frag_ethertype f =
     (if f_frag_num f \<noteq> 0 then Some (-1)
      else if dot11_frame_amsdu (Some f) = 1 then Some (-1)
      else let hdr = (if f_type f = 2 then f_hdr_len f else -1) in
      if hdr < 0 \<or> hdr + 8 > f_len f then Some (-1)
      else do { b \<leftarrow> f_p f; snap_ethertype b hdr })"

definition first_amsdu_subframe_ethertype :: "dot11_frame_t \<Rightarrow> int option" where
  "first_amsdu_subframe_ethertype f =
     (if f_frag_num f \<noteq> 0 then Some (-1)
      else if dot11_frame_amsdu (Some f) \<noteq> 1 then Some (-1)
      else let hdr = (if f_type f = 2 then f_hdr_len f else -1) in
      if hdr < 0 then Some (-1)
      else let llc = hdr + 14 in
      if llc + 8 > f_len f then Some (-1)
      else do { b \<leftarrow> f_p f; snap_ethertype b llc })"

abbreviation (input) ETHERTYPE_EAPOL :: int where "ETHERTYPE_EAPOL \<equiv> 0x888E"

subsection \<open>Rows\<close>

definition find_locked :: "frag_t \<Rightarrow> mac option \<Rightarrow> int" where
  "find_locked st bssid =
     (case bssid of None \<Rightarrow> -1
      | Some b \<Rightarrow> (case find_loop (g_bss st) b 0 of None \<Rightarrow> -1 | Some i \<Rightarrow> int i))"

definition frag_find :: "frag_t \<Rightarrow> mac option \<Rightarrow> int" where "frag_find st bssid = find_locked st bssid"

definition bss_get :: "mac \<Rightarrow> time_t \<Rightarrow> frag_t \<Rightarrow> sh_t \<Rightarrow> (nat \<times> frag_t \<times> sh_t) option" where
  "bss_get bssid now st h = do {
     (i, t, h) \<leftarrow> stab_write (\<lambda>created b.
       let b = (if created then b\<lparr>fb_bssid := bssid, fb_first_seen := now\<rparr> else b)
       in b\<lparr>fb_last_seen := now\<rparr>) (g_bss st) bssid now h;
     Some (i, st\<lparr>g_bss := t\<rparr>, h) }"

definition sta_known :: "frag_t \<Rightarrow> mac \<Rightarrow> mac \<Rightarrow> bool" where
  "sta_known st bssid sta \<longleftrightarrow> stab_find (g_sta st) (bssid, sta) \<noteq> None"

definition sta_mark_protected :: "mac \<Rightarrow> mac \<Rightarrow> time_t \<Rightarrow> frag_t \<Rightarrow> sh_t \<Rightarrow> (frag_t \<times> sh_t) option" where
  "sta_mark_protected bssid sta now st h = do {
     (i, t, h) \<leftarrow> stab_write (\<lambda>created r.
       let r = (if created then r\<lparr>fs_bssid := bssid, fs_sta := sta\<rparr> else r)
       in r\<lparr>fs_last_seen := now\<rparr>) (g_sta st) (bssid, sta) now h;
     Some (st\<lparr>g_sta := t\<rparr>, h) }"

definition note_association_locked ::
  "mac option \<Rightarrow> mac option \<Rightarrow> time_t \<Rightarrow> frag_t \<Rightarrow> sh_t \<Rightarrow> (frag_t \<times> sh_t) option" where
  "note_association_locked bssid sta now st h =
     (case (bssid, sta) of
        (Some b, Some s) \<Rightarrow> do {
          (i, t, h) \<leftarrow> stab_write (\<lambda>created r.
            let r = (if created then r\<lparr>fa_bssid := b, fa_sta := s\<rparr> else r)
            in r\<lparr>last_assoc := now\<rparr>) (g_assoc_evt st) (b, s) now h;
          Some (st\<lparr>g_assoc_evt := t\<rparr>, h) }
      | _ \<Rightarrow> Some (st, h))"

definition frag_note_association ::
  "mac option \<Rightarrow> mac option \<Rightarrow> time_t \<Rightarrow> frag_t \<Rightarrow> sh_t \<Rightarrow> (frag_t \<times> sh_t) option" where
  "frag_note_association bssid sta now st h = note_association_locked bssid sta now st h"

definition frag_assoc_after :: "frag_t \<Rightarrow> mac \<Rightarrow> mac \<Rightarrow> time_t \<Rightarrow> bool" where
  "frag_assoc_after st bssid mac since \<longleftrightarrow>
     (case stab_find (g_assoc_evt st) (bssid, mac) of None \<Rightarrow> False
      | Some i \<Rightarrow> last_assoc (row_of (g_assoc_evt st) i) > since)"

definition sess_find :: "frag_t \<Rightarrow> mac \<Rightarrow> mac \<Rightarrow> mac \<Rightarrow> u8 \<Rightarrow> nat option" where
  "sess_find st bssid sa da tid = stab_find (g_sess st) (bssid, sa, da, tid)"

definition sess_open ::
  "mac \<Rightarrow> mac \<Rightarrow> mac \<Rightarrow> u8 \<Rightarrow> bool \<Rightarrow> int \<Rightarrow> int \<Rightarrow> int \<Rightarrow> u16 \<Rightarrow> time_t \<Rightarrow> frag_t \<Rightarrow> sh_t
     \<Rightarrow> (frag_t \<times> sh_t) option" where
  "sess_open bssid sa da tid prot generation pn fn sc now st h = do {
     (i, t, h) \<leftarrow> stab_write (\<lambda>created s.
       let s = (if created then s\<lparr>ss_bssid := bssid, ss_sa := sa, ss_da := da, ss_tid := tid\<rparr> else s)
       in s\<lparr>start_seen := now, start_protected := prot, start_generation := generation,
            last_pn := pn, last_fn := fn, ss_seq_ctrl := sc AND 0xfff0, ss_last_seen := now\<rparr>)
       (g_sess st) (bssid, sa, da, tid) now h;
     Some (st\<lparr>g_sess := t\<rparr>, h) }"

definition sess_close :: "nat \<Rightarrow> frag_t \<Rightarrow> frag_t" where
  "sess_close i st = st\<lparr>g_sess := snd (stab_del (g_sess st) (Some i))\<rparr>"

subsection \<open>Fragment sessions\<close>

text \<open>A finding: the counter \<open>inc\<close> of the BSS in slot \<open>i\<close>, and the latest offender.\<close>

definition on_bss :: "nat \<Rightarrow> (frag_bss_t \<Rightarrow> frag_bss_t) \<Rightarrow> frag_t \<Rightarrow> frag_t" where
  "on_bss i g st = st\<lparr>g_bss := stab_put i (g (row_of (g_bss st) i)) (g_bss st)\<rparr>"

definition last_offender :: "mac \<Rightarrow> mac \<Rightarrow> time_t \<Rightarrow> frag_bss_t \<Rightarrow> frag_bss_t" where
  "last_offender sa da now b = b\<lparr>fb_last_sa := sa, fb_last_da := da, fb_last_hit := now\<rparr>"

definition hit_cache_poison :: "mac \<Rightarrow> mac \<Rightarrow> time_t \<Rightarrow> frag_bss_t \<Rightarrow> frag_bss_t" where
  "hit_cache_poison sa da now b = last_offender sa da now (b\<lparr>cache_poison := cache_poison b + 1\<rparr>)"

definition hit_mixed_protect :: "mac \<Rightarrow> mac \<Rightarrow> time_t \<Rightarrow> frag_bss_t \<Rightarrow> frag_bss_t" where
  "hit_mixed_protect sa da now b = last_offender sa da now (b\<lparr>mixed_protect := mixed_protect b + 1\<rparr>)"

definition hit_mixed_key :: "mac \<Rightarrow> mac \<Rightarrow> time_t \<Rightarrow> frag_bss_t \<Rightarrow> frag_bss_t" where
  "hit_mixed_key sa da now b = last_offender sa da now (b\<lparr>mixed_key := mixed_key b + 1\<rparr>)"

definition hit_pn_gap :: "mac \<Rightarrow> mac \<Rightarrow> time_t \<Rightarrow> frag_bss_t \<Rightarrow> frag_bss_t" where
  "hit_pn_gap sa da now b = last_offender sa da now (b\<lparr>pn_gap := pn_gap b + 1\<rparr>)"

definition frag_track ::
  "(mac \<Rightarrow> mac \<Rightarrow> int) \<Rightarrow> nat \<Rightarrow> mac \<Rightarrow> mac \<Rightarrow> mac \<Rightarrow> u8 \<Rightarrow> int \<Rightarrow> bool \<Rightarrow> bool \<Rightarrow> int \<Rightarrow> u16 \<Rightarrow> time_t
     \<Rightarrow> frag_t \<Rightarrow> sh_t \<Rightarrow> (frag_t \<times> sh_t) option" where
  "frag_track eapol_key_generation b bssid sa da tid fn more_frag prot pn sc now st h =
     (if fn = 0 then sess_open bssid sa da tid prot (eapol_key_generation bssid sa) pn fn sc now st h
      else case sess_find st bssid sa da tid of None \<Rightarrow> Some (st, h)
      | Some j \<Rightarrow>
        (let s = row_of (g_sess st) j;
             st = (if frag_assoc_after st bssid sa (start_seen s) \<or> frag_assoc_after st bssid da (start_seen s)
                   then on_bss b (hit_cache_poison sa da now) st else st);
             st = (if prot \<noteq> start_protected s then on_bss b (hit_mixed_protect sa da now) st else st);
             st = (if prot \<and> start_protected s \<and> start_generation s > 0
                      \<and> eapol_key_generation bssid sa > start_generation s
                   then on_bss b (hit_mixed_key sa da now) st else st);
             st = (if pn \<ge> 0 \<and> last_pn s \<ge> 0 \<and> fn > last_fn s \<and> sc AND 0xfff0 = ss_seq_ctrl s
                      \<and> pn - last_pn s \<noteq> fn - last_fn s
                   then on_bss b (hit_pn_gap sa da now) st else st);
             s = (if pn \<ge> 0 then s\<lparr>last_pn := pn\<rparr> else s);
             s = (if fn > last_fn s then s\<lparr>last_fn := fn\<rparr> else s);
             s = s\<lparr>ss_last_seen := now\<rparr>;
             st = st\<lparr>g_sess := stab_put j s (g_sess st)\<rparr>;
             st = (if \<not> more_frag then sess_close j st else st)
         in Some (st, h)))"

subsection \<open>A-MSDU flips\<close>

abbreviation (input) FRAG_MPDU_WINDOW_S :: time_t where "FRAG_MPDU_WINDOW_S \<equiv> 10"

definition mpdu_note ::
  "mac \<Rightarrow> mac \<Rightarrow> int \<Rightarrow> u16 \<Rightarrow> int \<Rightarrow> time_t \<Rightarrow> frag_t \<Rightarrow> sh_t \<Rightarrow> (bool \<times> frag_t \<times> sh_t) option" where
  "mpdu_note bssid ta pn sc amsdu now st h =
     (let t0 = snd (stab_expire (g_mpdu st) now FRAG_MPDU_WINDOW_S) in
      case stab_get t0 (ta, pn) now h of
        (None, created, t, h) \<Rightarrow> None
      | (Some i, created, t, h) \<Rightarrow>
          let m = row_of t i in
          if \<not> created
          then if fm_amsdu m \<noteq> word_of_int amsdu
               then Some (True, st\<lparr>g_mpdu := stab_put i (m\<lparr>fm_ts := now\<rparr>) t\<rparr>, h)
               else Some (False, st\<lparr>g_mpdu := stab_put i (m\<lparr>fm_ts := now\<rparr>) t\<rparr>, h)
          else Some (False, st\<lparr>g_mpdu := stab_put i (m\<lparr>fm_ta := ta, fm_bssid := bssid, fm_pn := pn,
                   fm_sc := sc, fm_amsdu := word_of_int amsdu, fm_ts := now\<rparr>) t\<rparr>, h))"

subsection \<open>Observing a frame\<close>

definition hit_amsdu_flip :: "mac \<Rightarrow> mac \<Rightarrow> time_t \<Rightarrow> frag_bss_t \<Rightarrow> frag_bss_t" where
  "hit_amsdu_flip sa da now b = last_offender sa da now (b\<lparr>amsdu_flip := amsdu_flip b + 1\<rparr>)"

definition hit_eapol_relay :: "mac \<Rightarrow> mac \<Rightarrow> time_t \<Rightarrow> frag_bss_t \<Rightarrow> frag_bss_t" where
  "hit_eapol_relay sa da now b = last_offender sa da now (b\<lparr>eapol_relay := eapol_relay b + 1\<rparr>)"

definition hit_plain_bcast :: "mac \<Rightarrow> mac \<Rightarrow> time_t \<Rightarrow> frag_bss_t \<Rightarrow> frag_bss_t" where
  "hit_plain_bcast sa da now b = last_offender sa da now (b\<lparr>plaintext_bcast_frag := plaintext_bcast_frag b + 1\<rparr>)"

definition hit_amsdu_eapol :: "mac \<Rightarrow> mac \<Rightarrow> time_t \<Rightarrow> frag_bss_t \<Rightarrow> frag_bss_t" where
  "hit_amsdu_eapol sa da now b = last_offender sa da now (b\<lparr>amsdu_eapol_spoof := amsdu_eapol_spoof b + 1\<rparr>)"

definition hit_plain_unicast :: "mac \<Rightarrow> mac \<Rightarrow> time_t \<Rightarrow> frag_bss_t \<Rightarrow> frag_bss_t" where
  "hit_plain_unicast sa da now b = last_offender sa da now (b\<lparr>plaintext_unicast := plaintext_unicast b + 1\<rparr>)"

definition flip_check ::
  "dot11_frame_t \<Rightarrow> nat \<Rightarrow> mac \<Rightarrow> mac \<Rightarrow> mac \<Rightarrow> int \<Rightarrow> u16 \<Rightarrow> time_t \<Rightarrow> frag_t \<Rightarrow> sh_t \<Rightarrow> (frag_t \<times> sh_t) option" where
  "flip_check f b bssid sa da pn sc now st h =
     (let amsdu = dot11_frame_amsdu (Some f) in
      if pn \<ge> 0 \<and> amsdu \<ge> 0
      then do {
        ta \<leftarrow> addr_at f (f_ta f);
        (hit, st, h) \<leftarrow> mpdu_note bssid ta pn sc amsdu now st h;
        Some (if hit then on_bss b (hit_amsdu_flip sa da now) st else st, h) }
      else Some (st, h))"

definition relay_check ::
  "dot11_frame_t \<Rightarrow> nat \<Rightarrow> mac \<Rightarrow> mac \<Rightarrow> mac \<Rightarrow> time_t \<Rightarrow> frag_t \<Rightarrow> frag_t option" where
  "relay_check f b bssid sa da now st =
     (if (f_to_ds f \<or> f_from_ds f) \<and> \<not> dot11_is_group_addr (Some da)
      then do {
        et \<leftarrow> first_frag_ethertype f;
        if et = ETHERTYPE_EAPOL
        then let i = ap_identity_locked st bssid sa; d = ap_identity_locked st bssid da in
             if i = FRAG_AP_NO \<and> d = FRAG_AP_NO
             then Some (on_bss b (hit_eapol_relay sa da now) st)
             else if i \<noteq> FRAG_AP_BSSID \<and> i \<noteq> FRAG_AP_MLD \<and> d \<noteq> FRAG_AP_BSSID \<and> d \<noteq> FRAG_AP_MLD
             then Some (on_bss b (\<lambda>r. r\<lparr>eapol_mld_sibling := eapol_mld_sibling r + 1\<rparr>) st)
             else Some st
        else Some st }
      else Some st)"

definition plaintext_check ::
  "dot11_frame_t \<Rightarrow> nat \<Rightarrow> bool \<Rightarrow> mac \<Rightarrow> mac \<Rightarrow> time_t \<Rightarrow> frag_t \<Rightarrow> frag_t option" where
  "plaintext_check f b fragmented sa da now st =
     (if dot11_is_group_addr (Some da)
      then if \<not> fragmented then Some st else Some (on_bss b (hit_plain_bcast sa da now) st)
      else if dot11_frame_amsdu (Some f) = 1
      then do {
        et \<leftarrow> first_amsdu_subframe_ethertype f;
        if et \<noteq> ETHERTYPE_EAPOL then Some st else Some (on_bss b (hit_amsdu_eapol sa da now) st) }
      else do {
        et \<leftarrow> first_frag_ethertype f;
        if et < 0 \<or> et = ETHERTYPE_EAPOL then Some st
        else Some (on_bss b (hit_plain_unicast sa da now) st) })"

definition observe_locked ::
  "(mac \<Rightarrow> mac \<Rightarrow> int) \<Rightarrow> dot11_frame_t option \<Rightarrow> time_t \<Rightarrow> frag_t \<Rightarrow> sh_t \<Rightarrow> (frag_t \<times> sh_t) option" where
  "observe_locked gen fo now st h =
     (case fo of None \<Rightarrow> Some (st, h)
      | Some f \<Rightarrow>
      if f_p f = None \<or> f_len f < 24 then Some (st, h)
      else if f_type f \<noteq> 2 then Some (st, h)
      else if f_subtype f AND 0x04 \<noteq> 0 then Some (st, h)
      else if f_has_addr4 f \<or> f_bssid f = None \<or> f_sa f = None \<or> f_da f = None then Some (st, h)
      else do {
        bssid \<leftarrow> addr_at f (f_bssid f); sa \<leftarrow> addr_at f (f_sa f); da \<leftarrow> addr_at f (f_da f);
        let fn = f_frag_num f;
        let more_frag = f_more_frag f;
        if fn < 0 then Some (st, h)
        else do {
          let fragmented = (fn > 0 \<or> more_frag);
          let sc = (push_bit 4 (word_of_int (f_seq_num f)) OR word_of_int (f_frag_num f) :: u16);
          (b, st, h) \<leftarrow> bss_get bssid now st h;
          pn \<leftarrow> dot11_frame_ccmp_pn (Some f);
          (st, h) \<leftarrow> flip_check f b bssid sa da pn sc now st h;
          st \<leftarrow> relay_check f b bssid sa da now st;
          let tid = dot11_frame_tid (Some f);
          (st, h) \<leftarrow> (if fragmented \<and> tid \<ge> 0
             then frag_track gen b bssid sa da (word_of_int tid) fn more_frag (f_protected f) pn sc now st h
             else Some (st, h));
          let gsa = gate_identity st bssid sa;
          if f_protected f
          then sta_mark_protected bssid gsa now
                 (on_bss b (\<lambda>r. r\<lparr>protected_frames := protected_frames r + 1\<rparr>) st) h
          else if \<not> sta_known st bssid gsa then Some (st, h)
          else do { st \<leftarrow> plaintext_check f b fragmented sa da now st; Some (st, h) } } })"

definition frag_observe_frame ::
  "(mac \<Rightarrow> mac \<Rightarrow> int) \<Rightarrow> dot11_frame_t option \<Rightarrow> time_t \<Rightarrow> frag_t \<Rightarrow> sh_t \<Rightarrow> (frag_t \<times> sh_t) option" where
  "frag_observe_frame gen f now st h = observe_locked gen f now st h"

definition frag_observe ::
  "(mac \<Rightarrow> mac \<Rightarrow> int) \<Rightarrow> bytes option \<Rightarrow> int \<Rightarrow> time_t \<Rightarrow> frag_t \<Rightarrow> sh_t \<Rightarrow> (frag_t \<times> sh_t) option" where
  "frag_observe gen dot11 len now st h = do {
     (ok, f) \<leftarrow> dot11_frame_decode dot11 len None;
     frag_observe_frame gen (Some f) now st h }"

subsection \<open>Readers\<close>

definition frag_bss_count :: "frag_t \<Rightarrow> nat" where "frag_bss_count st = stab_count (g_bss st)"
definition frag_mpdu_count :: "frag_t \<Rightarrow> nat" where "frag_mpdu_count st = stab_count (g_mpdu st)"
definition frag_session_count :: "frag_t \<Rightarrow> nat" where "frag_session_count st = stab_count (g_sess st)"
definition frag_bss_at :: "frag_t \<Rightarrow> int \<Rightarrow> nat option" where "frag_bss_at st i = stab_at (g_bss st) i"

definition frag_bss_copy :: "frag_t \<Rightarrow> int \<Rightarrow> frag_bss_t option" where
  "frag_bss_copy st i = map_option (row_of (g_bss st)) (stab_at (g_bss st) i)"

record frag_bss_row_t =
  fr_bssid :: mac
  fr_protected_frames :: u32
  fr_plaintext_unicast :: u32
  fr_plaintext_bcast_frag :: u32
  fr_cache_poison :: u32
  fr_mixed_protect :: u32
  fr_amsdu_flip :: u32
  fr_amsdu_eapol_spoof :: u32
  fr_mixed_key :: u32
  fr_pn_gap :: u32
  fr_eapol_relay :: u32
  fr_last_sa :: mac
  fr_last_da :: mac
  fr_last_hit :: time_t

definition bss_row :: "frag_bss_t \<Rightarrow> frag_bss_row_t" where
  "bss_row b = \<lparr>fr_bssid = fb_bssid b, fr_protected_frames = protected_frames b,
     fr_plaintext_unicast = plaintext_unicast b, fr_plaintext_bcast_frag = plaintext_bcast_frag b,
     fr_cache_poison = cache_poison b, fr_mixed_protect = mixed_protect b, fr_amsdu_flip = amsdu_flip b,
     fr_amsdu_eapol_spoof = amsdu_eapol_spoof b, fr_mixed_key = mixed_key b, fr_pn_gap = pn_gap b,
     fr_eapol_relay = eapol_relay b, fr_last_sa = fb_last_sa b, fr_last_da = fb_last_da b,
     fr_last_hit = fb_last_hit b\<rparr>"

text \<open>The selection sort of the view: the scan for the best row from \<open>j\<close> on, then the swap.\<close>

function best_loop :: "(nat \<Rightarrow> time_t) \<Rightarrow> nat \<Rightarrow> nat list \<Rightarrow> nat \<Rightarrow> nat \<Rightarrow> nat" where
  "best_loop hit n order j best =
     (if j < n then best_loop hit n order (j + 1) (if hit (order ! j) > hit (order ! best) then j else best)
      else best)"
  by pat_completeness auto
termination by (relation "measure (\<lambda>(_, n, _, j, _). n - j)") auto

declare best_loop.simps [simp del]

function order_loop :: "(nat \<Rightarrow> time_t) \<Rightarrow> nat \<Rightarrow> nat \<Rightarrow> nat list \<Rightarrow> nat list" where
  "order_loop hit n i order =
     (if i + 1 < n
      then let best = best_loop hit n order (i + 1) i
           in order_loop hit n (i + 1)
                (if best \<noteq> i then order[i := order ! best, best := order ! i] else order)
      else order)"
  by pat_completeness auto
termination by (relation "measure (\<lambda>(_, n, i, _). n - i)") auto

declare order_loop.simps [simp del]

text \<open>The rows published, and the selection clamped.\<close>

definition snapshot_locked :: "frag_t \<Rightarrow> int \<Rightarrow> frag_bss_row_t list \<times> int" where
  "snapshot_locked st sel =
     (let total = stab_count (g_bss st);
          n = (if total < 64 then total else 64);
          order = order_loop (\<lambda>i. fb_last_hit (row_of (g_bss st) i)) n 0 [0..<n]
      in (map (\<lambda>i. bss_row (row_of (g_bss st) (order ! i))) [0..<n],
          if sel \<ge> int n then if n > 0 then int n - 1 else 0 else sel))"

definition frag_snapshot :: "frag_t \<Rightarrow> int \<Rightarrow> frag_bss_row_t list \<times> int" where
  "frag_snapshot st sel = snapshot_locked st sel"

definition frag_clear :: "frag_t \<Rightarrow> frag_t" where
  "frag_clear st = \<lparr>g_bss = stab_clear (g_bss st), g_sta = stab_clear (g_sta st), g_ap = stab_clear (g_ap st),
     g_sess = stab_clear (g_sess st), g_assoc_evt = stab_clear (g_assoc_evt st), g_mpdu = stab_clear (g_mpdu st)\<rparr>"

section \<open>The tables meet the contract of a keyed table\<close>

context keyed_table
begin

lemma write_oldest:
  assumes d: "same_decl decl t" and ok: "tab_ok key_of t" and pol: "st_policy decl = STAB_OLDEST"
    and kk: "keeps_key key_of k upd"
  obtains i t' h' where "stab_write upd t k now h = Some (i, t', h')" "i < st_n t'" "same_decl decl t'" "tab_ok key_of t'"
    "row_of t' i = (case tab_map key_of t k of Some r \<Rightarrow> upd False r | None \<Rightarrow> upd True (st_set_ls decl now (st_zero decl)))"
    "tab_map key_of t' k = Some (row_of t' i)"
    "\<And>k'. k' \<noteq> k \<Longrightarrow> tab_map key_of t' k' \<in> {tab_map key_of t k', None}"
    "\<And>k'. k' \<noteq> k \<Longrightarrow> tab_map key_of t k \<noteq> None \<or> st_n t < st_cap t \<Longrightarrow> tab_map key_of t' k' = tab_map key_of t k'"
proof -
  obtain i t1 h1 where g: "stab_get t k now h = (Some i, tab_map key_of t k = None, t1, h1)"
    "i < st_n t1" "i < length (st_rows t1)"
    "tab_map key_of t k = None \<Longrightarrow> row_of t1 i = st_set_ls decl now (st_zero decl)"
    "tab_map key_of t k \<noteq> None \<Longrightarrow> t1 = t \<and> h1 = h \<and> tab_map key_of t k = Some (row_of t i)"
    "\<And>upd. stab_upsert upd k now h t = (stab_put i (upd (tab_map key_of t k = None) (row_of t1 i)) t1, h1)"
    by (rule get_oldest [OF d ok pol, of k now h], rule that) simp_all
  let ?t' = "stab_put i (upd (tab_map key_of t k = None) (row_of t1 i)) t1"
  note m = upsert_map [OF d ok pol kk g(6)]
  have r: "row_of ?t' i = upd (tab_map key_of t k = None) (row_of t1 i)" using g(3) by (rule row_of_put)
  have r': "row_of ?t' i = (case tab_map key_of t k of Some r \<Rightarrow> upd False r | None \<Rightarrow> upd True (st_set_ls decl now (st_zero decl)))"
    unfolding r using g(4,5) by (cases "tab_map key_of t k") simp_all
  show thesis
    by (rule that [of i ?t' h1]) (use g(1,2) m r' in \<open>simp_all add: stab_write_def stab_put_def\<close>)
qed

lemma find_map:
  assumes "same_decl decl t" "tab_ok key_of t"
  shows "map_option (row_of t) (stab_find t k) = tab_map key_of t k"
proof (cases "find_idx t k")
  case None
  then show ?thesis using find_None [OF assms(1)] assms(2) by (simp add: stab_find_def tab_ok_def)
next
  case (Some i)
  with find_Some(3) [OF assms Some] show ?thesis by (simp add: stab_find_def)
qed

end

definition sta_keyof :: "frag_sta_t \<Rightarrow> pair_key_t" where "sta_keyof r = (fs_bssid r, fs_sta r)"
definition sess_keyof :: "frag_session_t \<Rightarrow> sess_key_t" where
  "sess_keyof s = (ss_bssid s, ss_sa s, ss_da s, ss_tid s)"
definition assoc_keyof :: "frag_assoc_evt_t \<Rightarrow> pair_key_t" where "assoc_keyof r = (fa_bssid r, fa_sta r)"
definition mpdu_keyof :: "frag_mpdu_t \<Rightarrow> mpdu_key_t" where "mpdu_keyof m = (fm_ta m, fm_pn m)"

interpretation bss: keyed_table bss_decl fb_bssid
  by unfold_locales (auto simp: bss_decl_def STAB_DECL_AGE_def bss_key_eq_def)

interpretation sta: keyed_table sta_decl sta_keyof
  by unfold_locales (auto simp: sta_decl_def STAB_DECL_AGE_def sta_key_eq_def sta_keyof_def)

interpretation ap: keyed_table ap_decl fp_bssid
  by unfold_locales (auto simp: ap_decl_def STAB_DECL_AGE_def ap_key_eq_def)

interpretation sess: keyed_table sess_decl sess_keyof
  by unfold_locales (auto simp: sess_decl_def STAB_DECL_AGE_def sess_key_eq_def sess_keyof_def split: prod.split)

interpretation assoc: keyed_table assoc_decl assoc_keyof
  by unfold_locales (auto simp: assoc_decl_def STAB_DECL_AGE_def assoc_key_eq_def assoc_keyof_def)

interpretation mpdu: keyed_table mpdu_decl mpdu_keyof
  by unfold_locales (auto simp: mpdu_decl_def STAB_DECL_AGE_def mpdu_key_eq_def mpdu_keyof_def)

lemmas frag_decl_defs = bss_decl_def sta_decl_def ap_decl_def sess_decl_def assoc_decl_def mpdu_decl_def STAB_DECL_AGE_def

lemma frag_policies [simp]:
  "st_policy bss_decl = STAB_OLDEST" "st_policy sta_decl = STAB_OLDEST" "st_policy ap_decl = STAB_OLDEST"
  "st_policy sess_decl = STAB_OLDEST" "st_policy assoc_decl = STAB_OLDEST" "st_policy mpdu_decl = STAB_OLDEST"
  by (simp_all add: frag_decl_defs)

lemma frag_zeros [simp]:
  "st_zero bss_decl = bss_zero" "st_zero sta_decl = sta_zero" "st_zero ap_decl = ap_zero"
  "st_zero sess_decl = sess_zero" "st_zero assoc_decl = assoc_zero" "st_zero mpdu_decl = mpdu_zero"
  "st_set_ls bss_decl n b = b\<lparr>fb_last_seen := n\<rparr>" "st_set_ls sta_decl n s = s\<lparr>fs_last_seen := n\<rparr>"
  "st_set_ls ap_decl n a = a\<lparr>fp_last_seen := n\<rparr>" "st_set_ls sess_decl n e = e\<lparr>ss_last_seen := n\<rparr>"
  "st_set_ls assoc_decl n c = c\<lparr>last_assoc := n\<rparr>" "st_set_ls mpdu_decl n m = m\<lparr>fm_ts := n\<rparr>"
  by (simp_all add: frag_decl_defs)

lemma frag_caps [simp]:
  "st_cap bss_decl = 64" "st_cap sta_decl = 128" "st_cap ap_decl = 128" "st_cap sess_decl = 128"
  "st_cap assoc_decl = 128" "st_cap mpdu_decl = 256"
  by (simp_all add: frag_decl_defs)

definition frag_ok :: "frag_t \<Rightarrow> bool" where
  "frag_ok st \<longleftrightarrow>
     (same_decl bss_decl (g_bss st) \<and> tab_ok fb_bssid (g_bss st)) \<and> (same_decl sta_decl (g_sta st) \<and> tab_ok sta_keyof (g_sta st))
   \<and> (same_decl ap_decl (g_ap st) \<and> tab_ok fp_bssid (g_ap st)) \<and> (same_decl sess_decl (g_sess st) \<and> tab_ok sess_keyof (g_sess st))
   \<and> (same_decl assoc_decl (g_assoc_evt st) \<and> tab_ok assoc_keyof (g_assoc_evt st))
   \<and> (same_decl mpdu_decl (g_mpdu st) \<and> tab_ok mpdu_keyof (g_mpdu st))"

lemma frag_ok_boot: "frag_ok frag_boot"
  by (simp add: frag_ok_def frag_boot_def) (simp add: bss_decl_def sta_decl_def ap_decl_def sess_decl_def
      assoc_decl_def mpdu_decl_def stab_decl_ok)

text \<open>The tables as maps.\<close>

abbreviation bss_map :: "frag_t \<Rightarrow> mac \<Rightarrow> frag_bss_t option" where "bss_map st \<equiv> tab_map fb_bssid (g_bss st)"
abbreviation sta_map :: "frag_t \<Rightarrow> pair_key_t \<Rightarrow> frag_sta_t option" where "sta_map st \<equiv> tab_map sta_keyof (g_sta st)"
abbreviation ap_map :: "frag_t \<Rightarrow> mac \<Rightarrow> frag_ap_t option" where "ap_map st \<equiv> tab_map fp_bssid (g_ap st)"
abbreviation sess_map :: "frag_t \<Rightarrow> sess_key_t \<Rightarrow> frag_session_t option" where "sess_map st \<equiv> tab_map sess_keyof (g_sess st)"
abbreviation assoc_map :: "frag_t \<Rightarrow> pair_key_t \<Rightarrow> frag_assoc_evt_t option" where
  "assoc_map st \<equiv> tab_map assoc_keyof (g_assoc_evt st)"

lemma lookup_maps:
  assumes "frag_ok st"
  shows "sta_known st b a \<longleftrightarrow> sta_map st (b, a) \<noteq> None"
    "ap_identity_locked st b a = (if a = b then FRAG_AP_BSSID else case ap_map st b of
        Some r \<Rightarrow> if fp_has_mld r \<and> a = fp_mld r then FRAG_AP_MLD else FRAG_AP_NO
      | None \<Rightarrow> if mld_sibling b a then FRAG_AP_MLD_SIBLING else FRAG_AP_NO)"
    "frag_assoc_after st b a since \<longleftrightarrow> (case assoc_map st (b, a) of None \<Rightarrow> False | Some r \<Rightarrow> last_assoc r > since)"
proof -
  have s: "map_option (row_of (g_sta st)) (stab_find (g_sta st) (b, a)) = sta_map st (b, a)"
    "map_option (row_of (g_ap st)) (stab_find (g_ap st) b) = ap_map st b"
    "map_option (row_of (g_assoc_evt st)) (stab_find (g_assoc_evt st) (b, a)) = assoc_map st (b, a)"
    using assms sta.find_map ap.find_map assoc.find_map by (simp_all add: frag_ok_def)
  then show "sta_known st b a \<longleftrightarrow> sta_map st (b, a) \<noteq> None"
    unfolding s(1) [symmetric] by (cases "stab_find (g_sta st) (b, a)") (simp_all add: sta_known_def)
  show "ap_identity_locked st b a = (if a = b then FRAG_AP_BSSID else case ap_map st b of
        Some r \<Rightarrow> if fp_has_mld r \<and> a = fp_mld r then FRAG_AP_MLD else FRAG_AP_NO
      | None \<Rightarrow> if mld_sibling b a then FRAG_AP_MLD_SIBLING else FRAG_AP_NO)"
    unfolding s(2) [symmetric] by (cases "stab_find (g_ap st) b") (simp_all add: ap_identity_locked_def Let_def)
  show "frag_assoc_after st b a since \<longleftrightarrow> (case assoc_map st (b, a) of None \<Rightarrow> False | Some r \<Rightarrow> last_assoc r > since)"
    unfolding s(3) [symmetric] by (cases "stab_find (g_assoc_evt st) (b, a)") (simp_all add: frag_assoc_after_def)
qed

section \<open>The row of the observed BSS\<close>

definition bss_at :: "frag_t \<Rightarrow> nat \<Rightarrow> mac \<Rightarrow> frag_bss_t \<Rightarrow> bool" where
  "bss_at st i bssid r \<longleftrightarrow> frag_ok st \<and> i < st_n (g_bss st) \<and> row_of (g_bss st) i = r \<and> fb_bssid r = bssid"

lemma bss_atD:
  assumes "bss_at st i bssid r"
  shows "frag_ok st" "bss_map st bssid = Some r"
proof -
  show ok: "frag_ok st" using assms by (simp add: bss_at_def)
  then have t: "tab_ok fb_bssid (g_bss st)" by (simp add: frag_ok_def)
  have "r \<in> set (rows (g_bss st))"
    using assms t row_of_rows [of i "g_bss st"] length_rows [of "g_bss st"] by (auto simp: bss_at_def tab_ok_def)
  with t assms show "bss_map st bssid = Some r" by (auto simp: tab_map_def key_map_Some tab_ok_def bss_at_def)
qed

lemma on_bss_ok:
  assumes a: "bss_at st i bssid r" and g: "fb_bssid (g r) = bssid"
  shows "bss_at (on_bss i g st) i bssid (g r)" "k \<noteq> bssid \<Longrightarrow> bss_map (on_bss i g st) k = bss_map st k"
    "g_sta (on_bss i g st) = g_sta st" "g_ap (on_bss i g st) = g_ap st" "g_sess (on_bss i g st) = g_sess st"
    "g_assoc_evt (on_bss i g st) = g_assoc_evt st" "g_mpdu (on_bss i g st) = g_mpdu st"
proof -
  have t: "tab_ok fb_bssid (g_bss st)" "i < st_n (g_bss st)" "row_of (g_bss st) i = r" "fb_bssid r = bssid"
    using a by (simp_all add: bss_at_def frag_ok_def)
  have l: "i < length (st_rows (g_bss st))" using t(1,2) by (simp add: tab_ok_def stab_wf_def)
  have p: "tab_ok fb_bssid (stab_put i (g r) (g_bss st))"
    "tab_map fb_bssid (stab_put i (g r) (g_bss st)) = (bss_map st)(bssid \<mapsto> g r)"
    using bss.put_same [OF t(1,2), of "g r"] t(3,4) g by simp_all
  have d: "same_decl bss_decl (stab_put i x (g_bss st)) \<longleftrightarrow> same_decl bss_decl (g_bss st)" for x
    by (simp add: same_decl_def stab_put_def)
  show "bss_at (on_bss i g st) i bssid (g r)"
    using a p(1) g t l row_of_put [OF l] by (simp add: bss_at_def on_bss_def frag_ok_def d)
  show "k \<noteq> bssid \<Longrightarrow> bss_map (on_bss i g st) k = bss_map st k" using p(2) t(3) by (simp add: on_bss_def)
qed (simp_all add: on_bss_def)

lemma hits_keep [simp]:
  "fb_bssid (last_offender sa da now r) = fb_bssid r" "fb_bssid (hit_cache_poison sa da now r) = fb_bssid r"
  "fb_bssid (hit_mixed_protect sa da now r) = fb_bssid r" "fb_bssid (hit_mixed_key sa da now r) = fb_bssid r"
  "fb_bssid (hit_pn_gap sa da now r) = fb_bssid r" "fb_bssid (hit_amsdu_flip sa da now r) = fb_bssid r"
  "fb_bssid (hit_eapol_relay sa da now r) = fb_bssid r" "fb_bssid (hit_plain_bcast sa da now r) = fb_bssid r"
  "fb_bssid (hit_amsdu_eapol sa da now r) = fb_bssid r" "fb_bssid (hit_plain_unicast sa da now r) = fb_bssid r"
  by (simp_all add: last_offender_def hit_cache_poison_def hit_mixed_protect_def hit_mixed_key_def hit_pn_gap_def
      hit_amsdu_flip_def hit_eapol_relay_def hit_plain_bcast_def hit_amsdu_eapol_def hit_plain_unicast_def)

text \<open>
  A stage that may have counted on the row and changed no other table than those it names;
  \<open>keep\<close> is the comparison of the rest.
\<close>

definition stage :: "frag_t \<Rightarrow> frag_t \<Rightarrow> mac \<Rightarrow> bool" where
  "stage st st' bssid \<longleftrightarrow> (\<forall>k. k \<noteq> bssid \<longrightarrow> bss_map st' k = bss_map st k)
     \<and> g_sta st' = g_sta st \<and> g_ap st' = g_ap st \<and> g_assoc_evt st' = g_assoc_evt st"

lemma stage_refl [simp]: "stage st st bssid" by (simp add: stage_def)
lemma stage_trans: "stage s t b \<Longrightarrow> stage t u b \<Longrightarrow> stage s u b" by (simp add: stage_def)

lemma on_bss_if:
  assumes "bss_at st i bssid r" "fb_bssid (g r) = bssid"
  shows "bss_at (if c then on_bss i g st else st) i bssid (if c then g r else r)"
    "stage st (if c then on_bss i g st else st) bssid"
    "g_sess (if c then on_bss i g st else st) = g_sess st" "g_mpdu (if c then on_bss i g st else st) = g_mpdu st"
  using assms on_bss_ok [where g = g and i = i and st = st and r = r and bssid = bssid, OF assms] by (auto simp: stage_def)

section \<open>Stage by stage\<close>

lemma expire_map:
  assumes ok: "tab_ok key_of t" and p: "st_policy t \<noteq> STAB_RING"
  shows "tab_map key_of (snd (stab_expire t now age)) k = (case tab_map key_of t k of
      None \<Rightarrow> None | Some r \<Rightarrow> if now - st_ls t r \<le> age then Some r else None)"
proof -
  obtain n t' where e: "stab_expire t now age = (n, t')" by fastforce
  have ok': "tab_ok key_of t'" by (rule tab_ok_expire(1) [OF ok e])
  have wf: "stab_wf t" and d: "distinct (map key_of (rows t))" "distinct (map key_of (rows t'))"
    using ok ok' by (simp_all add: tab_ok_def)
  have "mset (rows t') = mset (filter (\<lambda>r. \<not> now - st_ls t r > age) (rows t))"
    using stab_expire_spec [OF wf p e] by simp
  then have s: "set (rows t') = {r \<in> set (rows t). now - st_ls t r \<le> age}"
    by (auto dest!: arg_cong [of "mset (rows t')" _ set_mset] simp: not_less)
  have *: "tab_map key_of t' k = Some r \<longleftrightarrow> tab_map key_of t k = Some r \<and> now - st_ls t r \<le> age" for r
    using d s by (auto simp: tab_map_def key_map_Some)
  show ?thesis unfolding e snd_conv
  proof (cases "tab_map key_of t k")
    case None
    with * have "tab_map key_of t' k \<noteq> Some r" for r by simp
    then have "tab_map key_of t' k = None" by (cases "tab_map key_of t' k") auto
    with None show "tab_map key_of t' k = (case tab_map key_of t k of
      None \<Rightarrow> None | Some r \<Rightarrow> if now - st_ls t r \<le> age then Some r else None)" by simp
  next
    case (Some r)
    with * have "tab_map key_of t' k = Some q \<longleftrightarrow> q = r \<and> now - st_ls t r \<le> age" for q by auto
    then have "tab_map key_of t' k = (if now - st_ls t r \<le> age then Some r else None)"
      by (cases "tab_map key_of t' k") auto
    with Some show "tab_map key_of t' k = (case tab_map key_of t k of
      None \<Rightarrow> None | Some r \<Rightarrow> if now - st_ls t r \<le> age then Some r else None)" by simp
  qed
qed

definition touched :: "mac \<Rightarrow> time_t \<Rightarrow> frag_bss_t option \<Rightarrow> frag_bss_t" where
  "touched bssid now old = (case old of Some r \<Rightarrow> r\<lparr>fb_last_seen := now\<rparr>
     | None \<Rightarrow> bss_zero\<lparr>fb_bssid := bssid, fb_first_seen := now, fb_last_seen := now\<rparr>)"

lemma bss_get_ok:
  assumes ok: "frag_ok st"
  obtains i st' h' where "bss_get bssid now st h = Some (i, st', h')"
    "bss_at st' i bssid (touched bssid now (bss_map st bssid))"
    "\<And>k. k \<noteq> bssid \<Longrightarrow> bss_map st' k \<in> {bss_map st k, None}"
    "g_sta st' = g_sta st" "g_ap st' = g_ap st" "g_sess st' = g_sess st" "g_assoc_evt st' = g_assoc_evt st"
    "g_mpdu st' = g_mpdu st"
proof -
  have d: "same_decl bss_decl (g_bss st)" "tab_ok fb_bssid (g_bss st)" using ok by (simp_all add: frag_ok_def)
  let ?upd = "\<lambda>created b. let b = (if created then b\<lparr>fb_bssid := bssid, fb_first_seen := now\<rparr> else b)
       in b\<lparr>fb_last_seen := now\<rparr>"
  have kk: "keeps_key fb_bssid bssid ?upd" by (simp add: keeps_key_def)
  obtain i t' h' where w: "stab_write ?upd (g_bss st) bssid now h = Some (i, t', h')" "i < st_n t'"
    "same_decl bss_decl t'" "tab_ok fb_bssid t'"
    "row_of t' i = (case bss_map st bssid of Some r \<Rightarrow> ?upd False r | None \<Rightarrow> ?upd True (st_set_ls bss_decl now (st_zero bss_decl)))"
    "\<And>k'. k' \<noteq> bssid \<Longrightarrow> tab_map fb_bssid t' k' \<in> {bss_map st k', None}" "tab_map fb_bssid t' bssid = Some (row_of t' i)"
    by (rule bss.write_oldest [OF d frag_policies(1) kk, of now h], rule that)
  have r: "row_of t' i = touched bssid now (bss_map st bssid)"
    unfolding w(5) by (simp add: touched_def bss_zero_def split: option.split)
  have b: "fb_bssid (row_of t' i) = bssid"
    using w(7) w(4) by (auto simp: tab_map_def key_map_Some tab_ok_def)
  show thesis
  proof (rule that [of i "st\<lparr>g_bss := t'\<rparr>" h'])
    show "bss_get bssid now st h = Some (i, st\<lparr>g_bss := t'\<rparr>, h')" using w(1) by (simp add: bss_get_def)
    show "bss_at (st\<lparr>g_bss := t'\<rparr>) i bssid (touched bssid now (bss_map st bssid))"
      using ok w(2-4) b unfolding bss_at_def r [symmetric] by (simp add: frag_ok_def)
  qed (use w(6) in simp_all)
qed

text \<open>A frame with a packet number some recent frame of the transmitter had, aggregated otherwise.\<close>

definition replayed :: "frag_t \<Rightarrow> mac \<Rightarrow> int \<Rightarrow> int \<Rightarrow> time_t \<Rightarrow> bool" where
  "replayed st ta pn amsdu now \<longleftrightarrow> (case tab_map mpdu_keyof (g_mpdu st) (ta, pn) of
     None \<Rightarrow> False | Some m \<Rightarrow> now - fm_ts m \<le> FRAG_MPDU_WINDOW_S \<and> fm_amsdu m \<noteq> word_of_int amsdu)"

lemma mpdu_note_ok:
  assumes ok: "frag_ok st"
  obtains t' h' where "mpdu_note bssid ta pn sc amsdu now st h = Some (replayed st ta pn amsdu now, st\<lparr>g_mpdu := t'\<rparr>, h')"
    "same_decl mpdu_decl t'" "tab_ok mpdu_keyof t'"
proof -
  have d: "same_decl mpdu_decl (g_mpdu st)" "tab_ok mpdu_keyof (g_mpdu st)" using ok by (simp_all add: frag_ok_def)
  then have pol: "st_policy (g_mpdu st) \<noteq> STAB_RING" "st_ls (g_mpdu st) = fm_ts"
    by (simp_all add: same_decl_def) (simp add: frag_decl_defs)
  define t0 where "t0 = snd (stab_expire (g_mpdu st) now FRAG_MPDU_WINDOW_S)"
  obtain n where e: "stab_expire (g_mpdu st) now FRAG_MPDU_WINDOW_S = (n, t0)" by (simp add: t0_def prod_eq_iff)
  have d0: "same_decl mpdu_decl t0" "tab_ok mpdu_keyof t0"
    using tab_ok_expire [OF d(2) e] same_decl_trans [OF d(1)] by simp_all
  have m0: "tab_map mpdu_keyof t0 (ta, pn) = (case tab_map mpdu_keyof (g_mpdu st) (ta, pn) of
      None \<Rightarrow> None | Some m \<Rightarrow> if now - fm_ts m \<le> FRAG_MPDU_WINDOW_S then Some m else None)"
    unfolding t0_def expire_map [OF d(2) pol(1)] pol(2) ..
  let ?fresh = "tab_map mpdu_keyof t0 (ta, pn) = None"
  let ?upd = "\<lambda>created m. if \<not> created then m\<lparr>fm_ts := now\<rparr>
      else m\<lparr>fm_ta := ta, fm_bssid := bssid, fm_pn := pn, fm_sc := sc, fm_amsdu := word_of_int amsdu, fm_ts := now\<rparr>"
  have kk: "keeps_key mpdu_keyof (ta, pn) ?upd" by (simp add: keeps_key_def mpdu_keyof_def)
  obtain i t1 h1 where g: "stab_get t0 (ta, pn) now h = (Some i, ?fresh, t1, h1)"
    "\<not> ?fresh \<Longrightarrow> t1 = t0 \<and> h1 = h \<and> tab_map mpdu_keyof t0 (ta, pn) = Some (row_of t0 i)"
    "\<And>upd. stab_upsert upd (ta, pn) now h t0 = (stab_put i (upd ?fresh (row_of t1 i)) t1, h1)"
    by (rule mpdu.get_oldest [OF d0 frag_policies(6), of "(ta, pn)" now h], rule that) simp_all
  note u = mpdu.upsert_map(1,2) [OF d0 frag_policies(6) kk g(3)]
  have "mpdu_note bssid ta pn sc amsdu now st h
      = Some (replayed st ta pn amsdu now, st\<lparr>g_mpdu := stab_put i (?upd ?fresh (row_of t1 i)) t1\<rparr>, h1)"
  proof (cases ?fresh)
    case True
    then have "\<not> replayed st ta pn amsdu now" using m0 by (auto simp: replayed_def split: option.splits if_splits)
    with True show ?thesis
      unfolding mpdu_note_def t0_def [symmetric] g(1) Let_def by simp
  next
    case False
    from g(2) [OF False] have "replayed st ta pn amsdu now \<longleftrightarrow> fm_amsdu (row_of t1 i) \<noteq> word_of_int amsdu"
      using m0 by (auto simp: replayed_def split: option.splits if_splits)
    with False show ?thesis
      unfolding mpdu_note_def t0_def [symmetric] g(1) Let_def by simp
  qed
  then show thesis by (rule that) (use u in simp_all)
qed

definition flipped :: "frag_t \<Rightarrow> dot11_frame_t \<Rightarrow> mac \<Rightarrow> int \<Rightarrow> time_t \<Rightarrow> bool" where
  "flipped st f ta pn now \<longleftrightarrow> pn \<ge> 0 \<and> dot11_frame_amsdu (Some f) \<ge> 0
     \<and> replayed st ta pn (dot11_frame_amsdu (Some f)) now"

lemma flip_check_ok:
  assumes a: "bss_at st i bssid r" and ta: "addr_at f (f_ta f) = Some ta"
  obtains st' h' where "flip_check f i bssid sa da pn sc now st h = Some (st', h')"
    "bss_at st' i bssid (if flipped st f ta pn now then hit_amsdu_flip sa da now r else r)"
    "stage st st' bssid" "g_sess st' = g_sess st"
proof (cases "pn \<ge> 0 \<and> dot11_frame_amsdu (Some f) \<ge> 0")
  case False
  then have "flip_check f i bssid sa da pn sc now st h = Some (st, h)" "\<not> flipped st f ta pn now"
    by (auto simp: flip_check_def flipped_def Let_def)
  with that a show thesis by (simp add: stage_def)
next
  case True
  note b = a [unfolded bss_at_def]
  obtain t' h' where m: "mpdu_note bssid ta pn sc (dot11_frame_amsdu (Some f)) now st h
      = Some (replayed st ta pn (dot11_frame_amsdu (Some f)) now, st\<lparr>g_mpdu := t'\<rparr>, h')"
    "same_decl mpdu_decl t'" "tab_ok mpdu_keyof t'"
    by (rule mpdu_note_ok, use b in blast)
  have a1: "bss_at (st\<lparr>g_mpdu := t'\<rparr>) i bssid r" using b m(2,3) by (simp add: bss_at_def frag_ok_def)
  let ?hit = "replayed st ta pn (dot11_frame_amsdu (Some f)) now"
  have e: "flip_check f i bssid sa da pn sc now st h
      = Some (if ?hit then on_bss i (hit_amsdu_flip sa da now) (st\<lparr>g_mpdu := t'\<rparr>) else st\<lparr>g_mpdu := t'\<rparr>, h')"
    using True m(1) ta by (simp add: flip_check_def Let_def)
  have "fb_bssid (hit_amsdu_flip sa da now r) = bssid" using b by simp
  note o = on_bss_if [where g = "hit_amsdu_flip sa da now" and c = ?hit, OF a1 this]
  have f: "flipped st f ta pn now = ?hit" using True by (simp add: flipped_def)
  show thesis by (rule that [OF e]) (use o f in \<open>auto simp: stage_def split: if_splits\<close>)
qed

text \<open>The verdict of the EAPOL-forwarding detector, and what it withholds.\<close>

definition relayed :: "frag_t \<Rightarrow> dot11_frame_t \<Rightarrow> mac \<Rightarrow> mac \<Rightarrow> mac \<Rightarrow> bool" where
  "relayed st f bssid sa da \<longleftrightarrow> (f_to_ds f \<or> f_from_ds f) \<and> \<not> dot11_is_group_addr (Some da)
     \<and> first_frag_ethertype f = Some ETHERTYPE_EAPOL
     \<and> ap_identity_locked st bssid sa = FRAG_AP_NO \<and> ap_identity_locked st bssid da = FRAG_AP_NO"

definition withheld :: "frag_t \<Rightarrow> dot11_frame_t \<Rightarrow> mac \<Rightarrow> mac \<Rightarrow> mac \<Rightarrow> bool" where
  "withheld st f bssid sa da \<longleftrightarrow> (f_to_ds f \<or> f_from_ds f) \<and> \<not> dot11_is_group_addr (Some da)
     \<and> first_frag_ethertype f = Some ETHERTYPE_EAPOL
     \<and> {ap_identity_locked st bssid sa, ap_identity_locked st bssid da} \<inter> {FRAG_AP_BSSID, FRAG_AP_MLD} = {}
     \<and> FRAG_AP_MLD_SIBLING \<in> {ap_identity_locked st bssid sa, ap_identity_locked st bssid da}"

definition relay_row :: "frag_t \<Rightarrow> dot11_frame_t \<Rightarrow> mac \<Rightarrow> mac \<Rightarrow> mac \<Rightarrow> time_t \<Rightarrow> frag_bss_t \<Rightarrow> frag_bss_t" where
  "relay_row st f bssid sa da now r =
     (if relayed st f bssid sa da then hit_eapol_relay sa da now r
      else if withheld st f bssid sa da then r\<lparr>eapol_mld_sibling := eapol_mld_sibling r + 1\<rparr> else r)"

lemma relay_check_ok:
  assumes a: "bss_at st i bssid r" and et: "first_frag_ethertype f \<noteq> None"
  obtains st' where "relay_check f i bssid sa da now st = Some st'"
    "bss_at st' i bssid (relay_row st f bssid sa da now r)" "stage st st' bssid" "g_sess st' = g_sess st"
proof -
  have b: "fb_bssid r = bssid" using a by (simp add: bss_at_def)
  note o1 = on_bss_ok [where g = "hit_eapol_relay sa da now", OF a] and
    o2 = on_bss_ok [where g = "\<lambda>r. r\<lparr>eapol_mld_sibling := eapol_mld_sibling r + 1\<rparr>", OF a]
  have "\<exists>st'. relay_check f i bssid sa da now st = Some st'
    \<and> bss_at st' i bssid (relay_row st f bssid sa da now r) \<and> stage st st' bssid \<and> g_sess st' = g_sess st"
  proof (cases "relayed st f bssid sa da")
    case True
    then have "relay_check f i bssid sa da now st = Some (on_bss i (hit_eapol_relay sa da now) st)"
      by (simp add: relay_check_def relayed_def Let_def)
    with True o1 b show ?thesis by (simp add: relay_row_def stage_def)
  next
    case nr: False
    show ?thesis
    proof (cases "withheld st f bssid sa da")
      case True
      then have "relay_check f i bssid sa da now st
          = Some (on_bss i (\<lambda>r. r\<lparr>eapol_mld_sibling := eapol_mld_sibling r + 1\<rparr>) st)"
        using nr by (auto simp: relay_check_def withheld_def Let_def)
      with True nr o2 b show ?thesis by (simp add: relay_row_def stage_def)
    next
      case False
      then have "relay_check f i bssid sa da now st = Some st"
        using nr et unfolding relay_check_def withheld_def relayed_def Let_def
        by (cases "ap_identity_locked st bssid sa"; cases "ap_identity_locked st bssid da") auto
      with False nr a show ?thesis by (simp add: relay_row_def)
    qed
  qed
  with that show thesis by blast
qed

text \<open>The four verdicts on a continuation of the open session \<open>s\<close>.\<close>

definition poisoned :: "frag_t \<Rightarrow> mac \<Rightarrow> mac \<Rightarrow> mac \<Rightarrow> frag_session_t \<Rightarrow> bool" where
  "poisoned st bssid sa da s \<longleftrightarrow> frag_assoc_after st bssid sa (start_seen s) \<or> frag_assoc_after st bssid da (start_seen s)"

definition rekeyed :: "(mac \<Rightarrow> mac \<Rightarrow> int) \<Rightarrow> mac \<Rightarrow> mac \<Rightarrow> bool \<Rightarrow> frag_session_t \<Rightarrow> bool" where
  "rekeyed gen bssid sa prot s \<longleftrightarrow> prot \<and> start_protected s \<and> start_generation s > 0 \<and> gen bssid sa > start_generation s"

definition gapped :: "int \<Rightarrow> int \<Rightarrow> u16 \<Rightarrow> frag_session_t \<Rightarrow> bool" where
  "gapped pn fn sc s \<longleftrightarrow> pn \<ge> 0 \<and> last_pn s \<ge> 0 \<and> fn > last_fn s \<and> sc AND 0xfff0 = ss_seq_ctrl s
     \<and> pn - last_pn s \<noteq> fn - last_fn s"

definition track_row ::
  "(mac \<Rightarrow> mac \<Rightarrow> int) \<Rightarrow> frag_t \<Rightarrow> mac \<Rightarrow> mac \<Rightarrow> mac \<Rightarrow> u8 \<Rightarrow> int \<Rightarrow> bool \<Rightarrow> int \<Rightarrow> u16 \<Rightarrow> time_t \<Rightarrow> frag_bss_t \<Rightarrow> frag_bss_t" where
  "track_row gen st bssid sa da tid fn prot pn sc now r =
     (if fn = 0 then r else case sess_map st (bssid, sa, da, tid) of None \<Rightarrow> r
      | Some s \<Rightarrow>
        let r = (if poisoned st bssid sa da s then hit_cache_poison sa da now r else r);
            r = (if prot \<noteq> start_protected s then hit_mixed_protect sa da now r else r);
            r = (if rekeyed gen bssid sa prot s then hit_mixed_key sa da now r else r)
        in if gapped pn fn sc s then hit_pn_gap sa da now r else r)"

text \<open>The session after a continuation.\<close>

definition next_sess :: "int \<Rightarrow> int \<Rightarrow> time_t \<Rightarrow> frag_session_t \<Rightarrow> frag_session_t" where
  "next_sess pn fn now s =
     (let s = (if pn \<ge> 0 then s\<lparr>last_pn := pn\<rparr> else s); s = (if fn > last_fn s then s\<lparr>last_fn := fn\<rparr> else s)
      in s\<lparr>ss_last_seen := now\<rparr>)"

definition opened ::
  "mac \<Rightarrow> mac \<Rightarrow> mac \<Rightarrow> u8 \<Rightarrow> bool \<Rightarrow> int \<Rightarrow> int \<Rightarrow> u16 \<Rightarrow> time_t \<Rightarrow> frag_session_t" where
  "opened bssid sa da tid prot generation pn sc now = \<lparr>ss_bssid = bssid, ss_sa = sa, ss_da = da, ss_tid = tid,
     start_seen = now, start_protected = prot, start_generation = generation, last_pn = pn, last_fn = 0,
     ss_seq_ctrl = sc AND 0xfff0, ss_last_seen = now\<rparr>"

lemma sess_open_ok:
  assumes a: "bss_at st i bssid r"
  obtains st' h' where "sess_open bssid sa da tid prot g pn 0 sc now st h = Some (st', h')"
    "bss_at st' i bssid r" "stage st st' bssid"
    "sess_map st' (bssid, sa, da, tid) = Some (opened bssid sa da tid prot g pn sc now)"
proof -
  have d: "same_decl sess_decl (g_sess st)" "tab_ok sess_keyof (g_sess st)" using a by (simp_all add: bss_at_def frag_ok_def)
  let ?k = "(bssid, sa, da, tid)"
  let ?upd = "\<lambda>created s. let s = (if created then s\<lparr>ss_bssid := bssid, ss_sa := sa, ss_da := da, ss_tid := tid\<rparr> else s)
       in s\<lparr>start_seen := now, start_protected := prot, start_generation := g,
            last_pn := pn, last_fn := 0, ss_seq_ctrl := sc AND 0xfff0, ss_last_seen := now\<rparr>"
  have kk: "keeps_key sess_keyof ?k ?upd" by (simp add: keeps_key_def sess_keyof_def)
  obtain j t' h' where w: "stab_write ?upd (g_sess st) ?k now h = Some (j, t', h')"
    "same_decl sess_decl t'" "tab_ok sess_keyof t'"
    "row_of t' j = (case sess_map st ?k of Some r \<Rightarrow> ?upd False r | None \<Rightarrow> ?upd True (st_set_ls sess_decl now (st_zero sess_decl)))"
    "tab_map sess_keyof t' ?k = Some (row_of t' j)"
    by (rule sess.write_oldest [OF d frag_policies(4) kk, of now h], rule that)
  have "row_of t' j = opened bssid sa da tid prot g pn sc now"
  proof (cases "sess_map st ?k")
    case None
    then show ?thesis unfolding w(4) by (simp add: opened_def sess_zero_def)
  next
    case (Some s)
    then have "sess_keyof s = ?k" using d(2) by (simp add: tab_map_def key_map_Some tab_ok_def)
    with Some show ?thesis unfolding w(4) by (cases s) (simp add: opened_def sess_keyof_def)
  qed
  with w a that [of "st\<lparr>g_sess := t'\<rparr>" h'] show thesis
    by (simp add: sess_open_def bss_at_def frag_ok_def stage_def)
qed

lemma sess_put_ok:
  assumes a: "bss_at st i bssid r" and j: "j < st_n (g_sess st)" and k: "sess_keyof s = sess_keyof (row_of (g_sess st) j)"
  shows "bss_at (st\<lparr>g_sess := stab_put j s (g_sess st)\<rparr>) i bssid r" "stage st (st\<lparr>g_sess := stab_put j s (g_sess st)\<rparr>) bssid"
    "sess_map (st\<lparr>g_sess := stab_put j s (g_sess st)\<rparr>) = (sess_map st)(sess_keyof s \<mapsto> s)"
    "st_n (stab_put j s (g_sess st)) = st_n (g_sess st)" "st_policy (stab_put j s (g_sess st)) = STAB_OLDEST"
    "row_of (stab_put j s (g_sess st)) j = s"
proof -
  have d: "same_decl sess_decl (g_sess st)" "tab_ok sess_keyof (g_sess st)" using a by (simp_all add: bss_at_def frag_ok_def)
  note p = sess.put_same [OF d(2) j k]
  have l: "j < length (st_rows (g_sess st))" using d(2) j by (simp add: tab_ok_def stab_wf_def)
  show "bss_at (st\<lparr>g_sess := stab_put j s (g_sess st)\<rparr>) i bssid r"
    using a p(1) by (simp add: bss_at_def frag_ok_def same_decl_def stab_put_def)
  show "stage st (st\<lparr>g_sess := stab_put j s (g_sess st)\<rparr>) bssid" by (simp add: stage_def)
  show "sess_map (st\<lparr>g_sess := stab_put j s (g_sess st)\<rparr>) = (sess_map st)(sess_keyof s \<mapsto> s)" using p(2) by simp
  show "row_of (stab_put j s (g_sess st)) j = s" by (rule row_of_put [OF l])
qed (use a in \<open>simp_all add: bss_at_def frag_ok_def same_decl_def stab_put_def\<close>)

lemma sess_close_ok:
  assumes a: "bss_at st i bssid r" and j: "j < st_n (g_sess st)"
  shows "bss_at (sess_close j st) i bssid r" "stage st (sess_close j st) bssid"
    "sess_map (sess_close j st) = (sess_map st)(sess_keyof (row_of (g_sess st) j) := None)"
proof -
  have d: "same_decl sess_decl (g_sess st)" "tab_ok sess_keyof (g_sess st)" using a by (simp_all add: bss_at_def frag_ok_def)
  then have e: "stab_del (g_sess st) (Some j) = (True, del_idx (g_sess st) j)" using j by (simp add: stab_del_def same_decl_def)
  note o = tab_ok_del [OF d(2) j]
  have "same_decl sess_decl (del_idx (g_sess st) j)" using d(1) by (simp add: same_decl_def)
  with a o(1) e show "bss_at (sess_close j st) i bssid r" by (simp add: bss_at_def frag_ok_def sess_close_def)
  show "stage st (sess_close j st) bssid" by (simp add: stage_def sess_close_def)
  show "sess_map (sess_close j st) = (sess_map st)(sess_keyof (row_of (g_sess st) j) := None)"
    using o(2) e by (simp add: sess_close_def)
qed

lemma next_sess_key [simp]: "sess_keyof (next_sess pn fn now s) = sess_keyof s"
  by (simp add: sess_keyof_def next_sess_def Let_def)

text \<open>What a fragment makes of the open session of its MSDU.\<close>

definition track_sess ::
  "(mac \<Rightarrow> mac \<Rightarrow> int) \<Rightarrow> mac \<Rightarrow> mac \<Rightarrow> mac \<Rightarrow> u8 \<Rightarrow> int \<Rightarrow> bool \<Rightarrow> bool \<Rightarrow> int \<Rightarrow> u16 \<Rightarrow> time_t
     \<Rightarrow> frag_session_t option \<Rightarrow> frag_session_t option" where
  "track_sess gen bssid sa da tid fn more_frag prot pn sc now old =
     (if fn = 0 then Some (opened bssid sa da tid prot (gen bssid sa) pn sc now)
      else case old of None \<Rightarrow> None | Some s \<Rightarrow> if more_frag then Some (next_sess pn fn now s) else None)"

lemma frag_track_ok:
  assumes a: "bss_at st i bssid r"
  shows "\<exists>st' h'. frag_track gen i bssid sa da tid fn more_frag prot pn sc now st h = Some (st', h')
    \<and> bss_at st' i bssid (track_row gen st bssid sa da tid fn prot pn sc now r) \<and> stage st st' bssid
    \<and> sess_map st' (bssid, sa, da, tid) = track_sess gen bssid sa da tid fn more_frag prot pn sc now (sess_map st (bssid, sa, da, tid))"
proof -
  let ?k = "(bssid, sa, da, tid)"
  have d: "same_decl sess_decl (g_sess st)" "tab_ok sess_keyof (g_sess st)" using a by (simp_all add: bss_at_def frag_ok_def)
  have b: "fb_bssid r = bssid" using a by (simp add: bss_at_def)
  note fm = sess.find_map [OF d, of ?k]
  consider (zero) "fn = 0" | (none) "fn \<noteq> 0" "stab_find (g_sess st) ?k = None"
    | (some) j where "fn \<noteq> 0" "stab_find (g_sess st) ?k = Some j" by (cases "stab_find (g_sess st) ?k") auto
  then show ?thesis
  proof cases
    case zero
    obtain st' h' where "sess_open bssid sa da tid prot (gen bssid sa) pn 0 sc now st h = Some (st', h')"
      "bss_at st' i bssid r" "stage st st' bssid"
      "sess_map st' ?k = Some (opened bssid sa da tid prot (gen bssid sa) pn sc now)"
      by (rule sess_open_ok [OF a])
    with zero show ?thesis by (simp add: frag_track_def track_row_def track_sess_def)
  next
    case none
    with fm have "sess_map st ?k = None" by simp
    with none a show ?thesis by (simp add: frag_track_def track_row_def track_sess_def sess_find_def)
  next
    case (some j)
    define s where "s = row_of (g_sess st) j"
    have m: "sess_map st ?k = Some s" using fm some(2) by (simp add: s_def)
    then have sk: "sess_keyof s = ?k" using d(2) by (simp add: tab_map_def key_map_Some tab_ok_def)
    have j: "j < st_n (g_sess st)" using some(2) sess.find_Some(1) [OF d] by (simp add: stab_find_def)
    define st1 where "st1 = (if poisoned st bssid sa da s then on_bss i (hit_cache_poison sa da now) st else st)"
    define r1 where "r1 = (if poisoned st bssid sa da s then hit_cache_poison sa da now r else r)"
    define st2 where "st2 = (if prot \<noteq> start_protected s then on_bss i (hit_mixed_protect sa da now) st1 else st1)"
    define r2 where "r2 = (if prot \<noteq> start_protected s then hit_mixed_protect sa da now r1 else r1)"
    define st3 where "st3 = (if rekeyed gen bssid sa prot s then on_bss i (hit_mixed_key sa da now) st2 else st2)"
    define r3 where "r3 = (if rekeyed gen bssid sa prot s then hit_mixed_key sa da now r2 else r2)"
    define st4 where "st4 = (if gapped pn fn sc s then on_bss i (hit_pn_gap sa da now) st3 else st3)"
    define r4 where "r4 = (if gapped pn fn sc s then hit_pn_gap sa da now r3 else r3)"
    have 1: "bss_at st1 i bssid r1" "stage st st1 bssid" "g_sess st1 = g_sess st"
      unfolding st1_def r1_def using on_bss_if [where g = "hit_cache_poison sa da now", OF a] b by simp_all
    have b1: "fb_bssid r1 = bssid" using 1(1) by (simp add: bss_at_def)
    have 2: "bss_at st2 i bssid r2" "stage st1 st2 bssid" "g_sess st2 = g_sess st1"
      unfolding st2_def r2_def using on_bss_if [where g = "hit_mixed_protect sa da now", OF 1(1)] b1 by simp_all
    have b2: "fb_bssid r2 = bssid" using 2(1) by (simp add: bss_at_def)
    have 3: "bss_at st3 i bssid r3" "stage st2 st3 bssid" "g_sess st3 = g_sess st2"
      unfolding st3_def r3_def using on_bss_if [where g = "hit_mixed_key sa da now", OF 2(1)] b2 by simp_all
    have b3: "fb_bssid r3 = bssid" using 3(1) by (simp add: bss_at_def)
    have 4: "bss_at st4 i bssid r4" "stage st3 st4 bssid" "g_sess st4 = g_sess st3"
      unfolding st4_def r4_def using on_bss_if [where g = "hit_pn_gap sa da now", OF 3(1)] b3 by simp_all
    have gs: "g_sess st4 = g_sess st" using 1(3) 2(3) 3(3) 4(3) by simp
    have stg: "stage st st4 bssid" using 1(2) 2(2) 3(2) 4(2) by (blast intro: stage_trans)
    define s' where "s' = next_sess pn fn now s"
    define st5 where "st5 = st4\<lparr>g_sess := stab_put j s' (g_sess st4)\<rparr>"
    have ks: "sess_keyof s' = sess_keyof (row_of (g_sess st4) j)" by (simp add: s'_def gs s_def)
    have j4: "j < st_n (g_sess st4)" using j gs by simp
    note 5 = sess_put_ok [OF 4(1) j4 ks, folded st5_def]
    have j5: "j < st_n (g_sess st5)" using 5(4) j4 by (simp add: st5_def)
    note 6 = sess_close_ok [OF 5(1) j5]
    have r5: "row_of (g_sess st5) j = s'" using 5(6) by (simp add: st5_def)
    have e: "frag_track gen i bssid sa da tid fn more_frag prot pn sc now st h
        = Some (if \<not> more_frag then sess_close j st5 else st5, h)"
      using some unfolding frag_track_def sess_find_def some(2) option.case Let_def s_def [symmetric]
        poisoned_def [symmetric] rekeyed_def [symmetric] gapped_def [symmetric]
        st1_def [symmetric] st2_def [symmetric] st3_def [symmetric] st4_def [symmetric]
      by (simp add: st5_def s'_def next_sess_def Let_def)
    have tr: "track_row gen st bssid sa da tid fn prot pn sc now r = r4"
      using some(1) m by (simp add: track_row_def r4_def r3_def r2_def r1_def Let_def)
    have ts: "sess_map (if \<not> more_frag then sess_close j st5 else st5) ?k
        = track_sess gen bssid sa da tid fn more_frag prot pn sc now (sess_map st ?k)"
      using some(1) m 5(3) 6(3) r5 sk by (simp add: track_sess_def s'_def)
    show ?thesis
      unfolding e tr using 5(1,2) 6(1,2) stg ts by (cases more_frag) (auto intro: stage_trans)
  qed
qed

section \<open>A whole observation\<close>

text \<open>The frames the detectors look at: data with a body, whole header, at most three addresses.\<close>

definition eligible :: "bytes \<Rightarrow> int \<Rightarrow> bool" where
  "eligible b len \<longleftrightarrow> 24 \<le> len \<and> ftype b = 2 \<and> fsub b AND 4 = 0 \<and> \<not> faddr4 b"

definition fmac :: "bytes \<Rightarrow> nat \<Rightarrow> mac" where
  "fmac b i = take 6 (drop (if i = 1 then 4 else if i = 2 then 10 else 16) b)"

definition fbssid :: "bytes \<Rightarrow> mac" where "fbssid b = fmac b (role_bssid b)"
definition fsa :: "bytes \<Rightarrow> mac" where "fsa b = fmac b (role_sa b)"
definition fda :: "bytes \<Rightarrow> mac" where "fda b = fmac b (role_da b)"

definition fn_of :: "bytes \<Rightarrow> int" where "fn_of b = uint (fsc b AND 0x000f)"
definition frag_of :: "bytes \<Rightarrow> bool" where "frag_of b \<longleftrightarrow> fn_of b > 0 \<or> bit (b ! 1) 2"
definition sc_of :: "bytes \<Rightarrow> u16" where
  "sc_of b = push_bit 4 (word_of_int (uint (drop_bit 4 (fsc b) AND 0x0fff))) OR word_of_int (fn_of b)"

lemma snap_safe:
  assumes "0 \<le> k" "k + 8 \<le> int (length b)"
  shows "snap_ethertype b k \<noteq> None"
  using assms by (simp add: snap_ethertype_def)

lemma ethertype_safe:
  assumes "2 \<le> len" "len \<le> int (length b)"
  shows "first_frag_ethertype (view b len rt) \<noteq> None" "first_amsdu_subframe_ethertype (view b len rt) \<noteq> None"
proof -
  have h: "f_hdr_len (view b len rt) \<ge> 0 \<Longrightarrow> f_hdr_len (view b len rt) = hdr_size b"
    by (simp add: view_geometry split: if_splits)
  show "first_frag_ethertype (view b len rt) \<noteq> None" "first_amsdu_subframe_ethertype (view b len rt) \<noteq> None"
    using assms snap_safe [of _ b]
    by (auto simp: first_frag_ethertype_def first_amsdu_subframe_ethertype_def Let_def not_less)
qed

lemma eligible_view:
  assumes e: "eligible b len" and l: "len \<le> int (length b)"
  shows "addr_at (view b len rt) (f_bssid (view b len rt)) = Some (fbssid b)"
    "addr_at (view b len rt) (f_sa (view b len rt)) = Some (fsa b)"
    "addr_at (view b len rt) (f_da (view b len rt)) = Some (fda b)"
    "addr_at (view b len rt) (f_ta (view b len rt)) = Some (fmac b 2)"
    "f_frag_num (view b len rt) = fn_of b" "f_tid (view b len rt) = f_tid (view b len rt)"
    "f_seq_num (view b len rt) = uint (drop_bit 4 (fsc b) AND 0x0fff)"
proof -
  have t: "ftype b = 2" "24 \<le> len" "\<not> (bit (b ! 1) 0 \<and> bit (b ! 1) 1)" using e by (auto simp: eligible_def faddr4_def)
  have ta: "f_ta (view b len rt) = fa b len 2" using t by (simp add: view_def Let_def)
  have a: "addr_at (view b len rt) (fa b len 1) = Some (fmac b 1)" "addr_at (view b len rt) (fa b len 2) = Some (fmac b 2)"
    "addr_at (view b len rt) (fa b len 3) = Some (fmac b 3)"
    using t l by (simp_all add: addr_at_def fa_def fmac_def)
  have r: "role_bssid b \<in> {1, 2, 3}" "role_sa b \<in> {1, 2, 3}" "role_da b \<in> {1, 2, 3}"
    using t by (auto simp: role_bssid_def role_sa_def role_da_def split: bool.split)
  show "addr_at (view b len rt) (f_bssid (view b len rt)) = Some (fbssid b)"
    "addr_at (view b len rt) (f_sa (view b len rt)) = Some (fsa b)"
    "addr_at (view b len rt) (f_da (view b len rt)) = Some (fda b)"
    using r a by (auto simp: froles_def fbssid_def fsa_def fda_def)
  show "addr_at (view b len rt) (f_ta (view b len rt)) = Some (fmac b 2)" unfolding ta by (rule a(2))
  show "f_frag_num (view b len rt) = fn_of b" "f_seq_num (view b len rt) = uint (drop_bit 4 (fsc b) AND 0x0fff)"
    using t by (simp_all add: view_seq fn_of_def)
qed simp

lemma eligible_roles:
  assumes "eligible b len"
  shows "f_bssid (view b len rt) \<noteq> None" "f_sa (view b len rt) \<noteq> None" "f_da (view b len rt) \<noteq> None"
  using assms by (auto simp: eligible_def faddr4_def froles_def fa_def role_bssid_def role_sa_def role_da_def split: bool.splits)

text \<open>The row after the plaintext detectors.\<close>

definition plain_row :: "bytes \<Rightarrow> dot11_frame_t \<Rightarrow> time_t \<Rightarrow> frag_bss_t \<Rightarrow> frag_bss_t" where
  "plain_row b f now r =
     (if dot11_is_group_addr (Some (fda b))
      then if frag_of b then hit_plain_bcast (fsa b) (fda b) now r else r
      else if dot11_frame_amsdu (Some f) = 1
      then if first_amsdu_subframe_ethertype f = Some ETHERTYPE_EAPOL then hit_amsdu_eapol (fsa b) (fda b) now r else r
      else if the (first_frag_ethertype f) \<ge> 0 \<and> first_frag_ethertype f \<noteq> Some ETHERTYPE_EAPOL
      then hit_plain_unicast (fsa b) (fda b) now r else r)"

lemma plaintext_check_ok:
  assumes a: "bss_at st i bssid r"
    and et: "first_frag_ethertype f \<noteq> None" "first_amsdu_subframe_ethertype f \<noteq> None"
  obtains st' where "plaintext_check f i (frag_of b) (fsa b) (fda b) now st = Some st'"
    "bss_at st' i bssid (plain_row b f now r)" "stage st st' bssid" "g_sess st' = g_sess st"
proof -
  obtain e1 e2 where e: "first_frag_ethertype f = Some e1" "first_amsdu_subframe_ethertype f = Some e2" using et by auto
  have k: "fb_bssid r = bssid" using a by (simp add: bss_at_def)
  note o = on_bss_ok [where g = "hit_plain_bcast (fsa b) (fda b) now", OF a]
    on_bss_ok [where g = "hit_amsdu_eapol (fsa b) (fda b) now", OF a]
    on_bss_ok [where g = "hit_plain_unicast (fsa b) (fda b) now", OF a]
  have "\<exists>st'. plaintext_check f i (frag_of b) (fsa b) (fda b) now st = Some st'
    \<and> bss_at st' i bssid (plain_row b f now r) \<and> stage st st' bssid \<and> g_sess st' = g_sess st"
    using o k a e by (simp add: plaintext_check_def plain_row_def stage_def not_le)
  with that show thesis by blast
qed

lemma sta_mark_ok:
  assumes a: "bss_at st i bssid r"
  obtains st' h' where "sta_mark_protected bs sta now st h = Some (st', h')" "bss_at st' i bssid r"
    "sta_map st' (bs, sta) \<noteq> None" "\<And>q. q \<noteq> (bs, sta) \<Longrightarrow> sta_map st' q \<in> {sta_map st q, None}" "\<And>k. bss_map st' k = bss_map st k" "g_sess st' = g_sess st"
    "g_ap st' = g_ap st" "g_assoc_evt st' = g_assoc_evt st"
proof -
  have d: "same_decl sta_decl (g_sta st)" "tab_ok sta_keyof (g_sta st)" using a by (simp_all add: bss_at_def frag_ok_def)
  let ?upd = "\<lambda>created r. let r = (if created then r\<lparr>fs_bssid := bs, fs_sta := sta\<rparr> else r)
       in r\<lparr>fs_last_seen := now\<rparr>"
  have kk: "keeps_key sta_keyof (bs, sta) ?upd" by (simp add: keeps_key_def sta_keyof_def)
  obtain j t' h' where w: "stab_write ?upd (g_sta st) (bs, sta) now h = Some (j, t', h')"
    "same_decl sta_decl t'" "tab_ok sta_keyof t'" "tab_map sta_keyof t' (bs, sta) = Some (row_of t' j)"
    "\<And>q. q \<noteq> (bs, sta) \<Longrightarrow> tab_map sta_keyof t' q \<in> {sta_map st q, None}"
    by (rule sta.write_oldest [OF d frag_policies(2) kk, of now h], rule that)
  show thesis
    by (rule that [of "st\<lparr>g_sta := t'\<rparr>" h']) (use a w in \<open>simp_all add: sta_mark_protected_def bss_at_def frag_ok_def\<close>)
qed

text \<open>The packet number the frame carries, or -1.\<close>

definition pn_of :: "bytes \<Rightarrow> int \<Rightarrow> int" where
  "pn_of b len = the (dot11_frame_ccmp_pn (Some (view b len None)))"

definition final_row :: "(mac \<Rightarrow> mac \<Rightarrow> int) \<Rightarrow> frag_t \<Rightarrow> bytes \<Rightarrow> int \<Rightarrow> time_t \<Rightarrow> frag_bss_t" where
  "final_row gen st b len now =
     (let f = view b len None; pn = pn_of b len;
          r = touched (fbssid b) now (bss_map st (fbssid b));
          r = (if flipped st f (fmac b 2) pn now then hit_amsdu_flip (fsa b) (fda b) now r else r);
          r = relay_row st f (fbssid b) (fsa b) (fda b) now r;
          r = (if frag_of b \<and> dot11_frame_tid (Some f) \<ge> 0
               then track_row gen st (fbssid b) (fsa b) (fda b) (word_of_int (dot11_frame_tid (Some f))) (fn_of b)
                      (bit (b ! 1) 6) pn (sc_of b) now r
               else r)
      in if bit (b ! 1) 6 then r\<lparr>protected_frames := protected_frames r + 1\<rparr>
         else if sta_known st (fbssid b) (gate_identity st (fbssid b) (fsa b)) then plain_row b f now r
         else r)"

lemma stage_lookups:
  assumes "stage st st' bssid"
  shows "ap_identity_locked st' x y = ap_identity_locked st x y" "gate_identity st' x y = gate_identity st x y"
    "sta_known st' x y = sta_known st x y" "frag_assoc_after st' x y s = frag_assoc_after st x y s"
    "relayed st' f x y z = relayed st f x y z" "withheld st' f x y z = withheld st f x y z"
proof -
  have e: "g_ap st' = g_ap st" "g_sta st' = g_sta st" "g_assoc_evt st' = g_assoc_evt st"
    using assms by (simp_all add: stage_def)
  show i: "ap_identity_locked st' x y = ap_identity_locked st x y" for x y
    unfolding ap_identity_locked_def e ..
  show "gate_identity st' x y = gate_identity st x y" unfolding gate_identity_def i ..
  show "sta_known st' x y = sta_known st x y" unfolding sta_known_def e ..
  show "frag_assoc_after st' x y s = frag_assoc_after st x y s" unfolding frag_assoc_after_def e ..
  show "relayed st' f x y z = relayed st f x y z" "withheld st' f x y z = withheld st f x y z"
    unfolding relayed_def withheld_def i by (rule refl)+
qed

lemma observe_ineligible:
  assumes "2 \<le> len" "len \<le> int (length b)" "\<not> eligible b len"
  shows "frag_observe gen (Some b) len now st h = Some (st, h)"
proof -
  have "observe_locked gen (Some (view b len None)) now st h = Some (st, h)"
    using assms(3) by (auto simp: observe_locked_def eligible_def)
  with decode_view [OF assms(1,2), of None] show ?thesis by (simp add: frag_observe_def frag_observe_frame_def)
qed

lemma track_row_cong:
  assumes "stage st st' bs" "g_sess st' = g_sess st"
  shows "track_row gen st' bssid sa da tid fn prot pn sc now r = track_row gen st bssid sa da tid fn prot pn sc now r"
  unfolding track_row_def poisoned_def stage_lookups [OF assms(1)] assms(2) ..

lemma relay_row_cong: "stage st st' bs \<Longrightarrow> relay_row st' f bssid sa da now r = relay_row st f bssid sa da now r"
  by (simp add: relay_row_def stage_lookups)

lemma flipped_cong: "g_mpdu st' = g_mpdu st \<Longrightarrow> flipped st' f ta pn now = flipped st f ta pn now"
  by (simp add: flipped_def replayed_def)

text \<open>The end of an observation: key installs and the plaintext detectors.\<close>

lemma observe_tail:
  assumes a: "bss_at st i bssid r" and e: "first_frag_ethertype f \<noteq> None" "first_amsdu_subframe_ethertype f \<noteq> None"
  shows "\<exists>st' h'. (if prot
          then sta_mark_protected bssid gsa now
                 (on_bss i (\<lambda>r. r\<lparr>protected_frames := protected_frames r + 1\<rparr>) st) h
          else if \<not> sta_known st bssid gsa then Some (st, h)
          else do { st \<leftarrow> plaintext_check f i (frag_of b) (fsa b) (fda b) now st; Some (st, h) }) = Some (st', h')
     \<and> bss_at st' i bssid (if prot then r\<lparr>protected_frames := protected_frames r + 1\<rparr>
         else if sta_known st bssid gsa then plain_row b f now r else r)
     \<and> (\<forall>k. k \<noteq> bssid \<longrightarrow> bss_map st' k = bss_map st k) \<and> g_sess st' = g_sess st
     \<and> (prot \<longrightarrow> sta_map st' (bssid, gsa) \<noteq> None)
     \<and> (\<forall>q. sta_map st' q \<noteq> None \<longrightarrow> sta_map st q \<noteq> None \<or> prot \<and> q = (bssid, gsa))
     \<and> g_ap st' = g_ap st \<and> g_assoc_evt st' = g_assoc_evt st"
proof (cases prot)
  case True
  have "fb_bssid r = bssid" using a by (simp add: bss_at_def)
  then have k: "fb_bssid (r\<lparr>protected_frames := protected_frames r + 1\<rparr>) = bssid" by simp
  note o = on_bss_ok [where g = "\<lambda>r. r\<lparr>protected_frames := protected_frames r + 1\<rparr>", OF a k]
  obtain st' h' where m: "sta_mark_protected bssid gsa now (on_bss i (\<lambda>r. r\<lparr>protected_frames := protected_frames r + 1\<rparr>) st) h = Some (st', h')"
    "bss_at st' i bssid (r\<lparr>protected_frames := protected_frames r + 1\<rparr>)" "sta_map st' (bssid, gsa) \<noteq> None"
    "\<And>q. q \<noteq> (bssid, gsa) \<Longrightarrow> sta_map st' q \<in> {sta_map (on_bss i (\<lambda>r. r\<lparr>protected_frames := protected_frames r + 1\<rparr>) st) q, None}"
    "\<And>k. bss_map st' k = bss_map (on_bss i (\<lambda>r. r\<lparr>protected_frames := protected_frames r + 1\<rparr>) st) k"
    "g_sess st' = g_sess (on_bss i (\<lambda>r. r\<lparr>protected_frames := protected_frames r + 1\<rparr>) st)"
    "g_ap st' = g_ap (on_bss i (\<lambda>r. r\<lparr>protected_frames := protected_frames r + 1\<rparr>) st)"
    "g_assoc_evt st' = g_assoc_evt (on_bss i (\<lambda>r. r\<lparr>protected_frames := protected_frames r + 1\<rparr>) st)"
    by (rule sta_mark_ok [OF o(1), where bs = bssid and sta = gsa and now = now and h = h], rule that)
  have q: "\<forall>q. sta_map st' q \<noteq> None \<longrightarrow> sta_map st q \<noteq> None \<or> q = (bssid, gsa)"
  proof (intro allI impI)
    fix q assume n: "sta_map st' q \<noteq> None"
    show "sta_map st q \<noteq> None \<or> q = (bssid, gsa)"
    proof (cases "q = (bssid, gsa)")
      case False
      from m(4) [OF this] n o(3) show ?thesis by auto
    qed simp
  qed
  show ?thesis
    by (rule exI [of _ st'], rule exI [of _ h']) (use True m(1-3,5-8) o q in \<open>simp del: split_paired_All\<close>)
next
  case False
  obtain st' where p: "plaintext_check f i (frag_of b) (fsa b) (fda b) now st = Some st'"
    "bss_at st' i bssid (plain_row b f now r)" "stage st st' bssid" "g_sess st' = g_sess st"
    by (rule plaintext_check_ok [OF a e])
  show ?thesis
  proof (cases "sta_known st bssid gsa")
    case True
    show ?thesis by (rule exI [of _ st'], rule exI [of _ h]) (use False True p in \<open>simp add: stage_def\<close>)
  next
    case unk: False
    show ?thesis by (rule exI [of _ st], rule exI [of _ h]) (use False unk a in simp)
  qed
qed

text \<open>The stages put together, and the row they leave.\<close>

lemma observe_compose:
  fixes b len
  defines "f \<equiv> view b len None" and "bs \<equiv> fbssid b" and "sa \<equiv> fsa b" and "da \<equiv> fda b"
  assumes e: "eligible b len" and l: "len \<le> int (length b)" and pn: "dot11_frame_ccmp_pn (Some f) = Some pn"
    and 1: "bss_get bs now st h = Some (i, st1, h1)"
    and 2: "flip_check f i bs sa da pn (sc_of b) now st1 h1 = Some (st2, h2)"
    and 3: "relay_check f i bs sa da now st2 = Some st3"
    and 4: "(if frag_of b \<and> dot11_frame_tid (Some f) \<ge> 0
       then frag_track gen i bs sa da (word_of_int (dot11_frame_tid (Some f))) (fn_of b) (bit (b ! 1) 2) (bit (b ! 1) 6) pn (sc_of b) now st3 h2
       else Some (st3, h2)) = Some (st4, h4)"
    and 5: "(if bit (b ! 1) 6
       then sta_mark_protected bs (gate_identity st4 bs sa) now
              (on_bss i (\<lambda>r. r\<lparr>protected_frames := protected_frames r + 1\<rparr>) st4) h4
       else if \<not> sta_known st4 bs (gate_identity st4 bs sa) then Some (st4, h4)
       else do { st \<leftarrow> plaintext_check f i (frag_of b) sa da now st4; Some (st, h4) }) = Some (st', h')"
  shows "frag_observe gen (Some b) len now st h = Some (st', h')"
proof -
  have el: "2 \<le> len" "24 \<le> len" "ftype b = 2" "fsub b AND 4 = 0" "\<not> faddr4 b" using e by (simp_all add: eligible_def)
  note v = eligible_view [OF e l, of None, folded f_def bs_def sa_def da_def]
  have fn: "\<not> f_frag_num f < 0" unfolding v(5) by (simp add: fn_of_def)
  have sc: "(push_bit 4 (word_of_int (f_seq_num f)) OR word_of_int (f_frag_num f) :: u16) = sc_of b"
    unfolding v(5,7) sc_of_def ..
  have fr: "(f_frag_num f > 0 \<or> f_more_frag f) = frag_of b" unfolding v(5) frag_of_def by (simp add: f_def)
  have gd: "(f_p f = None \<or> f_len f < 24) = False" "(f_type f \<noteq> 2) = False" "(f_subtype f AND 0x04 \<noteq> 0) = False"
    "(f_has_addr4 f \<or> f_bssid f = None \<or> f_sa f = None \<or> f_da f = None) = False" "(f_frag_num f < 0) = False"
    using el fn eligible_roles [OF e, of None] by (simp_all add: f_def)
  have bits: "f_protected f = bit (b ! 1) 6" "f_more_frag f = bit (b ! 1) 2" by (simp_all add: f_def)
  have "observe_locked gen (Some f) now st h = Some (st', h')"
    unfolding observe_locked_def option.case gd(1-4) if_False v(1-3) Option.bind.bind_lunit Let_def
    unfolding gd(5) if_False fr sc
    unfolding 1 Option.bind.bind_lunit prod.case pn
    unfolding 2 Option.bind.bind_lunit prod.case
    unfolding 3 Option.bind.bind_lunit bits v(5)
    unfolding 4 Option.bind.bind_lunit prod.case by (rule 5)
  then show ?thesis using decode_view [OF el(1) l, of None] by (simp add: frag_observe_def frag_observe_frame_def f_def)
qed

lemma observe_effect:
  assumes ok: "frag_ok st" and e: "eligible b len" and l: "len \<le> int (length b)"
  shows "\<exists>st' h'. frag_observe gen (Some b) len now st h = Some (st', h') \<and> frag_ok st'
    \<and> bss_map st' (fbssid b) = Some (final_row gen st b len now)
    \<and> (\<forall>k. k \<noteq> fbssid b \<longrightarrow> bss_map st' k \<in> {bss_map st k, None})
    \<and> g_ap st' = g_ap st \<and> g_assoc_evt st' = g_assoc_evt st
    \<and> (bit (b ! 1) 6 \<longrightarrow> sta_map st' (fbssid b, gate_identity st (fbssid b) (fsa b)) \<noteq> None)
    \<and> (\<forall>q. sta_map st' q \<noteq> None \<longrightarrow> sta_map st q \<noteq> None \<or> bit (b ! 1) 6 \<and> q = (fbssid b, gate_identity st (fbssid b) (fsa b)))
    \<and> (frag_of b \<and> dot11_frame_tid (Some (view b len None)) \<ge> 0 \<longrightarrow>
        (let k = (fbssid b, fsa b, fda b, word_of_int (dot11_frame_tid (Some (view b len None)))) in
         sess_map st' k = track_sess gen (fbssid b) (fsa b) (fda b)
           (word_of_int (dot11_frame_tid (Some (view b len None)))) (fn_of b) (bit (b ! 1) 2) (bit (b ! 1) 6)
           (pn_of b len) (sc_of b) now (sess_map st k)))"
proof -
  let ?f = "view b len None" and ?bs = "fbssid b" and ?sa = "fsa b" and ?da = "fda b"
  have l2: "2 \<le> len" using e by (simp add: eligible_def)
  note v = eligible_view [OF e l, of None] and et = ethertype_safe [OF l2 l, of None]
  obtain pn where pn: "dot11_frame_ccmp_pn (Some ?f) = Some pn" using ccmp_pn_safe [OF frame_wf_view [OF l2 l]] by blast
  then have pno: "pn_of b len = pn" by (simp add: pn_of_def)
  obtain i st1 h1 where 1: "bss_get ?bs now st h = Some (i, st1, h1)"
    "bss_at st1 i ?bs (touched ?bs now (bss_map st ?bs))" "\<And>k. k \<noteq> ?bs \<Longrightarrow> bss_map st1 k \<in> {bss_map st k, None}"
    "g_sta st1 = g_sta st" "g_ap st1 = g_ap st" "g_sess st1 = g_sess st" "g_assoc_evt st1 = g_assoc_evt st"
    "g_mpdu st1 = g_mpdu st" by (rule bss_get_ok [OF ok, where bssid = "fbssid b" and now = now and h = h], rule that)
  define r1 where "r1 = touched ?bs now (bss_map st ?bs)"
  obtain st2 h2 where 2: "flip_check ?f i ?bs ?sa ?da pn (sc_of b) now st1 h1 = Some (st2, h2)"
    "bss_at st2 i ?bs (if flipped st1 ?f (fmac b 2) pn now then hit_amsdu_flip ?sa ?da now r1 else r1)"
    "stage st1 st2 ?bs" "g_sess st2 = g_sess st1"
    by (rule flip_check_ok [OF 1(2) [folded r1_def] v(4)])
  define r2 where "r2 = (if flipped st1 ?f (fmac b 2) pn now then hit_amsdu_flip ?sa ?da now r1 else r1)"
  obtain st3 where 3: "relay_check ?f i ?bs ?sa ?da now st2 = Some st3"
    "bss_at st3 i ?bs (relay_row st2 ?f ?bs ?sa ?da now r2)" "stage st2 st3 ?bs" "g_sess st3 = g_sess st2"
    by (rule relay_check_ok [OF 2(2) [folded r2_def] et(1)])
  define r3 where "r3 = relay_row st2 ?f ?bs ?sa ?da now r2"
  define tid where "tid = dot11_frame_tid (Some ?f)"
  let ?k = "(?bs, ?sa, ?da, word_of_int tid)"
  define r4 where "r4 = (if frag_of b \<and> tid \<ge> 0 then track_row gen st3 ?bs ?sa ?da (word_of_int tid) (fn_of b) (bit (b ! 1) 6) pn (sc_of b) now r3 else r3)"
  have "\<exists>st' h'. (if frag_of b \<and> tid \<ge> 0 then frag_track gen i ?bs ?sa ?da (word_of_int tid) (fn_of b) (bit (b ! 1) 2) (bit (b ! 1) 6) pn (sc_of b) now st3 h2
       else Some (st3, h2)) = Some (st', h') \<and> bss_at st' i ?bs r4 \<and> stage st3 st' ?bs
     \<and> (frag_of b \<and> tid \<ge> 0 \<longrightarrow> sess_map st' ?k = track_sess gen ?bs ?sa ?da (word_of_int tid) (fn_of b) (bit (b ! 1) 2) (bit (b ! 1) 6) pn (sc_of b) now (sess_map st3 ?k))"
    using frag_track_ok [OF 3(2) [folded r3_def], of gen ?sa ?da "word_of_int tid" "fn_of b" "bit (b ! 1) 2" "bit (b ! 1) 6" pn "sc_of b" now h2]
      3(2) [folded r3_def] unfolding r4_def by (cases "frag_of b \<and> tid \<ge> 0") (simp_all only: if_True if_False simp_thms, auto)
  then obtain st4 h4 where 4: "(if frag_of b \<and> tid \<ge> 0 then frag_track gen i ?bs ?sa ?da (word_of_int tid) (fn_of b) (bit (b ! 1) 2) (bit (b ! 1) 6) pn (sc_of b) now st3 h2
       else Some (st3, h2)) = Some (st4, h4)" "bss_at st4 i ?bs r4" "stage st3 st4 ?bs"
     "frag_of b \<and> tid \<ge> 0 \<longrightarrow> sess_map st4 ?k = track_sess gen ?bs ?sa ?da (word_of_int tid) (fn_of b) (bit (b ! 1) 2) (bit (b ! 1) 6) pn (sc_of b) now (sess_map st3 ?k)"
    by blast
  have s14: "stage st1 st4 ?bs" using 2(3) 3(3) 4(3) by (blast intro: stage_trans)
  have s1: "ap_identity_locked st1 x y = ap_identity_locked st x y" "gate_identity st1 x y = gate_identity st x y"
    "sta_known st1 x y = sta_known st x y" "frag_assoc_after st1 x y z = frag_assoc_after st x y z" for x y z
    using 1(4,5,7) by (simp_all only: ap_identity_locked_def gate_identity_def sta_known_def frag_assoc_after_def)
  define gsa where "gsa = gate_identity st ?bs ?sa"
  have g4: "gate_identity st4 ?bs ?sa = gsa" "sta_known st4 ?bs gsa = sta_known st ?bs gsa"
    unfolding stage_lookups [OF s14] s1 gsa_def by (rule refl)+
  from observe_tail [OF 4(2) et, of "bit (b ! 1) 6" gsa now h4 b] obtain st' h' where 5:
    "(if bit (b ! 1) 6 then sta_mark_protected ?bs gsa now (on_bss i (\<lambda>r. r\<lparr>protected_frames := protected_frames r + 1\<rparr>) st4) h4
      else if \<not> sta_known st4 ?bs gsa then Some (st4, h4)
      else do { st \<leftarrow> plaintext_check ?f i (frag_of b) ?sa ?da now st4; Some (st, h4) }) = Some (st', h')"
    "bss_at st' i ?bs (if bit (b ! 1) 6 then r4\<lparr>protected_frames := protected_frames r4 + 1\<rparr>
         else if sta_known st4 ?bs gsa then plain_row b ?f now r4 else r4)"
    "\<forall>k. k \<noteq> ?bs \<longrightarrow> bss_map st' k = bss_map st4 k" "g_sess st' = g_sess st4"
    "bit (b ! 1) 6 \<longrightarrow> sta_map st' (?bs, gsa) \<noteq> None"
    "\<forall>q. sta_map st' q \<noteq> None \<longrightarrow> sta_map st4 q \<noteq> None \<or> bit (b ! 1) 6 \<and> q = (?bs, gsa)" "g_ap st' = g_ap st4" "g_assoc_evt st' = g_assoc_evt st4"
    by (elim exE conjE) (rule that)
  have obs: "frag_observe gen (Some b) len now st h = Some (st', h')"
    by (rule observe_compose [OF e l pn 1(1) 2(1) 3(1) 4(1) [unfolded tid_def]]) (simp only: g4(1) 5(1))
  have fin: "final_row gen st b len now = (if bit (b ! 1) 6 then r4\<lparr>protected_frames := protected_frames r4 + 1\<rparr>
         else if sta_known st4 ?bs gsa then plain_row b ?f now r4 else r4)"
  proof -
    have a: "relay_row st2 ?f ?bs ?sa ?da now r2 = relay_row st ?f ?bs ?sa ?da now r2"
      unfolding relay_row_cong [OF 2(3)] unfolding relay_row_def relayed_def withheld_def s1 ..
    have c: "track_row gen st3 ?bs ?sa ?da t n p q s now x = track_row gen st ?bs ?sa ?da t n p q s now x" for t n p q s x
    proof -
      have "track_row gen st3 ?bs ?sa ?da t n p q s now x = track_row gen st1 ?bs ?sa ?da t n p q s now x"
        by (rule track_row_cong [OF stage_trans [OF 2(3) 3(3)]]) (simp add: 2(4) 3(4))
      also have "\<dots> = track_row gen st ?bs ?sa ?da t n p q s now x"
        unfolding track_row_def poisoned_def s1 1(6) ..
      finally show ?thesis .
    qed
    show ?thesis
      unfolding final_row_def Let_def pno r1_def [symmetric] flipped_cong [OF 1(8), symmetric] r2_def [symmetric]
        a [symmetric] r3_def [symmetric] tid_def [symmetric] c [symmetric] r4_def [symmetric] gsa_def [symmetric] g4(2) ..
  qed
  have sess: "sess_map st3 ?k = sess_map st ?k" by (simp add: 1(6) 2(4) 3(4))
  have row: "bss_at st' i ?bs (final_row gen st b len now)" using 5(2) unfolding fin .
  have others: "\<forall>k. k \<noteq> ?bs \<longrightarrow> bss_map st' k \<in> {bss_map st k, None}"
    using 1(3) s14 5(3) by (simp add: stage_def)
  have tabs: "g_ap st' = g_ap st" "g_assoc_evt st' = g_assoc_evt st" using 5(7,8) s14 1(5,7) by (simp_all add: stage_def)
  have sm: "frag_of b \<and> tid \<ge> 0 \<longrightarrow> sess_map st' ?k = track_sess gen ?bs ?sa ?da (word_of_int tid) (fn_of b) (bit (b ! 1) 2) (bit (b ! 1) 6) pn (sc_of b) now (sess_map st ?k)"
    using 4(4) unfolding sess 5(4) .
  have gates: "\<forall>q. sta_map st' q \<noteq> None \<longrightarrow> sta_map st q \<noteq> None \<or> bit (b ! 1) 6 \<and> q = (?bs, gsa)"
    using 5(6) s14 1(4) by (simp add: stage_def del: split_paired_All)
  show ?thesis
    by (rule exI [of _ st'], rule exI [of _ h'])
      (use obs bss_atD [OF row] others tabs 5(5) gates sm in \<open>simp del: split_paired_All add: Let_def tid_def [symmetric] pno gsa_def [symmetric]\<close>)
qed

end
