(* ===== verification/FragVerdicts.thy ===== *)
theory FragVerdicts
  imports FragAttack
begin

text \<open>
  The verdicts of \<open>src/fragattack.c\<close>: runs of the observer with the frames handed to it, what one
  observation does to the counters of its BSS, and what the counters say of the whole run.
\<close>

section \<open>Reachable states\<close>

text \<open>The states the observer can be in, with the frames handed to it so far, oldest first.\<close>

inductive frag_run :: "(bytes option \<times> int) list \<Rightarrow> frag_t \<Rightarrow> bool" where
  boot: "frag_run [] frag_boot"
| observe_step: "frag_run fs st \<Longrightarrow> buf_ok dot11 len \<Longrightarrow> frag_observe gen dot11 len now st h = Some (st', h')
    \<Longrightarrow> frag_run (fs @ [(dot11, len)]) st'"
| assoc_step: "frag_run fs st \<Longrightarrow> frag_note_association bssid sta now st h = Some (st', h') \<Longrightarrow> frag_run fs st'"
| beacon_step: "frag_run fs st \<Longrightarrow> frag_note_beacon bssid mld now st h = Some (st', h') \<Longrightarrow> frag_run fs st'"
| clear_step: "frag_run fs st \<Longrightarrow> frag_run fs (frag_clear st)"

lemma observe_total:
  assumes ok: "frag_ok st" and b: "buf_ok dot11 len"
  shows "\<exists>st' h'. frag_observe gen dot11 len now st h = Some (st', h') \<and> frag_ok st'"
proof (cases "dot11 = None \<or> len < 2")
  case True
  then have "dot11_frame_decode dot11 len None = Some (False, frame_init dot11 len None)"
    using decode_runt by (cases dot11) auto
  moreover have "f_p (frame_init dot11 len None) = dot11" "f_len (frame_init dot11 len None) = max 0 len"
    by (simp_all add: frame_init_def)
  ultimately have "frag_observe gen dot11 len now st h = Some (st, h)"
    using True by (auto simp: frag_observe_def frag_observe_frame_def observe_locked_def)
  with ok show ?thesis by simp
next
  case False
  then obtain bs where d: "dot11 = Some bs" "2 \<le> len" "len \<le> int (length bs)" using b by auto
  show ?thesis
  proof (cases "eligible bs len")
    case True
    from observe_effect [OF ok True d(3), of gen now h] show ?thesis unfolding d(1) by blast
  next
    case False
    from observe_ineligible [OF d(2,3) False] ok show ?thesis by (simp add: d(1))
  qed
qed

lemma note_association_ok:
  assumes ok: "frag_ok st"
  shows "\<exists>st' h'. frag_note_association bssid sta now st h = Some (st', h') \<and> frag_ok st'"
proof (cases "\<exists>b s. bssid = Some b \<and> sta = Some s")
  case True
  then obtain b s where bs: "bssid = Some b" "sta = Some s" by blast
  have d: "same_decl assoc_decl (g_assoc_evt st)" "tab_ok assoc_keyof (g_assoc_evt st)" using ok by (simp_all add: frag_ok_def)
  let ?upd = "\<lambda>created r. let r = (if created then r\<lparr>fa_bssid := b, fa_sta := s\<rparr> else r) in r\<lparr>last_assoc := now\<rparr>"
  have kk: "keeps_key assoc_keyof (b, s) ?upd" by (simp add: keeps_key_def assoc_keyof_def)
  obtain j t' h' where w: "stab_write ?upd (g_assoc_evt st) (b, s) now h = Some (j, t', h')"
    "same_decl assoc_decl t'" "tab_ok assoc_keyof t'"
    by (rule assoc.write_oldest [OF d frag_policies(5) kk, of now h], rule that)
  with ok show ?thesis by (simp add: frag_note_association_def note_association_locked_def bs frag_ok_def)
next
  case False
  then have "frag_note_association bssid sta now st h = Some (st, h)"
    by (cases bssid; cases sta) (simp_all add: frag_note_association_def note_association_locked_def)
  with ok show ?thesis by simp
qed

lemma note_beacon_ok:
  assumes ok: "frag_ok st"
  shows "\<exists>st' h'. frag_note_beacon bssid mld now st h = Some (st', h') \<and> frag_ok st'"
proof (cases "\<exists>b. bssid = Some b \<and> b ! 0 AND 0x01 = 0")
  case True
  then obtain b where b: "bssid = Some b" "b ! 0 AND 0x01 = 0" by blast
  have d: "same_decl ap_decl (g_ap st)" "tab_ok fp_bssid (g_ap st)" using ok by (simp_all add: frag_ok_def)
  define has where "has \<longleftrightarrow> (case mld of None \<Rightarrow> False | Some m \<Rightarrow> m ! 0 AND 0x01 = 0)"
  let ?upd = "\<lambda>created r. let r = (if created then r\<lparr>fp_bssid := b\<rparr> else r); r = r\<lparr>fp_has_mld := has\<rparr>;
              r = (if has then r\<lparr>fp_mld := the mld\<rparr> else r\<lparr>fp_mld := mac_zero\<rparr>)
          in r\<lparr>fp_last_seen := now\<rparr>"
  have kk: "keeps_key fp_bssid b ?upd" by (simp add: keeps_key_def Let_def)
  obtain j t' h' where w: "stab_write ?upd (g_ap st) b now h = Some (j, t', h')"
    "same_decl ap_decl t'" "tab_ok fp_bssid t'"
    by (rule ap.write_oldest [OF d frag_policies(3) kk, of now h], rule that)
  have "frag_note_beacon bssid mld now st h = Some (st\<lparr>g_ap := t'\<rparr>, h')"
    using w(1) b unfolding frag_note_beacon_def has_def Let_def by simp
  with ok w show ?thesis by (simp add: frag_ok_def)
next
  case False
  then have "frag_note_beacon bssid mld now st h = Some (st, h)"
    by (auto simp: frag_note_beacon_def split: option.split)
  with ok show ?thesis by simp
qed

lemma frag_run_ok: "frag_run fs st \<Longrightarrow> frag_ok st"
proof (induction rule: frag_run.induct)
  case boot
  show ?case by (rule frag_ok_boot)
next
  case (observe_step fs st dot11 len gen now h st' h')
  with observe_total [of st dot11 len gen now h] show ?case by auto
next
  case (assoc_step fs st bssid sta now h st' h')
  with note_association_ok [of st bssid sta now h] show ?case by auto
next
  case (beacon_step fs st bssid mld now h st' h')
  with note_beacon_ok [of st bssid mld now h] show ?case by auto
next
  case (clear_step fs st)
  then show ?case by (simp add: frag_ok_def frag_clear_def tab_clear(1,2))
qed

section \<open>Counters\<close>

lemmas hit_defs = last_offender_def hit_cache_poison_def hit_mixed_protect_def hit_mixed_key_def hit_pn_gap_def
  hit_amsdu_flip_def hit_eapol_relay_def hit_plain_bcast_def hit_amsdu_eapol_def hit_plain_unicast_def

text \<open>A counter of a BSS, 0 when it has no row.\<close>

definition count_of :: "(frag_bss_t \<Rightarrow> u32) \<Rightarrow> frag_t \<Rightarrow> mac \<Rightarrow> u32" where
  "count_of c st bssid = (case bss_map st bssid of None \<Rightarrow> 0 | Some r \<Rightarrow> c r)"

lemma touched_counts:
  "plaintext_unicast (touched k now (bss_map st k)) = count_of plaintext_unicast st k"
  "plaintext_bcast_frag (touched k now (bss_map st k)) = count_of plaintext_bcast_frag st k"
  "amsdu_eapol_spoof (touched k now (bss_map st k)) = count_of amsdu_eapol_spoof st k"
  "protected_frames (touched k now (bss_map st k)) = count_of protected_frames st k"
  "cache_poison (touched k now (bss_map st k)) = count_of cache_poison st k"
  "mixed_protect (touched k now (bss_map st k)) = count_of mixed_protect st k"
  "mixed_key (touched k now (bss_map st k)) = count_of mixed_key st k"
  "pn_gap (touched k now (bss_map st k)) = count_of pn_gap st k"
  "amsdu_flip (touched k now (bss_map st k)) = count_of amsdu_flip st k"
  "eapol_relay (touched k now (bss_map st k)) = count_of eapol_relay st k"
  "eapol_mld_sibling (touched k now (bss_map st k)) = count_of eapol_mld_sibling st k"
  by (simp_all add: touched_def count_of_def bss_zero_def split: option.split)

text \<open>Each stage moves its own counters only.\<close>

lemma relay_row_counts:
  "plaintext_unicast (relay_row st f bs sa da now r) = plaintext_unicast r"
  "plaintext_bcast_frag (relay_row st f bs sa da now r) = plaintext_bcast_frag r"
  "amsdu_eapol_spoof (relay_row st f bs sa da now r) = amsdu_eapol_spoof r"
  "protected_frames (relay_row st f bs sa da now r) = protected_frames r"
  "cache_poison (relay_row st f bs sa da now r) = cache_poison r"
  "mixed_protect (relay_row st f bs sa da now r) = mixed_protect r"
  "mixed_key (relay_row st f bs sa da now r) = mixed_key r" "pn_gap (relay_row st f bs sa da now r) = pn_gap r"
  "amsdu_flip (relay_row st f bs sa da now r) = amsdu_flip r"
  "eapol_relay (relay_row st f bs sa da now r) = eapol_relay r + of_bool (relayed st f bs sa da)"
  by (simp_all add: relay_row_def hit_defs)

lemma track_row_counts:
  "plaintext_unicast (track_row gen st bs sa da tid fn prot pn sc now r) = plaintext_unicast r"
  "plaintext_bcast_frag (track_row gen st bs sa da tid fn prot pn sc now r) = plaintext_bcast_frag r"
  "amsdu_eapol_spoof (track_row gen st bs sa da tid fn prot pn sc now r) = amsdu_eapol_spoof r"
  "protected_frames (track_row gen st bs sa da tid fn prot pn sc now r) = protected_frames r"
  "amsdu_flip (track_row gen st bs sa da tid fn prot pn sc now r) = amsdu_flip r"
  "eapol_relay (track_row gen st bs sa da tid fn prot pn sc now r) = eapol_relay r"
  by (simp_all add: track_row_def hit_defs Let_def split: option.split)

lemma track_row_hits:
  assumes "sess_map st (bs, sa, da, tid) = Some s" "fn \<noteq> 0"
  shows "cache_poison (track_row gen st bs sa da tid fn prot pn sc now r) = cache_poison r + of_bool (poisoned st bs sa da s)"
    "mixed_protect (track_row gen st bs sa da tid fn prot pn sc now r) = mixed_protect r + of_bool (prot \<noteq> start_protected s)"
    "mixed_key (track_row gen st bs sa da tid fn prot pn sc now r) = mixed_key r + of_bool (rekeyed gen bs sa prot s)"
    "pn_gap (track_row gen st bs sa da tid fn prot pn sc now r) = pn_gap r + of_bool (gapped pn fn sc s)"
  using assms by (simp_all add: track_row_def hit_defs Let_def)

lemma track_row_none:
  "sess_map st (bs, sa, da, tid) = None \<or> fn = 0 \<Longrightarrow> track_row gen st bs sa da tid fn prot pn sc now r = r"
  by (auto simp: track_row_def)

lemma plain_row_counts:
  "cache_poison (plain_row b f now r) = cache_poison r" "mixed_protect (plain_row b f now r) = mixed_protect r"
  "mixed_key (plain_row b f now r) = mixed_key r" "pn_gap (plain_row b f now r) = pn_gap r"
  "amsdu_flip (plain_row b f now r) = amsdu_flip r" "eapol_relay (plain_row b f now r) = eapol_relay r"
  "protected_frames (plain_row b f now r) = protected_frames r"
  "plaintext_bcast_frag (plain_row b f now r)
     = plaintext_bcast_frag r + of_bool (dot11_is_group_addr (Some (fda b)) \<and> frag_of b)"
  "amsdu_eapol_spoof (plain_row b f now r) = amsdu_eapol_spoof r + of_bool (\<not> dot11_is_group_addr (Some (fda b))
      \<and> dot11_frame_amsdu (Some f) = 1 \<and> first_amsdu_subframe_ethertype f = Some ETHERTYPE_EAPOL)"
  "plaintext_unicast (plain_row b f now r) = plaintext_unicast r + of_bool (\<not> dot11_is_group_addr (Some (fda b))
      \<and> dot11_frame_amsdu (Some f) \<noteq> 1 \<and> the (first_frag_ethertype f) \<ge> 0 \<and> first_frag_ethertype f \<noteq> Some ETHERTYPE_EAPOL)"
  by (simp_all add: plain_row_def hit_defs)

definition tid_of :: "bytes \<Rightarrow> int \<Rightarrow> int" where "tid_of b len = dot11_frame_tid (Some (view b len None))"

definition sess_key :: "bytes \<Rightarrow> int \<Rightarrow> sess_key_t" where
  "sess_key b len = (fbssid b, fsa b, fda b, word_of_int (tid_of b len))"

text \<open>A continuation of an open session about which \<open>P\<close> holds.\<close>

definition continues :: "frag_t \<Rightarrow> bytes \<Rightarrow> int \<Rightarrow> (frag_session_t \<Rightarrow> bool) \<Rightarrow> bool" where
  "continues st b len P \<longleftrightarrow> fn_of b \<noteq> 0 \<and> tid_of b len \<ge> 0
     \<and> (case sess_map st (sess_key b len) of None \<Rightarrow> False | Some s \<Rightarrow> P s)"

lemma finish_counts:
  "cache_poison (if p then r\<lparr>protected_frames := n\<rparr> else if q then plain_row b f now r else r) = cache_poison r"
  "mixed_protect (if p then r\<lparr>protected_frames := n\<rparr> else if q then plain_row b f now r else r) = mixed_protect r"
  "mixed_key (if p then r\<lparr>protected_frames := n\<rparr> else if q then plain_row b f now r else r) = mixed_key r"
  "pn_gap (if p then r\<lparr>protected_frames := n\<rparr> else if q then plain_row b f now r else r) = pn_gap r"
  by (simp_all add: plain_row_counts)

lemma final_row_frag_counts:
  fixes now :: time_t and gen st b len
  defines "fin \<equiv> final_row gen st b len now"
  shows "cache_poison fin = count_of cache_poison st (fbssid b) + of_bool (continues st b len (poisoned st (fbssid b) (fsa b) (fda b)))"
    "mixed_protect fin = count_of mixed_protect st (fbssid b) + of_bool (continues st b len (\<lambda>s. bit (b ! 1) 6 \<noteq> start_protected s))"
    "mixed_key fin = count_of mixed_key st (fbssid b) + of_bool (continues st b len (rekeyed gen (fbssid b) (fsa b) (bit (b ! 1) 6)))"
    "pn_gap fin = count_of pn_gap st (fbssid b) + of_bool (continues st b len (gapped (pn_of b len) (fn_of b) (sc_of b)))"
proof -
  have fr: "frag_of b" if "fn_of b \<noteq> 0"
  proof -
    have "0 \<le> fn_of b" by (simp add: fn_of_def)
    with that show ?thesis by (simp add: frag_of_def)
  qed
  let ?tr = "\<lambda>r. if frag_of b \<and> tid_of b len \<ge> 0
     then track_row gen st (fbssid b) (fsa b) (fda b) (word_of_int (tid_of b len)) (fn_of b) (bit (b ! 1) 6) (pn_of b len) (sc_of b) now r
     else r"
  have t: "cache_poison (?tr r) = cache_poison r + of_bool (continues st b len (poisoned st (fbssid b) (fsa b) (fda b)))"
    "mixed_protect (?tr r) = mixed_protect r + of_bool (continues st b len (\<lambda>s. bit (b ! 1) 6 \<noteq> start_protected s))"
    "mixed_key (?tr r) = mixed_key r + of_bool (continues st b len (rekeyed gen (fbssid b) (fsa b) (bit (b ! 1) 6)))"
    "pn_gap (?tr r) = pn_gap r + of_bool (continues st b len (gapped (pn_of b len) (fn_of b) (sc_of b)))" for r
  proof -
    show "cache_poison (?tr r) = cache_poison r + of_bool (continues st b len (poisoned st (fbssid b) (fsa b) (fda b)))"
      "mixed_protect (?tr r) = mixed_protect r + of_bool (continues st b len (\<lambda>s. bit (b ! 1) 6 \<noteq> start_protected s))"
      "mixed_key (?tr r) = mixed_key r + of_bool (continues st b len (rekeyed gen (fbssid b) (fsa b) (bit (b ! 1) 6)))"
      "pn_gap (?tr r) = pn_gap r + of_bool (continues st b len (gapped (pn_of b len) (fn_of b) (sc_of b)))"
      using fr by (cases "sess_map st (sess_key b len)"; cases "fn_of b = 0";
        simp add: continues_def sess_key_def track_row_none track_row_hits)+
  qed
  define r0 where "r0 = touched (fbssid b) now (bss_map st (fbssid b))"
  define r1 where "r1 = (if flipped st (view b len None) (fmac b 2) (pn_of b len) now then hit_amsdu_flip (fsa b) (fda b) now r0 else r0)"
  define r2 where "r2 = relay_row st (view b len None) (fbssid b) (fsa b) (fda b) now r1"
  have fin: "fin = (if bit (b ! 1) 6 then (?tr r2)\<lparr>protected_frames := protected_frames (?tr r2) + 1\<rparr>
         else if sta_known st (fbssid b) (gate_identity st (fbssid b) (fsa b)) then plain_row b (view b len None) now (?tr r2)
         else ?tr r2)"
    unfolding fin_def final_row_def Let_def tid_of_def [symmetric] r0_def [symmetric] r1_def [symmetric] r2_def [symmetric] ..
  have tr: "cache_poison fin = cache_poison (?tr r2)" "mixed_protect fin = mixed_protect (?tr r2)"
    "mixed_key fin = mixed_key (?tr r2)" "pn_gap fin = pn_gap (?tr r2)"
    unfolding fin by (rule finish_counts)+
  have r2: "cache_poison r2 = count_of cache_poison st (fbssid b)" "mixed_protect r2 = count_of mixed_protect st (fbssid b)"
    "mixed_key r2 = count_of mixed_key st (fbssid b)" "pn_gap r2 = count_of pn_gap st (fbssid b)"
    unfolding r2_def r1_def r0_def by (simp_all add: relay_row_counts touched_counts hit_defs)
  show "cache_poison fin = count_of cache_poison st (fbssid b) + of_bool (continues st b len (poisoned st (fbssid b) (fsa b) (fda b)))"
    unfolding tr(1) t(1) r2 ..
  show "mixed_protect fin = count_of mixed_protect st (fbssid b) + of_bool (continues st b len (\<lambda>s. bit (b ! 1) 6 \<noteq> start_protected s))"
    unfolding tr(2) t(2) r2 ..
  show "mixed_key fin = count_of mixed_key st (fbssid b) + of_bool (continues st b len (rekeyed gen (fbssid b) (fsa b) (bit (b ! 1) 6)))"
    unfolding tr(3) t(3) r2 ..
  show "pn_gap fin = count_of pn_gap st (fbssid b) + of_bool (continues st b len (gapped (pn_of b len) (fn_of b) (sc_of b)))"
    unfolding tr(4) t(4) r2 ..
qed

lemma final_row_plain_counts:
  fixes now :: time_t and gen st b len
  defines "fin \<equiv> final_row gen st b len now" and "f \<equiv> view b len None"
    and "quiet \<equiv> \<not> bit (b ! 1) 6 \<and> sta_known st (fbssid b) (gate_identity st (fbssid b) (fsa b))"
  shows "protected_frames fin = count_of protected_frames st (fbssid b) + of_bool (bit (b ! 1) 6)"
    "plaintext_bcast_frag fin = count_of plaintext_bcast_frag st (fbssid b)
       + of_bool (quiet \<and> dot11_is_group_addr (Some (fda b)) \<and> frag_of b)"
    "amsdu_eapol_spoof fin = count_of amsdu_eapol_spoof st (fbssid b) + of_bool (quiet \<and> \<not> dot11_is_group_addr (Some (fda b))
       \<and> dot11_frame_amsdu (Some f) = 1 \<and> first_amsdu_subframe_ethertype f = Some ETHERTYPE_EAPOL)"
    "plaintext_unicast fin = count_of plaintext_unicast st (fbssid b) + of_bool (quiet \<and> \<not> dot11_is_group_addr (Some (fda b))
       \<and> dot11_frame_amsdu (Some f) \<noteq> 1 \<and> the (first_frag_ethertype f) \<ge> 0 \<and> first_frag_ethertype f \<noteq> Some ETHERTYPE_EAPOL)"
    "eapol_relay fin = count_of eapol_relay st (fbssid b) + of_bool (relayed st f (fbssid b) (fsa b) (fda b))"
    "amsdu_flip fin = count_of amsdu_flip st (fbssid b) + of_bool (flipped st f (fmac b 2) (pn_of b len) now)"
  unfolding fin_def final_row_def Let_def f_def quiet_def
  by (simp_all add: plain_row_counts track_row_counts relay_row_counts touched_counts hit_defs)

text \<open>What a frame carries in the clear, read off its octets.\<close>

definition aggregated :: "bytes \<Rightarrow> int \<Rightarrow> bool" where
  "aggregated b len \<longleftrightarrow> fqos b \<and> fqos_at b < len \<and> bit (b ! nat (fqos_at b)) 7"

definition snap_type :: "bytes \<Rightarrow> int \<Rightarrow> int" where
  "snap_type b k = (if b ! nat k = 0xaa \<and> b ! nat (k + 1) = 0xaa \<and> b ! nat (k + 2) = 0x03
     then uint (b ! nat (k + 6)) * 256 + uint (b ! nat (k + 7)) else -1)"

definition clear_type :: "bytes \<Rightarrow> int \<Rightarrow> int" where
  "clear_type b len = (if fn_of b = 0 \<and> \<not> aggregated b len \<and> hdr_size b + 8 \<le> len then snap_type b (hdr_size b) else -1)"

definition subframe_type :: "bytes \<Rightarrow> int \<Rightarrow> int" where
  "subframe_type b len = (if fn_of b = 0 \<and> aggregated b len \<and> hdr_size b + 22 \<le> len then snap_type b (hdr_size b + 14) else -1)"

lemma snap_ethertype_bytes:
  assumes "0 \<le> k" "k + 8 \<le> int (length b)"
  shows "snap_ethertype b k = Some (snap_type b k)"
  using assms by (simp add: snap_ethertype_def snap_type_def)

lemma clear_types:
  assumes e: "eligible b len" and l: "len \<le> int (length b)"
  shows "dot11_frame_amsdu (Some (view b len None)) = 1 \<longleftrightarrow> aggregated b len"
    "first_frag_ethertype (view b len None) = Some (clear_type b len)"
    "first_amsdu_subframe_ethertype (view b len None) = Some (subframe_type b len)"
proof -
  have t: "ftype b = 2" "24 \<le> len" using e by (simp_all add: eligible_def)
  have fn: "f_frag_num (view b len None) = fn_of b" by (rule eligible_view(5) [OF e l])
  have h0: "0 \<le> hdr_size b" using hdr_size_bounds(1) [of b] by simp
  have f: "f_p (view b len None) = Some b" "f_len (view b len None) = len" "f_type (view b len None) = 2"
    "f_has_qos (view b len None) = fqos b" using t by simp_all
  show a: "dot11_frame_amsdu (Some (view b len None)) = 1 \<longleftrightarrow> aggregated b len"
    using t f by (simp add: dot11_frame_amsdu_def aggregated_def view_seq and_one_eq mod_2_eq_odd bit_iff_odd_drop_bit)
  show "first_frag_ethertype (view b len None) = Some (clear_type b len)"
    unfolding first_frag_ethertype_def clear_type_def fn a f view_geometry Let_def
    using t l h0 snap_ethertype_bytes [of "hdr_size b" b] by auto
  show "first_amsdu_subframe_ethertype (view b len None) = Some (subframe_type b len)"
    unfolding first_amsdu_subframe_ethertype_def subframe_type_def fn a f view_geometry Let_def
    using t l h0 snap_ethertype_bytes [of "hdr_size b + 14" b] by auto
qed

text \<open>The sender's identity has installed a key: a protected frame of it was heard in the BSS.\<close>

definition gated :: "frag_t \<Rightarrow> bytes \<Rightarrow> bool" where
  "gated st b \<longleftrightarrow> sta_map st (fbssid b, gate_identity st (fbssid b) (fsa b)) \<noteq> None"

lemma final_row_clear_counts:
  fixes now :: time_t and gen st b len
  assumes ok: "frag_ok st" and e: "eligible b len" and l: "len \<le> int (length b)"
  shows "protected_frames (final_row gen st b len now) = count_of protected_frames st (fbssid b) + of_bool (bit (b ! 1) 6)"
    "plaintext_bcast_frag (final_row gen st b len now) = count_of plaintext_bcast_frag st (fbssid b)
       + of_bool (\<not> bit (b ! 1) 6 \<and> gated st b \<and> bit (hd (fda b)) 0 \<and> frag_of b)"
    "amsdu_eapol_spoof (final_row gen st b len now) = count_of amsdu_eapol_spoof st (fbssid b)
       + of_bool (\<not> bit (b ! 1) 6 \<and> gated st b \<and> \<not> bit (hd (fda b)) 0 \<and> subframe_type b len = 0x888E)"
    "plaintext_unicast (final_row gen st b len now) = count_of plaintext_unicast st (fbssid b)
       + of_bool (\<not> bit (b ! 1) 6 \<and> gated st b \<and> \<not> bit (hd (fda b)) 0 \<and> clear_type b len \<notin> {-1, 0x888E})"
    "eapol_relay (final_row gen st b len now) = count_of eapol_relay st (fbssid b) + of_bool (relayed st (view b len None) (fbssid b) (fsa b) (fda b))"
proof -
  have g: "sta_known st (fbssid b) (gate_identity st (fbssid b) (fsa b)) \<longleftrightarrow> gated st b"
    unfolding gated_def lookup_maps(1) [OF ok] ..
  have t: "0 \<le> snap_type b k \<or> snap_type b k = -1" for k by (simp add: snap_type_def)
  have ct: "0 \<le> clear_type b len \<longleftrightarrow> clear_type b len \<noteq> -1" using t [of "hdr_size b"] by (auto simp: clear_type_def)
  have ag: "subframe_type b len = 0x888E \<Longrightarrow> aggregated b len" "0 \<le> clear_type b len \<Longrightarrow> \<not> aggregated b len"
    by (auto simp: subframe_type_def clear_type_def split: if_splits)
  have d: "fda b \<noteq> []" using e l by (auto simp: eligible_def fda_def fmac_def)
  have grp: "dot11_is_group_addr (Some (fda b)) \<longleftrightarrow> bit (hd (fda b)) 0"
    using d by (simp add: dot11_is_group_addr_def hd_conv_nth and_one_eq mod_2_eq_odd bit_0)
  note c = final_row_plain_counts [of gen st b len now, unfolded g grp clear_types [OF e l] option.sel option.inject ct]
  show "protected_frames (final_row gen st b len now) = count_of protected_frames st (fbssid b) + of_bool (bit (b ! 1) 6)"
    by (rule c(1))
  show "plaintext_bcast_frag (final_row gen st b len now) = count_of plaintext_bcast_frag st (fbssid b)
       + of_bool (\<not> bit (b ! 1) 6 \<and> gated st b \<and> bit (hd (fda b)) 0 \<and> frag_of b)" using c(2) by (simp add: conj_ac)
  show "amsdu_eapol_spoof (final_row gen st b len now) = count_of amsdu_eapol_spoof st (fbssid b)
       + of_bool (\<not> bit (b ! 1) 6 \<and> gated st b \<and> \<not> bit (hd (fda b)) 0 \<and> subframe_type b len = 0x888E)"
    unfolding c(3) using ag(1) by auto
  show "plaintext_unicast (final_row gen st b len now) = count_of plaintext_unicast st (fbssid b)
       + of_bool (\<not> bit (b ! 1) 6 \<and> gated st b \<and> \<not> bit (hd (fda b)) 0 \<and> clear_type b len \<notin> {-1, 0x888E})"
    unfolding c(4) using ag(2) ct by auto
  show "eapol_relay (final_row gen st b len now) = count_of eapol_relay st (fbssid b) + of_bool (relayed st (view b len None) (fbssid b) (fsa b) (fda b))"
    by (rule c(5))
qed

lemma count_of_Some: "bss_map st k = Some r \<Longrightarrow> count_of c st k = c r"
  by (simp add: count_of_def)

lemma observe_plaintext:
  assumes run: "frag_run fs st" and e: "eligible b len" and l: "len \<le> int (length b)"
  shows "\<exists>st' h'. frag_observe gen (Some b) len now st h = Some (st', h') \<and> frag_run (fs @ [(Some b, len)]) st'
    \<and> count_of protected_frames st' (fbssid b) = count_of protected_frames st (fbssid b) + of_bool (bit (b ! 1) 6)
    \<and> count_of plaintext_bcast_frag st' (fbssid b) = count_of plaintext_bcast_frag st (fbssid b)
        + of_bool (\<not> bit (b ! 1) 6 \<and> gated st b \<and> bit (hd (fda b)) 0 \<and> frag_of b)
    \<and> count_of amsdu_eapol_spoof st' (fbssid b) = count_of amsdu_eapol_spoof st (fbssid b)
        + of_bool (\<not> bit (b ! 1) 6 \<and> gated st b \<and> \<not> bit (hd (fda b)) 0 \<and> subframe_type b len = 0x888E)
    \<and> count_of plaintext_unicast st' (fbssid b) = count_of plaintext_unicast st (fbssid b)
        + of_bool (\<not> bit (b ! 1) 6 \<and> gated st b \<and> \<not> bit (hd (fda b)) 0 \<and> clear_type b len \<notin> {-1, 0x888E})
    \<and> (bit (b ! 1) 6 \<longrightarrow> gated st' b)
    \<and> (\<forall>k. k \<noteq> fbssid b \<longrightarrow> bss_map st' k \<in> {bss_map st k, None})"
proof -
  have ok: "frag_ok st" by (rule frag_run_ok [OF run])
  obtain st' h' where o: "frag_observe gen (Some b) len now st h = Some (st', h')"
    "bss_map st' (fbssid b) = Some (final_row gen st b len now)"
    "\<forall>k. k \<noteq> fbssid b \<longrightarrow> bss_map st' k \<in> {bss_map st k, None}" "frag_ok st'" "g_ap st' = g_ap st"
    "bit (b ! 1) 6 \<longrightarrow> sta_map st' (fbssid b, gate_identity st (fbssid b) (fsa b)) \<noteq> None"
    using observe_effect [OF ok e l, of gen now h] by (elim exE conjE) (rule that)
  have r: "frag_run (fs @ [(Some b, len)]) st'" by (rule observe_step [OF run _ o(1)]) (use l e in \<open>simp add: eligible_def\<close>)
  have "gate_identity st' (fbssid b) (fsa b) = gate_identity st (fbssid b) (fsa b)"
    using o(5) by (simp only: gate_identity_def ap_identity_locked_def)
  then have g: "bit (b ! 1) 6 \<longrightarrow> gated st' b" using o(6) by (simp add: gated_def)
  show ?thesis
    by (rule exI [of _ st'], rule exI [of _ h'], intro conjI)
      (use o(1,3) r g in \<open>simp_all only: count_of_Some [OF o(2)] final_row_clear_counts [OF ok e l]\<close>)
qed

section \<open>Properties\<close>


text \<open>
  What is known of an address of a BSS: it is the access point (by BSSID, or by the MLD address its
  beacons advertise), or it looks like a sibling link of a BSS never heard beaconing.
\<close>

definition known_ap :: "frag_t \<Rightarrow> mac \<Rightarrow> mac \<Rightarrow> bool" where
  "known_ap st k a \<longleftrightarrow> a = k \<or> (\<exists>r. ap_map st k = Some r \<and> fp_has_mld r \<and> fp_mld r = a)"

definition maybe_ap :: "frag_t \<Rightarrow> mac \<Rightarrow> mac \<Rightarrow> bool" where
  "maybe_ap st k a \<longleftrightarrow> \<not> known_ap st k a \<and> ap_map st k = None \<and> mld_sibling k a"

definition forwarded_eapol :: "bytes \<Rightarrow> int \<Rightarrow> bool" where
  "forwarded_eapol b len \<longleftrightarrow> (bit (b ! 1) 0 \<or> bit (b ! 1) 1) \<and> \<not> bit (hd (fda b)) 0 \<and> clear_type b len = 0x888E"

lemma identity_kinds:
  assumes "frag_ok st"
  shows "ap_identity_locked st k a \<in> {FRAG_AP_BSSID, FRAG_AP_MLD} \<longleftrightarrow> known_ap st k a"
    "ap_identity_locked st k a = FRAG_AP_MLD_SIBLING \<longleftrightarrow> maybe_ap st k a"
    "ap_identity_locked st k a = FRAG_AP_NO \<longleftrightarrow> \<not> known_ap st k a \<and> \<not> maybe_ap st k a"
  by (auto simp: lookup_maps(2) [OF assms] known_ap_def maybe_ap_def split: option.splits)

lemma sibling_counts:
  "eapol_mld_sibling (track_row gen st bs sa da tid fn prot pn sc now r) = eapol_mld_sibling r"
  "eapol_mld_sibling (plain_row b f now r) = eapol_mld_sibling r"
  "eapol_mld_sibling (relay_row st f bs sa da now r) = eapol_mld_sibling r
     + of_bool (\<not> relayed st f bs sa da \<and> withheld st f bs sa da)"
  by (simp_all add: track_row_def plain_row_def relay_row_def hit_defs Let_def split: option.split)

lemma final_row_sibling:
  fixes now :: time_t and gen st b len
  shows "eapol_mld_sibling (final_row gen st b len now) = count_of eapol_mld_sibling st (fbssid b)
     + of_bool (\<not> relayed st (view b len None) (fbssid b) (fsa b) (fda b) \<and> withheld st (view b len None) (fbssid b) (fsa b) (fda b))"
  unfolding final_row_def Let_def by (simp add: sibling_counts touched_counts hit_defs)

lemma relay_kinds:
  assumes ok: "frag_ok st" and e: "eligible b len" and l: "len \<le> int (length b)"
  shows "relayed st (view b len None) (fbssid b) (fsa b) (fda b) \<longleftrightarrow> forwarded_eapol b len
      \<and> (\<forall>a\<in>{fsa b, fda b}. \<not> known_ap st (fbssid b) a \<and> \<not> maybe_ap st (fbssid b) a)"
    "withheld st (view b len None) (fbssid b) (fsa b) (fda b) \<longleftrightarrow> forwarded_eapol b len
      \<and> (\<forall>a\<in>{fsa b, fda b}. \<not> known_ap st (fbssid b) a) \<and> (\<exists>a\<in>{fsa b, fda b}. maybe_ap st (fbssid b) a)"
proof -
  have d: "fda b \<noteq> []" using e l by (auto simp: eligible_def fda_def fmac_def)
  have grp: "dot11_is_group_addr (Some (fda b)) \<longleftrightarrow> bit (hd (fda b)) 0"
    using d by (simp add: dot11_is_group_addr_def hd_conv_nth and_one_eq mod_2_eq_odd bit_0)
  have v: "f_to_ds (view b len None) = bit (b ! 1) 0" "f_from_ds (view b len None) = bit (b ! 1) 1" by simp_all
  note i = identity_kinds [OF ok]
  have n: "{x, y} \<inter> {FRAG_AP_BSSID, FRAG_AP_MLD} = {} \<longleftrightarrow> x \<notin> {FRAG_AP_BSSID, FRAG_AP_MLD} \<and> y \<notin> {FRAG_AP_BSSID, FRAG_AP_MLD}"
    for x y by auto
  have m: "FRAG_AP_MLD_SIBLING \<in> {x, y} \<longleftrightarrow> x = FRAG_AP_MLD_SIBLING \<or> y = FRAG_AP_MLD_SIBLING" for x y by auto
  show "relayed st (view b len None) (fbssid b) (fsa b) (fda b) \<longleftrightarrow> forwarded_eapol b len
      \<and> (\<forall>a\<in>{fsa b, fda b}. \<not> known_ap st (fbssid b) a \<and> \<not> maybe_ap st (fbssid b) a)"
    unfolding relayed_def forwarded_eapol_def grp v clear_types(2) [OF e l] i(3) option.inject by auto
  show "withheld st (view b len None) (fbssid b) (fsa b) (fda b) \<longleftrightarrow> forwarded_eapol b len
      \<and> (\<forall>a\<in>{fsa b, fda b}. \<not> known_ap st (fbssid b) a) \<and> (\<exists>a\<in>{fsa b, fda b}. maybe_ap st (fbssid b) a)"
    unfolding withheld_def forwarded_eapol_def grp v clear_types(2) [OF e l] n m i(1,2) option.inject by auto
qed

text \<open>
  C17: the EAPOL-forwarding detector. EAPOL sent through the distribution system between two stations
  is counted exactly when neither end is the access point: not its BSSID, not the MLD address it
  advertises, and, before any of its beacons was heard, not a look-alike sibling link. The look-alike
  is counted apart.
\<close>

theorem frag_relay_exact:
  assumes run: "frag_run fs st" and e: "eligible b len" and l: "len \<le> int (length b)"
    and o: "frag_observe gen (Some b) len now st h = Some (st', h')"
  shows "count_of eapol_relay st' (fbssid b) = count_of eapol_relay st (fbssid b)
      + of_bool (forwarded_eapol b len \<and> (\<forall>a\<in>{fsa b, fda b}. \<not> known_ap st (fbssid b) a \<and> \<not> maybe_ap st (fbssid b) a))
    \<and> count_of eapol_mld_sibling st' (fbssid b) = count_of eapol_mld_sibling st (fbssid b)
      + of_bool (forwarded_eapol b len \<and> (\<forall>a\<in>{fsa b, fda b}. \<not> known_ap st (fbssid b) a)
          \<and> (\<exists>a\<in>{fsa b, fda b}. maybe_ap st (fbssid b) a))"
proof -
  have ok: "frag_ok st" by (rule frag_run_ok [OF run])
  have "bss_map st' (fbssid b) = Some (final_row gen st b len now)"
    using observe_effect [OF ok e l, of gen now h] o by auto
  note c = count_of_Some [OF this]
  have x: "(\<not> (A \<and> (\<forall>a\<in>{p, q}. \<not> K a \<and> \<not> M a)) \<and> A \<and> (\<forall>a\<in>{p, q}. \<not> K a) \<and> (\<exists>a\<in>{p, q}. M a))
      \<longleftrightarrow> A \<and> (\<forall>a\<in>{p, q}. \<not> K a) \<and> (\<exists>a\<in>{p, q}. M a)" for A K M and p q :: mac by auto
  show ?thesis
    unfolding c final_row_sibling final_row_clear_counts(5) [OF ok e l] relay_kinds [OF ok e l] x by (intro conjI refl)
qed

text \<open>
  C10: the reassembly detectors. A first fragment opens the session of its sender, receiver and TID;
  a later fragment of an open session counts a poisoned cache exactly when one end re-associated
  since, a mixed protection when its protection differs from the first's, a mixed key when a key was
  installed since, and a gap when its packet number does not advance with the fragment number. A
  fragment without an open session counts nothing, and the last one closes the session.
\<close>

theorem frag_session_exact:
  assumes run: "frag_run fs st" and e: "eligible b len" and l: "len \<le> int (length b)"
    and o: "frag_observe gen (Some b) len now st h = Some (st', h')"
  shows "count_of cache_poison st' (fbssid b) = count_of cache_poison st (fbssid b)
      + of_bool (continues st b len (\<lambda>s. \<exists>a\<in>{fsa b, fda b}. \<exists>r. assoc_map st (fbssid b, a) = Some r \<and> start_seen s < last_assoc r))
    \<and> count_of mixed_protect st' (fbssid b) = count_of mixed_protect st (fbssid b)
      + of_bool (continues st b len (\<lambda>s. bit (b ! 1) 6 \<noteq> start_protected s))
    \<and> count_of mixed_key st' (fbssid b) = count_of mixed_key st (fbssid b)
      + of_bool (continues st b len (\<lambda>s. bit (b ! 1) 6 \<and> start_protected s \<and> 0 < start_generation s
          \<and> start_generation s < gen (fbssid b) (fsa b)))
    \<and> count_of pn_gap st' (fbssid b) = count_of pn_gap st (fbssid b)
      + of_bool (continues st b len (\<lambda>s. 0 \<le> pn_of b len \<and> 0 \<le> last_pn s \<and> last_fn s < fn_of b
          \<and> sc_of b AND 0xfff0 = ss_seq_ctrl s \<and> pn_of b len - last_pn s \<noteq> fn_of b - last_fn s))
    \<and> (frag_of b \<and> 0 \<le> tid_of b len \<longrightarrow> sess_map st' (sess_key b len) =
        (if fn_of b = 0 then Some (opened (fbssid b) (fsa b) (fda b) (word_of_int (tid_of b len)) (bit (b ! 1) 6)
              (gen (fbssid b) (fsa b)) (pn_of b len) (sc_of b) now)
         else if bit (b ! 1) 2 then map_option (next_sess (pn_of b len) (fn_of b) now) (sess_map st (sess_key b len))
         else None))"
proof -
  have ok: "frag_ok st" by (rule frag_run_ok [OF run])
  have m: "bss_map st' (fbssid b) = Some (final_row gen st b len now)"
    and s: "frag_of b \<and> tid_of b len \<ge> 0 \<longrightarrow> sess_map st' (sess_key b len)
         = track_sess gen (fbssid b) (fsa b) (fda b) (word_of_int (tid_of b len)) (fn_of b) (bit (b ! 1) 2) (bit (b ! 1) 6)
           (pn_of b len) (sc_of b) now (sess_map st (sess_key b len))"
    using observe_effect [OF ok e l, of gen now h] o by (auto simp: tid_of_def sess_key_def Let_def)
  have p: "poisoned st k x y = (\<lambda>s. \<exists>a\<in>{x, y}. \<exists>r. assoc_map st (k, a) = Some r \<and> start_seen s < last_assoc r)" for k x y
    by (rule ext) (auto simp: poisoned_def lookup_maps(3) [OF ok] split: option.splits)
  have r: "rekeyed gen k x q = (\<lambda>s. q \<and> start_protected s \<and> 0 < start_generation s \<and> start_generation s < gen k x)" for k x q
    by (rule ext) (simp add: rekeyed_def)
  have g: "gapped n i c = (\<lambda>s. 0 \<le> n \<and> 0 \<le> last_pn s \<and> last_fn s < i \<and> c AND 0xfff0 = ss_seq_ctrl s
      \<and> n - last_pn s \<noteq> i - last_fn s)" for n i c
    by (rule ext) (simp add: gapped_def)
  have t: "frag_of b \<and> 0 \<le> tid_of b len \<longrightarrow> sess_map st' (sess_key b len) =
        (if fn_of b = 0 then Some (opened (fbssid b) (fsa b) (fda b) (word_of_int (tid_of b len)) (bit (b ! 1) 6)
              (gen (fbssid b) (fsa b)) (pn_of b len) (sc_of b) now)
         else if bit (b ! 1) 2 then map_option (next_sess (pn_of b len) (fn_of b) now) (sess_map st (sess_key b len))
         else None)"
    using s by (cases "sess_map st (sess_key b len)") (simp_all add: track_sess_def)
  show ?thesis
    unfolding count_of_Some [OF m] final_row_frag_counts p r g using t by (intro conjI refl)
qed

text \<open>A frame of the history, protected, in the BSS \<open>k\<close>.\<close>

definition protected_in :: "mac \<Rightarrow> bytes option \<times> int \<Rightarrow> bool" where
  "protected_in k x = (case fst x of None \<Rightarrow> False | Some b \<Rightarrow> eligible b (snd x) \<and> bit (b ! 1) 6 \<and> fbssid b = k)"

definition clear_in :: "mac \<Rightarrow> bytes option \<times> int \<Rightarrow> bool" where
  "clear_in k x = (case fst x of None \<Rightarrow> False | Some b \<Rightarrow> eligible b (snd x) \<and> \<not> bit (b ! 1) 6 \<and> fbssid b = k)"

lemma step_effect:
  assumes ok: "frag_ok st" and b: "buf_ok dot11 len" and o: "frag_observe gen dot11 len now st h = Some (st', h')"
  shows "st' = st \<or> (\<exists>b. dot11 = Some b \<and> eligible b len \<and> len \<le> int (length b)
     \<and> bss_map st' (fbssid b) = Some (final_row gen st b len now)
     \<and> (\<forall>k. k \<noteq> fbssid b \<longrightarrow> bss_map st' k \<in> {bss_map st k, None})
     \<and> (\<forall>q. sta_map st' q \<noteq> None \<longrightarrow> sta_map st q \<noteq> None \<or> bit (b ! 1) 6 \<and> fst q = fbssid b))"
proof (cases "dot11 = None \<or> len < 2")
  case True
  then have "dot11_frame_decode dot11 len None = Some (False, frame_init dot11 len None)"
    using decode_runt by (cases dot11) auto
  moreover have "f_p (frame_init dot11 len None) = dot11" "f_len (frame_init dot11 len None) = max 0 len"
    by (simp_all add: frame_init_def)
  ultimately show ?thesis using True o by (auto simp: frag_observe_def frag_observe_frame_def observe_locked_def)
next
  case False
  then obtain bs where d: "dot11 = Some bs" "2 \<le> len" "len \<le> int (length bs)" using b by auto
  show ?thesis
  proof (cases "eligible bs len")
    case True
    have "\<exists>st1 h1. frag_observe gen (Some bs) len now st h = Some (st1, h1)
      \<and> bss_map st1 (fbssid bs) = Some (final_row gen st bs len now)
      \<and> (\<forall>k. k \<noteq> fbssid bs \<longrightarrow> bss_map st1 k \<in> {bss_map st k, None})
      \<and> (\<forall>q. sta_map st1 q \<noteq> None \<longrightarrow> sta_map st q \<noteq> None
           \<or> bit (bs ! 1) 6 \<and> q = (fbssid bs, gate_identity st (fbssid bs) (fsa bs)))"
      using observe_effect [OF ok True d(3), of gen now h] by (elim exE conjE) (intro exI conjI)
    then obtain st1 h1 where "frag_observe gen (Some bs) len now st h = Some (st1, h1)"
      and r: "bss_map st1 (fbssid bs) = Some (final_row gen st bs len now)"
      "\<forall>k. k \<noteq> fbssid bs \<longrightarrow> bss_map st1 k \<in> {bss_map st k, None}"
      "\<forall>q. sta_map st1 q \<noteq> None \<longrightarrow> sta_map st q \<noteq> None
           \<or> bit (bs ! 1) 6 \<and> q = (fbssid bs, gate_identity st (fbssid bs) (fsa bs))"
      by blast
    then have "st1 = st'" using o d(1) by simp
    with r True d show ?thesis by (intro disjI2 exI [of _ bs]) force
  next
    case False
    from observe_ineligible [OF d(2,3) False] o show ?thesis by (simp add: d(1))
  qed
qed

text \<open>The counters of the plaintext detectors.\<close>

definition alarmed :: "frag_t \<Rightarrow> mac \<Rightarrow> bool" where
  "alarmed st k \<longleftrightarrow> count_of plaintext_unicast st k \<noteq> 0 \<or> count_of plaintext_bcast_frag st k \<noteq> 0
     \<or> count_of amsdu_eapol_spoof st k \<noteq> 0"

lemma alarmed_cong: "bss_map st' k \<in> {bss_map st k, None} \<Longrightarrow> alarmed st' k \<Longrightarrow> alarmed st k"
  by (auto simp: alarmed_def count_of_def)

lemma alarmed_step:
  assumes "frag_ok st" "eligible b len" "len \<le> int (length b)" "bss_map st' (fbssid b) = Some (final_row gen st b len now)"
    and "alarmed st' (fbssid b)"
  shows "alarmed st (fbssid b) \<or> \<not> bit (b ! 1) 6 \<and> gated st b"
  using assms(5) unfolding alarmed_def count_of_Some [OF assms(4)] final_row_clear_counts [OF assms(1-3)]
  by (cases "gated st b"; cases "bit (b ! 1) 6") simp_all

lemma decl_rows: "rows (STAB_DECL_AGE z n ls sl pol lim ev eq) = []"
  by (simp add: STAB_DECL_AGE_def rows_def)

lemma note_association_keeps:
  assumes "frag_note_association bssid sta now st h = Some (st', h')"
  shows "g_sta st' = g_sta st" "g_bss st' = g_bss st"
proof -
  have "g_sta st' = g_sta st \<and> g_bss st' = g_bss st"
  proof (cases "\<exists>b s. bssid = Some b \<and> sta = Some s")
    case True
    then show ?thesis using assms
      by (auto simp: frag_note_association_def note_association_locked_def bind_eq_Some_conv)
  next
    case False
    then have "frag_note_association bssid sta now st h = Some (st, h)"
      by (cases bssid; cases sta) (simp_all add: frag_note_association_def note_association_locked_def)
    with assms show ?thesis by simp
  qed
  then show "g_sta st' = g_sta st" "g_bss st' = g_bss st" by simp_all
qed

lemma note_beacon_keeps:
  assumes "frag_note_beacon bssid mld now st h = Some (st', h')"
  shows "g_sta st' = g_sta st" "g_bss st' = g_bss st"
  using assms by (auto simp: frag_note_beacon_def bind_eq_Some_conv simp del: Let_def split: option.splits if_splits)

lemma alarm_history:
  "frag_run fs st \<Longrightarrow> (\<forall>k a. sta_map st (k, a) \<noteq> None \<longrightarrow> (\<exists>i < length fs. protected_in k (fs ! i)))
     \<and> (\<forall>k. alarmed st k \<longrightarrow> (\<exists>i j. i < j \<and> j < length fs \<and> protected_in k (fs ! i) \<and> clear_in k (fs ! j)))"
proof (induction rule: frag_run.induct)
  case boot
  have b: "bss_map frag_boot k = None" and s: "sta_map frag_boot q = None" for k q
    unfolding frag_boot_def frag_t.simps tab_map_def bss_decl_def sta_decl_def decl_rows by (simp_all add: key_map_def)
  have "\<not> alarmed frag_boot k" for k unfolding alarmed_def count_of_def b by simp
  with s show ?case by (simp only: simp_thms)
next
  case (observe_step fs st dot11 len gen now h st' h')
  have ok: "frag_ok st" by (rule frag_run_ok [OF observe_step.hyps(1)])
  note ih = observe_step.IH [THEN conjunct1, rule_format] observe_step.IH [THEN conjunct2, rule_format]
  let ?fs = "fs @ [(dot11, len)]"
  have old: "\<exists>i < length ?fs. protected_in k (?fs ! i)" if "\<exists>i < length fs. protected_in k (fs ! i)" for k
    using that by (auto simp: nth_append intro: less_SucI)
  have old2: "\<exists>i j. i < j \<and> j < length ?fs \<and> protected_in k (?fs ! i) \<and> clear_in k (?fs ! j)"
    if "\<exists>i j. i < j \<and> j < length fs \<and> protected_in k (fs ! i) \<and> clear_in k (fs ! j)" for k
  proof -
    from that obtain i j where "i < j" "j < length fs" "protected_in k (fs ! i)" "clear_in k (fs ! j)" by blast
    then show ?thesis by (intro exI [of _ i] exI [of _ j]) (simp add: nth_append)
  qed
  from step_effect [OF ok observe_step.hyps(2,3)] show ?case
  proof (elim disjE exE conjE)
    assume "st' = st"
    then show ?thesis using old [OF ih(1)] old2 [OF ih(2)] by (intro conjI allI impI) (simp_all only:)
  next
    fix b assume d: "dot11 = Some b" and e: "eligible b len" and l: "len \<le> int (length b)"
      and r: "bss_map st' (fbssid b) = Some (final_row gen st b len now)"
      and k: "\<forall>k. k \<noteq> fbssid b \<longrightarrow> bss_map st' k \<in> {bss_map st k, None}"
      and q: "\<forall>q. sta_map st' q \<noteq> None \<longrightarrow> sta_map st q \<noteq> None \<or> bit (b ! 1) 6 \<and> fst q = fbssid b"
    have n: "?fs ! length fs = (Some b, len)" using d by simp
    show ?thesis
    proof (intro conjI allI impI)
      fix k a assume "sta_map st' (k, a) \<noteq> None"
      with q [THEN spec, of "(k, a)"] consider "sta_map st (k, a) \<noteq> None" | "bit (b ! 1) 6" "k = fbssid b" by auto
      then show "\<exists>i < length ?fs. protected_in k (?fs ! i)"
      proof cases
        case 1
        from old [OF ih(1) [OF 1]] show ?thesis .
      next
        case 2
        with n e show ?thesis by (intro exI [of _ "length fs"]) (simp add: protected_in_def)
      qed
    next
      fix k' assume al: "alarmed st' k'"
      show "\<exists>i j. i < j \<and> j < length ?fs \<and> protected_in k' (?fs ! i) \<and> clear_in k' (?fs ! j)"
      proof (cases "k' = fbssid b")
        case True
        from alarmed_step [OF ok e l r al [unfolded True]] show ?thesis
        proof (elim disjE conjE)
          assume "alarmed st (fbssid b)"
          with True show ?thesis using old2 [OF ih(2), of "fbssid b"] by simp
        next
          assume c: "\<not> bit (b ! 1) 6" "gated st b"
          obtain i where i: "i < length fs" "protected_in (fbssid b) (fs ! i)"
            using ih(1) [OF c(2) [unfolded gated_def]] by blast
          show ?thesis
            by (rule exI [of _ i], rule exI [of _ "length fs"])
              (use i c(1) n e True in \<open>simp add: clear_in_def nth_append\<close>)
        qed
      next
        case False
        have "alarmed st k'" by (rule alarmed_cong [OF k [rule_format, OF False] al])
        from old2 [OF ih(2) [OF this]] show ?thesis .
      qed
    qed
  qed
next
  case (assoc_step fs st bssid sta now h st' h')
  from assoc_step.IH show ?case by (simp add: alarmed_def count_of_def note_association_keeps [OF assoc_step.hyps(2)])
next
  case (beacon_step fs st bssid mld now h st' h')
  from beacon_step.IH show ?case by (simp add: alarmed_def count_of_def note_beacon_keeps [OF beacon_step.hyps(2)])
next
  case (clear_step fs st)
  have "bss_map (frag_clear st) k = None" "sta_map (frag_clear st) q = None" for k q
    by (simp_all add: frag_clear_def tab_map_def key_map_def rows_def stab_clear_def)
  then show ?case by (simp add: alarmed_def count_of_def)
qed

text \<open>
  C16: an open network never raises a plaintext alarm. However the observer was driven, a BSS whose
  plaintext counters are not all zero was heard carrying a protected data frame first, and a
  clear one after it.
\<close>

theorem frag_no_alarm_without_key:
  assumes "frag_run fs st"
    and "count_of plaintext_unicast st k \<noteq> 0 \<or> count_of plaintext_bcast_frag st k \<noteq> 0 \<or> count_of amsdu_eapol_spoof st k \<noteq> 0"
  shows "\<exists>i j. i < j \<and> j < length fs \<and> protected_in k (fs ! i) \<and> clear_in k (fs ! j)"
  using alarm_history [OF assms(1)] assms(2) by (simp add: alarmed_def)

text \<open>
  A fragment of an honest sender's MSDU: one session and sequence number, one protection, and a
  packet number that advances with the fragment number from \<open>p0\<close> (or no packet number).
\<close>

definition msdu_frag :: "sess_key_t \<Rightarrow> bool \<Rightarrow> u16 \<Rightarrow> int option \<Rightarrow> bytes \<Rightarrow> int \<Rightarrow> bool" where
  "msdu_frag k prot sq p0 b len \<longleftrightarrow> eligible b len \<and> len \<le> int (length b) \<and> frag_of b \<and> 0 \<le> tid_of b len
     \<and> sess_key b len = k \<and> bit (b ! 1) 6 = prot \<and> sc_of b AND 0xfff0 = sq
     \<and> pn_of b len = (case p0 of None \<Rightarrow> -1 | Some p \<Rightarrow> p + fn_of b)"

text \<open>Frames handed to the observer one after another.\<close>

primrec frag_feed :: "(mac \<Rightarrow> mac \<Rightarrow> int) \<Rightarrow> (bytes \<times> int \<times> time_t) list \<Rightarrow> frag_t \<Rightarrow> sh_t \<Rightarrow> (frag_t \<times> sh_t) option" where
  "frag_feed gen [] st h = Some (st, h)"
| "frag_feed gen (x # xs) st h = (case x of (b, len, now) \<Rightarrow> do {
     (st, h) \<leftarrow> frag_observe gen (Some b) len now st h;
     frag_feed gen xs st h })"

text \<open>The session, if it is still open, is the one its first fragment opened and has seen fragments below \<open>n\<close> only.\<close>

definition honest_sess :: "(mac \<Rightarrow> mac \<Rightarrow> int) \<Rightarrow> sess_key_t \<Rightarrow> bool \<Rightarrow> u16 \<Rightarrow> int option \<Rightarrow> time_t \<Rightarrow> int \<Rightarrow> frag_session_t option \<Rightarrow> bool" where
  "honest_sess gen k prot sq p0 t0 n so \<longleftrightarrow> (case so of None \<Rightarrow> True | Some s \<Rightarrow>
     start_seen s = t0 \<and> start_protected s = prot \<and> start_generation s = gen (fst k) (fst (snd k))
     \<and> ss_seq_ctrl s = sq \<and> last_fn s < n \<and> last_pn s = (case p0 of None \<Rightarrow> -1 | Some p \<Rightarrow> p + last_fn s))"

definition four_counts :: "frag_t \<Rightarrow> mac \<Rightarrow> u32 \<times> u32 \<times> u32 \<times> u32" where
  "four_counts st k = (count_of cache_poison st k, count_of mixed_protect st k, count_of mixed_key st k, count_of pn_gap st k)"

lemma msdu_step:
  assumes ok: "frag_ok st" and f: "msdu_frag (k, sa, da, tid) prot sq p0 b len" and p: "\<forall>p. p0 = Some p \<longrightarrow> 0 \<le> p"
    and j: "fn_of b = 0 \<or> honest_sess gen (k, sa, da, tid) prot sq p0 t0 (fn_of b) (sess_map st (k, sa, da, tid))"
    and t: "fn_of b = 0 \<Longrightarrow> now = t0" and a: "\<not> frag_assoc_after st k sa t0" "\<not> frag_assoc_after st k da t0"
  shows "\<exists>st' h'. frag_observe gen (Some b) len now st h = Some (st', h') \<and> frag_ok st' \<and> four_counts st' k = four_counts st k
     \<and> g_assoc_evt st' = g_assoc_evt st
     \<and> (\<forall>n > fn_of b. honest_sess gen (k, sa, da, tid) prot sq p0 t0 n (sess_map st' (k, sa, da, tid)))"
proof -
  have e: "eligible b len" and l: "len \<le> int (length b)" and x: "frag_of b" "0 \<le> tid_of b len"
    and sk: "sess_key b len = (k, sa, da, tid)"
    and pr: "bit (b ! 1) 6 = prot" and sq: "sc_of b AND 0xfff0 = sq" and pn: "pn_of b len = (case p0 of None \<Rightarrow> -1 | Some p \<Rightarrow> p + fn_of b)"
    using f by (simp_all add: msdu_frag_def)
  have kk: "fbssid b = k" "fsa b = sa" "fda b = da" "word_of_int (tid_of b len) = tid" using sk by (simp_all add: sess_key_def)
  have fn0: "0 \<le> fn_of b" by (simp add: fn_of_def)
  have "\<exists>st' h'. frag_observe gen (Some b) len now st h = Some (st', h') \<and> frag_ok st'
    \<and> bss_map st' k = Some (final_row gen st b len now) \<and> g_assoc_evt st' = g_assoc_evt st
    \<and> sess_map st' (k, sa, da, tid) = track_sess gen k sa da tid (fn_of b) (bit (b ! 1) 2) prot (pn_of b len) (sc_of b) now
         (sess_map st (k, sa, da, tid))"
    using observe_effect [OF ok e l, of gen now h] x unfolding kk tid_of_def [symmetric] Let_def pr
    by (elim exE conjE) (intro exI conjI, simp_all)
  then obtain st' h' where o: "frag_observe gen (Some b) len now st h = Some (st', h')" "frag_ok st'"
    "bss_map st' k = Some (final_row gen st b len now)" "g_assoc_evt st' = g_assoc_evt st"
    "sess_map st' (k, sa, da, tid) = track_sess gen k sa da tid (fn_of b) (bit (b ! 1) 2) prot (pn_of b len) (sc_of b) now
         (sess_map st (k, sa, da, tid))" by blast
  have quiet: "\<not> continues st b len (poisoned st k sa da)" "\<not> continues st b len (\<lambda>s. prot \<noteq> start_protected s)"
    "\<not> continues st b len (rekeyed gen k sa prot)" "\<not> continues st b len (gapped (pn_of b len) (fn_of b) (sc_of b))"
    using j a by (auto simp: continues_def sk honest_sess_def poisoned_def rekeyed_def gapped_def pn sq split: option.splits)
  have c: "four_counts st' k = four_counts st k"
    using quiet final_row_frag_counts [of gen st b len now, unfolded kk pr] by (simp add: four_counts_def count_of_Some [OF o(3)])
  have h: "\<forall>n > fn_of b. honest_sess gen (k, sa, da, tid) prot sq p0 t0 n (sess_map st' (k, sa, da, tid))"
  proof (intro allI impI)
    fix n assume n: "fn_of b < n"
    show "honest_sess gen (k, sa, da, tid) prot sq p0 t0 n (sess_map st' (k, sa, da, tid))"
    proof (cases "fn_of b = 0")
      case True
      with n t [OF True] show ?thesis unfolding o(5) by (simp add: track_sess_def honest_sess_def opened_def sq pn split: option.split)
    next
      case False
      then have hs: "honest_sess gen (k, sa, da, tid) prot sq p0 t0 (fn_of b) (sess_map st (k, sa, da, tid))" using j by blast
      show ?thesis
        using hs n False fn0 p unfolding o(5)
        by (cases p0; cases "sess_map st (k, sa, da, tid)")
          (auto simp: track_sess_def honest_sess_def next_sess_def Let_def pn)
    qed
  qed
  show ?thesis using o c h by blast
qed

lemma msdu_feed:
  assumes "frag_ok st" "\<forall>(b, len, now) \<in> set xs. msdu_frag (k, sa, da, tid) prot sq p0 b len" "\<forall>p. p0 = Some p \<longrightarrow> 0 \<le> p"
    and "sorted_wrt (<) (map (\<lambda>(b, len, now). fn_of b) xs)" "\<forall>(b, len, now) \<in> set xs. 0 < fn_of b"
    and "\<forall>(b, len, now) \<in> set xs. honest_sess gen (k, sa, da, tid) prot sq p0 t0 (fn_of b) (sess_map st (k, sa, da, tid))"
    and "\<not> frag_assoc_after st k sa t0" "\<not> frag_assoc_after st k da t0"
  shows "\<exists>st' h'. frag_feed gen xs st h = Some (st', h') \<and> four_counts st' k = four_counts st k"
  using assms
proof (induction xs arbitrary: st h)
  case Nil
  then show ?case by simp
next
  case (Cons x xs)
  obtain b len now where x: "x = (b, len, now)" by (cases x)
  have f: "msdu_frag (k, sa, da, tid) prot sq p0 b len" and n: "0 < fn_of b"
    and j: "honest_sess gen (k, sa, da, tid) prot sq p0 t0 (fn_of b) (sess_map st (k, sa, da, tid))"
    using Cons.prems by (simp_all add: x)
  obtain st1 h1 where s: "frag_observe gen (Some b) len now st h = Some (st1, h1)" "frag_ok st1"
    "four_counts st1 k = four_counts st k" "g_assoc_evt st1 = g_assoc_evt st"
    "\<forall>n > fn_of b. honest_sess gen (k, sa, da, tid) prot sq p0 t0 n (sess_map st1 (k, sa, da, tid))"
    using msdu_step [OF Cons.prems(1) f Cons.prems(3) disjI2 [OF j] _ Cons.prems(7,8), of now h] n by auto
  have aa: "frag_assoc_after st1 y z t0 = frag_assoc_after st y z t0" for y z unfolding frag_assoc_after_def s(4) ..
  have later: "\<forall>(b', len', now') \<in> set xs. fn_of b < fn_of b'" using Cons.prems(4) by (auto simp: x)
  have "\<exists>st' h'. frag_feed gen xs st1 h1 = Some (st', h') \<and> four_counts st' k = four_counts st1 k"
    by (rule Cons.IH [OF s(2)]) (use Cons.prems s(5) later in \<open>auto simp: x aa\<close>)
  then show ?case by (auto simp: x s(1,3))
qed


text \<open>
  The packet number is rewound by an old fragment but the fragment number is not: after fragments
  0, 1 and 2, a repeat of fragment 1 makes the honest fragment 3 look like a gap.
\<close>

lemma repeated_fragment_rewinds:
  assumes "last_fn s = 2" "last_pn s = p + 2" "0 \<le> p" "sc AND 0xfff0 = ss_seq_ctrl s"
  shows "\<not> gapped (p + 1) 1 sc s \<and> \<not> gapped (p + 3) 3 sc s \<and> gapped (p + 3) 3 sc (next_sess (p + 1) 1 now s)"
  using assms by (simp add: gapped_def next_sess_def)

section \<open>Witnesses\<close>

definition smp_bssid :: mac where "smp_bssid = [0x00, 0x11, 0x22, 0x33, 0x44, 0x55]"
definition smp_sta :: mac where "smp_sta = [0x00, 0x21, 0x22, 0x23, 0x24, 0x25]"
definition smp_peer :: mac where "smp_peer = [0x00, 0x31, 0x32, 0x33, 0x34, 0x35]"

text \<open>A data frame to the distribution system, with its flags, sequence control and body.\<close>

definition smp_data :: "u8 \<Rightarrow> u8 \<Rightarrow> u8 \<Rightarrow> bytes \<Rightarrow> bytes" where
  "smp_data fc0 fc1 sc body = [fc0, fc1, 0, 0] @ smp_bssid @ smp_sta @ smp_peer @ [sc, 0x10] @ body"

definition smp_prot :: bytes where "smp_prot = smp_data 0x08 0x41 0 (replicate 12 0)"
definition smp_ipv4 :: bytes where "smp_ipv4 = smp_data 0x08 0x01 0 [0xaa, 0xaa, 0x03, 0, 0, 0, 0x08, 0x00]"
definition smp_eapol :: bytes where "smp_eapol = smp_data 0x08 0x01 0 [0xaa, 0xaa, 0x03, 0, 0, 0, 0x88, 0x8e]"
definition smp_frag0 :: bytes where
  "smp_frag0 = smp_data 0x88 0x45 0 ([0, 0] @ [7, 0, 0, 0x20, 0, 0, 0, 0] @ replicate 12 0)"
definition smp_frag1 :: bytes where
  "smp_frag1 = smp_data 0x88 0x41 1 ([0, 0] @ [8, 0, 0, 0x20, 0, 0, 0, 0] @ replicate 12 0)"
definition smp_frag1_clear :: bytes where "smp_frag1_clear = smp_data 0x88 0x01 1 ([0, 0] @ replicate 12 0)"

lemma smp_len: "length smp_prot = 36" "length smp_ipv4 = 32" "length smp_eapol = 32" "length smp_frag0 = 46"
  "length smp_frag1 = 46" "length smp_frag1_clear = 38"
  by code_simp+

lemma smp_eligible: "eligible smp_prot 36" "eligible smp_ipv4 32" "eligible smp_eapol 32" "eligible smp_frag0 46"
  "eligible smp_frag1 46" "eligible smp_frag1_clear 38"
  by code_simp+

lemma smp_addrs: "fbssid smp_prot = smp_bssid" "fbssid smp_ipv4 = smp_bssid" "fbssid smp_eapol = smp_bssid"
  "fsa smp_prot = smp_sta" "fsa smp_ipv4 = smp_sta" "fsa smp_eapol = smp_sta" "fda smp_ipv4 = smp_peer" "fda smp_eapol = smp_peer"
  by code_simp+

lemma smp_flags: "bit (smp_prot ! 1) 6" "\<not> bit (smp_ipv4 ! 1) 6" "\<not> bit (hd (fda smp_ipv4)) 0" "clear_type smp_ipv4 32 = 0x0800"
  "forwarded_eapol smp_eapol 32" "\<not> mld_sibling smp_bssid smp_sta" "\<not> mld_sibling smp_bssid smp_peer"
  "smp_sta \<noteq> smp_bssid" "smp_peer \<noteq> smp_bssid"
  by code_simp+

lemma smp_frags:
  "msdu_frag (smp_bssid, smp_sta, smp_peer, 0) True 0x1000 (Some 7) smp_frag0 46"
  "msdu_frag (smp_bssid, smp_sta, smp_peer, 0) True 0x1000 (Some 7) smp_frag1 46"
  "fn_of smp_frag0 = 0" "fn_of smp_frag1 = 1" "fn_of smp_frag1_clear = 1"
  "sess_key smp_frag0 46 = sess_key smp_frag1_clear 38" "tid_of smp_frag0 46 = 0" "tid_of smp_frag1_clear 38 = 0"
  "bit (smp_frag0 ! 1) 6" "\<not> bit (smp_frag1_clear ! 1) 6" "frag_of smp_frag0" "fbssid smp_frag0 = fbssid smp_frag1_clear"
  by code_simp+

lemma boot_maps: "ap_map frag_boot k = None" "assoc_map frag_boot q = None" "bss_map frag_boot k = None"
  unfolding frag_boot_def frag_t.simps tab_map_def frag_decl_defs(1-6) decl_rows by (simp_all add: key_map_def)


lemma frag_no_alarm_without_key_witness:
  "\<exists>st. frag_run [(Some smp_prot, 36), (Some smp_ipv4, 32)] st
     \<and> (\<exists>i j. i < j \<and> j < 2 \<and> protected_in smp_bssid ([(Some smp_prot, 36), (Some smp_ipv4, 32)] ! i)
          \<and> clear_in smp_bssid ([(Some smp_prot, 36), (Some smp_ipv4, 32)] ! j))"
proof -
  obtain st h where p: "frag_run [(Some smp_prot, 36)] st" "gated st smp_prot" "bss_map st smp_bssid \<noteq> None"
     "count_of plaintext_unicast st smp_bssid = 0"
  proof -
    obtain st h where o: "frag_observe (\<lambda>_ _. 0) (Some smp_prot) 36 4 frag_boot sh_init = Some (st, h)"
      "bss_map st smp_bssid = Some (final_row (\<lambda>_ _. 0) frag_boot smp_prot 36 4)"
      using observe_effect [OF frag_ok_boot smp_eligible(1), of "\<lambda>_ _. 0" 4 sh_init] smp_len by (auto simp: smp_addrs)
    have r: "frag_run [(Some smp_prot, 36)] st"
      using observe_step [OF boot _ o(1)] smp_len by simp
    have "gated st smp_prot" "count_of plaintext_unicast st smp_bssid = 0"
      using observe_plaintext [OF boot smp_eligible(1), of "\<lambda>_ _. 0" 4 sh_init] o(1) smp_flags(1) smp_len
      by (auto simp: smp_addrs count_of_def boot_maps)
    with r o(2) that show thesis by simp
  qed
  then have g: "gated st smp_ipv4" by (simp add: gated_def smp_addrs)
  obtain st' h' where r: "frag_run [(Some smp_prot, 36), (Some smp_ipv4, 32)] st'"
    "count_of plaintext_unicast st' smp_bssid = 1"
    using observe_plaintext [OF p(1) smp_eligible(2), of "\<lambda>_ _. 0" 5 sh_init] g smp_flags smp_len p(4)
    by (auto simp: smp_addrs)
  with frag_no_alarm_without_key [OF r(1), of smp_bssid] show ?thesis by (intro exI [of _ st']) (simp add: numeral_2_eq_2)
qed

lemma frag_relay_exact_witness:
  "\<exists>st' h'. frag_observe (\<lambda>_ _. 0) (Some smp_eapol) 32 5 frag_boot sh_init = Some (st', h')
     \<and> count_of eapol_relay st' smp_bssid = 1"
proof -
  obtain st' h' where o: "frag_observe (\<lambda>_ _. 0) (Some smp_eapol) 32 5 frag_boot sh_init = Some (st', h')"
    using observe_total [OF frag_ok_boot, of "Some smp_eapol" 32 "\<lambda>_ _. 0" 5 sh_init] smp_len by auto
  have "\<forall>a\<in>{fsa smp_eapol, fda smp_eapol}. \<not> known_ap frag_boot smp_bssid a \<and> \<not> maybe_ap frag_boot smp_bssid a"
    using smp_flags by (simp add: smp_addrs known_ap_def maybe_ap_def boot_maps)
  with frag_relay_exact [OF boot smp_eligible(3) _ o] smp_len smp_flags(5) o show ?thesis
    by (simp add: smp_addrs count_of_def boot_maps)
qed

lemma frag_session_exact_witness:
  "\<exists>st st' h'. frag_observe (\<lambda>_ _. 0) (Some smp_frag1_clear) 38 5 st sh_init = Some (st', h')
     \<and> count_of mixed_protect st' smp_bssid = count_of mixed_protect st smp_bssid + 1"
proof -
  obtain st h where o: "frag_observe (\<lambda>_ _. 0) (Some smp_frag0) 46 4 frag_boot sh_init = Some (st, h)"
    using observe_total [OF frag_ok_boot, of "Some smp_frag0" 46 "\<lambda>_ _. 0" 4 sh_init] smp_len by auto
  have r: "frag_run [(Some smp_frag0, 46)] st" using observe_step [OF boot _ o] smp_len by simp
  have b: "fbssid smp_frag0 = smp_bssid" using smp_frags(1) by (simp add: msdu_frag_def sess_key_def)
  have "\<exists>s. sess_map st (sess_key smp_frag0 46) = Some s \<and> start_protected s"
    using frag_session_exact [OF boot smp_eligible(4) _ o] smp_len smp_frags by (simp add: opened_def)
  then have c: "continues st smp_frag1_clear 38 (\<lambda>s. bit (smp_frag1_clear ! 1) 6 \<noteq> start_protected s)"
    using smp_frags by (auto simp: continues_def)
  obtain st' h' where o': "frag_observe (\<lambda>_ _. 0) (Some smp_frag1_clear) 38 5 st sh_init = Some (st', h')"
    using observe_total [OF frag_run_ok [OF r], of "Some smp_frag1_clear" 38 "\<lambda>_ _. 0" 5 sh_init] smp_len by auto
  with frag_session_exact [OF r smp_eligible(6) _ o'] c smp_len smp_frags(12) b show ?thesis by auto
qed


end
