(* ===== verification/Digest.thy ===== *)
theory Digest
  imports Bytes
begin

text \<open>
  What the incremental digests share: a message absorbed block by block, the padding of the
  Merkle-Damgard construction, and the contract of a stream of updates between an initialisation
  and a finalisation.
\<close>

section \<open>Blocks\<close>

function absorb :: "('s \<Rightarrow> bytes \<Rightarrow> 's) \<Rightarrow> bytes \<Rightarrow> 's \<Rightarrow> 's" where
  "absorb tr bs s = (if length bs < 64 then s else absorb tr (drop 64 bs) (tr s (take 64 bs)))"
  by pat_completeness auto
termination by (relation "measure (\<lambda>(_, bs, _). length bs)") auto

declare absorb.simps [simp del]

text \<open>The octets after the last whole block.\<close>

definition rest :: "bytes \<Rightarrow> bytes" where "rest bs = drop (64 * (length bs div 64)) bs"

lemma absorb_small [simp]: "length bs < 64 \<Longrightarrow> absorb tr bs s = s"
  by (subst absorb.simps) simp

lemma absorb_block: "length b = 64 \<Longrightarrow> absorb tr (b @ bs) s = absorb tr bs (tr s b)"
  by (subst absorb.simps) simp

lemma absorb_append: "64 dvd length a \<Longrightarrow> absorb tr (a @ b) s = absorb tr b (absorb tr a s)"
proof (induction "length a" arbitrary: a s rule: less_induct)
  case less
  show ?case
  proof (cases "a = []")
    case False
    with less.prems have l: "64 \<le> length a" by (simp add: dvd_imp_le)
    then have "absorb tr (drop 64 a @ b) (tr s (take 64 a)) = absorb tr b (absorb tr (drop 64 a) (tr s (take 64 a)))"
      using less.prems by (intro less.hyps) (simp_all add: dvd_diff_nat)
    with l show ?thesis by (subst absorb.simps, subst (2) absorb.simps) simp
  qed simp
qed

lemma length_rest [simp]: "length (rest bs) = length bs mod 64"
  by (simp add: rest_def minus_mult_div_eq_mod)

lemma rest_Nil [simp]: "rest [] = []"
  by (simp add: rest_def)

lemma rest_less: "length (rest bs) < 64"
  by simp

lemma split_rest: "bs = take (64 * (length bs div 64)) bs @ rest bs" "64 dvd length (take (64 * (length bs div 64)) bs)"
  by (simp_all add: rest_def min_absorb2 div_times_less_eq_dividend mult.commute)

lemma div_in_block:
  fixes n d :: nat
  assumes "n mod 64 + d < 64"
  shows "(n + d) div 64 = n div 64"
proof -
  have "n + d = 64 * (n div 64) + (n mod 64 + d)" by simp
  then have "(n + d) div 64 = (64 * (n div 64) + (n mod 64 + d)) div 64" by (rule arg_cong)
  also have "\<dots> = n div 64" using assms by (simp only: div_mult_self4 div_less)
  finally show ?thesis .
qed

lemma mod_fills_block:
  fixes n d :: nat
  assumes "n mod 64 + d = 64"
  shows "(n + d) mod 64 = 0"
  using assms mod_add_left_eq [of n 64 d] by simp

lemma absorb_rest: "absorb tr (bs @ d) s = absorb tr (rest bs @ d) (absorb tr bs s)"
proof -
  let ?a = "take (64 * (length bs div 64)) bs"
  have "absorb tr bs s = absorb tr (rest bs) (absorb tr ?a s)"
    using absorb_append [OF split_rest(2), of tr bs "rest bs" s] split_rest(1) [of bs] by simp
  then have "absorb tr bs s = absorb tr ?a s" by (simp add: rest_less)
  moreover have "absorb tr (bs @ d) s = absorb tr (rest bs @ d) (absorb tr ?a s)"
    using absorb_append [OF split_rest(2), of tr bs "rest bs @ d" s] split_rest(1) [of bs] by (metis append.assoc)
  ultimately show ?thesis by simp
qed

text \<open>Data that stays inside the pending block, and data that completes it.\<close>

lemma absorb_within:
  assumes "length (rest bs) + length d < 64"
  shows "absorb tr (bs @ d) s = absorb tr bs s" "rest (bs @ d) = rest bs @ d"
proof -
  show "absorb tr (bs @ d) s = absorb tr bs s" unfolding absorb_rest [of tr bs d] using assms by simp
  have "(length bs + length d) div 64 = length bs div 64" using assms by (simp add: div_in_block)
  then show "rest (bs @ d) = rest bs @ d" by (simp add: rest_def div_times_less_eq_dividend mult.commute)
qed

lemma absorb_fill:
  assumes "length (rest bs) + length d = 64"
  shows "absorb tr (bs @ d) s = tr (absorb tr bs s) (rest bs @ d)" "rest (bs @ d) = []"
proof -
  show "absorb tr (bs @ d) s = tr (absorb tr bs s) (rest bs @ d)"
    unfolding absorb_rest [of tr bs d] using assms absorb_block [of "rest bs @ d" tr "[]"] by simp
  have "length (rest (bs @ d)) = 0" using assms by (simp add: mod_fills_block)
  then show "rest (bs @ d) = []" by (simp only: length_0_conv)
qed

lemma absorb_one: "length b = 64 \<Longrightarrow> absorb tr b s = tr s b"
  using absorb_block [of b tr "[]" s] by simp

lemma absorb_cong:
  assumes "\<And>s b. length s = n \<Longrightarrow> length b = 64 \<Longrightarrow> tr s b = tr' s b \<and> length (tr s b) = n" "length s = n"
  shows "absorb tr bs s = absorb tr' bs s \<and> length (absorb tr bs s) = n"
  using assms(2)
proof (induction "length bs" arbitrary: bs s rule: less_induct)
  case less
  show ?case
  proof (cases "length bs < 64")
    case False
    then have "length (take 64 bs) = 64" by simp
    note e = assms(1) [OF less.prems this]
    have "length (drop 64 bs) < length bs" using False by simp
    from less.hyps [OF this, of "tr s (take 64 bs)"] e False show ?thesis
      by (subst (1 3) absorb.simps, subst (2) absorb.simps) simp
  qed (use less.prems in simp)
qed

lemma rest_append: "64 dvd length a \<Longrightarrow> rest (a @ y) = rest y"
proof -
  assume "64 dvd length a"
  then obtain k where k: "length a = 64 * k" by (auto elim: dvdE)
  have "(64 * k + length y) div 64 = k + length y div 64" by simp
  then have "rest (a @ y) = drop (length a + 64 * (length y div 64)) (a @ y)" by (simp add: rest_def k)
  then show ?thesis by (simp add: rest_def)
qed

section \<open>Padding\<close>

text \<open>One octet \<open>80\<close>, the fewest zeros that leave room for a length of eight octets, the length.\<close>

definition pad_zeros :: "nat \<Rightarrow> nat" where "pad_zeros n = (119 - n mod 64) mod 64"

definition padded :: "(nat \<Rightarrow> bytes) \<Rightarrow> bytes \<Rightarrow> bytes" where
  "padded enc m = m @ [0x80] @ replicate (pad_zeros (length m)) 0 @ enc (8 * length m)"

lemma pad_zeros_cases:
  "n mod 64 \<le> 55 \<Longrightarrow> pad_zeros n = 55 - n mod 64" "55 < n mod 64 \<Longrightarrow> pad_zeros n = 119 - n mod 64"
proof -
  have "(119 - r) mod 64 = 55 - r" if "r \<le> 55" for r :: nat
  proof -
    have "119 - r = 64 + (55 - r)" using that by linarith
    then have "(119 - r) mod 64 = (64 + (55 - r)) mod 64" by (rule arg_cong)
    also have "\<dots> = 55 - r" by (simp only: mod_add_self1) (rule mod_less, linarith)
    finally show ?thesis .
  qed
  then show "n mod 64 \<le> 55 \<Longrightarrow> pad_zeros n = 55 - n mod 64" by (simp only: pad_zeros_def)
  have "(119 - r) mod 64 = 119 - r" if "55 < r" for r :: nat by (rule mod_less) (use that in linarith)
  then show "55 < n mod 64 \<Longrightarrow> pad_zeros n = 119 - n mod 64" by (simp only: pad_zeros_def)
qed

lemma pad_zeros_fills: "(n + (9 + pad_zeros n)) mod 64 = 0"
proof -
  have r: "n mod 64 < 64" by simp
  have "n mod 64 + (9 + pad_zeros n) = 64 \<or> n mod 64 + (9 + pad_zeros n) = 128"
    using pad_zeros_cases [of n] r by linarith
  then have "(n mod 64 + (9 + pad_zeros n)) mod 64 = 0" by (elim disjE) (simp_all only:, simp_all)
  then show ?thesis by (simp only: mod_add_left_eq)
qed

lemma padded_blocks: "length (enc (8 * length m)) = 8 \<Longrightarrow> 64 dvd length (padded enc m)"
  using pad_zeros_fills [of "length m"] by (simp add: padded_def dvd_eq_mod_eq_0 ac_simps)

lemma rest_after_pad: "absorb tr (padded enc m) s = absorb tr (rest m @ [0x80] @ replicate (pad_zeros (length m)) 0 @ enc (8 * length m)) (absorb tr m s)"
  unfolding padded_def by (rule absorb_rest)

section \<open>Streams of updates\<close>

text \<open>The chunks of a message handed to an update operation one after another.\<close>

primrec feed :: "('c \<Rightarrow> bytes \<Rightarrow> 'c option) \<Rightarrow> bytes list \<Rightarrow> 'c \<Rightarrow> 'c option" where
  "feed update [] c = Some c"
| "feed update (d # ds) c = do { c \<leftarrow> update c d; feed update ds c }"

locale hash_stream =
  fixes begin_ctx :: "'c \<Rightarrow> 'c" and update :: "'c \<Rightarrow> bytes \<Rightarrow> 'c option" and finish :: "'c \<Rightarrow> bytes option"
    and raw :: "'c \<Rightarrow> bool" and holds :: "bytes \<Rightarrow> 'c \<Rightarrow> bool" and hash :: "bytes \<Rightarrow> bytes"
  assumes init_holds: "raw c \<Longrightarrow> holds [] (begin_ctx c)"
    and update_holds: "holds bs c \<Longrightarrow> \<exists>c'. update c d = Some c' \<and> holds (bs @ d) c'"
    and finish_holds: "holds bs c \<Longrightarrow> finish c = Some (hash bs)"
begin

lemma feed_holds: "holds bs c \<Longrightarrow> \<exists>c'. feed update ds c = Some c' \<and> holds (bs @ concat ds) c'"
proof (induction ds arbitrary: bs c)
  case (Cons d ds)
  obtain c1 where c1: "update c d = Some c1" "holds (bs @ d) c1" using update_holds [OF Cons.prems] by blast
  from Cons.IH [OF c1(2)] show ?case by (auto simp: c1(1))
qed simp

lemma stream: "raw c \<Longrightarrow> Option.bind (feed update ds (begin_ctx c)) finish = Some (hash (concat ds))"
  using feed_holds [OF init_holds, of c ds] finish_holds by auto

end

text \<open>Hexadecimal digits of an octet string.\<close>

definition hex_digit :: "u8 \<Rightarrow> u8" where "hex_digit n = (if n < 10 then 0x30 + n else 0x61 + (n - 10))"

definition hex_of :: "bytes \<Rightarrow> bytes" where
  "hex_of d = concat (map (\<lambda>b. [hex_digit (drop_bit 4 b AND 0xf), hex_digit (b AND 0xf)]) d)"

section \<open>Words\<close>

lemma shifts_rotr:
  fixes x :: u32
  assumes "0 < n" "n < 32"
  shows "drop_bit n x OR push_bit (32 - n) x = word_rotr n x"
proof (rule bit_word_eqI)
  fix k assume "k < LENGTH(32)"
  then have k: "k < 32" by simp
  have l: "bit (drop_bit n x OR push_bit (32 - n) x) k \<longleftrightarrow> bit x (n + k) \<or> 32 - n \<le> k \<and> bit x (k - (32 - n))"
    using k by (simp add: bit_simps)
  have r: "bit (word_rotr n x) k \<longleftrightarrow> bit x ((k + n) mod 32)" using k by (simp add: bit_word_rotr_iff)
  show "bit (drop_bit n x OR push_bit (32 - n) x) k \<longleftrightarrow> bit (word_rotr n x) k"
  proof (cases "k + n < 32")
    case True
    then have "\<not> 32 - n \<le> k" by linarith
    with True show ?thesis unfolding l r by (simp add: add.commute)
  next
    case False
    then have "k + n = 32 + (k - (32 - n))" "k - (32 - n) < 32" using assms k by linarith+
    then have "(k + n) mod 32 = k - (32 - n)" by (metis mod_add_self1 mod_less)
    moreover have "\<not> bit x (n + k)" using False by (auto dest!: bit_imp_le_length)
    ultimately show ?thesis unfolding l r using False by auto
  qed
qed

lemma shifts_rotl:
  fixes x :: u32
  assumes "0 < n" "n < 32"
  shows "push_bit n x OR drop_bit (32 - n) x = word_rotl n x"
  using shifts_rotr [of "32 - n" x] assms by (simp add: word_rotl_eq_word_rotr or.commute)

lemma byte_of:
  fixes w :: "'a::len word"
  shows "(ucast (drop_bit k w AND 0xff) :: u8) = word_of_nat (unat w div 2 ^ k)"
proof -
  have m: "(0xff :: 'a word) = mask 8" by (simp add: mask_eq_exp_minus_1)
  have "(ucast (drop_bit k w AND 0xff) :: u8) = ucast (drop_bit k w)"
    unfolding m by (rule bit_word_eqI) (auto simp: bit_simps dest: bit_imp_le_length)
  also have "\<dots> = word_of_nat (unat (drop_bit k w))" by simp
  also have "\<dots> = word_of_nat (unat w div 2 ^ k)" by (simp only: unat_drop_bit_eq) (simp only: drop_bit_eq_div)
  finally show ?thesis .
qed

end
