(* ===== verification/Sha256.thy ===== *)
theory Sha256
  imports Digest
begin

text \<open>
  \<open>src/sha256.c\<close>: SHA-256 as an incremental context. The context is a record; its buffer keeps
  whatever octets it had before \<open>sha256_init\<close>, and a write outside the buffer is undefined (\<open>None\<close>).
\<close>

section \<open>Model\<close>

record sha256_ctx_t =
  sh_state :: "u32 list"
  bitcount :: u64
  sh_buffer :: bytes
  buflen :: nat

definition rotr :: "u32 \<Rightarrow> nat \<Rightarrow> u32" where "rotr x n = drop_bit n x OR push_bit (32 - n) x"

definition K :: "u32 list" where "K = concat
  [[0x428a2f98, 0x71374491, 0xb5c0fbcf, 0xe9b5dba5], [0x3956c25b, 0x59f111f1, 0x923f82a4, 0xab1c5ed5],
   [0xd807aa98, 0x12835b01, 0x243185be, 0x550c7dc3], [0x72be5d74, 0x80deb1fe, 0x9bdc06a7, 0xc19bf174],
   [0xe49b69c1, 0xefbe4786, 0x0fc19dc6, 0x240ca1cc], [0x2de92c6f, 0x4a7484aa, 0x5cb0a9dc, 0x76f988da],
   [0x983e5152, 0xa831c66d, 0xb00327c8, 0xbf597fc7], [0xc6e00bf3, 0xd5a79147, 0x06ca6351, 0x14292967],
   [0x27b70a85, 0x2e1b2138, 0x4d2c6dfc, 0x53380d13], [0x650a7354, 0x766a0abb, 0x81c2c92e, 0x92722c85],
   [0xa2bfe8a1, 0xa81a664b, 0xc24b8b70, 0xc76c51a3], [0xd192e819, 0xd6990624, 0xf40e3585, 0x106aa070],
   [0x19a4c116, 0x1e376c08, 0x2748774c, 0x34b0bcb5], [0x391c0cb3, 0x4ed8aa4a, 0x5b9cca4f, 0x682e6ff3],
   [0x748f82ee, 0x78a5636f, 0x84c87814, 0x8cc70208], [0x90befffa, 0xa4506ceb, 0xbef9a3f7, 0xc67178f2]]"

definition w_first :: "bytes \<Rightarrow> nat \<Rightarrow> u32" where
  "w_first block i = push_bit 24 (ucast (block ! (i * 4))) OR push_bit 16 (ucast (block ! (i * 4 + 1)))
     OR push_bit 8 (ucast (block ! (i * 4 + 2))) OR ucast (block ! (i * 4 + 3))"

definition w_next :: "nat \<Rightarrow> u32 list \<Rightarrow> u32 list" where
  "w_next i w =
     (let s0 = rotr (w ! (i - 15)) 7 XOR rotr (w ! (i - 15)) 18 XOR drop_bit 3 (w ! (i - 15));
          s1 = rotr (w ! (i - 2)) 17 XOR rotr (w ! (i - 2)) 19 XOR drop_bit 10 (w ! (i - 2))
      in w @ [w ! (i - 16) + s0 + w ! (i - 7) + s1])"

definition w_array :: "bytes \<Rightarrow> u32 list" where
  "w_array block = fold w_next [16..<64] (map (w_first block) [0..<16])"

type_synonym work_t = "u32 \<times> u32 \<times> u32 \<times> u32 \<times> u32 \<times> u32 \<times> u32 \<times> u32"

fun round_step :: "u32 \<Rightarrow> work_t \<Rightarrow> work_t" where
  "round_step kw (a, b, c, d, e, f, g, h) =
     (let S1 = rotr e 6 XOR rotr e 11 XOR rotr e 25;
          ch = (e AND f) XOR (NOT e AND g);
          t1 = h + S1 + ch + kw;
          S0 = rotr a 2 XOR rotr a 13 XOR rotr a 22;
          maj = (a AND b) XOR (a AND c) XOR (b AND c);
          t2 = S0 + maj
      in (t1 + t2, a, b, c, d + t1, e, f, g))"

definition sha256_transform :: "u32 list \<Rightarrow> bytes \<Rightarrow> u32 list" where
  "sha256_transform state block =
     (let w = w_array block in
      case fold (\<lambda>i. round_step (K ! i + w ! i)) [0..<64]
             (state ! 0, state ! 1, state ! 2, state ! 3, state ! 4, state ! 5, state ! 6, state ! 7) of
        (a, b, c, d, e, f, g, h) \<Rightarrow>
          [state ! 0 + a, state ! 1 + b, state ! 2 + c, state ! 3 + d,
           state ! 4 + e, state ! 5 + f, state ! 6 + g, state ! 7 + h])"

definition H0 :: "u32 list" where
  "H0 = [0x6a09e667, 0xbb67ae85, 0x3c6ef372, 0xa54ff53a, 0x510e527f, 0x9b05688c, 0x1f83d9ab, 0x5be0cd19]"

definition sha256_init :: "sha256_ctx_t \<Rightarrow> sha256_ctx_t" where
  "sha256_init ctx = ctx\<lparr>sh_state := H0, bitcount := 0, buflen := 0\<rparr>"

text \<open>The loop of \<open>sha256_update\<close>; a fill level above 64 would make the copy run off the buffer.\<close>

function update_loop :: "sha256_ctx_t \<Rightarrow> bytes \<Rightarrow> sha256_ctx_t option" where
  "update_loop ctx data =
     (if data = [] then Some ctx
      else if buflen ctx > 64 then None
      else let take_n = (if 64 - buflen ctx > length data then length data else 64 - buflen ctx) in
      case blit (sh_buffer ctx) (buflen ctx) (take take_n data) of None \<Rightarrow> None
      | Some b \<Rightarrow>
        let ctx' = ctx\<lparr>sh_buffer := b, buflen := buflen ctx + take_n\<rparr>;
            ctx'' = (if buflen ctx' = 64
                     then ctx'\<lparr>sh_state := sha256_transform (sh_state ctx') (sh_buffer ctx'), buflen := 0\<rparr>
                     else ctx')
        in update_loop ctx'' (drop take_n data))"
  by pat_completeness auto
termination
  by (relation "measure (\<lambda>(ctx, data). 2 * length data + (if buflen ctx = 64 then 1 else 0))") (auto simp: Let_def)

declare update_loop.simps [simp del]

definition sha256_update :: "sha256_ctx_t \<Rightarrow> bytes \<Rightarrow> sha256_ctx_t option" where
  "sha256_update ctx data = update_loop (ctx\<lparr>bitcount := bitcount ctx + word_of_nat (length data) * 8\<rparr>) data"

text \<open>\<open>ctx->buffer[ctx->buflen++] = v\<close>, repeated.\<close>

definition put_byte :: "u8 \<Rightarrow> sha256_ctx_t \<Rightarrow> sha256_ctx_t option" where
  "put_byte v ctx = map_option (\<lambda>b. ctx\<lparr>sh_buffer := b, buflen := buflen ctx + 1\<rparr>) (blit (sh_buffer ctx) (buflen ctx) [v])"

primrec put_bytes :: "bytes \<Rightarrow> sha256_ctx_t \<Rightarrow> sha256_ctx_t option" where
  "put_bytes [] ctx = Some ctx"
| "put_bytes (v # vs) ctx = do { ctx \<leftarrow> put_byte v ctx; put_bytes vs ctx }"

function zero_loop :: "nat \<Rightarrow> sha256_ctx_t \<Rightarrow> sha256_ctx_t option" where
  "zero_loop n ctx =
     (if buflen ctx < n
      then case put_byte 0 ctx of None \<Rightarrow> None | Some ctx \<Rightarrow> zero_loop n ctx
      else Some ctx)"
  by pat_completeness auto
termination
  by (relation "measure (\<lambda>(n, ctx). n - buflen ctx)") (auto simp: put_byte_def)

declare zero_loop.simps [simp del]

definition out_word :: "u32 \<Rightarrow> bytes" where
  "out_word s = [ucast (drop_bit 24 s AND 0xff), ucast (drop_bit 16 s AND 0xff), ucast (drop_bit 8 s AND 0xff), ucast (s AND 0xff)]"

definition count_bytes :: "u64 \<Rightarrow> bytes" where
  "count_bytes n = map (\<lambda>i. ucast (drop_bit (i * 8) n AND 0xff)) [7, 6, 5, 4, 3, 2, 1, 0]"

definition transform_buffer :: "sha256_ctx_t \<Rightarrow> sha256_ctx_t" where
  "transform_buffer ctx = ctx\<lparr>sh_state := sha256_transform (sh_state ctx) (sh_buffer ctx)\<rparr>"

definition sha256_final :: "sha256_ctx_t \<Rightarrow> bytes option" where
  "sha256_final ctx = do {
     ctx \<leftarrow> put_byte 0x80 ctx;
     ctx \<leftarrow> (if buflen ctx > 56
       then do { ctx \<leftarrow> zero_loop 64 ctx; Some ((transform_buffer ctx)\<lparr>buflen := 0\<rparr>) }
       else Some ctx);
     ctx \<leftarrow> zero_loop 56 ctx;
     ctx \<leftarrow> put_bytes (count_bytes (bitcount ctx)) ctx;
     Some (concat (map out_word (sh_state (transform_buffer ctx)))) }"

text \<open>The local context of \<open>sha256_hex\<close> is the argument \<open>ctx\<close>; the string ends with a zero octet.\<close>

definition sha256_hex :: "sha256_ctx_t \<Rightarrow> bytes \<Rightarrow> bytes option" where
  "sha256_hex ctx data = do {
     ctx \<leftarrow> sha256_update (sha256_init ctx) data;
     digest \<leftarrow> sha256_final ctx;
     Some (hex_of digest @ [0]) }"

section \<open>The standard\<close>

text \<open>FIPS 180-4: the message schedule by its recurrence (6.2.2), and the digest of a padded message.\<close>

definition sigma0 :: "u32 \<Rightarrow> u32" where "sigma0 x = word_rotr 7 x XOR word_rotr 18 x XOR drop_bit 3 x"
definition sigma1 :: "u32 \<Rightarrow> u32" where "sigma1 x = word_rotr 17 x XOR word_rotr 19 x XOR drop_bit 10 x"
definition Sigma0 :: "u32 \<Rightarrow> u32" where "Sigma0 x = word_rotr 2 x XOR word_rotr 13 x XOR word_rotr 22 x"
definition Sigma1 :: "u32 \<Rightarrow> u32" where "Sigma1 x = word_rotr 6 x XOR word_rotr 11 x XOR word_rotr 25 x"
definition Ch :: "u32 \<Rightarrow> u32 \<Rightarrow> u32 \<Rightarrow> u32" where "Ch x y z = (x AND y) XOR (NOT x AND z)"
definition Maj :: "u32 \<Rightarrow> u32 \<Rightarrow> u32 \<Rightarrow> u32" where "Maj x y z = (x AND y) XOR (x AND z) XOR (y AND z)"

function W :: "bytes \<Rightarrow> nat \<Rightarrow> u32" where
  "W M t = (if t < 16 then the (be32 M (int (4 * t)))
     else sigma1 (W M (t - 2)) + W M (t - 7) + sigma0 (W M (t - 15)) + W M (t - 16))"
  by pat_completeness auto
termination by (relation "measure snd") auto

declare W.simps [simp del]

text \<open>One step of the compression on the working variables \<open>a\<close> to \<open>h\<close>, and the compression.\<close>

definition comp_step :: "bytes \<Rightarrow> nat \<Rightarrow> u32 list \<Rightarrow> u32 list" where
  "comp_step M t v =
     (let T1 = v ! 7 + Sigma1 (v ! 4) + Ch (v ! 4) (v ! 5) (v ! 6) + K ! t + W M t;
          T2 = Sigma0 (v ! 0) + Maj (v ! 0) (v ! 1) (v ! 2)
      in [T1 + T2, v ! 0, v ! 1, v ! 2, v ! 3 + T1, v ! 4, v ! 5, v ! 6])"

definition compress :: "u32 list \<Rightarrow> bytes \<Rightarrow> u32 list" where
  "compress H M = map2 (+) H (fold (comp_step M) [0..<64] H)"

definition be_bytes :: "nat \<Rightarrow> nat \<Rightarrow> bytes" where
  "be_bytes k n = map (\<lambda>i. word_of_nat (n div 256 ^ (k - 1 - i))) [0..<k]"

definition sha256 :: "bytes \<Rightarrow> bytes" where
  "sha256 m = concat (map (\<lambda>s. be_bytes 4 (unat s)) (absorb compress (padded (be_bytes 8) m) H0))"

section \<open>The transform\<close>

lemma rotr_word_rotr: "0 < n \<Longrightarrow> n < 32 \<Longrightarrow> rotr x n = word_rotr n x"
  unfolding rotr_def by (rule shifts_rotr)

lemma sigma_rotr:
  "rotr x 7 XOR rotr x 18 XOR drop_bit 3 x = sigma0 x" "rotr x 17 XOR rotr x 19 XOR drop_bit 10 x = sigma1 x"
  "rotr x 2 XOR rotr x 13 XOR rotr x 22 = Sigma0 x" "rotr x 6 XOR rotr x 11 XOR rotr x 25 = Sigma1 x"
  by (simp_all add: sigma0_def sigma1_def Sigma0_def Sigma1_def rotr_word_rotr)

lemma w_first_be32: "length M = 64 \<Longrightarrow> i < 16 \<Longrightarrow> w_first M i = W M i"
  by (subst W.simps) (simp add: w_first_def be32_def nat_add_distrib nat_mult_distrib mult.commute add.commute)

lemma W_next: "16 \<le> t \<Longrightarrow> W M t = W M (t - 16) + sigma0 (W M (t - 15)) + W M (t - 7) + sigma1 (W M (t - 2))"
  by (subst W.simps) (simp add: ac_simps)

lemma fold_w_next:
  assumes "length M = 64" "16 \<le> n"
  shows "fold w_next [16..<n] (map (w_first M) [0..<16]) = map (W M) [0..<n]"
  using assms(2)
proof (induction n rule: dec_induct)
  case base
  then show ?case using assms(1) by (simp add: w_first_be32)
next
  case (step n)
  then have "w_next n (map (W M) [0..<n]) = map (W M) [0..<Suc n]"
    by (simp add: w_next_def Let_def sigma_rotr W_next [of n])
  with step show ?case by simp
qed

lemma w_array_W:
  assumes "length M = 64" "i < 64"
  shows "w_array M ! i = W M i"
proof -
  have "w_array M = map (W M) [0..<64]" unfolding w_array_def by (rule fold_w_next [OF assms(1)]) simp
  with assms(2) show ?thesis by (simp del: upt_rec_numeral)
qed

definition tup :: "u32 list \<Rightarrow> work_t" where
  "tup v = (v ! 0, v ! 1, v ! 2, v ! 3, v ! 4, v ! 5, v ! 6, v ! 7)"

lemma length_comp_step [simp]: "length (comp_step M t v) = 8"
  by (simp add: comp_step_def Let_def)

lemma round_step_comp: "round_step (K ! t + W M t) (tup v) = tup (comp_step M t v)"
  by (simp add: tup_def comp_step_def Let_def sigma_rotr Ch_def Maj_def add.assoc)

lemma rounds_comp:
  assumes "length M = 64" "n \<le> 64"
  shows "fold (\<lambda>i. round_step (K ! i + w_array M ! i)) [0..<n] (tup v) = tup (fold (comp_step M) [0..<n] v)"
  using assms(2) by (induction n) (simp_all add: w_array_W [OF assms(1)] round_step_comp)

lemma length_fold_comp: "length v = 8 \<Longrightarrow> length (fold (comp_step M) ts v) = 8"
  by (induction ts arbitrary: v) simp_all

lemma list8: "length v = 8 \<Longrightarrow> v = [v ! 0, v ! 1, v ! 2, v ! 3, v ! 4, v ! 5, v ! 6, v ! 7]"
  by (rule nth_equalityI) (auto simp: less_Suc_eq numeral_eq_Suc)

lemma transform_compress:
  assumes "length M = 64" "length st = 8"
  shows "sha256_transform st M = compress st M"
proof -
  define v where "v = fold (comp_step M) [0..<64] st"
  have l: "length v = 8" unfolding v_def by (rule length_fold_comp [OF assms(2)])
  have "sha256_transform st M = (case tup v of (a, b, c, d, e, f, g, h) \<Rightarrow>
          [st ! 0 + a, st ! 1 + b, st ! 2 + c, st ! 3 + d, st ! 4 + e, st ! 5 + f, st ! 6 + g, st ! 7 + h])"
    unfolding sha256_transform_def Let_def tup_def [symmetric] rounds_comp [OF assms(1) order.refl] v_def ..
  also have "\<dots> = map2 (+) [st ! 0, st ! 1, st ! 2, st ! 3, st ! 4, st ! 5, st ! 6, st ! 7]
      [v ! 0, v ! 1, v ! 2, v ! 3, v ! 4, v ! 5, v ! 6, v ! 7]"
    by (simp add: tup_def)
  also have "\<dots> = compress st M"
    unfolding list8 [OF assms(2), symmetric] list8 [OF l, symmetric] unfolding compress_def v_def ..
  finally show ?thesis .
qed

lemma length_compress [simp]: "length st = 8 \<Longrightarrow> length (compress st M) = 8"
  by (simp add: compress_def length_fold_comp)

lemma out_word_be: "out_word s = be_bytes 4 (unat s)"
  using byte_of [of 24 s] byte_of [of 16 s] byte_of [of 8 s] byte_of [of 0 s]
  by (simp add: out_word_def be_bytes_def upt_conv_Cons)

lemma count_bytes_be: "count_bytes (word_of_nat n) = be_bytes 8 (n mod 2 ^ 64)"
proof -
  have u: "unat (word_of_nat n :: u64) = n mod 2 ^ 64" by (simp add: unat_of_nat)
  have *: "(ucast (drop_bit k (word_of_nat n :: u64) AND 0xff) :: u8) = word_of_nat (n mod 2 ^ 64 div 2 ^ k)" for k
    unfolding byte_of u ..
  have e: "be_bytes 8 x = map (\<lambda>i. word_of_nat (x div 2 ^ (i * 8))) [7, 6, 5, 4, 3, 2, 1, 0]" for x
    by (simp add: be_bytes_def upt_conv_Cons)
  show ?thesis unfolding count_bytes_def * e ..
qed

section \<open>The context\<close>

text \<open>The pending octets \<open>p\<close> of a context.\<close>

definition pending :: "bytes \<Rightarrow> sha256_ctx_t \<Rightarrow> bool" where
  "pending p c \<longleftrightarrow> length (sh_buffer c) = 64 \<and> buflen c = length p \<and> take (length p) (sh_buffer c) = p"

lemma pending_blit:
  assumes "pending p c" "length p + length d \<le> 64"
  shows "\<exists>b. blit (sh_buffer c) (buflen c) d = Some b \<and> pending (p @ d) (c\<lparr>sh_buffer := b, buflen := buflen c + length d\<rparr>)"
  using assms by (auto simp: pending_def blit_def)

lemma pending_full: "pending p c \<Longrightarrow> length p = 64 \<Longrightarrow> sh_buffer c = p"
  using take_all [of "sh_buffer c" "length p"] by (simp add: pending_def)

lemma put_byte_ok:
  assumes "pending p c" "length p < 64"
  shows "\<exists>c'. put_byte v c = Some c' \<and> pending (p @ [v]) c' \<and> sh_state c' = sh_state c \<and> bitcount c' = bitcount c"
  using pending_blit [OF assms(1), of "[v]"] assms(2) by (auto simp: put_byte_def)

lemma put_bytes_ok:
  assumes "pending p c" "length p + length vs \<le> 64"
  shows "\<exists>c'. put_bytes vs c = Some c' \<and> pending (p @ vs) c' \<and> sh_state c' = sh_state c \<and> bitcount c' = bitcount c"
  using assms
proof (induction vs arbitrary: p c)
  case (Cons v vs)
  then obtain c1 where c1: "put_byte v c = Some c1" "pending (p @ [v]) c1" "sh_state c1 = sh_state c" "bitcount c1 = bitcount c"
    using put_byte_ok [of p c v] by auto
  from Cons.IH [OF c1(2)] Cons.prems(2) show ?case by (auto simp: c1)
qed simp

lemma zero_loop_ok:
  assumes "pending p c" "n \<le> 64"
  shows "\<exists>c'. zero_loop n c = Some c' \<and> pending (p @ replicate (n - length p) 0) c' \<and> sh_state c' = sh_state c
    \<and> bitcount c' = bitcount c"
  using assms(1)
proof (induction "n - length p" arbitrary: p c)
  case 0
  then have "\<not> buflen c < n" by (simp add: pending_def)
  with 0 show ?case by (subst zero_loop.simps) simp
next
  case (Suc k)
  then have l: "buflen c < n" "length p < 64" using assms(2) by (simp_all add: pending_def)
  obtain c1 where c1: "put_byte 0 c = Some c1" "pending (p @ [0]) c1" "sh_state c1 = sh_state c" "bitcount c1 = bitcount c"
    using put_byte_ok [OF Suc.prems l(2), of 0] by blast
  have k: "k = n - length (p @ [0])" using Suc.hyps(2) by simp
  obtain c2 where c2: "zero_loop n c1 = Some c2" "pending ((p @ [0]) @ replicate (n - length (p @ [0])) 0) c2"
    "sh_state c2 = sh_state c1" "bitcount c2 = bitcount c1"
    using Suc.hyps(1) [OF k c1(2)] by blast
  have "n - length p = Suc (n - length (p @ [0]))" using Suc.hyps(2) by simp
  then have "p @ replicate (n - length p) 0 = (p @ [0]) @ replicate (n - length (p @ [0])) 0" by simp
  moreover have "zero_loop n c = Some c2" using l(1) by (subst zero_loop.simps) (simp add: c1(1) c2(1))
  ultimately show ?case using c1 c2 by auto
qed

text \<open>A context that has absorbed \<open>bs\<close>.\<close>

definition absorbed :: "bytes \<Rightarrow> sha256_ctx_t \<Rightarrow> bool" where
  "absorbed bs c \<longleftrightarrow> pending (rest bs) c \<and> sh_state c = absorb sha256_transform bs H0"

lemma update_loop_ok:
  "absorbed bs c \<Longrightarrow> \<exists>c'. update_loop c d = Some c' \<and> absorbed (bs @ d) c' \<and> bitcount c' = bitcount c"
proof (induction "length d" arbitrary: bs c d rule: less_induct)
  case less
  show ?case
  proof (cases "d = []")
    case True
    with less.prems show ?thesis by (subst update_loop.simps) simp
  next
    case False
    have pn: "pending (rest bs) c" and st: "sh_state c = absorb sha256_transform bs H0"
      using less.prems by (simp_all add: absorbed_def)
    have bl: "buflen c = length (rest bs)" "buflen c < 64" using pn by (simp_all add: pending_def)
    define t where "t = (if 64 - buflen c > length d then length d else 64 - buflen c)"
    define e where "e = take t d"
    have t: "0 < t" "t \<le> length d" "buflen c + t \<le> 64" "length e = t"
      using False bl(2) by (auto simp: t_def e_def)
    have d: "d = e @ drop t d" by (simp add: e_def)
    obtain b where b: "blit (sh_buffer c) (buflen c) e = Some b"
      "pending (rest bs @ e) (c\<lparr>sh_buffer := b, buflen := buflen c + t\<rparr>)"
      using pending_blit [OF pn, of e] t bl by auto
    let ?c1 = "c\<lparr>sh_buffer := b, buflen := buflen c + t\<rparr>"
    define c2 where "c2 = (if buflen ?c1 = 64
        then ?c1\<lparr>sh_state := sha256_transform (sh_state ?c1) (sh_buffer ?c1), buflen := 0\<rparr> else ?c1)"
    have u: "update_loop c d = update_loop c2 (drop t d)"
      using False bl(2) b(1) unfolding e_def
      by (subst update_loop.simps) (simp add: t_def [symmetric] c2_def Let_def)
    have "absorbed (bs @ e) c2"
    proof (cases "buflen c + t = 64")
      case True
      then have "length (rest bs) + length e = 64" using bl(1) t(4) by simp
      note f = absorb_fill(1) [OF this, where tr = sha256_transform and s = H0] absorb_fill(2) [OF this]
      have "sh_buffer ?c1 = rest bs @ e" using pending_full [OF b(2)] True bl(1) t(4) by simp
      then show ?thesis using True b(2) st unfolding absorbed_def f c2_def by (simp add: pending_def)
    next
      case False
      then have "length (rest bs) + length e < 64" using bl(1) t(3,4) by simp
      note f = absorb_within(1) [OF this, where tr = sha256_transform and s = H0] absorb_within(2) [OF this]
      show ?thesis using False b(2) st unfolding absorbed_def f c2_def by simp
    qed
    moreover have "length (drop t d) < length d" using t False by simp
    ultimately obtain c' where "update_loop c2 (drop t d) = Some c'" "absorbed ((bs @ e) @ drop t d) c'" "bitcount c' = bitcount c2"
      using less.hyps by blast
    moreover have "bitcount c2 = bitcount c" by (simp add: c2_def)
    ultimately show ?thesis unfolding u by (auto simp: d [symmetric])
  qed
qed

definition sha_holds :: "bytes \<Rightarrow> sha256_ctx_t \<Rightarrow> bool" where
  "sha_holds bs c \<longleftrightarrow> absorbed bs c \<and> bitcount c = word_of_nat (8 * length bs)"

lemma sha_init: "length (sh_buffer c) = 64 \<Longrightarrow> sha_holds [] (sha256_init c)"
  by (simp add: sha_holds_def absorbed_def pending_def sha256_init_def)

lemma sha_update: "sha_holds bs c \<Longrightarrow> \<exists>c'. sha256_update c d = Some c' \<and> sha_holds (bs @ d) c'"
proof -
  assume h: "sha_holds bs c"
  let ?c = "c\<lparr>bitcount := bitcount c + word_of_nat (length d) * 8\<rparr>"
  have "absorbed bs ?c" using h by (simp add: sha_holds_def absorbed_def pending_def)
  then obtain c' where "update_loop ?c d = Some c'" "absorbed (bs @ d) c'" "bitcount c' = bitcount ?c"
    using update_loop_ok by blast
  with h show ?thesis by (simp add: sha256_update_def sha_holds_def algebra_simps)
qed

lemma length_be_bytes [simp]: "length (be_bytes k n) = k" by (simp add: be_bytes_def)
lemma length_count_bytes [simp]: "length (count_bytes n) = 8" by (simp add: count_bytes_def)

text \<open>The two shapes of the padding: within the pending block, or over a further block.\<close>

lemma final_ok:
  assumes h: "sha_holds bs c"
  shows "sha256_final c = Some (concat (map out_word (absorb sha256_transform (padded (\<lambda>n. count_bytes (word_of_nat n)) bs) H0)))"
proof -
  let ?r = "rest bs" and ?S = "absorb sha256_transform bs H0" and ?n = "count_bytes (word_of_nat (8 * length bs))"
  have p0: "pending ?r c" "sh_state c = ?S" "bitcount c = word_of_nat (8 * length bs)"
    using h by (simp_all add: sha_holds_def absorbed_def)
  obtain c1 where c1: "put_byte 0x80 c = Some c1" "pending (?r @ [0x80]) c1" "sh_state c1 = ?S" "bitcount c1 = word_of_nat (8 * length bs)"
    using put_byte_ok [OF p0(1), of "0x80"] p0(2,3) by auto
  have goal: "sha256_final c = Some (concat (map out_word (absorb sha256_transform (p @ replicate (56 - length p) 0 @ ?n) S)))"
    if "(if buflen c1 > 56
       then do { ctx \<leftarrow> zero_loop 64 c1; Some ((transform_buffer ctx)\<lparr>buflen := 0\<rparr>) }
       else Some c1) = Some c2" "pending p c2" "length p \<le> 56" "sh_state c2 = S" "bitcount c2 = word_of_nat (8 * length bs)"
    for c2 p S
  proof -
    note g = that
    obtain c3 where c3: "zero_loop 56 c2 = Some c3" "pending (p @ replicate (56 - length p) 0) c3" "sh_state c3 = S"
      "bitcount c3 = word_of_nat (8 * length bs)"
      using zero_loop_ok [OF g(2), of 56] g(4,5) by auto
    obtain c4 where c4: "put_bytes ?n c3 = Some c4" "pending ((p @ replicate (56 - length p) 0) @ ?n) c4" "sh_state c4 = S"
      using put_bytes_ok [OF c3(2), of ?n] c3(3) g(3) by auto
    have l: "length ((p @ replicate (56 - length p) 0) @ ?n) = 64" using g(3) by simp
    have "sh_state (transform_buffer c4) = sha256_transform S ((p @ replicate (56 - length p) 0) @ ?n)"
      using pending_full [OF c4(2) l] c4(3) by (simp add: transform_buffer_def)
    then show ?thesis
      unfolding sha256_final_def c1(1) Option.bind.bind_lunit g(1) c3(1) c3(4) c4(1)
      using absorb_one [OF l, of sha256_transform S] by simp
  qed
  show ?thesis
  proof (cases "length bs mod 64 \<le> 55")
    case True
    have "buflen c1 \<le> 56" using c1(2) True by (simp add: pending_def)
    then have "sha256_final c = Some (concat (map out_word (absorb sha256_transform
        ((?r @ [0x80]) @ replicate (56 - length (?r @ [0x80])) 0 @ ?n) ?S)))"
      by (intro goal [OF _ c1(2) _ c1(3,4)]) (use True in simp_all)
    then show ?thesis unfolding rest_after_pad pad_zeros_cases(1) [OF True] by simp
  next
    case False
    have f: "55 < length bs mod 64" using False by simp
    obtain c2 where c2: "zero_loop 64 c1 = Some c2" "pending ((?r @ [0x80]) @ replicate (64 - length (?r @ [0x80])) 0) c2"
      "sh_state c2 = ?S" "bitcount c2 = word_of_nat (8 * length bs)"
      using zero_loop_ok [OF c1(2), of 64] c1(3,4) by auto
    let ?b = "(?r @ [0x80]) @ replicate (63 - length bs mod 64) 0"
    have lb: "length ?b = 64" using mod_less_divisor [of 64 "length bs"] by simp
    have b: "sh_buffer c2 = ?b" using pending_full [OF c2(2)] lb by simp
    let ?c3 = "(transform_buffer c2)\<lparr>buflen := 0\<rparr>"
    have c3: "pending [] ?c3" "sh_state ?c3 = sha256_transform ?S ?b" "bitcount ?c3 = word_of_nat (8 * length bs)"
      using c2 b by (simp_all add: pending_def transform_buffer_def)
    have "buflen c1 > 56" using c1(2) f by (simp add: pending_def)
    then have "sha256_final c = Some (concat (map out_word (absorb sha256_transform
        ([] @ replicate (56 - length ([] :: bytes)) 0 @ ?n) (sha256_transform ?S ?b))))"
      by (intro goal [OF _ c3(1) _ c3(2,3)]) (simp_all add: c2(1))
    moreover have "replicate (119 - length bs mod 64) (0 :: u8) = replicate (63 - length bs mod 64) 0 @ replicate 56 0"
    proof -
      have "119 - length bs mod 64 = (63 - length bs mod 64) + 56" using mod_less_divisor [of 64 "length bs"] by linarith
      then show ?thesis by (simp only: replicate_add)
    qed
    moreover have "absorb sha256_transform (?b @ replicate 56 0 @ ?n) ?S = absorb sha256_transform (replicate 56 0 @ ?n) (sha256_transform ?S ?b)"
      by (rule absorb_block [OF lb])
    ultimately show ?thesis unfolding rest_after_pad pad_zeros_cases(2) [OF f] by simp
  qed
qed

text \<open>The digest of the code is the digest of the standard.\<close>

definition digest256 :: "bytes \<Rightarrow> bytes" where
  "digest256 m = concat (map out_word (absorb sha256_transform (padded (\<lambda>n. count_bytes (word_of_nat n)) m) H0))"

lemma absorb_compress: "absorb sha256_transform bs H0 = absorb compress bs H0" "length (absorb sha256_transform bs H0) = 8"
proof -
  have h: "length H0 = 8" by (simp add: H0_def)
  have "absorb sha256_transform bs H0 = absorb compress bs H0 \<and> length (absorb sha256_transform bs H0) = 8"
    by (rule absorb_cong [OF _ h]) (simp add: transform_compress)
  then show "absorb sha256_transform bs H0 = absorb compress bs H0" "length (absorb sha256_transform bs H0) = 8" by blast+
qed

lemma digest256_sha256: "8 * length m < 2 ^ 64 \<Longrightarrow> digest256 m = sha256 m"
proof -
  assume l: "8 * length m < 2 ^ 64"
  have p: "padded (\<lambda>n. count_bytes (word_of_nat n)) m = padded (be_bytes 8) m"
    using l by (simp add: padded_def count_bytes_be)
  have o: "out_word = (\<lambda>s. be_bytes 4 (unat s))" by (rule ext) (rule out_word_be)
  show ?thesis unfolding digest256_def sha256_def p o absorb_compress(1) ..
qed

lemma length_digest256: "length (digest256 m) = 32"
proof -
  have "map length (map out_word (absorb sha256_transform bs H0)) = replicate 8 4" for bs
    using absorb_compress(2) [of bs] by (simp add: out_word_def comp_def map_replicate_const)
  then show ?thesis unfolding digest256_def length_concat by (simp del: map_map add: sum_list_replicate)
qed

interpretation sha: hash_stream sha256_init sha256_update sha256_final "\<lambda>c. length (sh_buffer c) = 64" sha_holds digest256
  by unfold_locales (simp_all add: sha_init sha_update final_ok digest256_def)

section \<open>Properties\<close>



end
