(* ===== verification/Md5.thy ===== *)
theory Md5
  imports Digest
begin

text \<open>
  \<open>src/md5.c\<close>: MD5 as an incremental context. The bit count is kept in two words of 32 bits with
  the carry written out, and whole blocks are digested where they lie in the caller's data. A copy
  outside the buffer, or a read outside the data, is undefined (\<open>None\<close>).
\<close>

section \<open>Model\<close>

record md5_ctx_t =
  md_state :: "u32 list"
  count0 :: u32
  count1 :: u32
  md_buffer :: bytes

definition MD5_F :: "u32 \<Rightarrow> u32 \<Rightarrow> u32 \<Rightarrow> u32" where "MD5_F x y z = (x AND y) OR (NOT x AND z)"
definition MD5_G :: "u32 \<Rightarrow> u32 \<Rightarrow> u32 \<Rightarrow> u32" where "MD5_G x y z = (x AND z) OR (y AND NOT z)"
definition MD5_H :: "u32 \<Rightarrow> u32 \<Rightarrow> u32 \<Rightarrow> u32" where "MD5_H x y z = x XOR y XOR z"
definition MD5_I :: "u32 \<Rightarrow> u32 \<Rightarrow> u32 \<Rightarrow> u32" where "MD5_I x y z = y XOR (x OR NOT z)"

definition ROTL :: "u32 \<Rightarrow> nat \<Rightarrow> u32" where "ROTL x n = push_bit n x OR drop_bit (32 - n) x"

definition encode :: "u32 list \<Rightarrow> bytes" where
  "encode ws = concat (map (\<lambda>w. [ucast (w AND 0xff), ucast (drop_bit 8 w AND 0xff), ucast (drop_bit 16 w AND 0xff),
     ucast (drop_bit 24 w AND 0xff)]) ws)"

definition decode :: "bytes \<Rightarrow> u32 list" where
  "decode b = map (\<lambda>i. ucast (b ! (4 * i)) OR push_bit 8 (ucast (b ! (4 * i + 1))) OR push_bit 16 (ucast (b ! (4 * i + 2)))
     OR push_bit 24 (ucast (b ! (4 * i + 3)))) [0..<length b div 4]"

text \<open>
  The 64 lines \<open>STEP(f, a, b, c, d, x[k], t, s)\<close>. The four variables take turns as the target, in
  the order \<open>a d c b\<close>; the step hands them on rotated, so that the target is always the first.
\<close>

type_synonym md5_line_t = "(u32 \<Rightarrow> u32 \<Rightarrow> u32 \<Rightarrow> u32) \<times> nat \<times> u32 \<times> nat"

fun STEP :: "u32 list \<Rightarrow> md5_line_t \<Rightarrow> u32 \<times> u32 \<times> u32 \<times> u32 \<Rightarrow> u32 \<times> u32 \<times> u32 \<times> u32" where
  "STEP x (f, k, t, s) (a, b, c, d) =
     (let a = a + f b c d + x ! k + t; a = ROTL a s; a = a + b in (d, a, b, c))"

definition md5_lines :: "md5_line_t list" where "md5_lines =
  [(MD5_F, 0, 0xd76aa478, 7), (MD5_F, 1, 0xe8c7b756, 12), (MD5_F, 2, 0x242070db, 17), (MD5_F, 3, 0xc1bdceee, 22),
   (MD5_F, 4, 0xf57c0faf, 7), (MD5_F, 5, 0x4787c62a, 12), (MD5_F, 6, 0xa8304613, 17), (MD5_F, 7, 0xfd469501, 22),
   (MD5_F, 8, 0x698098d8, 7), (MD5_F, 9, 0x8b44f7af, 12), (MD5_F, 10, 0xffff5bb1, 17), (MD5_F, 11, 0x895cd7be, 22),
   (MD5_F, 12, 0x6b901122, 7), (MD5_F, 13, 0xfd987193, 12), (MD5_F, 14, 0xa679438e, 17), (MD5_F, 15, 0x49b40821, 22),
   (MD5_G, 1, 0xf61e2562, 5), (MD5_G, 6, 0xc040b340, 9), (MD5_G, 11, 0x265e5a51, 14), (MD5_G, 0, 0xe9b6c7aa, 20),
   (MD5_G, 5, 0xd62f105d, 5), (MD5_G, 10, 0x02441453, 9), (MD5_G, 15, 0xd8a1e681, 14), (MD5_G, 4, 0xe7d3fbc8, 20),
   (MD5_G, 9, 0x21e1cde6, 5), (MD5_G, 14, 0xc33707d6, 9), (MD5_G, 3, 0xf4d50d87, 14), (MD5_G, 8, 0x455a14ed, 20),
   (MD5_G, 13, 0xa9e3e905, 5), (MD5_G, 2, 0xfcefa3f8, 9), (MD5_G, 7, 0x676f02d9, 14), (MD5_G, 12, 0x8d2a4c8a, 20),
   (MD5_H, 5, 0xfffa3942, 4), (MD5_H, 8, 0x8771f681, 11), (MD5_H, 11, 0x6d9d6122, 16), (MD5_H, 14, 0xfde5380c, 23),
   (MD5_H, 1, 0xa4beea44, 4), (MD5_H, 4, 0x4bdecfa9, 11), (MD5_H, 7, 0xf6bb4b60, 16), (MD5_H, 10, 0xbebfbc70, 23),
   (MD5_H, 13, 0x289b7ec6, 4), (MD5_H, 0, 0xeaa127fa, 11), (MD5_H, 3, 0xd4ef3085, 16), (MD5_H, 6, 0x04881d05, 23),
   (MD5_H, 9, 0xd9d4d039, 4), (MD5_H, 12, 0xe6db99e5, 11), (MD5_H, 15, 0x1fa27cf8, 16), (MD5_H, 2, 0xc4ac5665, 23),
   (MD5_I, 0, 0xf4292244, 6), (MD5_I, 7, 0x432aff97, 10), (MD5_I, 14, 0xab9423a7, 15), (MD5_I, 5, 0xfc93a039, 21),
   (MD5_I, 12, 0x655b59c3, 6), (MD5_I, 3, 0x8f0ccc92, 10), (MD5_I, 10, 0xffeff47d, 15), (MD5_I, 1, 0x85845dd1, 21),
   (MD5_I, 8, 0x6fa87e4f, 6), (MD5_I, 15, 0xfe2ce6e0, 10), (MD5_I, 6, 0xa3014314, 15), (MD5_I, 13, 0x4e0811a1, 21),
   (MD5_I, 4, 0xf7537e82, 6), (MD5_I, 11, 0xbd3af235, 10), (MD5_I, 2, 0x2ad7d2bb, 15), (MD5_I, 9, 0xeb86d391, 21)]"

definition md5_transform :: "u32 list \<Rightarrow> bytes \<Rightarrow> u32 list" where
  "md5_transform state block =
     (case fold (STEP (decode block)) md5_lines (state ! 0, state ! 1, state ! 2, state ! 3) of
        (a, b, c, d) \<Rightarrow> [state ! 0 + a, state ! 1 + b, state ! 2 + c, state ! 3 + d])"

definition M0 :: "u32 list" where "M0 = [0x67452301, 0xefcdab89, 0x98badcfe, 0x10325476]"

definition md5_init :: "md5_ctx_t \<Rightarrow> md5_ctx_t" where
  "md5_init ctx = ctx\<lparr>count0 := 0, count1 := 0, md_state := M0\<rparr>"

definition block_idx :: "u32 \<Rightarrow> nat" where "block_idx c = unat (drop_bit 3 c AND 0x3f)"

function blocks_loop :: "bytes \<Rightarrow> nat \<Rightarrow> u32 list \<Rightarrow> (nat \<times> u32 list) option" where
  "blocks_loop data i state =
     (if i + 63 < length data
      then case bytes_at data (int i) 64 of None \<Rightarrow> None
        | Some b \<Rightarrow> blocks_loop data (i + 64) (md5_transform state b)
      else Some (i, state))"
  by pat_completeness auto
termination by (relation "measure (\<lambda>(data, i, _). length data - i)") auto

declare blocks_loop.simps [simp del]

definition md5_update :: "md5_ctx_t \<Rightarrow> bytes \<Rightarrow> md5_ctx_t option" where
  "md5_update ctx data =
     (let len = length data;
          idx = block_idx (count0 ctx);
          add = (word_of_nat (8 * len) :: u32);
          c0 = count0 ctx + add;
          c1 = (if c0 < add then count1 ctx + 1 else count1 ctx) + word_of_nat (len div 2 ^ 29);
          ctx = ctx\<lparr>count0 := c0, count1 := c1\<rparr>;
          partlen = 64 - idx
      in do {
        (i, idx, ctx) \<leftarrow> (if len \<ge> partlen
           then do {
             b \<leftarrow> blit (md_buffer ctx) idx (take partlen data);
             (i, st) \<leftarrow> blocks_loop data partlen (md5_transform (md_state ctx) b);
             Some (i, 0, ctx\<lparr>md_buffer := b, md_state := st\<rparr>) }
           else Some (0, idx, ctx));
        b \<leftarrow> blit (md_buffer ctx) idx (drop i data);
        Some (ctx\<lparr>md_buffer := b\<rparr>) })"

definition padding :: bytes where "padding = 0x80 # replicate 63 0"

definition md5_final :: "md5_ctx_t \<Rightarrow> bytes option" where
  "md5_final ctx =
     (let bits = encode [count0 ctx, count1 ctx];
          idx = block_idx (count0 ctx);
          padlen = (if idx < 56 then 56 - idx else 120 - idx)
      in do {
        pad \<leftarrow> bytes_at padding 0 (int padlen);
        ctx \<leftarrow> md5_update ctx pad;
        ctx \<leftarrow> md5_update ctx bits;
        Some (encode (md_state ctx)) })"

text \<open>The local context of \<open>md5_hex\<close> is the argument \<open>ctx\<close>; the string ends with a zero octet.\<close>

definition md5_hex :: "md5_ctx_t \<Rightarrow> bytes \<Rightarrow> bytes option" where
  "md5_hex ctx data = do {
     ctx \<leftarrow> md5_update (md5_init ctx) data;
     digest \<leftarrow> md5_final ctx;
     Some (hex_of digest @ [0]) }"

section \<open>The standard\<close>

text \<open>
  RFC 1321, 3.4: operation \<open>i\<close> (from 0) of the four rounds uses word \<open>k\<close>, rotation \<open>s\<close> and function
  \<open>f\<close> by round; the constants are those of the code's table.
\<close>

definition rfc_k :: "nat \<Rightarrow> nat" where
  "rfc_k i = (if i < 16 then i else if i < 32 then (5 * i + 1) mod 16 else if i < 48 then (3 * i + 5) mod 16 else 7 * i mod 16)"

definition rfc_s :: "nat \<Rightarrow> nat" where
  "rfc_s i = [[7, 12, 17, 22], [5, 9, 14, 20], [4, 11, 16, 23], [6, 10, 15, 21]] ! (i div 16) ! (i mod 4)"

definition rfc_f :: "nat \<Rightarrow> u32 \<Rightarrow> u32 \<Rightarrow> u32 \<Rightarrow> u32" where
  "rfc_f i x y z =
     (if i < 16 then (x AND y) OR (NOT x AND z) else if i < 32 then (x AND z) OR (y AND NOT z)
      else if i < 48 then x XOR y XOR z else y XOR (x OR NOT z))"

definition rfc_T :: "nat \<Rightarrow> u32" where "rfc_T i = fst (snd (snd (md5_lines ! i)))"

text \<open>The variables as a function of their letter: operation \<open>i\<close> replaces the letter whose turn it is.\<close>

definition rfc_step :: "bytes \<Rightarrow> nat \<Rightarrow> (nat \<Rightarrow> u32) \<Rightarrow> nat \<Rightarrow> u32" where
  "rfc_step M i v =
     (let p = (64 - i) mod 4; a = v p; b = v ((p + 1) mod 4); c = v ((p + 2) mod 4); d = v ((p + 3) mod 4)
      in v(p := b + word_rotl (rfc_s i) (a + rfc_f i b c d + the (le32 M (int (4 * rfc_k i))) + rfc_T i)))"

definition rfc_compress :: "u32 list \<Rightarrow> bytes \<Rightarrow> u32 list" where
  "rfc_compress H M = (let v = fold (rfc_step M) [0..<64] (\<lambda>j. H ! j) in map (\<lambda>j. H ! j + v j) [0..<4])"

definition le_bytes :: "nat \<Rightarrow> nat \<Rightarrow> bytes" where
  "le_bytes k n = map (\<lambda>i. word_of_nat (n div 256 ^ i)) [0..<k]"

definition md5 :: "bytes \<Rightarrow> bytes" where
  "md5 m = concat (map (\<lambda>s. le_bytes 4 (unat s)) (absorb rfc_compress (padded (le_bytes 8) m) M0))"

section \<open>The transform\<close>

lemma length_md5_lines: "length md5_lines = 64" by (simp add: md5_lines_def)

lemma md5_lines_fst: "map fst md5_lines = map rfc_f [0..<64]"
proof -
  have f: "rfc_f i = (if i < 16 then MD5_F else if i < 32 then MD5_G else if i < 48 then MD5_H else MD5_I)" for i
    by (intro ext) (simp add: rfc_f_def MD5_F_def MD5_G_def MD5_H_def MD5_I_def)
  have u: "[0..<64] = 0 # 1 # [2..<64::nat]" by (simp add: upt_conv_Cons)
  show ?thesis unfolding f u by (simp add: md5_lines_def)
qed

lemma md5_lines_k: "map (\<lambda>l. fst (snd l)) md5_lines = map rfc_k [0..<64]"
proof -
  have u: "[0..<64] = 0 # 1 # [2..<64::nat]" by (simp add: upt_conv_Cons)
  show ?thesis unfolding u by (simp add: md5_lines_def rfc_k_def)
qed

lemma md5_lines_s: "map (\<lambda>l. snd (snd (snd l))) md5_lines = map rfc_s [0..<64]"
proof -
  have u: "[0..<64] = 0 # 1 # [2..<64::nat]" by (simp add: upt_conv_Cons)
  show ?thesis unfolding u by (simp add: md5_lines_def rfc_s_def)
qed

lemma nth_of_map: "map f xs = map g [0..<n] \<Longrightarrow> i < n \<Longrightarrow> f (xs ! i) = g i"
proof -
  assume a: "map f xs = map g [0..<n]" "i < n"
  from arg_cong [OF a(1), of length] have "length xs = n" by simp
  with arg_cong [OF a(1), of "\<lambda>l. l ! i"] a(2) show "f (xs ! i) = g i" by simp
qed

lemma md5_line: "i < 64 \<Longrightarrow> md5_lines ! i = (rfc_f i, rfc_k i, rfc_T i, rfc_s i)"
  using nth_of_map [OF md5_lines_fst, of i] nth_of_map [OF md5_lines_k, of i] nth_of_map [OF md5_lines_s, of i]
  by (simp add: rfc_T_def prod_eq_iff)

lemma rfc_ranges: "rfc_k i < 16 \<or> 16 \<le> rfc_k i" "i < 64 \<Longrightarrow> 0 < rfc_s i \<and> rfc_s i < 32" "rfc_k i < 16"
proof -
  have "rfc_k i < 16" by (simp add: rfc_k_def)
  then show "rfc_k i < 16 \<or> 16 \<le> rfc_k i" "rfc_k i < 16" by simp_all
  assume "i < 64"
  then have "i div 16 < 4" "i mod 4 < 4" by (simp_all add: less_mult_imp_div_less)
  then have "i div 16 \<in> {0, 1, 2, 3}" "i mod 4 \<in> {0, 1, 2, 3}" by auto
  then show "0 < rfc_s i \<and> rfc_s i < 32" by (auto simp: rfc_s_def)
qed

lemma decode_le32: "length M = 64 \<Longrightarrow> k < 16 \<Longrightarrow> decode M ! k = the (le32 M (int (4 * k)))"
  by (simp add: decode_def le32_def nat_add_distrib nat_mult_distrib ac_simps)

text \<open>After \<open>i\<close> operations the target is the letter whose turn comes next.\<close>

definition turn :: "nat \<Rightarrow> nat" where "turn i = (64 - i) mod 4"

definition quad :: "nat \<Rightarrow> (nat \<Rightarrow> u32) \<Rightarrow> u32 \<times> u32 \<times> u32 \<times> u32" where
  "quad i v = (v (turn i), v ((turn i + 1) mod 4), v ((turn i + 2) mod 4), v ((turn i + 3) mod 4))"

lemma turn_Suc: "i < 64 \<Longrightarrow> turn (Suc i) = (turn i + 3) mod 4"
proof -
  assume "i < 64"
  then have e: "64 - i = Suc (64 - Suc i)" by simp
  have "(Suc m mod 4 + 3) mod 4 = m mod 4" for m
  proof -
    have "(Suc m mod 4 + 3) mod 4 = (4 + m) mod 4" by (simp only: mod_add_left_eq) (simp add: ac_simps)
    then show ?thesis by simp
  qed
  then show ?thesis unfolding turn_def e by simp
qed

lemma STEP_rfc:
  assumes "length M = 64" "i < 64"
  shows "STEP (decode M) (md5_lines ! i) (quad i v) = quad (Suc i) (rfc_step M i v)"
proof -
  have "turn i < 4" by (simp add: turn_def)
  then consider "turn i = 0" | "turn i = 1" | "turn i = 2" | "turn i = 3" by linarith
  then show ?thesis
    by cases (simp_all add: quad_def md5_line [OF assms(2)] turn_Suc [OF assms(2)] rfc_step_def turn_def [symmetric] Let_def
        decode_le32 [OF assms(1) rfc_ranges(3)] ROTL_def shifts_rotl rfc_ranges(2) [OF assms(2)] ac_simps)
qed

lemma fold_nth: "n \<le> length xs \<Longrightarrow> fold f (take n xs) s = fold (\<lambda>i. f (xs ! i)) [0..<n] s"
  by (induction n) (simp_all add: take_Suc_conv_app_nth)

lemma rounds_rfc:
  assumes "length M = 64" "n \<le> 64"
  shows "fold (\<lambda>i. STEP (decode M) (md5_lines ! i)) [0..<n] (quad 0 v) = quad n (fold (rfc_step M) [0..<n] v)"
  using assms(2) by (induction n) (simp_all add: STEP_rfc [OF assms(1)])

lemma md5_transform_rfc:
  assumes "length M = 64"
  shows "md5_transform st M = rfc_compress st M"
proof -
  define v where "v = fold (rfc_step M) [0..<64] (\<lambda>j. st ! j)"
  have t: "turn 0 = 0" "turn 64 = 0" by (simp_all add: turn_def)
  have q: "quad 0 (\<lambda>j. st ! j) = (st ! 0, st ! 1, st ! 2, st ! 3)" "quad 64 v = (v 0, v 1, v 2, v 3)"
    by (simp_all add: quad_def t) (simp_all add: numeral_2_eq_2)
  have "fold (STEP (decode M)) md5_lines (quad 0 (\<lambda>j. st ! j)) = quad 64 v"
    unfolding v_def using fold_nth [of 64 md5_lines "STEP (decode M)"] rounds_rfc [OF assms order.refl] length_md5_lines
    by (simp del: upt_rec_numeral upt_Suc)
  then have "md5_transform st M = [st ! 0 + v 0, st ! 1 + v 1, st ! 2 + v 2, st ! 3 + v 3]"
    unfolding md5_transform_def q by simp
  also have "\<dots> = map (\<lambda>j. st ! j + v j) [0..<4]" by (simp add: upt_conv_Cons numeral_eq_Suc)
  finally show ?thesis unfolding rfc_compress_def v_def Let_def .
qed

lemma encode_le: "encode ws = concat (map (\<lambda>s. le_bytes 4 (unat s)) ws)"
proof -
  have "[ucast (w AND 0xff), ucast (drop_bit 8 w AND 0xff), ucast (drop_bit 16 w AND 0xff), ucast (drop_bit 24 w AND 0xff)]
      = le_bytes 4 (unat w)" for w :: u32
    using byte_of [of 0 w] byte_of [of 8 w] byte_of [of 16 w] byte_of [of 24 w] by (simp add: le_bytes_def upt_conv_Cons)
  then show ?thesis by (simp add: encode_def)
qed

section \<open>The context\<close>

text \<open>A context that has absorbed \<open>bs\<close>, with the bit count in its two halves.\<close>

definition md_holds :: "bytes \<Rightarrow> md5_ctx_t \<Rightarrow> bool" where
  "md_holds bs c \<longleftrightarrow> md_state c = absorb md5_transform bs M0 \<and> length (md_buffer c) = 64
     \<and> take (length (rest bs)) (md_buffer c) = rest bs
     \<and> count0 c = word_of_nat (8 * length bs) \<and> count1 c = word_of_nat (8 * length bs div 2 ^ 32)"

lemma block_idx_len: "block_idx (word_of_nat (8 * n)) = n mod 64"
proof -
  have m: "(0x3f :: u32) = mask 6" by (simp add: mask_eq_exp_minus_1)
  have "unat (drop_bit 3 (word_of_nat (8 * n)) AND 0x3f :: u32) = unat (word_of_nat (8 * n) :: u32) div 8 mod 64"
    unfolding m take_bit_eq_mask [symmetric] by (simp only: unsigned_take_bit_eq unat_drop_bit_eq) (simp add: take_bit_eq_mod drop_bit_eq_div)
  also have "unat (word_of_nat (8 * n) :: u32) = 8 * n mod 2 ^ 32" by (simp only: unat_of_nat) simp
  also have "8 * n mod 2 ^ 32 div 8 mod 64 = n mod 64"
  proof -
    have "8 * n mod 2 ^ 32 = 8 * (n mod 2 ^ 29)" using mult_mod_right [of 8 n "2 ^ 29"] by simp
    moreover have "n mod 2 ^ 29 mod 64 = n mod 64" by (rule mod_mod_cancel) simp
    ultimately show ?thesis by simp
  qed
  finally show ?thesis unfolding block_idx_def .
qed

lemma wrap_iff_carry:
  fixes a b m :: nat
  assumes "a < m" "b < m"
  shows "(a + b) mod m < b \<longleftrightarrow> m \<le> a + b" "(a + b) div m = (if m \<le> a + b then 1 else 0)"
proof -
  have "(a + b) mod m = (if m \<le> a + b then a + b - m else a + b)"
    using assms by (auto simp: le_mod_geq mod_if [of "a + b - m"])
  then show "(a + b) mod m < b \<longleftrightarrow> m \<le> a + b" using assms by auto
  show "(a + b) div m = (if m \<le> a + b then 1 else 0)" using assms by (auto simp: le_div_geq)
qed

lemma div_count:
  fixes l n m :: nat
  assumes "0 < m"
  shows "8 * (l + n) div (8 * m) = 8 * l div (8 * m) + n div m
     + (if 8 * m \<le> 8 * l mod (8 * m) + 8 * n mod (8 * m) then 1 else 0)"
proof -
  have "8 * (l + n) div (8 * m) = 8 * l div (8 * m) + 8 * n div (8 * m) + (8 * l mod (8 * m) + 8 * n mod (8 * m)) div (8 * m)"
    unfolding distrib_left by (rule div_add1_eq)
  moreover have "8 * n div (8 * m) = n div m" by simp
  moreover have "(8 * l mod (8 * m) + 8 * n mod (8 * m)) div (8 * m)
      = (if 8 * m \<le> 8 * l mod (8 * m) + 8 * n mod (8 * m) then 1 else 0)"
    by (rule wrap_iff_carry(2); rule mod_less_divisor) (use assms in simp_all)
  ultimately show ?thesis by simp
qed

lemma carry_count:
  fixes l n :: nat
  defines "add \<equiv> (word_of_nat (8 * n) :: u32)"
  shows "(if word_of_nat (8 * l) + add < add then word_of_nat (8 * l div 2 ^ 32) + 1 else word_of_nat (8 * l div 2 ^ 32))
      + word_of_nat (n div 2 ^ 29) = (word_of_nat (8 * (l + n) div 2 ^ 32) :: u32)"
proof -
  have m: "2 ^ LENGTH(32) = 8 * (2 ^ 29 :: nat)" "(2 ^ 32 :: nat) = 8 * 2 ^ 29" by simp_all
  have s: "(word_of_nat (8 * l) + add < add) = (8 * 2 ^ 29 \<le> 8 * l mod (8 * 2 ^ 29) + 8 * n mod (8 * 2 ^ 29))"
    unfolding add_def word_less_nat_alt unat_word_ariths(1) unat_of_nat m
    by (rule wrap_iff_carry(1); rule mod_less_divisor) simp_all
  show ?thesis unfolding s m(2) div_count [where l = l and n = n and m = "2 ^ 29", OF zero_less_power [OF zero_less_numeral]] by simp
qed

lemma blocks_loop_ok:
  "\<exists>i' st'. blocks_loop d i s = Some (i', st') \<and> st' = absorb md5_transform (drop i d) s
     \<and> drop i' d = rest (drop i d)"
proof (induction "length d - i" arbitrary: i s rule: less_induct)
  case less
  show ?case
  proof (cases "i + 63 < length d")
    case False
    then have "length (drop i d) < 64" by simp
    moreover from this have "rest (drop i d) = drop i d" unfolding rest_def by simp
    ultimately show ?thesis using False by (subst blocks_loop.simps) simp
  next
    case True
    then have b: "bytes_at d (int i) 64 = Some (take 64 (drop i d))" by simp
    have l: "64 \<le> length (drop i d)" using True by simp
    have "\<exists>i' st'. blocks_loop d (i + 64) (md5_transform s (take 64 (drop i d))) = Some (i', st')
      \<and> st' = absorb md5_transform (drop (i + 64) d) (md5_transform s (take 64 (drop i d))) \<and> drop i' d = rest (drop (i + 64) d)"
      by (rule less.hyps) (use True in simp)
    moreover have "rest (drop (i + 64) d) = rest (drop i d)"
    proof -
      have "drop i d = take 64 (drop i d) @ drop (i + 64) d" by (simp add: add.commute [of i 64] flip: drop_drop)
      moreover have "64 dvd length (take 64 (drop i d))" using l by simp
      ultimately show ?thesis using rest_append by metis
    qed
    moreover have "absorb md5_transform (drop i d) s = absorb md5_transform (drop (i + 64) d) (md5_transform s (take 64 (drop i d)))"
      using l by (subst absorb.simps) (simp add: add.commute)
    ultimately show ?thesis using True by (subst blocks_loop.simps) (simp add: b)
  qed
qed

lemma md_update:
  assumes h: "md_holds bs c"
  shows "\<exists>c'. md5_update c d = Some c' \<and> md_holds (bs @ d) c'"
proof -
  let ?tr = "md5_transform"
  define c1 where "c1 = c\<lparr>count0 := word_of_nat (8 * length (bs @ d)), count1 := word_of_nat (8 * length (bs @ d) div 2 ^ 32)\<rparr>"
  define idx where "idx = length bs mod 64"
  have f: "md_state c = absorb ?tr bs M0" "length (md_buffer c) = 64" "take idx (md_buffer c) = rest bs"
    "count0 c = word_of_nat (8 * length bs)" "count1 c = word_of_nat (8 * length bs div 2 ^ 32)"
    using h by (simp_all add: md_holds_def idx_def)
  have idx: "block_idx (count0 c) = idx" "idx < 64" unfolding f(4) block_idx_len by (simp_all add: idx_def)
  have cnt: "c\<lparr>count0 := count0 c + word_of_nat (8 * length d),
      count1 := (if count0 c + word_of_nat (8 * length d) < (word_of_nat (8 * length d) :: u32) then count1 c + 1 else count1 c)
        + word_of_nat (length d div 2 ^ 29)\<rparr> = c1"
    unfolding f(4,5) carry_count c1_def by (simp add: algebra_simps)
  have u: "md5_update c d = do {
        (i, idx, ctx) \<leftarrow> (if length d \<ge> 64 - idx
           then do {
             b \<leftarrow> blit (md_buffer c1) idx (take (64 - idx) d);
             (i, st) \<leftarrow> blocks_loop d (64 - idx) (md5_transform (md_state c1) b);
             Some (i, 0, c1\<lparr>md_buffer := b, md_state := st\<rparr>) }
           else Some (0, idx, c1));
        b \<leftarrow> blit (md_buffer ctx) idx (drop i d);
        Some (ctx\<lparr>md_buffer := b\<rparr>) }"
    unfolding md5_update_def Let_def cnt idx(1) ..
  have k: "md_buffer c1 = md_buffer c" "md_state c1 = md_state c" by (simp_all add: c1_def)
  show ?thesis
  proof (cases "length d \<ge> 64 - idx")
    case False
    then have s: "length (rest bs) + length d < 64" by (simp add: idx_def)
    obtain b where b: "blit (md_buffer c) idx d = Some b" "length b = 64" "take (idx + length d) b = rest bs @ d"
      using f(2,3) s by (auto simp: blit_def idx_def)
    have "md5_update c d = Some (c1\<lparr>md_buffer := b\<rparr>)" unfolding u using False b(1) by (simp add: k)
    moreover have "md_holds (bs @ d) (c1\<lparr>md_buffer := b\<rparr>)"
      using b(2,3) s absorb_within(2) [OF s] unfolding md_holds_def absorb_within(1) [OF s]
      by (simp add: c1_def f(1) idx_def)
    ultimately show ?thesis by blast
  next
    case True
    define e where "e = take (64 - idx) d"
    have le: "length e = 64 - idx" using True by (simp add: e_def)
    have s: "length (rest bs) + length e = 64" using idx(2) le by (simp add: idx_def)
    have d: "d = e @ drop (64 - idx) d" by (simp add: e_def)
    have b: "blit (md_buffer c) idx e = Some (rest bs @ e)"
      using f(2,3) le idx(2) by (simp add: blit_def)
    obtain i st where bl: "blocks_loop d (64 - idx) (md5_transform (md_state c) (rest bs @ e)) = Some (i, st)"
      "st = absorb ?tr (drop (64 - idx) d) (md5_transform (md_state c) (rest bs @ e))" "drop i d = rest (drop (64 - idx) d)"
      using blocks_loop_ok by blast
    have a: "absorb ?tr (bs @ d) M0 = st" "rest (bs @ d) = drop i d"
    proof -
      have r: "absorb ?tr (bs @ e) M0 = md5_transform (md_state c) (rest bs @ e)" "rest (bs @ e) = []"
        using absorb_fill(1) [OF s, of ?tr M0] absorb_fill(2) [OF s] by (simp_all add: f(1))
      have "absorb ?tr ((bs @ e) @ drop (64 - idx) d) M0 = st"
        unfolding absorb_rest [of ?tr "bs @ e"] r bl(2) by simp
      then show "absorb ?tr (bs @ d) M0 = st" using d by simp
      have m: "64 dvd length (bs @ e)" using length_rest [of "bs @ e"] unfolding r(2) by (simp add: dvd_eq_mod_eq_0)
      have "rest ((bs @ e) @ drop (64 - idx) d) = drop i d" unfolding bl(3) by (rule rest_append [OF m])
      then show "rest (bs @ d) = drop i d" using d by simp
    qed
    have l: "length (drop i d) < 64" unfolding bl(3) by simp
    obtain b' where b': "blit (rest bs @ e) 0 (drop i d) = Some b'" "length b' = 64" "take (length (drop i d)) b' = drop i d"
      using l s by (simp add: blit_def)
    have "md5_update c d = Some (c1\<lparr>md_state := st, md_buffer := b'\<rparr>)"
      unfolding u using True b b'(1) bl(1) by (simp add: k e_def [symmetric])
    moreover have "md_holds (bs @ d) (c1\<lparr>md_state := st, md_buffer := b'\<rparr>)"
      unfolding md_holds_def a using b' by (simp add: c1_def)
    ultimately show ?thesis by blast
  qed
qed

lemma md_init: "length (md_buffer c) = 64 \<Longrightarrow> md_holds [] (md5_init c)"
  by (simp add: md_holds_def md5_init_def)

definition md_bits :: "nat \<Rightarrow> bytes" where "md_bits n = encode [word_of_nat n, word_of_nat (n div 2 ^ 32)]"

definition digest128 :: "bytes \<Rightarrow> bytes" where
  "digest128 m = encode (absorb md5_transform (padded md_bits m) M0)"

lemma md_final:
  assumes h: "md_holds bs c"
  shows "md5_final c = Some (digest128 bs)"
proof -
  let ?r = "length bs mod 64"
  have c: "count0 c = word_of_nat (8 * length bs)" "count1 c = word_of_nat (8 * length bs div 2 ^ 32)"
    using h by (simp_all add: md_holds_def)
  have r: "?r < 64" by simp
  define pl where "pl = (if ?r < 56 then 56 - ?r else 120 - ?r)"
  have pl: "pl = Suc (pad_zeros (length bs))" "pl \<le> 64"
    using pad_zeros_cases [of "length bs"] r unfolding pl_def by auto
  have p: "bytes_at padding 0 (int pl) = Some (0x80 # replicate (pad_zeros (length bs)) 0)"
  proof -
    have "bytes_at padding 0 (int pl) = Some (take pl padding)" using pl(2) by (simp add: padding_def)
    also have "take pl padding = 0x80 # replicate (pad_zeros (length bs)) 0" using pl by (simp add: padding_def)
    finally show ?thesis .
  qed
  obtain c1 where c1: "md5_update c (0x80 # replicate (pad_zeros (length bs)) 0) = Some c1"
    "md_holds (bs @ 0x80 # replicate (pad_zeros (length bs)) 0) c1" using md_update [OF h] by blast
  obtain c2 where c2: "md5_update c1 (md_bits (8 * length bs)) = Some c2"
    "md_holds ((bs @ 0x80 # replicate (pad_zeros (length bs)) 0) @ md_bits (8 * length bs)) c2" using md_update [OF c1(2)] by blast
  have "md_state c2 = absorb md5_transform (padded md_bits bs) M0" using c2(2) by (simp add: md_holds_def padded_def)
  then show ?thesis
    unfolding md5_final_def Let_def c block_idx_len pl_def [symmetric] p md_bits_def [symmetric] digest128_def
    by (simp add: c1(1) c2(1))
qed

interpretation md: hash_stream md5_init md5_update md5_final "\<lambda>c. length (md_buffer c) = 64" md_holds digest128
  by unfold_locales (simp_all add: md_init md_update md_final)

lemma le_bytes_mod: "le_bytes k (x mod 256 ^ k) = le_bytes k x"
proof (rule nth_equalityI)
  fix i assume "i < length (le_bytes k (x mod 256 ^ k))"
  then have i: "i < k" by (simp add: le_bytes_def)
  then have "(256 :: nat) ^ k = 256 ^ i * 256 ^ (k - i)" by (simp flip: power_add)
  then have "x mod 256 ^ k div 256 ^ i = x div 256 ^ i mod 256 ^ (k - i)" by (simp add: mod_mult2_eq)
  moreover have "256 dvd (256 :: nat) ^ (k - i)" using i by (simp add: dvd_power)
  ultimately have "x mod 256 ^ k div 256 ^ i mod 256 = x div 256 ^ i mod 256" by (simp add: mod_mod_cancel)
  then have "(word_of_nat (x mod 256 ^ k div 256 ^ i) :: u8) = word_of_nat (x div 256 ^ i)"
    unfolding word_unat_eq_iff unat_u8_of_nat .
  with i show "le_bytes k (x mod 256 ^ k) ! i = le_bytes k x ! i" by (simp add: le_bytes_def)
qed (simp add: le_bytes_def)

lemma le_bytes_split: "le_bytes (a + b) x = le_bytes a x @ le_bytes b (x div 256 ^ a)"
proof -
  have "[0..<a + b] = [0..<a] @ [a..<a + b]" by (rule upt_add_eq_append) simp
  also have "[a..<a + b] = map (\<lambda>i. i + a) [0..<b]" using map_add_upt [of a b] by (simp only: add.commute [of b a])
  finally have u: "[0..<a + b] = [0..<a] @ map (\<lambda>i. i + a) [0..<b]" .
  have d: "x div 256 ^ (i + a) = x div 256 ^ a div 256 ^ i" for i
    by (simp only: power_add mult.commute [of "256 ^ i"] div_mult2_eq)
  show ?thesis unfolding le_bytes_def u by (simp add: d comp_def)
qed

lemma md_bits_le: "md_bits n = le_bytes 8 n"
proof -
  have u: "unat (word_of_nat x :: u32) = x mod 256 ^ 4" for x by (simp add: unat_of_nat)
  have "md_bits n = le_bytes 4 n @ le_bytes 4 (n div 256 ^ 4)"
    unfolding md_bits_def encode_le by (simp only: list.map concat.simps append_Nil2 u le_bytes_mod) simp
  then show ?thesis using le_bytes_split [of 4 4 n] by simp
qed

lemma absorb_rfc: "absorb md5_transform bs M0 = absorb rfc_compress bs M0" "length (absorb md5_transform bs M0) = 4"
proof -
  have h: "length M0 = 4" by (simp add: M0_def)
  have "absorb md5_transform bs M0 = absorb rfc_compress bs M0 \<and> length (absorb md5_transform bs M0) = 4"
    by (rule absorb_cong [OF _ h]) (simp add: md5_transform_rfc, simp add: rfc_compress_def Let_def)
  then show "absorb md5_transform bs M0 = absorb rfc_compress bs M0" "length (absorb md5_transform bs M0) = 4" by blast+
qed

lemma digest128_md5: "digest128 m = md5 m" "length (md5 m) = 16"
proof -
  have "md_bits = le_bytes 8" by (rule ext) (rule md_bits_le)
  then show d: "digest128 m = md5 m" unfolding digest128_def md5_def encode_le absorb_rfc(1) by simp
  have "map length (map (\<lambda>w. [ucast (w AND 0xff) :: u8, ucast (drop_bit 8 w AND 0xff), ucast (drop_bit 16 w AND 0xff),
     ucast (drop_bit 24 w AND 0xff)]) (absorb md5_transform bs M0)) = replicate 4 4" for bs
    using absorb_rfc(2) [of bs] by (simp add: comp_def map_replicate_const)
  then show "length (md5 m) = 16" unfolding d [symmetric] digest128_def encode_def length_concat
    by (simp del: map_map add: sum_list_replicate)
qed

section \<open>Properties\<close>



end
