(* ===== verification/DnsWire.thy ===== *)
theory DnsWire
  imports Bytes
begin

text \<open>
  \<open>src/dns_wire.c\<close>: the one reader of names in DNS messages. A name is a run of labels ended by a
  zero octet or by a pointer to another name of the message; at most 20 pointers are followed, which
  is what makes the reader return on a message whose pointers form a cycle.
\<close>

lemma minus_one_less_uint: "- 1 < uint w"
  by (rule less_le_trans [OF _ uint_ge_0]) simp

section \<open>Model\<close>

definition DNS_NAME_MAX_HOPS :: int where "DNS_NAME_MAX_HOPS = 20"

text \<open>The text buffer takes a separator, as much of the label as fits, and a zero octet.\<close>

definition put_label :: "bytes \<Rightarrow> int \<Rightarrow> u8 \<Rightarrow> int \<Rightarrow> int \<Rightarrow> bytes \<Rightarrow> (int \<times> bytes) option" where
  "put_label msg off c bufsz out buf = do {
     (out, buf) \<leftarrow> (if out > 0 \<and> out < bufsz - 1
       then do { b \<leftarrow> blit buf (nat out) [0x2e]; Some (out + 1, b) } else Some (out, buf));
     let copy = uint c;
     let copy = (if out + copy \<ge> bufsz then bufsz - out - 1 else copy);
     (out, buf) \<leftarrow> (if copy > 0
       then do { l \<leftarrow> bytes_at msg off copy; b \<leftarrow> blit buf (nat out) l; Some (out + copy, b) } else Some (out, buf));
     buf \<leftarrow> blit buf (nat out) [0];
     Some (out, buf) }"

text \<open>
  The loop: the offset, the octets of text, whether a pointer was followed and where to resume, the
  pointers followed, the length of the whole text, the buffer. It returns what the function returns,
  the buffer, and the length reported.
\<close>

type_synonym name_st = "int \<times> int \<times> bool \<times> int \<times> int \<times> int \<times> bytes"

function name_loop :: "bytes \<Rightarrow> int \<Rightarrow> int \<Rightarrow> name_st \<Rightarrow> (int \<times> bytes \<times> int) option" where
  "name_loop msg msglen bufsz (off, out, jumped, resume, hops, full, buf) =
     (if off < 0 \<or> off \<ge> msglen then Some (-1, buf, 0)
      else case byte_at msg off of None \<Rightarrow> None
      | Some c \<Rightarrow>
      if c AND 0xC0 = 0xC0
      then if off + 1 \<ge> msglen then Some (-1, buf, 0)
           else (case byte_at msg (off + 1) of None \<Rightarrow> None
           | Some d \<Rightarrow>
             let resume = (if \<not> jumped then off + 2 else resume);
                 off = uint (push_bit 8 (ucast (c AND 0x3F)) OR ucast d :: u16)
             in if hops + 1 > DNS_NAME_MAX_HOPS then Some (-1, buf, 0)
                else name_loop msg msglen bufsz (off, out, True, resume, hops + 1, full, buf))
      else if c AND 0xC0 \<noteq> 0 then Some (-1, buf, 0)
      else if c = 0 then Some (if jumped then resume else off + 1, buf, full)
      else if off + 1 + uint c > msglen then Some (-1, buf, 0)
      else (case put_label msg (off + 1) c bufsz out buf of None \<Rightarrow> None
        | Some (out', buf') \<Rightarrow>
          name_loop msg msglen bufsz
            (off + 1 + uint c, out', jumped, resume, hops, full + (if full > 0 then 1 else 0) + uint c, buf')))"
  by pat_completeness auto
termination
  by (relation "measures [\<lambda>(_, _, _, _, _, _, _, hops, _, _). nat (21 - hops), \<lambda>(_, msglen, _, off, _). nat (msglen - off)]")
    (auto simp: DNS_NAME_MAX_HOPS_def minus_one_less_uint)

declare name_loop.simps [simp del]

definition dns_read_name_len ::
  "bytes option \<Rightarrow> int \<Rightarrow> int \<Rightarrow> bytes option \<Rightarrow> int \<Rightarrow> (int \<times> bytes option \<times> int) option" where
  "dns_read_name_len msg msglen off buf bufsz =
     (case buf of None \<Rightarrow> Some (-1, None, 0)
      | Some t \<Rightarrow>
      if bufsz < 1 then Some (-1, Some t, 0)
      else do {
        t \<leftarrow> blit t 0 [0];
        case msg of None \<Rightarrow> Some (-1, Some t, 0)
        | Some b \<Rightarrow>
          map_option (\<lambda>(r, t, full). (r, Some t, full)) (name_loop b msglen bufsz (off, 0, False, -1, 0, 0, t)) })"

definition dns_read_name :: "bytes option \<Rightarrow> int \<Rightarrow> int \<Rightarrow> bytes option \<Rightarrow> int \<Rightarrow> (int \<times> bytes option) option" where
  "dns_read_name msg msglen off buf bufsz =
     map_option (\<lambda>(r, t, full). (r, t)) (dns_read_name_len msg msglen off buf bufsz)"

function skip_loop :: "bytes \<Rightarrow> int \<Rightarrow> int \<Rightarrow> int option" where
  "skip_loop msg msglen off =
     (if off < 0 \<or> off \<ge> msglen then Some (-1)
      else case byte_at msg off of None \<Rightarrow> None
      | Some c \<Rightarrow>
      if c AND 0xC0 = 0xC0 then Some (if off + 2 \<le> msglen then off + 2 else -1)
      else if c AND 0xC0 \<noteq> 0 then Some (-1)
      else if c = 0 then Some (off + 1)
      else if off + 1 + uint c > msglen then Some (-1)
      else skip_loop msg msglen (off + 1 + uint c))"
  by pat_completeness auto
termination by (relation "measure (\<lambda>(_, msglen, off). nat (msglen - off))") (auto simp: minus_one_less_uint)

declare skip_loop.simps [simp del]

definition dns_skip_name :: "bytes option \<Rightarrow> int \<Rightarrow> int \<Rightarrow> int option" where
  "dns_skip_name msg msglen off = (case msg of None \<Rightarrow> Some (-1) | Some b \<Rightarrow> skip_loop b msglen off)"

section \<open>Names\<close>

text \<open>
  RFC 1035, 4.1.4: the name at an offset of a message, the pointers it takes to read it, and the offset
  that follows it where it stands.
\<close>

inductive name_at :: "bytes \<Rightarrow> int \<Rightarrow> nat \<Rightarrow> bytes list \<Rightarrow> int \<Rightarrow> bool" for m where
  root: "0 \<le> off \<Longrightarrow> off < int (length m) \<Longrightarrow> m ! nat off = 0 \<Longrightarrow> name_at m off 0 [] (off + 1)"
| label: "0 \<le> off \<Longrightarrow> off < int (length m) \<Longrightarrow> 0 < m ! nat off \<Longrightarrow> m ! nat off < 0x40
    \<Longrightarrow> off + 1 + uint (m ! nat off) \<le> int (length m) \<Longrightarrow> name_at m (off + 1 + uint (m ! nat off)) h ls e
    \<Longrightarrow> name_at m off h (take (unat (m ! nat off)) (drop (nat off + 1) m) # ls) e"
| pointer: "0 \<le> off \<Longrightarrow> off + 1 < int (length m) \<Longrightarrow> 0xC0 \<le> m ! nat off
    \<Longrightarrow> name_at m (uint (m ! nat off AND 0x3F) * 256 + uint (m ! nat (off + 1))) h ls e
    \<Longrightarrow> name_at m off (Suc h) ls (off + 2)"

inductive_cases name_atE: "name_at m off h ls e"

text \<open>Labels joined by dots.\<close>

fun dotted :: "bytes list \<Rightarrow> bytes" where
  "dotted [] = []"
| "dotted [l] = l"
| "dotted (l # ls) = l @ 0x2e # dotted ls"

text \<open>A buffer of \<open>n\<close> octets holds a text, cut to fit, and a zero octet.\<close>

definition holds_text :: "int \<Rightarrow> bytes \<Rightarrow> bytes \<Rightarrow> bool" where
  "holds_text n buf t \<longleftrightarrow> 1 \<le> n \<and> n \<le> int (length buf)
     \<and> take (length (take (nat n - 1) t) + 1) buf = take (nat n - 1) t @ [0]"

lemma dotted_snoc: "dotted (ls @ [l]) = (if ls = [] then l else dotted ls @ 0x2e # l)"
proof (induction ls rule: dotted.induct)
  case (3 l1 l2 ls)
  then show ?case by simp
qed simp_all

lemma dotted_Nil_iff: "(\<forall>l \<in> set ls. l \<noteq> []) \<Longrightarrow> dotted ls = [] \<longleftrightarrow> ls = []"
  by (induction ls rule: dotted.induct) auto

lemma label_octets: "0 < c \<Longrightarrow> 0 < uint c" "unat c = nat (uint c)" for c :: u8
  by (simp_all add: word_less_def)

lemma round_down_u8:
  fixes x :: int
  assumes "0 \<le> x" "x < 256"
  shows "x div 64 * 64 mod 256 = x div 64 * 64"
proof (rule mod_pos_pos_trivial)
  show "0 \<le> x div 64 * 64" using assms(1) by (simp add: pos_imp_zdiv_nonneg_iff)
  have "x div 64 \<le> 255 div 64" by (rule zdiv_mono1) (use assms(2) in simp_all)
  then show "x div 64 * 64 < 256" by simp
qed

lemma c_top:
  fixes c :: u8
  shows "c AND 0xC0 = 0xC0 \<longleftrightarrow> 0xC0 \<le> c" "c AND 0xC0 = 0 \<longleftrightarrow> c < 0x40"
proof -
  have m: "(0xC0 :: u8) = NOT (mask 6)" by (simp add: mask_eq_exp_minus_1)
  have "c AND NOT (mask 6) = push_bit 6 (drop_bit 6 c)" by (rule bit_word_eqI) (auto simp: bit_simps)
  moreover have "uint c mod 256 = uint c" by (simp add: uint_u8_bounds)
  ultimately have u: "uint (c AND 0xC0) = uint c div 64 * 64 mod 256"
    unfolding m by (simp only: unsigned_push_bit_eq unsigned_drop_bit_eq) (simp add: take_bit_eq_mod push_bit_eq_mult drop_bit_eq_div)
  have b: "0 \<le> uint c" "uint c < 256" by (rule uint_u8_bounds)+
  have v: "uint (c AND 0xC0) = uint c div 64 * 64" unfolding u by (rule round_down_u8 [OF b])
  have "c AND 0xC0 = 0xC0 \<longleftrightarrow> uint c div 64 * 64 = 192" unfolding v [symmetric] by (simp add: word_uint_eq_iff)
  also have "\<dots> \<longleftrightarrow> 192 \<le> uint c" using b by presburger
  finally show "c AND 0xC0 = 0xC0 \<longleftrightarrow> 0xC0 \<le> c" by (simp add: word_le_def)
  have "c AND 0xC0 = 0 \<longleftrightarrow> uint c div 64 * 64 = 0" unfolding v [symmetric] by (simp add: word_uint_eq_iff)
  also have "\<dots> \<longleftrightarrow> uint c < 64" using b by presburger
  finally show "c AND 0xC0 = 0 \<longleftrightarrow> c < 0x40" by (simp add: word_less_def)
qed

lemma take_blit:
  assumes "off + length src \<le> length buf"
  shows "\<exists>b. blit buf off src = Some b \<and> length b = length buf \<and> take (off + length src) b = take off buf @ src"
  using assms by (auto simp: blit_def)

text \<open>The three writes of one label more: the separator, the octets that fit, the zero octet.\<close>

lemma put_separator:
  assumes b: "N + 1 \<le> length buf" "take (length (take N t)) buf = take N t" and out: "out = int (length (take N t))"
  defines "t1 \<equiv> t @ (if t = [] then [] else [0x2e])"
  shows "\<exists>b. (if out > 0 \<and> out < int N then do { b \<leftarrow> blit buf (nat out) [0x2e]; Some (out + 1, b) } else Some (out, buf))
      = Some (int (length (take N t1)), b) \<and> length b = length buf \<and> take (length (take N t1)) b = take N t1"
proof (cases "out > 0 \<and> out < int N")
  case True
  then have o: "length (take N t) < N" "t \<noteq> []" using out by auto
  then have lt: "length t < N" by simp
  obtain b where "blit buf (length (take N t)) [0x2e] = Some b" "length b = length buf"
    "take (length (take N t) + 1) b = take (length (take N t)) buf @ [0x2e]"
    using take_blit [of "length (take N t)" "[0x2e]" buf] b(1) lt by auto
  with True o lt b(2) out show ?thesis by (simp add: t1_def)
next
  case False
  have "t = [] \<or> N \<le> length t"
  proof (rule disjCI)
    assume "\<not> N \<le> length t"
    then have "out = int (length t)" "out < int N" using out by simp_all
    with False show "t = []" by simp
  qed
  then have "take N t1 = take N t" by (auto simp: t1_def)
  with b(2) out show ?thesis unfolding if_not_P [OF False] by simp
qed

lemma fits:
  assumes "o1 \<le> N"
  shows "(if int o1 + uint (c :: u8) \<ge> int N + 1 then int N + 1 - int o1 - 1 else uint c) = int (min (N - o1) (unat c))"
proof -
  have "uint c = int (unat c)" by simp
  then show ?thesis using assms by (auto simp only: min_def of_nat_diff split: if_splits)
qed

lemma put_octets:
  assumes b: "N + 1 \<le> length buf" "take (length (take N t)) buf = take N t" and m: "0 \<le> off" "off + uint c \<le> int (length msg)"
  defines "l \<equiv> take (unat c) (drop (nat off) msg)" and "o1 \<equiv> length (take N t)"
  defines "k \<equiv> min (N - o1) (unat c)"
  shows "\<exists>b. (if int k > 0 then do { l \<leftarrow> bytes_at msg off (int k); b \<leftarrow> blit buf (nat (int o1)) l; Some (int o1 + int k, b) }
      else Some (int o1, buf)) = Some (int (o1 + k), b) \<and> length b = length buf \<and> take (o1 + k) b = take N (t @ l)
    \<and> length (take N (t @ l)) = o1 + k \<and> o1 + k \<le> N"
proof -
  have "unat c + nat off \<le> length msg" using m uint_nat [of c] by linarith
  then have ll: "length l = unat c" by (simp add: l_def)
  have k: "k = min (N - o1) (length l)" "N - o1 = N - length t" "o1 \<le> N" by (auto simp: k_def ll o1_def)
  then have "take (N - length t) l = take k l" by (cases "N - o1 \<le> length l") simp_all
  then have kk: "take N (t @ l) = take N t @ take k l" "k \<le> length l" "o1 + k \<le> N" using k by simp_all
  moreover have "length (take N (t @ l)) = o1 + k" unfolding kk(1) using kk(2) by (simp add: o1_def)
  ultimately have kk: "take N (t @ l) = take N t @ take k l" "k \<le> length l" "o1 + k \<le> N" "length (take N (t @ l)) = o1 + k"
    by simp_all
  show ?thesis
  proof (cases "k = 0")
    case True
    then show ?thesis using kk b by (simp add: o1_def)
  next
    case False
    have "int k \<le> uint c" using kk(2) ll uint_nat [of c] by linarith
    then have "bytes_at msg off (int k) = Some (take k (drop (nat off) msg))" using m by simp
    then have a: "bytes_at msg off (int k) = Some (take k l)" using kk(2) ll by (simp add: l_def min_absorb1)
    obtain b2 where "blit buf o1 (take k l) = Some b2" "length b2 = length buf" "take (o1 + k) b2 = take o1 buf @ take k l"
      using take_blit [of o1 "take k l" buf] b(1) kk(2,3) by (auto simp: min_absorb2)
    with False a b(2) kk show ?thesis by (simp add: o1_def)
  qed
qed

lemma put_label_ok:
  assumes s: "holds_text n buf t" "out = int (length (take (nat n - 1) t))"
    and m: "0 \<le> off" "off + uint c \<le> int (length msg)"
  defines "t' \<equiv> t @ (if t = [] then [] else [0x2e]) @ take (unat c) (drop (nat off) msg)"
  shows "\<exists>out' buf'. put_label msg off c n out buf = Some (out', buf') \<and> length buf' = length buf
    \<and> holds_text n buf' t' \<and> out' = int (length (take (nat n - 1) t'))"
proof -
  define N where "N = nat n - 1"
  have n: "n = int N + 1" "N + 1 \<le> length buf" using s(1) by (auto simp: holds_text_def N_def)
  define t1 where "t1 = t @ (if t = [] then [] else [0x2e])"
  define o1 where "o1 = length (take N t1)"
  define k where "k = min (N - o1) (unat c)"
  have t': "t' = t1 @ take (unat c) (drop (nat off) msg)" by (simp add: t'_def t1_def)
  have "take (length (take N t) + 1) buf = take N t @ [0]" using s(1) unfolding holds_text_def N_def [symmetric] by blast
  moreover have "take (length (take N t)) buf = take (length (take N t)) (take (length (take N t) + 1) buf)"
    by (simp del: length_take)
  moreover have "take (length xs) (xs @ ys) = xs" for xs ys :: bytes by simp
  ultimately have b0: "take (length (take N t)) buf = take N t" by metis
  obtain b1 where b1: "(if out > 0 \<and> out < int N then do { b \<leftarrow> blit buf (nat out) [0x2e]; Some (out + 1, b) } else Some (out, buf))
      = Some (int o1, b1)" "length b1 = length buf" "take (length (take N t1)) b1 = take N t1"
    using put_separator [OF n(2) b0] s(2) unfolding N_def [symmetric] t1_def [symmetric] o1_def by blast
  have "N + 1 \<le> length b1" using b1(2) n(2) by simp
  from put_octets [OF this b1(3) m] obtain b2 where
    b2: "(if int k > 0 then do { l \<leftarrow> bytes_at msg off (int k); b \<leftarrow> blit b1 (nat (int o1)) l; Some (int o1 + int k, b) }
        else Some (int o1, b1)) = Some (int (o1 + k), b2)" "length b2 = length b1" "take (o1 + k) b2 = take N t'"
      "length (take N t') = o1 + k" "o1 + k \<le> N"
    unfolding t' [symmetric] o1_def [symmetric] k_def [symmetric] by blast
  obtain b3 where b3: "blit b2 (o1 + k) [0] = Some b3" "length b3 = length buf" "take (o1 + k + 1) b3 = take N t' @ [0]"
    using take_blit [of "o1 + k" "[0]" b2] b1(2) b2(2,3,5) n(2) by auto
  have "o1 \<le> N" by (simp add: o1_def)
  note copy = fits [OF this, of c, folded k_def]
  have n1: "int N + 1 - 1 = int N" by simp
  have "put_label msg off c n out buf = Some (int (o1 + k), b3)"
    unfolding put_label_def n(1) n1 Let_def b1(1) Option.bind.bind_lunit prod.case copy b2(1)
    by (simp only: nat_int b3(1) Option.bind.bind_lunit)
  moreover have "holds_text n b3 t'"
    unfolding holds_text_def N_def [symmetric] b2(4) using b3(2) n by (intro conjI b3(3)) simp_all
  ultimately show ?thesis unfolding N_def [symmetric] b2(4) using b3(2) by blast
qed

section \<open>The reader\<close>

text \<open>The cases of a name by its first octet.\<close>

lemma name_at_cases:
  assumes "0 \<le> off" "off < int (length m)"
  defines "c \<equiv> m ! nat off"
  shows "c = 0 \<Longrightarrow> name_at m off h ls e \<longleftrightarrow> h = 0 \<and> ls = [] \<and> e = off + 1"
    "0 < c \<Longrightarrow> c < 0x40 \<Longrightarrow> name_at m off h ls e \<longleftrightarrow> off + 1 + uint c \<le> int (length m)
      \<and> (\<exists>ls'. ls = take (unat c) (drop (nat off + 1) m) # ls' \<and> name_at m (off + 1 + uint c) h ls' e)"
    "0x40 \<le> c \<Longrightarrow> c < 0xC0 \<Longrightarrow> \<not> name_at m off h ls e"
    "0xC0 \<le> c \<Longrightarrow> name_at m off h ls e \<longleftrightarrow> off + 1 < int (length m) \<and> e = off + 2
      \<and> (\<exists>h' e'. h = Suc h' \<and> name_at m (uint (c AND 0x3F) * 256 + uint (m ! nat (off + 1))) h' ls e')"
proof -
  have s: "name_at m off h ls e \<longleftrightarrow> (c = 0 \<and> h = 0 \<and> ls = [] \<and> e = off + 1)
    \<or> (0 < c \<and> c < 0x40 \<and> off + 1 + uint c \<le> int (length m)
      \<and> (\<exists>ls'. ls = take (unat c) (drop (nat off + 1) m) # ls' \<and> name_at m (off + 1 + uint c) h ls' e))
    \<or> (0xC0 \<le> c \<and> off + 1 < int (length m) \<and> e = off + 2
      \<and> (\<exists>h' e'. h = Suc h' \<and> name_at m (uint (c AND 0x3F) * 256 + uint (m ! nat (off + 1))) h' ls e'))" for h ls e
    unfolding name_at.simps [of m off h ls e] c_def using assms(1,2) by blast
  have n: "\<not> (c < 0x40 \<and> 0xC0 \<le> c)" by (auto simp: word_le_def word_less_def)
  show "c = 0 \<Longrightarrow> name_at m off h ls e \<longleftrightarrow> h = 0 \<and> ls = [] \<and> e = off + 1" unfolding s by simp
  show "0 < c \<Longrightarrow> c < 0x40 \<Longrightarrow> name_at m off h ls e \<longleftrightarrow> off + 1 + uint c \<le> int (length m)
      \<and> (\<exists>ls'. ls = take (unat c) (drop (nat off + 1) m) # ls' \<and> name_at m (off + 1 + uint c) h ls' e)"
    unfolding s using n by (simp add: word_gt_0)
  show "0x40 \<le> c \<Longrightarrow> c < 0xC0 \<Longrightarrow> \<not> name_at m off h ls e" unfolding s by (auto simp: word_le_def word_less_def)
  show "0xC0 \<le> c \<Longrightarrow> name_at m off h ls e \<longleftrightarrow> off + 1 < int (length m) \<and> e = off + 2
      \<and> (\<exists>h' e'. h = Suc h' \<and> name_at m (uint (c AND 0x3F) * 256 + uint (m ! nat (off + 1))) h' ls e')"
    unfolding s using n by (auto simp: word_le_def word_less_def)
qed

lemma name_at_inside: "name_at m off h ls e \<Longrightarrow> 0 \<le> off \<and> off < int (length m)"
  by (auto elim: name_atE)

lemma ptr_target: "uint (push_bit 8 (ucast (c AND 0x3F)) OR ucast (d :: u8) :: u16) = uint ((c :: u8) AND 0x3F) * 256 + uint d"
  unfolding or.commute [of "push_bit 8 _"] uint_join16_le by simp

text \<open>The steps of the loop, over the octets of the message.\<close>

lemma name_loop_steps:
  assumes len: "0 \<le> len" "len \<le> int (length b)" and m: "m = take (nat len) b"

  shows "\<not> (0 \<le> off \<and> off < int (length m)) \<Longrightarrow> name_loop b len n (off, out, jumped, resume, hops, full, buf) = Some (-1, buf, 0)"
    "0 \<le> off \<Longrightarrow> off < int (length m) \<Longrightarrow> m ! nat off = 0
      \<Longrightarrow> name_loop b len n (off, out, jumped, resume, hops, full, buf) = Some (if jumped then resume else off + 1, buf, full)"
    "0 \<le> off \<Longrightarrow> off < int (length m) \<Longrightarrow> 0x40 \<le> m ! nat off \<Longrightarrow> m ! nat off < 0xC0
      \<Longrightarrow> name_loop b len n (off, out, jumped, resume, hops, full, buf) = Some (-1, buf, 0)"
    "0 \<le> off \<Longrightarrow> off < int (length m) \<Longrightarrow> 0xC0 \<le> m ! nat off
      \<Longrightarrow> name_loop b len n (off, out, jumped, resume, hops, full, buf) =
        (if off + 1 < int (length m) \<and> hops + 1 \<le> 20
         then name_loop b len n (uint (m ! nat off AND 0x3F) * 256 + uint (m ! nat (off + 1)), out, True,
           if \<not> jumped then off + 2 else resume, hops + 1, full, buf) else Some (-1, buf, 0))"
    "0 \<le> off \<Longrightarrow> off < int (length m) \<Longrightarrow> 0 < m ! nat off \<Longrightarrow> m ! nat off < 0x40
      \<Longrightarrow> name_loop b len n (off, out, jumped, resume, hops, full, buf) =
        (if off + 1 + uint (m ! nat off) \<le> int (length m)
         then Option.bind (put_label b (off + 1) (m ! nat off) n out buf) (\<lambda>(out', buf').
           name_loop b len n (off + 1 + uint (m ! nat off), out', jumped, resume, hops,
             full + (if full > 0 then 1 else 0) + uint (m ! nat off), buf')) else Some (-1, buf, 0))"
proof -
  have lm: "len = int (length m)" using len by (simp add: m)
  have bm: "byte_at b i = Some (m ! nat i)" if "0 \<le> i" "i < int (length m)" for i
    using that len by (simp add: m)
  note s = name_loop.simps [of b "int (length m)" n off out jumped resume hops full buf]
  show "\<not> (0 \<le> off \<and> off < int (length m)) \<Longrightarrow> name_loop b len n (off, out, jumped, resume, hops, full, buf) = Some (-1, buf, 0)"
    unfolding s lm by auto
  assume o: "0 \<le> off" "off < int (length m)"
  then have g: "(off < 0 \<or> off \<ge> int (length m)) = False" by simp
  note r = s lm g bm [OF o] if_False option.case
  show "m ! nat off = 0 \<Longrightarrow> name_loop b len n (off, out, jumped, resume, hops, full, buf) = Some (if jumped then resume else off + 1, buf, full)"
    unfolding r by simp
  show "0x40 \<le> m ! nat off \<Longrightarrow> m ! nat off < 0xC0 \<Longrightarrow> name_loop b len n (off, out, jumped, resume, hops, full, buf) = Some (-1, buf, 0)"
    unfolding r c_top by (simp add: word_le_def word_less_def)
  show "0xC0 \<le> m ! nat off \<Longrightarrow> name_loop b len n (off, out, jumped, resume, hops, full, buf) =
        (if off + 1 < int (length m) \<and> hops + 1 \<le> 20
         then name_loop b len n (uint (m ! nat off AND 0x3F) * 256 + uint (m ! nat (off + 1)), out, True,
           if \<not> jumped then off + 2 else resume, hops + 1, full, buf) else Some (-1, buf, 0))"
    using o(1) unfolding r c_top
    by (simp add: bm ptr_target Let_def DNS_NAME_MAX_HOPS_def not_le not_less)
  show "0 < m ! nat off \<Longrightarrow> m ! nat off < 0x40 \<Longrightarrow> name_loop b len n (off, out, jumped, resume, hops, full, buf) =
        (if off + 1 + uint (m ! nat off) \<le> int (length m)
         then Option.bind (put_label b (off + 1) (m ! nat off) n out buf) (\<lambda>(out', buf').
           name_loop b len n (off + 1 + uint (m ! nat off), out', jumped, resume, hops,
             full + (if full > 0 then 1 else 0) + uint (m ! nat off), buf')) else Some (-1, buf, 0))"
    unfolding r c_top
    by (auto simp: word_le_def word_less_def not_le not_less split: option.split)
qed

text \<open>
  What the loop leaves from a state whose buffer holds the labels read so far: the rest of the name,
  when there is one within the pointers left, and an error otherwise.
\<close>

definition name_out :: "bytes \<Rightarrow> int \<Rightarrow> name_st \<Rightarrow> bytes list \<Rightarrow> (int \<times> bytes \<times> int) option \<Rightarrow> bool" where
  "name_out m n st ls0 res \<longleftrightarrow> (case st of (off, out, jumped, resume, hops, full, buf) \<Rightarrow>
     (\<exists>h ls e buf'. name_at m off h ls e \<and> hops + int h \<le> 20 \<and> length buf' = length buf
        \<and> res = Some (if jumped then resume else e, buf', int (length (dotted (ls0 @ ls)))) \<and> holds_text n buf' (dotted (ls0 @ ls)))
   \<or> (\<nexists>h ls e. name_at m off h ls e \<and> hops + int h \<le> 20)
     \<and> (\<exists>buf' t. res = Some (-1, buf', 0) \<and> length buf' = length buf \<and> holds_text n buf' t))"

lemma name_out_error:
  assumes "holds_text n buf t" "\<And>h ls e. name_at m off h ls e \<Longrightarrow> hops + int h \<le> 20 \<Longrightarrow> False"
  shows "name_out m n (off, out, jumped, resume, hops, full, buf) ls0 (Some (-1, buf, 0))"
  using assms unfolding name_out_def by blast

lemma name_out_pointer:
  assumes "name_out m n (tgt, out, True, if \<not> jumped then off + 2 else resume, hops + 1, full, buf) ls0 res"
    "\<And>h ls e. name_at m off h ls e \<longleftrightarrow> e = off + 2 \<and> (\<exists>h' e'. h = Suc h' \<and> name_at m tgt h' ls e')"
  shows "name_out m n (off, out, jumped, resume, hops, full, buf) ls0 res"
  using assms(1) unfolding name_out_def prod.case
proof (elim disjE exE conjE, goal_cases)
  case (1 h ls e buf')
  then show ?case
    by (intro disjI1 exI [of _ "Suc h"] exI [of _ ls] exI [of _ "off + 2"] exI [of _ buf']) (auto simp: assms(2))
next
  case (2 buf' t)
  have "hops + 1 + int h' \<le> 20" if "h = Suc h'" "hops + int h \<le> 20" for h h' using that by simp
  with 2 show ?case unfolding assms(2) by blast
qed

lemma name_out_label:
  assumes "name_out m n (off', out', jumped, resume, hops, full', buf') (ls0 @ [l]) res" "length buf' = length buf"
    "\<And>h ls e. name_at m off h ls e \<longleftrightarrow> (\<exists>ls'. ls = l # ls' \<and> name_at m off' h ls' e)"
  shows "name_out m n (off, out, jumped, resume, hops, full, buf) ls0 res"
  using assms(1) unfolding name_out_def prod.case assms(2)
proof (elim disjE exE conjE, goal_cases)
  case (1 h ls e b)
  then show ?case
    by (intro disjI1 exI [of _ h] exI [of _ "l # ls"] exI [of _ e] exI [of _ b]) (auto simp: assms(3))
next
  case (2 b t)
  then show ?case unfolding assms(3) by blast
qed

lemma label_step:
  fixes c :: u8
  assumes p: "holds_text n buf (dotted ls0)" "out = int (length (take (nat n - 1) (dotted ls0)))"
    "full = int (length (dotted ls0))" "\<forall>l \<in> set ls0. l \<noteq> []" "len \<le> int (length b)" "m = take (nat len) b"
    and o: "0 \<le> off" "0 < c" "off + 1 + uint c \<le> int (length m)"
  defines "l \<equiv> take (unat c) (drop (nat off + 1) m)"
  shows "\<exists>out' buf'. put_label b (off + 1) c n out buf = Some (out', buf') \<and> length buf' = length buf
    \<and> holds_text n buf' (dotted (ls0 @ [l])) \<and> out' = int (length (take (nat n - 1) (dotted (ls0 @ [l]))))
    \<and> full + (if full > 0 then 1 else 0) + uint c = int (length (dotted (ls0 @ [l])))
    \<and> (\<forall>l \<in> set (ls0 @ [l]). l \<noteq> [])"
proof -
  have uc: "0 < uint c" "int (unat c) = uint c" using label_octets(1) [OF o(2)] by simp_all
  have lb: "off + 1 + uint c \<le> int (length b)" using o(3) p(5) by (simp add: p(6) split: if_splits)
  have "nat (off + 1) = nat off + 1" using o(1) by simp
  moreover have "off + 1 + uint c \<le> int (nat len)" using o(3) unfolding p(6) length_take by linarith
  then have "unat c \<le> nat len - (nat off + 1)" using o(1) uc(2) by linarith
  ultimately have l: "l = take (unat c) (drop (nat (off + 1)) b)" by (simp add: l_def p(6) drop_take)
  have "unat c + (nat off + 1) \<le> length m" using o(1,3) uc(2) by linarith
  then have "length l = unat c" by (simp add: l_def)
  then have ln: "int (length l) = uint c" by simp
  then have l0: "l \<noteq> []" using uc(1) by auto
  have dn: "dotted ls0 = [] \<longleftrightarrow> ls0 = []" by (rule dotted_Nil_iff [OF p(4)])
  have ds: "dotted ls0 @ (if dotted ls0 = [] then [] else [0x2e]) @ l = dotted (ls0 @ [l])"
    unfolding dn dotted_snoc by simp
  have "full + (if full > 0 then 1 else 0) + uint c = int (length (dotted (ls0 @ [l])))"
    unfolding p(3) using ln dn by (auto simp: dotted_snoc)
  then show ?thesis
    using put_label_ok [OF p(1,2) _ lb] o(1) p(4) l0 unfolding l [symmetric] ds by auto
qed

lemma name_loop_ok:
  assumes "holds_text n buf (dotted ls0)" "out = int (length (take (nat n - 1) (dotted ls0)))"
    "full = int (length (dotted ls0))" "\<forall>l \<in> set ls0. l \<noteq> []" "hops \<le> 20" "0 \<le> len" "len \<le> int (length b)"
    "m = take (nat len) b"
  shows "name_out m n (off, out, jumped, resume, hops, full, buf) ls0
    (name_loop b len n (off, out, jumped, resume, hops, full, buf))"
  using assms
proof (induction b len n "(off, out, jumped, resume, hops, full, buf)"
    arbitrary: off out jumped resume hops full buf ls0 rule: name_loop.induct)
  case (1 b len n off out jumped resume hops full buf)
  note p = "1.prems"
  note st = name_loop_steps [OF p(6-8), of _ n out jumped resume hops full buf]
  have lm: "len = int (length m)" using p(6,7) by (simp add: p(8))
  show ?case
  proof (cases "0 \<le> off \<and> off < int (length m)")
    case False
    show ?thesis unfolding st(1) [OF False] by (rule name_out_error [OF p(1)]) (use False in \<open>auto dest: name_at_inside\<close>)
  next
    case off: True
    then have o: "0 \<le> off" "off < int (length m)" by simp_all
    have o': "\<not> (off < 0 \<or> off \<ge> len)" using o lm by simp
    have cb: "byte_at b off = Some (m ! nat off)" using o p(6,7) by (simp add: p(8))
    note nc = name_at_cases [OF o]
    consider (ptr) "0xC0 \<le> m ! nat off" | (bad) "0x40 \<le> m ! nat off" "m ! nat off < 0xC0" | (root) "m ! nat off = 0"
      | (lab) "0 < m ! nat off" "m ! nat off < 0x40"
      by (metis linorder_not_le word_gt_0)
    then show ?thesis
    proof cases
      case root
      show ?thesis unfolding st(2) [OF o root] using nc(1) [OF root] p(1,3,5) by (auto simp: name_out_def)
    next
      case bad
      show ?thesis unfolding st(3) [OF o bad] by (rule name_out_error [OF p(1)]) (simp add: nc(3) [OF bad])
    next
      case ptr
      show ?thesis
      proof (cases "off + 1 < int (length m) \<and> hops + 1 \<le> 20")
        case False
        then show ?thesis unfolding st(4) [OF o ptr] if_not_P [OF False]
          by (intro name_out_error [OF p(1)]) (auto simp: nc(4) [OF ptr])
      next
        case True
        have db: "byte_at b (off + 1) = Some (m ! nat (off + 1))" using True o p(6,7) by (simp add: p(8))
        show ?thesis unfolding st(4) [OF o ptr] if_P [OF True]
          by (rule name_out_pointer, rule "1.hyps"(1) [OF o' cb _ _ db refl _ _ p(1-4) _ p(6-8)])
            (use True ptr in \<open>simp_all add: ptr_target c_top DNS_NAME_MAX_HOPS_def lm nc(4) [OF ptr]\<close>)
      qed
    next
      case lab
      let ?c = "m ! nat off"
      show ?thesis
      proof (cases "off + 1 + uint ?c \<le> int (length m)")
        case False
        then show ?thesis unfolding st(5) [OF o lab] if_not_P [OF False]
          by (intro name_out_error [OF p(1)]) (simp add: nc(2) [OF lab])
      next
        case True
        have o1: "\<not> off + 1 + uint ?c > len" using True lm by simp
        define l where "l = take (unat ?c) (drop (nat off + 1) m)"
        obtain out' buf' where pl: "put_label b (off + 1) ?c n out buf = Some (out', buf')" "length buf' = length buf"
          and nx: "holds_text n buf' (dotted (ls0 @ [l]))" "out' = int (length (take (nat n - 1) (dotted (ls0 @ [l]))))"
            "full + (if full > 0 then 1 else 0) + uint ?c = int (length (dotted (ls0 @ [l])))"
            "\<forall>l \<in> set (ls0 @ [l]). l \<noteq> []"
          using label_step [OF p(1-4) p(7,8) o(1) lab(1) True] unfolding l_def by blast
        show ?thesis unfolding st(5) [OF o lab] if_P [OF True] pl(1) Option.bind.bind_lunit prod.case
          by (rule name_out_label [OF "1.hyps"(2) [OF o' cb _ _ _ o1 pl(1) refl nx p(5-8)] pl(2)])
            (use True lab c_top [of ?c] in \<open>auto simp: nc(2) [OF lab] l_def word_le_def word_less_def\<close>)
      qed
    qed
  qed
qed

lemma name_at_det: "name_at m off h ls e \<Longrightarrow> name_at m off h' ls' e' \<Longrightarrow> h' = h \<and> ls' = ls \<and> e' = e"
proof (induction arbitrary: h' ls' e' rule: name_at.induct)
  case (root off)
  then show ?case using name_at_cases(1) [of off m] by simp
next
  case (label off h ls e)
  note l = name_at_cases(2) [OF label.hyps(1-4)]
  from label.prems obtain ls2 where "ls' = take (unat (m ! nat off)) (drop (nat off + 1) m) # ls2"
    "name_at m (off + 1 + uint (m ! nat off)) h' ls2 e'"
    unfolding l by blast
  with label.IH show ?case by blast
next
  case (pointer off h ls e)
  have "off < int (length m)" using pointer.hyps(2) by simp
  note l = name_at_cases(4) [OF pointer.hyps(1) this pointer.hyps(3)]
  from pointer.prems obtain h2 e2 where "h' = Suc h2" "e' = off + 2"
    "name_at m (uint (m ! nat off AND 0x3F) * 256 + uint (m ! nat (off + 1))) h2 ls' e2"
    unfolding l by blast
  with pointer.IH show ?case by blast
qed

lemma name_at_end: "name_at m off h ls e \<Longrightarrow> off < e \<and> e \<le> int (length m)"
proof (induction rule: name_at.induct)
  case (label off h ls e)
  have "0 \<le> uint (m ! nat off)" by (rule uint_ge_0)
  with label.IH show ?case by linarith
qed simp_all

lemma read_name_len_ok:
  assumes "0 \<le> len" "len \<le> int (length b)" "1 \<le> n" "n \<le> int (length buf)" "m = take (nat len) b"
  shows "\<exists>r buf' full. dns_read_name_len (Some b) len off (Some buf) n = Some (r, Some buf', full)
    \<and> length buf' = length buf
    \<and> (\<forall>h ls e. name_at m off h ls e \<longrightarrow> h \<le> 20
        \<longrightarrow> r = e \<and> full = int (length (dotted ls)) \<and> holds_text n buf' (dotted ls))
    \<and> ((\<nexists>h ls e. name_at m off h ls e \<and> h \<le> 20) \<longrightarrow> r = -1 \<and> full = 0 \<and> (\<exists>t. holds_text n buf' t))"
proof -
  obtain b0 where b0: "blit buf 0 [0] = Some b0" "length b0 = length buf" "take 1 b0 = [0]"
    using take_blit [of 0 "[0]" buf] assms(3,4) by auto
  have h: "holds_text n b0 (dotted [])" using b0 assms(3,4) by (simp add: holds_text_def)
  have "name_out m n (off, 0, False, -1, 0, 0, b0) [] (name_loop b len n (off, 0, False, -1, 0, 0, b0))"
    by (rule name_loop_ok [OF h _ _ _ _ assms(1,2,5)]) simp_all
  moreover have "dns_read_name_len (Some b) len off (Some buf) n =
      map_option (\<lambda>(r, t, full). (r, Some t, full)) (name_loop b len n (off, 0, False, -1, 0, 0, b0))"
    using assms(3) b0(1) by (simp add: dns_read_name_len_def)
  ultimately show ?thesis
    unfolding name_out_def prod.case b0(2)
  proof (elim disjE exE conjE, goal_cases)
    case (1 h ls e buf')
    then have q: "name_at m off h ls e" "h \<le> 20" "length buf' = length buf" "holds_text n buf' (dotted ls)"
      "dns_read_name_len (Some b) len off (Some buf) n = Some (e, Some buf', int (length (dotted ls)))"
      by simp_all
    have "ls' = ls \<and> e' = e" if "name_at m off h' ls' e'" for h' ls' e' using name_at_det [OF q(1) that] by blast
    with q show ?case by blast
  next
    case (2 buf' t)
    then have "\<not> (name_at m off h ls e \<and> h \<le> 20)" for h ls e by auto
    with 2 show ?case by (intro exI [of _ "-1"] exI [of _ buf'] exI [of _ 0]) auto
  qed
qed

lemma skip_name_ok:
  assumes "name_at m off h ls e" "0 \<le> len" "len \<le> int (length b)" "m = take (nat len) b"
  shows "skip_loop b len off = Some e"
  using assms
proof (induction rule: name_at.induct)
  case (root off)
  then show ?case by (subst skip_loop.simps) simp
next
  case (label off h ls e)
  have "m ! nat off = b ! nat off" using label by simp
  with label show ?case by (subst skip_loop.simps) (auto simp: c_top word_le_def word_less_def)
next
  case (pointer off h ls e)
  have "m ! nat off = b ! nat off" using pointer by simp
  with pointer show ?case by (subst skip_loop.simps) (auto simp: c_top)
qed

lemma skip_loop_total:
  assumes "0 \<le> len" "len \<le> int (length b)"
  shows "\<exists>r. skip_loop b len off = Some r \<and> (r = -1 \<or> off < r \<and> r \<le> len)"
  using assms
proof (induction b len off rule: skip_loop.induct)
  case (1 b len off)
  show ?case
  proof (cases "off < 0 \<or> off \<ge> len")
    case False
    then have b: "byte_at b off = Some (b ! nat off)" using "1.prems" by simp
    let ?o = "off + 1 + uint (b ! nat off)"
    have "0 \<le> uint (b ! nat off)" by (rule uint_ge_0)
    then have lt: "off < r" if "?o < r" for r using that by linarith
    have "\<exists>r. skip_loop b len ?o = Some r \<and> (r = -1 \<or> off < r \<and> r \<le> len)"
      if "b ! nat off AND 0xC0 \<noteq> 0xC0" "\<not> b ! nat off AND 0xC0 \<noteq> 0" "b ! nat off \<noteq> 0" "\<not> ?o > len"
      using "1.IH" [OF False b that "1.prems"] lt by blast
    with False b show ?thesis by (subst skip_loop.simps) (auto simp del: byte_at_in)
  qed (subst skip_loop.simps, auto)
qed

section \<open>Writing names\<close>

text \<open>The octets of labels, and of a pointer.\<close>

definition wire_labels :: "bytes list \<Rightarrow> bytes" where
  "wire_labels ls = concat (map (\<lambda>l. of_nat (length l) # l) ls)"

definition wire_ptr :: "int \<Rightarrow> bytes" where
  "wire_ptr t = [word_of_int (192 + t div 256), word_of_int t]"

lemma wire_label_at:
  assumes l: "l \<noteq> []" "length l < 64" and n: "name_at (pre @ of_nat (length l) # l @ post) (int (length pre + 1 + length l)) h ls e"
  shows "name_at (pre @ of_nat (length l) # l @ post) (int (length pre)) h (l # ls) e"
proof -
  let ?m = "pre @ (of_nat (length l) :: u8) # l @ post"
  have u: "unat (of_nat (length l) :: u8) = length l" "uint (of_nat (length l) :: u8) = int (length l)"
    using l(2) by (simp_all add: unsigned_of_nat take_bit_eq_mod)
  have lt: "0 < (of_nat (length l) :: u8)" "of_nat (length l) < (0x40 :: u8)"
    using l u by (simp_all add: word_less_def)
  have nth: "?m ! nat (int (length pre)) = of_nat (length l)" by simp
  have "name_at ?m (int (length pre)) h (take (unat (?m ! nat (int (length pre)))) (drop (nat (int (length pre)) + 1) ?m) # ls) e"
    by (rule name_at.label, unfold nth u) (use n lt in \<open>simp_all add: ac_simps\<close>)
  then show ?thesis unfolding nth u by simp
qed

lemma wire_labels_at:
  assumes "\<forall>l \<in> set ls. l \<noteq> [] \<and> length l < 64" "name_at (pre @ wire_labels ls @ post) (int (length pre + length (wire_labels ls))) h ls' e"
  shows "name_at (pre @ wire_labels ls @ post) (int (length pre)) h (ls @ ls') e"
  using assms
proof (induction ls arbitrary: pre)
  case (Cons l ls)
  let ?c = "of_nat (length l) :: u8"
  have w: "wire_labels (l # ls) = ?c # l @ wire_labels ls" by (simp add: wire_labels_def)
  have "name_at ((pre @ ?c # l) @ wire_labels ls @ post) (int (length (pre @ ?c # l))) h (ls @ ls') e"
    using Cons.prems by (intro Cons.IH) (simp_all add: w add.assoc)
  then show ?case using wire_label_at [of l pre "wire_labels ls @ post" h "ls @ ls'" e] Cons.prems(1) by (simp add: w)
qed (simp add: wire_labels_def)

lemma wire_ptr_at:
  assumes t: "0 \<le> t" "t < 0x4000" and n: "name_at (pre @ wire_ptr t @ post) t h ls e"
  shows "name_at (pre @ wire_ptr t @ post) (int (length pre)) (Suc h) ls (int (length pre) + 2)"
proof -
  let ?c = "word_of_int (192 + t div 256) :: u8"
  have d: "0 \<le> t div 256" "t div 256 < 64" using t by auto
  have c: "uint ?c = 192 + t div 256" using d by (simp only: unsigned_of_int) (simp add: take_bit_eq_mod)
  have gen: "0 \<le> x \<Longrightarrow> x < 64 \<Longrightarrow> (192 + x) mod 64 = x" for x :: int
    using mod_add_self2 [of 0 64] mod_mult_self3 [of 3 64 x] by simp
  have m6: "?c AND 0x3F = take_bit 6 ?c" by (simp add: take_bit_eq_mask mask_eq_exp_minus_1)
  have "uint (?c AND 0x3F) = (192 + t div 256) mod 64"
    unfolding m6 unsigned_take_bit_eq c by (simp add: take_bit_eq_mod)
  also have "\<dots> = t div 256" by (rule gen [OF d])
  finally have hi: "uint (?c AND 0x3F) = t div 256" .
  have lo: "uint (word_of_int t :: u8) = t mod 256" by (simp add: unsigned_of_int take_bit_eq_mod)
  have tgt: "uint (?c AND 0x3F) * 256 + uint (word_of_int t :: u8) = t" unfolding hi lo by simp
  have "0xC0 \<le> ?c" using c d by (simp add: word_le_def)
  moreover have "(pre @ wire_ptr t @ post) ! length pre = ?c" "(pre @ wire_ptr t @ post) ! Suc (length pre) = word_of_int t"
    by (simp_all add: wire_ptr_def nth_append)
  moreover have "nat (int (length pre) + 1) = Suc (length pre)" by simp
  ultimately show ?thesis
    using n tgt by (intro name_at.pointer) (simp_all add: wire_ptr_def)
qed

lemma wire_name_at:
  fixes pre mid post :: bytes
  assumes ls: "\<forall>l \<in> set tgt \<union> set ls. l \<noteq> [] \<and> length l < 64" and t: "length pre < 0x4000"
  defines "m \<equiv> pre @ wire_labels tgt @ 0 # mid @ wire_labels ls @ wire_ptr (int (length pre)) @ post"
    and "at \<equiv> int (length pre + length (wire_labels tgt) + 1 + length mid)"
  shows "name_at m (int (length pre)) 0 tgt (int (length pre + length (wire_labels tgt)) + 1)"
    "name_at m at 1 (ls @ tgt) (at + int (length (wire_labels ls)) + 2)"
proof -
  have "name_at m (int (length pre + length (wire_labels tgt))) 0 [] (int (length pre + length (wire_labels tgt)) + 1)"
    by (rule name_at.root) (simp_all add: m_def nth_append nat_add_distrib)
  then have "name_at m (int (length pre)) 0 (tgt @ []) (int (length pre + length (wire_labels tgt)) + 1)"
    unfolding m_def using ls by (intro wire_labels_at) auto
  then show a: "name_at m (int (length pre)) 0 tgt (int (length pre + length (wire_labels tgt)) + 1)" by simp
  define p1 where "p1 = pre @ wire_labels tgt @ 0 # mid"
  have m1: "m = p1 @ wire_labels ls @ wire_ptr (int (length pre)) @ post" by (simp add: m_def p1_def)
  have m2: "m = (p1 @ wire_labels ls) @ wire_ptr (int (length pre)) @ post" by (simp add: m1)
  have "name_at m (int (length (p1 @ wire_labels ls))) (Suc 0) tgt (int (length (p1 @ wire_labels ls)) + 2)"
    using a t unfolding m2 by (intro wire_ptr_at) simp_all
  then have "name_at m (int (length p1)) 1 (ls @ tgt) (int (length (p1 @ wire_labels ls)) + 2)"
    using ls unfolding m1 by (intro wire_labels_at) auto
  then show "name_at m at 1 (ls @ tgt) (at + int (length (wire_labels ls)) + 2)"
    by (simp add: p1_def at_def ac_simps)
qed

lemma read_name_at:
  assumes "name_at m off h ls e" "h \<le> 20" "1 \<le> n" "n \<le> int (length buf)"
  shows "\<exists>buf'. dns_read_name_len (Some m) (int (length m)) off (Some buf) n = Some (e, Some buf', int (length (dotted ls)))
    \<and> holds_text n buf' (dotted ls)"
proof -
  have "m = take (nat (int (length m))) m" by simp
  from read_name_len_ok [OF of_nat_0_le_iff order_refl assms(3,4) this, of off]
  show ?thesis
  proof (elim exE conjE, goal_cases)
    case (1 r buf' full)
    then have "r = e \<and> full = int (length (dotted ls)) \<and> holds_text n buf' (dotted ls)" using assms(1,2) by blast
    with 1(1) show ?case by blast
  qed
qed

section \<open>The properties\<close>

text \<open>
  C27: The reader returns on every message, cycles of pointers included, reading and writing inside the
  message and the buffer. Where the message has a name at the offset that takes at most 20 pointers,
  it returns the offset that follows the name, reports the length of the whole text, and leaves in the
  buffer the labels joined by dots, cut to fit, and a zero octet. Otherwise it returns -1, and the
  buffer still holds a text ended by a zero octet.
\<close>

theorem dns_read_name_exact:
  assumes "0 \<le> len" "len \<le> int (length b)" "1 \<le> n" "n \<le> int (length buf)"
  shows "\<exists>r buf' full. dns_read_name_len (Some b) len off (Some buf) n = Some (r, Some buf', full)
    \<and> length buf' = length buf
    \<and> (\<forall>h ls e. name_at (take (nat len) b) off h ls e \<longrightarrow> h \<le> 20
        \<longrightarrow> r = e \<and> full = int (length (dotted ls)) \<and> holds_text n buf' (dotted ls))
    \<and> ((\<nexists>h ls e. name_at (take (nat len) b) off h ls e \<and> h \<le> 20)
        \<longrightarrow> r = -1 \<and> full = 0 \<and> (\<exists>t. holds_text n buf' t))"
  by (rule read_name_len_ok [OF assms refl])

theorem dns_read_name_exact_witness:
  "\<exists>r buf' full. dns_read_name_len (Some [0xC0, 0x00]) 2 0 (Some [1, 2, 3]) 3 = Some (r, Some buf', full) \<and> length buf' = 3"
  using dns_read_name_exact [of 2 "[0xC0, 0x00]" 3 "[1, 2, 3]" 0] by auto

text \<open>
  Writing then reading a name: labels of 1 to 63 octets ended by a zero octet, and labels ended by
  a pointer to them, are read back as the labels joined by dots, with the offset that follows each;
  the reader that only steps over a name stops at the same offset.
\<close>

theorem dns_name_roundtrip:
  assumes "\<forall>l \<in> set tgt \<union> set ls. l \<noteq> [] \<and> length l < 64" "length pre < 0x4000"
    "m = pre @ wire_labels tgt @ 0 # mid @ wire_labels ls @ wire_ptr (int (length pre)) @ post"
    "at = int (length pre + length (wire_labels tgt) + 1 + length mid)"
    "int (length (dotted (ls @ tgt))) < n" "n \<le> int (length buf)"
  shows "(\<exists>buf'. dns_read_name_len (Some m) (int (length m)) at (Some buf) n =
      Some (at + int (length (wire_labels ls)) + 2, Some buf', int (length (dotted (ls @ tgt))))
      \<and> take (length (dotted (ls @ tgt)) + 1) buf' = dotted (ls @ tgt) @ [0])
    \<and> dns_skip_name (Some m) (int (length m)) at = Some (at + int (length (wire_labels ls)) + 2)
    \<and> (\<exists>buf'. dns_read_name_len (Some m) (int (length m)) (int (length pre)) (Some buf) n =
      Some (int (length pre + length (wire_labels tgt)) + 1, Some buf', int (length (dotted tgt))))
    \<and> dns_skip_name (Some m) (int (length m)) (int (length pre)) = Some (int (length pre + length (wire_labels tgt)) + 1)"
proof -
  have n: "1 \<le> n" "length (dotted (ls @ tgt)) \<le> nat n - 1" using assms(5) by linarith+
  note at = wire_name_at [OF assms(1,2), of mid post, folded assms(3,4)]
  have "(\<exists>buf'. dns_read_name_len (Some m) (int (length m)) at (Some buf) n =
      Some (at + int (length (wire_labels ls)) + 2, Some buf', int (length (dotted (ls @ tgt))))
      \<and> take (length (dotted (ls @ tgt)) + 1) buf' = dotted (ls @ tgt) @ [0])
    \<and> dns_skip_name (Some m) (int (length m)) at = Some (at + int (length (wire_labels ls)) + 2)"
    using read_name_at [OF at(2) _ n(1) assms(6)] skip_name_ok [OF at(2), of "int (length m)" m] n(2)
    by (auto simp: dns_skip_name_def holds_text_def)
  moreover have "(\<exists>buf'. dns_read_name_len (Some m) (int (length m)) (int (length pre)) (Some buf) n =
      Some (int (length pre + length (wire_labels tgt)) + 1, Some buf', int (length (dotted tgt))))
    \<and> dns_skip_name (Some m) (int (length m)) (int (length pre)) = Some (int (length pre + length (wire_labels tgt)) + 1)"
    using read_name_at [OF at(1) _ n(1) assms(6)] skip_name_ok [OF at(1), of "int (length m)" m]
    by (auto simp: dns_skip_name_def)
  ultimately show ?thesis by blast
qed

theorem dns_name_roundtrip_witness:
  "\<exists>buf'. dns_read_name_len (Some [2, 0x64, 0x65, 0, 1, 0x61, 0xC0, 0]) 8 4 (Some (replicate 6 9)) 6 = Some (8, Some buf', 4)
    \<and> take 5 buf' = [0x61, 0x2e, 0x64, 0x65, 0]"
  using dns_name_roundtrip [of "[[0x64, 0x65]]" "[[0x61]]" "[]" "[2, 0x64, 0x65, 0, 1, 0x61, 0xC0, 0]" "[]" "[]" 4 6
      "replicate 6 9"]
  by (simp add: wire_labels_def wire_ptr_def eval_nat_numeral)

text \<open>
  Stepping over a name returns on every message, with -1 or an offset past the name and inside the
  message; and where the reader reads a name, both resume at the same offset.
\<close>

theorem dns_skip_name_agrees:
  assumes "0 \<le> len" "len \<le> int (length b)" "1 \<le> n" "n \<le> int (length buf)"
  shows "\<exists>s. dns_skip_name (Some b) len off = Some s \<and> (s = -1 \<or> off < s \<and> s \<le> len)
    \<and> (\<forall>r t. dns_read_name (Some b) len off (Some buf) n = Some (r, t) \<longrightarrow> r \<noteq> -1 \<longrightarrow> s = r)"
proof -
  obtain s where s: "skip_loop b len off = Some s" "s = -1 \<or> off < s \<and> s \<le> len"
    using skip_loop_total [OF assms(1,2)] by blast
  have "s = r" if rn: "dns_read_name (Some b) len off (Some buf) n = Some (r, t)" "r \<noteq> -1" for r t
  proof -
    obtain h ls e where e: "name_at (take (nat len) b) off h ls e" "h \<le> 20" "r = e"
      using read_name_len_ok [OF assms refl, of off] rn unfolding dns_read_name_def by (auto; blast)
    show ?thesis using skip_name_ok [OF e(1) assms(1,2) refl] s(1) e(3) by simp
  qed
  with s show ?thesis by (auto simp: dns_skip_name_def)
qed

theorem dns_skip_name_agrees_witness:
  "\<exists>s. dns_skip_name (Some [1, 0x61, 0]) 3 0 = Some s \<and> (s = -1 \<or> 0 < s \<and> s \<le> 3)"
  using dns_skip_name_agrees [of 3 "[1, 0x61, 0]" 4 "[0, 0, 0, 0]" 0] by auto

end
