(* ===== verification/PcapFormat.thy ===== *)
theory PcapFormat
  imports Bytes
begin

text \<open>
  \<open>src/pcap_format.c\<close>: the writer of libpcap savefiles, little-endian on every host. A stream is the
  list of the octets written to it so far. Specification: a reader of the format, which recovers the
  records of any file written here.
\<close>

section \<open>Model\<close>

definition PCAP_MAGIC :: u32 where "PCAP_MAGIC = 0xa1b2c3d4"
definition PCAP_VER_MAJOR :: u16 where "PCAP_VER_MAJOR = 2"
definition PCAP_VER_MINOR :: u16 where "PCAP_VER_MINOR = 4"
definition PCAP_DLT_EN10MB :: u32 where "PCAP_DLT_EN10MB = 1"
definition PCAP_DLT_IEEE802_11 :: u32 where "PCAP_DLT_IEEE802_11 = 105"
definition PCAP_SNAPLEN_FRAME :: u32 where "PCAP_SNAPLEN_FRAME = 65535"

definition put32 :: "u32 \<Rightarrow> bytes" where
  "put32 v = [ucast (v AND 0xff), ucast (drop_bit 8 v AND 0xff), ucast (drop_bit 16 v AND 0xff), ucast (drop_bit 24 v AND 0xff)]"

definition put16 :: "u16 \<Rightarrow> bytes" where
  "put16 v = [ucast (v AND 0xff), ucast (drop_bit 8 v AND 0xff)]"

definition pcap_fmt_file_hdr :: "u32 \<Rightarrow> u32 \<Rightarrow> bytes" where
  "pcap_fmt_file_hdr dlt snaplen =
     put32 PCAP_MAGIC @ put16 PCAP_VER_MAJOR @ put16 PCAP_VER_MINOR @ put32 0 @ put32 0 @ put32 snaplen @ put32 dlt"

definition pcap_fmt_rec_hdr :: "u32 \<Rightarrow> u32 \<Rightarrow> u32 \<Rightarrow> u32 \<Rightarrow> bytes" where
  "pcap_fmt_rec_hdr ts_sec ts_usec caplen origlen =
     (let origlen = (if origlen < caplen then caplen else origlen)
      in put32 ts_sec @ put32 ts_usec @ put32 caplen @ put32 origlen)"

definition pcap_fmt_put_file_hdr :: "bytes option \<Rightarrow> u32 \<Rightarrow> u32 \<Rightarrow> bytes option" where
  "pcap_fmt_put_file_hdr f dlt snaplen = map_option (\<lambda>s. s @ pcap_fmt_file_hdr dlt snaplen) f"

text \<open>The outer option is undefined behaviour: fewer than \<open>caplen\<close> octets to write.\<close>

definition pcap_fmt_put_rec ::
  "bytes option \<Rightarrow> u32 \<Rightarrow> u32 \<Rightarrow> bytes option \<Rightarrow> u32 \<Rightarrow> u32 \<Rightarrow> bytes option option" where
  "pcap_fmt_put_rec f ts_sec ts_usec data caplen origlen =
     (case f of None \<Rightarrow> Some None
      | Some s \<Rightarrow>
      case data of None \<Rightarrow> Some (Some s)
      | Some d \<Rightarrow>
      if caplen = 0 then Some (Some s)
      else do {
        body \<leftarrow> bytes_at d 0 (uint caplen);
        Some (Some (s @ pcap_fmt_rec_hdr ts_sec ts_usec caplen origlen @ body)) })"

definition pcap_fmt_dlt_or_default :: "int \<Rightarrow> u32" where
  "pcap_fmt_dlt_or_default linktype = (if linktype \<noteq> 0 then word_of_int linktype else PCAP_DLT_EN10MB)"

section \<open>Reading a savefile\<close>

definition get32 :: "bytes \<Rightarrow> u32" where
  "get32 b = ucast (b ! 0) OR push_bit 8 (ucast (b ! 1)) OR push_bit 16 (ucast (b ! 2)) OR push_bit 24 (ucast (b ! 3))"

definition get16 :: "bytes \<Rightarrow> u16" where
  "get16 b = ucast (b ! 0) OR push_bit 8 (ucast (b ! 1))"

record pcap_rec =
  pr_sec :: u32
  pr_usec :: u32
  pr_orig :: u32
  pr_data :: bytes

text \<open>
  The records of the octets after the file header: \<open>None\<close> for a file a reader rejects, one that
  ends inside a record or has a record longer than the frame it was cut from.
\<close>

function read_recs :: "bytes \<Rightarrow> pcap_rec list option" where
  "read_recs b =
     (if b = [] then Some []
      else if length b < 16 then None
      else let cap = get32 (drop 8 b); orig = get32 (drop 12 b); body = drop 16 b in
      if orig < cap \<or> length body < unat cap then None
      else do {
        rs \<leftarrow> read_recs (drop (unat cap) body);
        Some (\<lparr>pr_sec = get32 b, pr_usec = get32 (drop 4 b), pr_orig = orig, pr_data = take (unat cap) body\<rparr> # rs) })"
  by pat_completeness auto
termination by (relation "measure length") auto

declare read_recs.simps [simp del]

definition read_pcap :: "bytes \<Rightarrow> (u32 \<times> u32 \<times> pcap_rec list) option" where
  "read_pcap b =
     (if length b < 24 \<or> get32 b \<noteq> PCAP_MAGIC \<or> get16 (drop 4 b) \<noteq> PCAP_VER_MAJOR \<or> get16 (drop 6 b) \<noteq> PCAP_VER_MINOR then None
      else map_option (\<lambda>rs. (get32 (drop 20 b), get32 (drop 16 b), rs)) (read_recs (drop 24 b)))"

section \<open>Reading back what was written\<close>

lemma length_put [simp]: "length (put32 v) = 4" "length (put16 w) = 2"
  by (simp_all add: put32_def put16_def)

lemma put_nonempty [simp]: "put32 v \<noteq> []" by (simp add: put32_def)

lemma low_octet: "ucast (x AND 0xff :: 'a::len word) = (ucast x :: u8)"
proof -
  have "(0xff :: 'a word) = mask 8" by (simp add: mask_eq_exp_minus_1)
  then show ?thesis by (auto simp: bit_eq_iff bit_simps dest: bit_imp_le_length)
qed

lemma get32_put [simp]: "get32 (put32 v @ rest) = v"
proof (rule bit_word_eqI)
  fix n
  assume "n < LENGTH(32)"
  then consider "n < 8" | "8 \<le> n" "n < 16" | "16 \<le> n" "n < 24" | "24 \<le> n" "n < 32" by fastforce
  then show "bit (get32 (put32 v @ rest)) n = bit v n"
    by cases (auto simp: get32_def put32_def low_octet bit_simps)
qed

lemma get16_put [simp]: "get16 (put16 v @ rest) = v"
proof (rule bit_word_eqI)
  fix n
  assume "n < LENGTH(16)"
  then consider "n < 8" | "8 \<le> n" "n < 16" by fastforce
  then show "bit (get16 (put16 v @ rest)) n = bit v n"
    by cases (auto simp: get16_def put16_def low_octet bit_simps)
qed

text \<open>The records a writer is handed, and what a reader gets.\<close>

definition put_recs :: "pcap_rec list \<Rightarrow> bytes option \<Rightarrow> bytes option option" where
  "put_recs rs f = fold (\<lambda>r s. Option.bind s (\<lambda>f.
     pcap_fmt_put_rec f (pr_sec r) (pr_usec r) (Some (pr_data r)) (word_of_nat (length (pr_data r))) (pr_orig r))) rs (Some f)"

definition settled :: "pcap_rec \<Rightarrow> pcap_rec" where
  "settled r = r\<lparr>pr_orig := max (pr_orig r) (word_of_nat (length (pr_data r)))\<rparr>"

definition rec_octets :: "pcap_rec \<Rightarrow> bytes" where
  "rec_octets r = (if pr_data r = [] then [] else
     pcap_fmt_rec_hdr (pr_sec r) (pr_usec r) (word_of_nat (length (pr_data r))) (pr_orig r) @ pr_data r)"

lemma put_rec_octets:
  assumes "length (pr_data r) < 2 ^ 32"
  shows "pcap_fmt_put_rec (Some s) (pr_sec r) (pr_usec r) (Some (pr_data r)) (word_of_nat (length (pr_data r))) (pr_orig r)
    = Some (Some (s @ rec_octets r))"
proof -
  have "unat (word_of_nat (length (pr_data r)) :: u32) = length (pr_data r)"
    using assms by (simp only: unat_of_nat) (simp add: mod_less)
  then have u: "uint (word_of_nat (length (pr_data r)) :: u32) = int (length (pr_data r))"
    by (metis uint_nat)
  then have "(word_of_nat (length (pr_data r)) :: u32) = 0 \<longleftrightarrow> pr_data r = []"
    by (simp add: word_uint_eq_iff)
  then show ?thesis using u by (simp add: pcap_fmt_put_rec_def rec_octets_def)
qed

lemma put_recs_octets:
  assumes "\<forall>r \<in> set rs. length (pr_data r) < 2 ^ 32"
  shows "put_recs rs (Some s) = Some (Some (s @ concat (map rec_octets rs)))"
  using assms
proof (induction rs arbitrary: s)
  case (Cons r rs)
  then show ?case using put_rec_octets [of r s] by (simp add: put_recs_def)
qed (simp add: put_recs_def)

lemma read_rec:
  assumes "pr_data r \<noteq> []" "length (pr_data r) < 2 ^ 32"
  shows "read_recs (rec_octets r @ rest) = map_option ((#) (settled r)) (read_recs rest)"
proof -
  let ?n = "word_of_nat (length (pr_data r)) :: u32"
  let ?o = "max (pr_orig r) ?n"
  have n: "unat ?n = length (pr_data r)"
    using assms(2) by (simp only: unat_of_nat) (simp add: mod_less)
  have o: "(if pr_orig r < ?n then ?n else pr_orig r) = ?o" by (auto simp: max_def)
  let ?h = "put32 (pr_sec r) @ put32 (pr_usec r) @ put32 ?n @ put32 ?o"
  have b: "rec_octets r @ rest = ?h @ pr_data r @ rest"
    using assms(1) unfolding rec_octets_def pcap_fmt_rec_hdr_def Let_def o by simp
  have d: "drop 4 (?h @ xs) = put32 (pr_usec r) @ put32 ?n @ put32 ?o @ xs"
    "drop 8 (?h @ xs) = put32 ?n @ put32 ?o @ xs" "drop 12 (?h @ xs) = put32 ?o @ xs" "drop 16 (?h @ xs) = xs" for xs
    by simp_all
  show ?thesis
    unfolding b by (subst read_recs.simps, unfold d Let_def get32_put)
      (use n in \<open>cases r; simp add: settled_def Option.map_conv_bind_option comp_def not_less\<close>)
qed

lemma read_put_recs:
  assumes "\<forall>r \<in> set rs. length (pr_data r) < 2 ^ 32"
  shows "read_recs (concat (map rec_octets rs)) = Some (map settled (filter (\<lambda>r. pr_data r \<noteq> []) rs))"
  using assms
proof (induction rs)
  case (Cons r rs)
  then show ?case
  proof (cases "pr_data r = []")
    case True
    then have "rec_octets r = []" by (simp add: rec_octets_def)
    with Cons True show ?thesis by simp
  next
    case False
    with Cons read_rec [OF False, of "concat (map rec_octets rs)"] show ?thesis by simp
  qed
qed (simp add: read_recs.simps)

lemma read_file:
  assumes "\<forall>r \<in> set rs. length (pr_data r) < 2 ^ 32"
  shows "read_pcap (pcap_fmt_file_hdr dlt snaplen @ concat (map rec_octets rs))
    = Some (dlt, snaplen, map settled (filter (\<lambda>r. pr_data r \<noteq> []) rs))"
proof -
  let ?h = "pcap_fmt_file_hdr dlt snaplen"
  have d: "drop 4 (?h @ xs) = put16 PCAP_VER_MAJOR @ put16 PCAP_VER_MINOR @ put32 0 @ put32 0 @ put32 snaplen @ put32 dlt @ xs"
    "drop 6 (?h @ xs) = put16 PCAP_VER_MINOR @ put32 0 @ put32 0 @ put32 snaplen @ put32 dlt @ xs"
    "drop 16 (?h @ xs) = put32 snaplen @ put32 dlt @ xs" "drop 20 (?h @ xs) = put32 dlt @ xs" "drop 24 (?h @ xs) = xs"
    "get32 (?h @ xs) = PCAP_MAGIC" "length (?h @ xs) = 24 + length xs" for xs
    by (simp_all add: pcap_fmt_file_hdr_def)
  show ?thesis unfolding read_pcap_def d get16_put get32_put read_put_recs [OF assms] by simp
qed

text \<open>
  C39: A file written from any list of captured frames is read back as those frames: one record for
  each frame that has octets, in order, with its times and octets, and an original length of at least
  what the record holds, whatever the caller passed, so that no record hides the ones after it.
\<close>

theorem pcap_roundtrip:
  assumes "\<forall>r \<in> set rs. length (pr_data r) < 2 ^ 32"
  shows "\<exists>file. Option.bind (pcap_fmt_put_file_hdr (Some []) dlt snaplen) (\<lambda>f. put_recs rs (Some f)) = Some (Some file)
    \<and> read_pcap file = Some (dlt, snaplen, map settled (filter (\<lambda>r. pr_data r \<noteq> []) rs))"
  using put_recs_octets [OF assms, of "pcap_fmt_file_hdr dlt snaplen"] read_file [OF assms]
  by (simp add: pcap_fmt_put_file_hdr_def)

theorem pcap_roundtrip_witness:
  "\<exists>file. read_pcap file = Some (105, 65535, [\<lparr>pr_sec = 1, pr_usec = 2, pr_orig = 3, pr_data = [7, 8, 9]\<rparr>])"
  using pcap_roundtrip [of "[\<lparr>pr_sec = 1, pr_usec = 2, pr_orig = 0, pr_data = [7, 8, 9]\<rparr>]" 105 65535]
  by (auto simp: settled_def max_def)

end
