(* ===== verification/EapolLog.thy ===== *)
theory EapolLog
  imports Stab Dot11Frame Tune PcapFormat "HOL-Library.Char_ord"
begin

text \<open>
  \<open>src/eapol_log.c\<close>: the log of WPA key exchanges. Each pair of a BSSID and a station has a row with at
  most one attempt in flight, and the history of the keys installed for it, which \<open>src/fragattack.c\<close>
  asks for. The statics are one record; the mutex makes each entry point atomic. What a frame makes the
  code hand to others is a list of calls: to the EAP and WPS trackers, to the association table, and the
  crackable records it writes to the export directory. The name the beacon table has for a BSSID, and
  what the file system answers, are arguments. Counts of failed writes and error texts are left out.
\<close>

section \<open>Model\<close>

subsection \<open>State\<close>

definition EAPOL_PAIR_WINDOW_S :: time_t where "EAPOL_PAIR_WINDOW_S = 10"
definition EAPOL_SWEEP_INTERVAL_S :: time_t where "EAPOL_SWEEP_INTERVAL_S = 86400"
definition EAPOL_SECS_PER_DAY :: time_t where "EAPOL_SECS_PER_DAY = 86400"
definition EAPOL_MAX_RETENTION_DAYS :: int where "EAPOL_MAX_RETENTION_DAYS = 36500"
definition MAX_EAPOL_EVENTS :: nat where "MAX_EAPOL_EVENTS = 256"
definition EAPOL_FRAME_MAX :: int where "EAPOL_FRAME_MAX = 512"
definition EAPOL_HDR_LEN :: int where "EAPOL_HDR_LEN = 4"
definition EAPOL_KEY_FIXED_LEN :: int where "EAPOL_KEY_FIXED_LEN = 99"

record eapol_event_t =
  ee_bssid :: mac
  ee_sta_mac :: mac
  ee_ssid :: bytes
  ee_ts :: time_t
  ee_msg_num :: int
  ee_has_pmkid :: bool
  ee_pmkid :: bytes
  ee_anonce :: bytes
  ee_snonce :: bytes
  ee_mic :: bytes
  handshake_complete :: bool
  handshake_progress :: int
  replay_counter_ok :: bool
  assoc_evidence :: bool
  signal_dbm :: int
  ee_channel :: int

record pending_t =
  pd_bssid :: mac
  pd_sta :: mac
  pd_last_seen :: time_t
  progress :: int
  has_m1 :: bool
  has_m2 :: bool
  has_m3 :: bool
  m1_rc :: bytes
  m2_rc :: bytes
  m3_rc :: bytes
  pd_has_pmkid :: bool
  pd_pmkid :: bytes
  pd_anonce :: bytes
  pd_snonce :: bytes
  pd_mic :: bytes
  m1_ts :: time_t
  m2_ts :: time_t
  paired :: bool
  rc_checked :: bool
  exported :: bool
  m_frames :: "bytes list"
  m_frame_lens :: "int list"
  m_frame_origlens :: "int list"
  m_frame_ts :: "time_t list"
  m_frame_usec :: "u32 list"
  generation :: int
  installed_anonce :: bytes
  has_installed :: bool

type_synonym pending_key_t = "mac \<times> mac"

definition pending_zero :: pending_t where
  "pending_zero =
     \<lparr>pd_bssid = replicate 6 0, pd_sta = replicate 6 0, pd_last_seen = 0,
      progress = 0, has_m1 = False, has_m2 = False, has_m3 = False,
      m1_rc = replicate 8 0, m2_rc = replicate 8 0, m3_rc = replicate 8 0,
      pd_has_pmkid = False, pd_pmkid = replicate 16 0, pd_anonce = replicate 32 0, pd_snonce = replicate 32 0,
      pd_mic = replicate 16 0, m1_ts = 0, m2_ts = 0, paired = False, rc_checked = False, exported = False,
      m_frames = replicate 4 (replicate 512 0), m_frame_lens = replicate 4 0, m_frame_origlens = replicate 4 0,
      m_frame_ts = replicate 4 0, m_frame_usec = replicate 4 0,
      generation = 0, installed_anonce = replicate 32 0, has_installed = False\<rparr>"

definition pending_key_eq :: "pending_t \<Rightarrow> pending_key_t \<Rightarrow> bool" where
  "pending_key_eq p k \<longleftrightarrow> (case k of (bssid, sta) \<Rightarrow> pd_bssid p = bssid \<and> pd_sta p = sta)"

definition pending_decl :: "(pending_t, pending_key_t) stab_t" where
  "pending_decl = STAB_DECL_AGE pending_zero 64 pd_last_seen (\<lambda>now r. r\<lparr>pd_last_seen := now\<rparr>) STAB_OLDEST 0
     SH_EVICT_EAPOL_PENDING pending_key_eq"

datatype eapol_reject_t = EAPOL_REJECT_TRUNCATED | EAPOL_REJECT_MALFORMED

record eapol_t =
  el_events :: "eapol_event_t list"
  el_head :: nat
  el_count :: nat
  el_pending :: "(pending_t, pending_key_t) stab_t"
  el_collect :: bool
  el_out_dir :: bytes
  el_out_fd :: int
  el_last_sweep :: time_t
  el_rejects :: "eapol_reject_t \<Rightarrow> int"

definition event_zero :: eapol_event_t where
  "event_zero =
     \<lparr>ee_bssid = replicate 6 0, ee_sta_mac = replicate 6 0, ee_ssid = [], ee_ts = 0, ee_msg_num = 0,
      ee_has_pmkid = False, ee_pmkid = replicate 16 0, ee_anonce = replicate 32 0, ee_snonce = replicate 32 0,
      ee_mic = replicate 16 0, handshake_complete = False, handshake_progress = 0, replay_counter_ok = False,
      assoc_evidence = False, signal_dbm = 0, ee_channel = 0\<rparr>"

definition eapol_boot :: eapol_t where
  "eapol_boot =
     \<lparr>el_events = replicate MAX_EAPOL_EVENTS event_zero, el_head = 0, el_count = 0, el_pending = pending_decl,
      el_collect = False, el_out_dir = [], el_out_fd = -1, el_last_sweep = 0, el_rejects = (\<lambda>_. 0)\<rparr>"

subsection \<open>Attempts\<close>

definition rc_eq :: "bytes \<Rightarrow> bytes \<Rightarrow> bool" where "rc_eq a b \<longleftrightarrow> a = b"

text \<open>The loop from the last octet to the first, adding one and stopping where nothing is carried.\<close>

fun rc_incr :: "nat \<Rightarrow> bytes \<Rightarrow> bytes" where
  "rc_incr 0 want = want"
| "rc_incr (Suc i) want =
     (let want = want[i := want ! i + 1] in if want ! i \<noteq> 0 then want else rc_incr i want)"

definition rc_is_successor :: "bytes \<Rightarrow> bytes \<Rightarrow> bool" where
  "rc_is_successor prev nx \<longleftrightarrow> rc_incr 8 prev = nx"

definition attempt_reset :: "pending_t \<Rightarrow> pending_t" where
  "attempt_reset p = p\<lparr>
     progress := 0, has_m1 := False, has_m2 := False, has_m3 := False,
     paired := False, rc_checked := False, exported := False, pd_has_pmkid := False, m1_ts := 0, m2_ts := 0,
     m1_rc := replicate 8 0, m2_rc := replicate 8 0, m3_rc := replicate 8 0,
     pd_pmkid := replicate 16 0, pd_anonce := replicate 32 0, pd_snonce := replicate 32 0, pd_mic := replicate 16 0,
     m_frames := replicate 4 (replicate 512 0), m_frame_lens := replicate 4 0, m_frame_origlens := replicate 4 0,
     m_frame_ts := replicate 4 0, m_frame_usec := replicate 4 0\<rparr>"

definition attempt_expire :: "time_t \<Rightarrow> pending_t \<Rightarrow> pending_t" where
  "attempt_expire now p =
     (if has_m1 p \<and> now > m1_ts p \<and> now - m1_ts p > EAPOL_PAIR_WINDOW_S then attempt_reset p else p)"

definition EAPOL_MP_M1M2_E2 :: u8 where "EAPOL_MP_M1M2_E2 = 0"
definition EAPOL_MP_NOT_REPLAYCOUNT_CHECKED :: u8 where "EAPOL_MP_NOT_REPLAYCOUNT_CHECKED = 0x80"

definition eapol_message_pair :: "u8 \<Rightarrow> bool \<Rightarrow> u8" where
  "eapol_message_pair kind replaycount_checked =
     (let b = kind AND 0x07
      in if \<not> replaycount_checked then b OR EAPOL_MP_NOT_REPLAYCOUNT_CHECKED else b)"

definition push_event :: "eapol_event_t \<Rightarrow> eapol_t \<Rightarrow> eapol_t" where
  "push_event e st = st\<lparr>
     el_events := (el_events st)[el_head st := e],
     el_head := (el_head st + 1) mod MAX_EAPOL_EVENTS,
     el_count := (if el_count st < MAX_EAPOL_EVENTS then el_count st + 1 else el_count st)\<rparr>"

subsection \<open>The key descriptor\<close>

record key_msg =
  km_msg :: int
  km_span :: int
  km_nonce :: bytes
  km_mic :: bytes
  km_rc :: bytes
  km_pmkid :: "bytes option"

datatype parsed = Not_Key | Rejected eapol_reject_t | Key_Msg key_msg

text \<open>The message of the exchange by its Key Information, 0 for none.\<close>

definition classify :: "u16 \<Rightarrow> int" where
  "classify ki =
     (let install = bit ki 6; key_ack = bit ki 7; key_mic = bit ki 8; secure = bit ki 9
      in if key_ack \<and> \<not> key_mic \<and> \<not> install \<and> \<not> secure then 1
         else if \<not> key_ack \<and> key_mic \<and> \<not> install \<and> \<not> secure then 2
         else if key_ack \<and> key_mic \<and> install then 3
         else if \<not> key_ack \<and> key_mic \<and> \<not> install \<and> secure then 4
         else 0)"

definition pmkid_body :: "bytes option \<Rightarrow> u16 \<Rightarrow> int \<Rightarrow> bytes \<Rightarrow> (bytes option \<times> bool) option" where
  "pmkid_body s t l kb =
     (if t = 0xDD \<and> l = 20
      then do {
        oui \<leftarrow> bytes_at kb 0 4;
        if oui = [0x00, 0x0f, 0xac, 0x04]
        then do { v \<leftarrow> bytes_at kb 4 16; Some (Some v, True) }
        else Some (s, False) }
      else Some (s, False))"

definition parse_eapol_key :: "bytes \<Rightarrow> int \<Rightarrow> sh_t \<Rightarrow> (parsed \<times> sh_t) option" where
  "parse_eapol_key p len h =
     (if len < EAPOL_HDR_LEN then Some (Not_Key, h)
      else do {
        ty \<leftarrow> byte_at p 1;
        if ty \<noteq> 3 then Some (Not_Key, h)
        else do {
        blen \<leftarrow> be16 p 2;
        let span = EAPOL_HDR_LEN + uint blen;
        if span > len then Some (Rejected EAPOL_REJECT_TRUNCATED, h)
        else if span \<le> EAPOL_HDR_LEN then Some (Rejected EAPOL_REJECT_MALFORMED, h)
        else do {
        desc \<leftarrow> byte_at p 4;
        if desc \<noteq> 2 \<and> desc \<noteq> 254 then Some (Not_Key, h)
        else if span < EAPOL_KEY_FIXED_LEN then Some (Rejected EAPOL_REJECT_MALFORMED, h)
        else do {
        ki \<leftarrow> be16 p 5;
        if \<not> bit ki 3 then Some (Not_Key, h)
        else do {
        rc \<leftarrow> bytes_at p 9 8;
        nonce \<leftarrow> bytes_at p 17 32;
        mic \<leftarrow> bytes_at p 81 16;
        kdl \<leftarrow> be16 p 97;
        if uint kdl > span - EAPOL_KEY_FIXED_LEN then Some (Rejected EAPOL_REJECT_MALFORMED, h)
        else let msg = classify ki in
        if msg = 0 then Some (Not_Key, h)
        else do {
          (pmkid, h) \<leftarrow> (if msg = 1 \<and> uint kdl \<ge> 6 \<and> \<not> bit ki 12
             then do {
               (pmkid, it) \<leftarrow> tlv_walk pmkid_body (tlv_init (Some (drop (nat EAPOL_KEY_FIXED_LEN) p)) (uint kdl)) None;
               Some (pmkid, if it_status it = TLV_OVERRUN then sh_parse_fault_note SH_PF_IE_OVERRUN h else h) }
             else Some (None, h));
          Some (Key_Msg \<lparr>km_msg = msg, km_span = span, km_nonce = nonce, km_mic = mic, km_rc = rc, km_pmkid = pmkid\<rparr>, h) }
        } } } } })"

subsection \<open>What a message does to its pair\<close>

text \<open>\<open>memcpy\<close> of at most 512 octets into the slot of the message.\<close>

definition buffer_frame :: "int \<Rightarrow> bytes \<Rightarrow> int \<Rightarrow> time_t \<Rightarrow> u32 \<Rightarrow> pending_t \<Rightarrow> pending_t" where
  "buffer_frame msg d len now usec p =
     (let i = nat (msg - 1)
      in p\<lparr>m_frames := (m_frames p)[i := d @ drop (length d) (m_frames p ! i)],
          m_frame_lens := (m_frame_lens p)[i := int (length d)],
          m_frame_origlens := (m_frame_origlens p)[i := len],
          m_frame_ts := (m_frame_ts p)[i := now],
          m_frame_usec := (m_frame_usec p)[i := usec]\<rparr>)"

definition on_m1 :: "time_t \<Rightarrow> key_msg \<Rightarrow> pending_t \<times> eapol_event_t \<Rightarrow> pending_t \<times> eapol_event_t" where
  "on_m1 now k = (\<lambda>(p, ev).
     let p = p\<lparr>pd_anonce := km_nonce k, m1_rc := km_rc k, has_m1 := True, m1_ts := now\<rparr>;
         p = (if progress p < 1 then p\<lparr>progress := 1\<rparr> else p);
         (p, ev) = (case km_pmkid k of None \<Rightarrow> (p, ev)
                    | Some v \<Rightarrow> (p\<lparr>pd_has_pmkid := True, pd_pmkid := v\<rparr>, ev\<lparr>ee_has_pmkid := True, ee_pmkid := v\<rparr>))
     in (p, ev\<lparr>ee_anonce := km_nonce k\<rparr>))"

definition on_m2 :: "time_t \<Rightarrow> key_msg \<Rightarrow> pending_t \<times> eapol_event_t \<Rightarrow> pending_t \<times> eapol_event_t" where
  "on_m2 now k = (\<lambda>(p, ev).
     let p = p\<lparr>pd_snonce := km_nonce k, pd_mic := km_mic k, m2_rc := km_rc k, has_m2 := True, m2_ts := now\<rparr>;
         ev = ev\<lparr>ee_snonce := km_nonce k, ee_mic := km_mic k\<rparr>
     in if has_m1 p \<and> rc_eq (m1_rc p) (km_rc k)
        then let p = p\<lparr>paired := True, rc_checked := True\<rparr>;
                 p = (if progress p < 2 then p\<lparr>progress := 2\<rparr> else p);
                 ev = ev\<lparr>handshake_complete := True, replay_counter_ok := True, ee_anonce := pd_anonce p\<rparr>;
                 ev = (if pd_has_pmkid p then ev\<lparr>ee_has_pmkid := True, ee_pmkid := pd_pmkid p\<rparr> else ev)
             in (p, ev)
        else (p, ev))"

definition on_m3 :: "key_msg \<Rightarrow> pending_t \<times> eapol_event_t \<Rightarrow> pending_t \<times> eapol_event_t" where
  "on_m3 k = (\<lambda>(p, ev).
     let ev = ev\<lparr>ee_anonce := km_nonce k, ee_mic := km_mic k\<rparr>;
         p = p\<lparr>m3_rc := km_rc k, has_m3 := True\<rparr>;
         ev = ev\<lparr>replay_counter_ok := rc_checked p\<rparr>;
         p = (if paired p \<and> rc_is_successor (m1_rc p) (km_rc k) then p\<lparr>progress := 3\<rparr> else p);
         p = (if \<not> has_installed p \<or> installed_anonce p \<noteq> km_nonce k
              then p\<lparr>generation := generation p + 1, installed_anonce := km_nonce k, has_installed := True\<rparr> else p)
     in (p, ev\<lparr>assoc_evidence := True\<rparr>))"

definition on_m4 :: "key_msg \<Rightarrow> pending_t \<times> eapol_event_t \<Rightarrow> pending_t \<times> eapol_event_t" where
  "on_m4 k = (\<lambda>(p, ev).
     let ev = ev\<lparr>ee_mic := km_mic k\<rparr>;
         ev = ev\<lparr>replay_counter_ok := rc_checked p\<rparr>
     in (if progress p = 3 \<and> has_m3 p \<and> rc_eq (m3_rc p) (km_rc k) then p\<lparr>progress := 4\<rparr> else p, ev))"

text \<open>From the row as it was to the row and the event, before anything is exported.\<close>

definition pair_step ::
  "time_t \<Rightarrow> u32 \<Rightarrow> bytes \<Rightarrow> int \<Rightarrow> key_msg \<Rightarrow> eapol_event_t \<Rightarrow> pending_t \<Rightarrow> pending_t \<times> eapol_event_t" where
  "pair_step now usec d len k ev p =
     (let msg = km_msg k;
          p = p\<lparr>pd_last_seen := now\<rparr>;
          p = attempt_expire now p;
          p = (if msg = 1
               then let retransmit = has_m1 p \<and> rc_eq (m1_rc p) (km_rc k) \<and> pd_anonce p = km_nonce k
                    in if \<not> retransmit then attempt_reset p else p
               else p);
          p = buffer_frame msg d len now usec p;
          (p, ev) = (if msg = 1 then on_m1 now k (p, ev)
                     else if msg = 2 then on_m2 now k (p, ev)
                     else if msg = 3 then on_m3 k (p, ev)
                     else if msg = 4 then on_m4 k (p, ev)
                     else (p, ev))
      in (p, ev\<lparr>handshake_progress := progress p\<rparr>))"

subsection \<open>Crackable records\<close>

definition ascii :: "string \<Rightarrow> bytes" where "ascii s = map (\<lambda>c. word_of_nat (of_char c)) s"

definition hex_bytes :: "bytes \<Rightarrow> bytes" where
  "hex_bytes b = concat (map (\<lambda>x. let hexd = ascii ''0123456789abcdef''
     in [hexd ! unat (drop_bit 4 x AND 0xf), hexd ! unat (x AND 0xf)]) b)"

definition hex_str :: "bytes \<Rightarrow> bytes" where "hex_str s = hex_bytes (takeWhile (\<lambda>c. c \<noteq> 0) s)"

text \<open>\<open>snprintf\<close> into an array of \<open>n\<close> octets.\<close>

definition snprintf :: "nat \<Rightarrow> bytes list \<Rightarrow> bytes" where "snprintf n parts = take (n - 1) (concat parts)"

datatype eapol_call =
    Eap_Track mac mac bool bytes time_t
  | Wps_Track mac mac bytes time_t
  | Assoc_Observe mac mac "bytes option" int int int
  | Hashcat_Line bytes mac
  | Handshake_Pcap bytes bytes

definition append_22000_line_for_bssid :: "eapol_t \<Rightarrow> bytes \<Rightarrow> mac \<Rightarrow> eapol_call list" where
  "append_22000_line_for_bssid st line bssid =
     (if \<not> el_collect st \<or> el_out_fd st < 0 then [] else [Hashcat_Line line bssid])"

fun pcap_loop :: "pending_t \<Rightarrow> nat list \<Rightarrow> bytes option \<Rightarrow> bytes option option" where
  "pcap_loop p [] f = Some f"
| "pcap_loop p (i # is) f =
     (if m_frame_lens p ! i = 0 then pcap_loop p is f
      else do {
        f \<leftarrow> pcap_fmt_put_rec f (word_of_int (m_frame_ts p ! i)) (m_frame_usec p ! i) (Some (m_frames p ! i))
               (word_of_int (m_frame_lens p ! i)) (word_of_int (m_frame_origlens p ! i));
        pcap_loop p is f })"

definition write_handshake_pcap :: "eapol_t \<Rightarrow> pending_t \<Rightarrow> eapol_call list option" where
  "write_handshake_pcap st p =
     (if \<not> el_collect st \<or> el_out_fd st < 0 then Some []
      else do {
        let nm = snprintf 64 [hex_bytes (pd_bssid p), ascii ''_'', hex_bytes (pd_sta p), ascii ''.pcap''];
        f \<leftarrow> pcap_loop p [0, 1, 2, 3] (pcap_fmt_put_file_hdr (Some []) PCAP_DLT_IEEE802_11 PCAP_SNAPLEN_FRAME);
        Some [Handshake_Pcap nm (the f)] })"

definition pmkid_line :: "eapol_event_t \<Rightarrow> bytes" where
  "pmkid_line ev = snprintf 256
     [ascii ''WPA*01*'', hex_bytes (ee_pmkid ev), ascii ''*'', hex_bytes (ee_bssid ev), ascii ''*'',
      hex_bytes (ee_sta_mac ev), ascii ''*'', hex_str (ee_ssid ev), ascii ''***'']"

text \<open>The exchange field of the second record: the declared octets, the check sum cleared.\<close>

definition m2_scratch :: "bytes \<Rightarrow> int \<Rightarrow> bytes option" where
  "m2_scratch eapol span = do {
     let eapol_room = span;
     let eapol_room = (if eapol_room > 1024 div 2 - 1 then 1024 div 2 - 1 else eapol_room);
     let eapol_room = (if eapol_room > 512 then 512 else eapol_room);
     scratch \<leftarrow> bytes_at eapol 0 eapol_room;
     Some (if eapol_room \<ge> 97 then take 81 scratch @ replicate 16 0 @ drop 97 scratch else scratch) }"

definition m2_line :: "eapol_event_t \<Rightarrow> bytes \<Rightarrow> bool \<Rightarrow> bytes" where
  "m2_line ev scratch checked = snprintf 2048
     [ascii ''WPA*02*'', hex_bytes (ee_mic ev), ascii ''*'', hex_bytes (ee_bssid ev), ascii ''*'',
      hex_bytes (ee_sta_mac ev), ascii ''*'', hex_str (ee_ssid ev), ascii ''*'', hex_bytes (ee_anonce ev), ascii ''*'',
      hex_bytes scratch, ascii ''*'', hex_bytes [eapol_message_pair EAPOL_MP_M1M2_E2 checked]]"

text \<open>Whether the attempt's record has now been written, and the calls.\<close>

definition export_step ::
  "eapol_t \<Rightarrow> key_msg \<Rightarrow> bytes \<Rightarrow> eapol_event_t \<Rightarrow> pending_t \<Rightarrow> (pending_t \<times> eapol_call list) option" where
  "export_step st k eapol ev p = do {
     c1 \<leftarrow> (if km_msg k = 1 \<and> ee_has_pmkid ev \<and> el_out_dir st \<noteq> []
       then do {
         c \<leftarrow> write_handshake_pcap st p;
         Some (append_22000_line_for_bssid st (pmkid_line ev) (ee_bssid ev) @ c) }
       else Some []);
     if km_msg k = 2 \<and> handshake_complete ev \<and> \<not> exported p \<and> el_out_dir st \<noteq> []
     then do {
       scratch \<leftarrow> m2_scratch eapol (km_span k);
       let c = append_22000_line_for_bssid st (m2_line ev scratch (rc_checked p)) (ee_bssid ev);
       let p = p\<lparr>exported := True\<rparr>;
       c2 \<leftarrow> write_handshake_pcap st p;
       Some (p, c1 @ c @ c2) }
     else Some (p, c1) }"

subsection \<open>The handler\<close>

definition pending_find :: "mac \<Rightarrow> mac \<Rightarrow> eapol_t \<Rightarrow> nat option" where
  "pending_find bssid sta st = stab_find (el_pending st) (bssid, sta)"

text \<open>The slot of the pair, its row, the table and the tally.\<close>

definition pending_get ::
  "mac \<Rightarrow> mac \<Rightarrow> time_t \<Rightarrow> eapol_t \<Rightarrow> sh_t \<Rightarrow> (nat \<times> pending_t \<times> (pending_t, pending_key_t) stab_t \<times> sh_t) option" where
  "pending_get bssid sta now st h =
     (case stab_get (el_pending st) (bssid, sta) now h of
        (None, created, t, h) \<Rightarrow> None
      | (Some i, created, t, h) \<Rightarrow>
          Some (i, if created then (row_of t i)\<lparr>pd_bssid := bssid, pd_sta := sta\<rparr> else row_of t i, t, h))"

text \<open>A key message of the exchange, from the event on.\<close>

definition observe_key ::
  "(mac \<Rightarrow> bytes) \<Rightarrow> mac \<Rightarrow> mac \<Rightarrow> bool \<Rightarrow> dot11_frame_t \<Rightarrow> bytes \<Rightarrow> bytes \<Rightarrow> key_msg \<Rightarrow> int \<Rightarrow> int \<Rightarrow> time_t \<Rightarrow> u32
     \<Rightarrow> eapol_t \<Rightarrow> sh_t \<Rightarrow> (eapol_call list \<times> eapol_t \<times> sh_t) option" where
  "observe_key ssid_of bssid sta from_ds f d eapol k signal channel now usec st h =
     (let ev = event_zero\<lparr>ee_bssid := bssid, ee_sta_mac := sta, ee_ts := now, ee_msg_num := km_msg k,
                 signal_dbm := signal, ee_channel := channel, ee_ssid := ssid_of bssid\<rparr>;
          want_from_ds = (km_msg k = 1 \<or> km_msg k = 3)
      in if want_from_ds \<noteq> from_ds then Some ([], push_event ev st, h)
      else do {
        (i, p, t, h) \<leftarrow> pending_get bssid sta now st h;
        let copy = (if f_len f < EAPOL_FRAME_MAX then f_len f else EAPOL_FRAME_MAX);
        d \<leftarrow> bytes_at d 0 copy;
        let (p, ev) = pair_step now usec d (f_len f) k ev p;
        let st = push_event ev (st\<lparr>el_pending := t\<rparr>);
        let assoc = (if assoc_evidence ev
           then [Assoc_Observe (ee_bssid ev) (ee_sta_mac ev) (if ee_ssid ev \<noteq> [] then Some (ee_ssid ev) else None)
                   signal channel (f_band f)] else []);
        (p, calls) \<leftarrow> export_step st k eapol ev p;
        Some (assoc @ calls, st\<lparr>el_pending := stab_put i p t\<rparr>, h) })"

text \<open>What the function returns, its calls, the state and the tally.\<close>

definition eapol_observe_frame ::
  "(mac \<Rightarrow> bytes) \<Rightarrow> dot11_frame_t option \<Rightarrow> int \<Rightarrow> int \<Rightarrow> time_t \<Rightarrow> int \<Rightarrow> eapol_t \<Rightarrow> sh_t
     \<Rightarrow> (bool \<times> eapol_call list \<times> eapol_t \<times> sh_t) option" where
  "eapol_observe_frame ssid_of fo signal channel now ts_usec st h =
     (let usec = (if ts_usec \<ge> 0 \<and> ts_usec \<le> 999999 then word_of_int ts_usec else 0);
          ignored = Some (False, [], st, h)
      in case fo of None \<Rightarrow> ignored
      | Some f \<Rightarrow>
      case f_p f of None \<Rightarrow> ignored
      | Some d \<Rightarrow>
      if f_len f < 32 then ignored
      else if f_type f \<noteq> 2 then ignored
      else let hdr = f_hdr_len f in
      if hdr < 0 \<or> f_len f < hdr + 8 + 4 then ignored
      else do {
      llc \<leftarrow> bytes_at d hdr 6;
      if llc \<noteq> [0xAA, 0xAA, 0x03, 0, 0, 0] then ignored
      else do {
      et \<leftarrow> be16 d (hdr + 6);
      if et \<noteq> 0x888E then ignored
      else if f_to_ds f = f_from_ds f then ignored
      else if f_bssid f = None \<or> f_sa f = None \<or> f_da f = None then ignored
      else do {
      bssid \<leftarrow> addr_at f (f_bssid f);
      sta \<leftarrow> addr_at f (if f_to_ds f then f_sa f else f_da f);
      let eapol = drop (nat (hdr + 8)) d;
      let elen = f_len f - hdr - 8;
      ty \<leftarrow> byte_at eapol 1;
      if elen \<ge> 4 \<and> ty = 0x00
      then do {
        body \<leftarrow> bytes_at eapol 4 (elen - 4);
        Some (True, [Eap_Track bssid sta (f_from_ds f) body now, Wps_Track bssid sta body now], st, h) }
      else do {
      (res, h) \<leftarrow> parse_eapol_key eapol elen h;
      case res of
        Rejected why \<Rightarrow> Some (False, [], st\<lparr>el_rejects := (el_rejects st)(why := el_rejects st why + 1)\<rparr>, h)
      | Not_Key \<Rightarrow> Some (False, [], st, h)
      | Key_Msg k \<Rightarrow> do {
          (calls, st, h) \<leftarrow> observe_key ssid_of bssid sta (f_from_ds f) f d eapol k signal channel now usec st h;
          Some (True, calls, st, h) } } } } })"

definition eapol_observe_dot11 ::
  "(mac \<Rightarrow> bytes) \<Rightarrow> bytes option \<Rightarrow> int \<Rightarrow> int \<Rightarrow> int \<Rightarrow> time_t \<Rightarrow> int \<Rightarrow> eapol_t \<Rightarrow> sh_t
     \<Rightarrow> (bool \<times> eapol_call list \<times> eapol_t \<times> sh_t) option" where
  "eapol_observe_dot11 ssid_of d len signal channel now ts_usec st h = do {
     (ok, f) \<leftarrow> dot11_frame_decode d len None;
     eapol_observe_frame ssid_of (Some f) signal channel now ts_usec st h }"

subsection \<open>Queries and the gate\<close>

definition eapol_key_generation :: "mac \<Rightarrow> mac \<Rightarrow> eapol_t \<Rightarrow> int" where
  "eapol_key_generation bssid sta st =
     (case pending_find bssid sta st of None \<Rightarrow> 0 | Some i \<Rightarrow> generation (row_of (el_pending st) i))"

definition eapol_event_count :: "eapol_t \<Rightarrow> nat" where "eapol_event_count st = el_count st"

definition eapol_reject_count :: "eapol_reject_t \<Rightarrow> eapol_t \<Rightarrow> int" where
  "eapol_reject_count why st = el_rejects st why"

text \<open>The events handed to the view, newest first.\<close>

definition eapol_snapshot :: "eapol_t \<Rightarrow> eapol_event_t list" where
  "eapol_snapshot st =
     (let n = if el_count st < MAX_EAPOL_EVENTS then el_count st else MAX_EAPOL_EVENTS
      in map (\<lambda>i. el_events st ! nat ((int (el_head st) - 1 - int i) mod int MAX_EAPOL_EVENTS)) [0..<n])"

definition eapol_clear :: "eapol_t \<Rightarrow> eapol_t" where
  "eapol_clear st = st\<lparr>el_head := 0, el_count := 0, el_pending := stab_clear (el_pending st), el_rejects := (\<lambda>_. 0)\<rparr>"

text \<open>\<open>opened\<close> is the descriptor \<open>sfile_private_dir\<close> answers, negative for a refusal.\<close>

definition eapol_set_output_dir :: "bytes option \<Rightarrow> int \<Rightarrow> eapol_t \<Rightarrow> int \<times> eapol_t" where
  "eapol_set_output_dir dir opened st =
     (let st = st\<lparr>el_out_fd := -1, el_out_dir := [], el_last_sweep := 0\<rparr>
      in case dir of None \<Rightarrow> (0, st)
      | Some d \<Rightarrow>
        if takeWhile (\<lambda>c. c \<noteq> 0) d = [] then (0, st)
        else if \<not> el_collect st then (-1, st)
        else if opened < 0 then (-1, st)
        else (0, st\<lparr>el_out_fd := opened, el_out_dir := snprintf 256 [takeWhile (\<lambda>c. c \<noteq> 0) d]\<rparr>))"

definition eapol_set_collect_enabled :: "bool \<Rightarrow> eapol_t \<Rightarrow> eapol_t" where
  "eapol_set_collect_enabled on st =
     (let st = st\<lparr>el_collect := on\<rparr>
      in if \<not> el_collect st \<and> el_out_fd st \<ge> 0 then st\<lparr>el_out_fd := -1, el_out_dir := []\<rparr> else st)"

definition eapol_collect_enabled :: "eapol_t \<Rightarrow> bool" where "eapol_collect_enabled st = el_collect st"

definition eapol_export_ready :: "eapol_t \<Rightarrow> bool" where
  "eapol_export_ready st \<longleftrightarrow> el_collect st \<and> el_out_fd st \<ge> 0"

text \<open>\<open>created\<close> is what \<open>sfile_open\<close> answers.\<close>

definition eapol_export_create :: "bytes option \<Rightarrow> int \<Rightarrow> eapol_t \<Rightarrow> int" where
  "eapol_export_create nm created st =
     (if nm = None \<or> takeWhile (\<lambda>c. c \<noteq> 0) (the nm) = [] then -1
      else if \<not> el_collect st then -1
      else if el_out_fd st < 0 then -1
      else created)"

definition bare_name :: "bytes option \<Rightarrow> bool" where
  "bare_name n = (case n of None \<Rightarrow> False
     | Some s \<Rightarrow> s \<noteq> [] \<and> s \<noteq> ascii ''.'' \<and> s \<noteq> ascii ''..'' \<and> 0x2f \<notin> set s)"

datatype stat_answer = Exists | No_Entry | Stat_Error

definition EAPOL_COMMIT_EXISTS :: int where "EAPOL_COMMIT_EXISTS = -2"

text \<open>
  \<open>st_name\<close> is what \<open>fstatat\<close> answers for the name, \<open>renamed\<close> whether the rename succeeds. The result, and
  whether \<open>tmp\<close> now stands at \<open>name\<close>.
\<close>

definition eapol_export_commit :: "bytes option \<Rightarrow> bytes option \<Rightarrow> stat_answer \<Rightarrow> bool \<Rightarrow> eapol_t \<Rightarrow> int \<times> bool" where
  "eapol_export_commit tmp nm st_name renamed st =
     (if \<not> bare_name tmp \<or> \<not> bare_name nm then (-1, False)
      else if \<not> el_collect st \<or> el_out_fd st < 0 then (-1, False)
      else if st_name = Exists then (EAPOL_COMMIT_EXISTS, False)
      else if st_name \<noteq> No_Entry then (-1, False)
      else if \<not> renamed then (-1, False)
      else (0, True))"

text \<open>The result and the text in a buffer of \<open>outsz\<close> octets.\<close>

definition eapol_export_path :: "bytes option \<Rightarrow> nat \<Rightarrow> eapol_t \<Rightarrow> int \<times> bytes" where
  "eapol_export_path nm outsz st =
     (if outsz = 0 then (-1, [])
      else if \<not> bare_name nm then (-1, [])
      else if el_collect st \<and> el_out_fd st \<ge> 0 \<and> el_out_dir st \<noteq> []
      then let s = el_out_dir st @ ascii ''/'' @ the nm
           in if length s > 0 \<and> length s < outsz then (0, s) else (-1, [])
      else (-1, []))"

subsection \<open>Retention\<close>

definition eapol_set_retention_days :: "int \<Rightarrow> tune_t \<Rightarrow> int \<times> tune_t" where
  "eapol_set_retention_days days tn =
     (if days < 0 \<or> days > EAPOL_MAX_RETENTION_DAYS then (-1, tn)
      else case tune_set_id tn TUNE_HANDSHAKE_RETENTION_DAYS days of (ok, tn) \<Rightarrow> (if ok then 0 else -1, tn))"

definition eapol_retention_days :: "tune_t \<Rightarrow> int" where
  "eapol_retention_days tn = tune_val tn TUNE_HANDSHAKE_RETENTION_DAYS"

definition ends_with :: "bytes \<Rightarrow> string \<Rightarrow> bool" where
  "ends_with nm suf \<longleftrightarrow> drop (length nm - length suf) nm = ascii suf"

definition EVM_PREFIX :: string where "EVM_PREFIX = ''sloth-manifest-''"
definition EVM_EXT :: string where "EVM_EXT = ''.jsonl''"

definition evidence_manifest_is_name :: "bytes \<Rightarrow> bool" where
  "evidence_manifest_is_name nm \<longleftrightarrow>
     length nm > length EVM_PREFIX + length EVM_EXT \<and> take (length EVM_PREFIX) nm = ascii EVM_PREFIX \<and> ends_with nm EVM_EXT"

definition is_export_artifact :: "bytes \<Rightarrow> bool" where
  "is_export_artifact nm \<longleftrightarrow>
     nm = ascii ''eapol.22000'' \<or> length nm > 5 \<and> ends_with nm ''.pcap'' \<or> evidence_manifest_is_name nm
     \<or> nm \<noteq> [] \<and> nm ! 0 = 0x2e \<and> length nm > 5 \<and> ends_with nm ''.tmp''"

text \<open>An entry of the export directory, and what the file system answers for it.\<close>

record dirent =
  d_name :: bytes
  d_stat :: bool
  d_regular :: bool
  d_mtime :: time_t
  d_unlink :: bool

fun sweep_loop :: "time_t \<Rightarrow> dirent list \<Rightarrow> bytes list \<Rightarrow> bytes list" where
  "sweep_loop cutoff [] removed = removed"
| "sweep_loop cutoff (e # es) removed =
     (if \<not> is_export_artifact (d_name e) then sweep_loop cutoff es removed
      else if \<not> d_stat e then sweep_loop cutoff es removed
      else if \<not> d_regular e then sweep_loop cutoff es removed
      else if d_mtime e \<ge> cutoff then sweep_loop cutoff es removed
      else if \<not> d_unlink e then sweep_loop cutoff es removed
      else sweep_loop cutoff es (removed @ [d_name e]))"

text \<open>The result and the names unlinked; \<open>dir\<close> is the directory, \<open>None\<close> when it cannot be opened.\<close>

definition sweep_locked :: "time_t \<Rightarrow> dirent list option \<Rightarrow> tune_t \<Rightarrow> eapol_t \<Rightarrow> int \<times> bytes list" where
  "sweep_locked now dir tn st =
     (let retention_days = eapol_retention_days tn
      in if el_out_fd st < 0 \<or> retention_days \<le> 0 then (0, [])
      else let window = retention_days * EAPOL_SECS_PER_DAY
      in if now \<le> window then (0, [])
      else let cutoff = now - window
      in case dir of None \<Rightarrow> (-1, [])
      | Some es \<Rightarrow> let removed = sweep_loop cutoff es [] in (int (length removed), removed))"

definition eapol_sweep :: "time_t \<Rightarrow> dirent list option \<Rightarrow> tune_t \<Rightarrow> eapol_t \<Rightarrow> int \<times> bytes list \<times> eapol_t" where
  "eapol_sweep now dir tn st =
     (let (n, removed) = sweep_locked now dir tn st in (n, removed, st\<lparr>el_last_sweep := now\<rparr>))"

definition eapol_maintain :: "time_t \<Rightarrow> dirent list option \<Rightarrow> tune_t \<Rightarrow> eapol_t \<Rightarrow> bytes list \<times> eapol_t" where
  "eapol_maintain now dir tn st =
     (let due = (el_last_sweep st = 0) \<or> now < el_last_sweep st \<or> now - el_last_sweep st \<ge> EAPOL_SWEEP_INTERVAL_S
      in if due then (snd (sweep_locked now dir tn st), st\<lparr>el_last_sweep := now\<rparr>) else ([], st))"

section \<open>The table of pairs\<close>

definition pd_key :: "pending_t \<Rightarrow> pending_key_t" where "pd_key p = (pd_bssid p, pd_sta p)"

lemma pending_decl_simps [simp]:
  "st_cap pending_decl = 64" "st_ls pending_decl = pd_last_seen" "st_set_ls pending_decl = (\<lambda>now r. r\<lparr>pd_last_seen := now\<rparr>)"
  "st_zero pending_decl = pending_zero" "st_policy pending_decl = STAB_OLDEST" "st_key_eq pending_decl = pending_key_eq"
  "st_tally pending_decl = SH_EVICT_EAPOL_PENDING"
  by (simp_all add: pending_decl_def STAB_DECL_AGE_def)

interpretation pairs: keyed_table pending_decl pd_key
  by unfold_locales (auto simp: pending_key_eq_def pd_key_def)

text \<open>The arrays of a row have the sizes they are declared with, and the lengths fit them.\<close>

definition pending_ok :: "pending_t \<Rightarrow> bool" where
  "pending_ok p \<longleftrightarrow> length (m_frames p) = 4 \<and> (\<forall>i < 4. length (m_frames p ! i) = 512)
     \<and> length (m_frame_lens p) = 4 \<and> (\<forall>i < 4. 0 \<le> m_frame_lens p ! i \<and> m_frame_lens p ! i \<le> 512)
     \<and> length (m_frame_origlens p) = 4 \<and> length (m_frame_ts p) = 4 \<and> length (m_frame_usec p) = 4
     \<and> length (m1_rc p) = 8 \<and> length (m3_rc p) = 8 \<and> length (pd_anonce p) = 32 \<and> length (pd_pmkid p) = 16
     \<and> length (pd_bssid p) = 6 \<and> length (pd_sta p) = 6"

lemma pending_ok_zero: "pending_ok pending_zero" "pending_ok (pending_zero\<lparr>pd_last_seen := n\<rparr>)"
  by (simp_all add: pending_ok_def pending_zero_def)

lemma pending_ok_reset: "pending_ok p \<Longrightarrow> pending_ok (attempt_reset p)" "pending_ok p \<Longrightarrow> pending_ok (attempt_expire now p)"
  by (simp_all add: pending_ok_def attempt_reset_def attempt_expire_def)

lemma pending_ok_buffer:
  assumes "pending_ok p" "1 \<le> msg" "msg \<le> 4" "length d \<le> 512"
  shows "pending_ok (buffer_frame msg d len now usec p)"
proof -
  have "nat (msg - 1) < 4" using assms(2,3) by simp
  with assms show ?thesis
    unfolding pending_ok_def buffer_frame_def Let_def by (auto simp: nth_list_update)
qed

definition key_ok :: "key_msg \<Rightarrow> bool" where
  "key_ok k \<longleftrightarrow> km_msg k \<in> {1, 2, 3, 4} \<and> length (km_nonce k) = 32 \<and> length (km_mic k) = 16 \<and> length (km_rc k) = 8
     \<and> (\<forall>v. km_pmkid k = Some v \<longrightarrow> length v = 16) \<and> 99 \<le> km_span k"

lemma pending_ok_on:
  assumes "pending_ok p" "key_ok k"
  shows "pending_ok (fst (on_m1 now k (p, ev)))" "pending_ok (fst (on_m2 now k (p, ev)))"
    "pending_ok (fst (on_m3 k (p, ev)))" "pending_ok (fst (on_m4 k (p, ev)))"
  using assms
  by (simp_all add: pending_ok_def key_ok_def on_m1_def on_m2_def on_m3_def on_m4_def Let_def split: option.split)

text \<open>What a message leaves of the row, the record's flag included.\<close>

definition began :: "time_t \<Rightarrow> key_msg \<Rightarrow> pending_t \<Rightarrow> pending_t" where
  "began now k p =
     (let p = attempt_expire now (p\<lparr>pd_last_seen := now\<rparr>)
      in if km_msg k = 1 \<and> \<not> (has_m1 p \<and> m1_rc p = km_rc k \<and> pd_anonce p = km_nonce k) then attempt_reset p else p)"

definition on_msg :: "time_t \<Rightarrow> key_msg \<Rightarrow> pending_t \<times> eapol_event_t \<Rightarrow> pending_t \<times> eapol_event_t" where
  "on_msg now k = (if km_msg k = 1 then on_m1 now k else if km_msg k = 2 then on_m2 now k
     else if km_msg k = 3 then on_m3 k else if km_msg k = 4 then on_m4 k else id)"

lemma pair_step_eq:
  "pair_step now usec d len k ev p =
     (let (p, ev) = on_msg now k (buffer_frame (km_msg k) d len now usec (began now k p), ev)
      in (p, ev\<lparr>handshake_progress := progress p\<rparr>))"
  by (simp add: pair_step_def began_def on_msg_def rc_eq_def Let_def split: prod.splits)

lemma pending_ok_on_msg: "pending_ok p \<Longrightarrow> key_ok k \<Longrightarrow> pending_ok (fst (on_msg now k (p, ev)))"
  by (simp add: on_msg_def pending_ok_on)

lemma pending_ok_pair_step:
  assumes "pending_ok p" "key_ok k" "length d \<le> 512"
  shows "pending_ok (fst (pair_step now usec d len k ev p))"
proof -
  have "pending_ok (p\<lparr>pd_last_seen := now\<rparr>)" using assms(1) by (simp add: pending_ok_def)
  then have "pending_ok (began now k p)" unfolding began_def Let_def by (auto intro: pending_ok_reset)
  moreover have "1 \<le> km_msg k" "km_msg k \<le> 4" using assms(2) by (auto simp: key_ok_def)
  ultimately have "pending_ok (buffer_frame (km_msg k) d len now usec (began now k p))"
    by (rule pending_ok_buffer [OF _ _ _ assms(3)])
  then have "pending_ok (fst (on_msg now k (buffer_frame (km_msg k) d len now usec (began now k p), ev)))"
    by (rule pending_ok_on_msg [OF _ assms(2)])
  then show ?thesis unfolding pair_step_eq by (simp add: case_prod_unfold Let_def)
qed

lemma keys_kept [simp]:
  "pd_bssid (attempt_reset p) = pd_bssid p" "pd_sta (attempt_reset p) = pd_sta p"
  "pd_bssid (attempt_expire now p) = pd_bssid p" "pd_sta (attempt_expire now p) = pd_sta p"
  "pd_bssid (buffer_frame msg d len now usec p) = pd_bssid p" "pd_sta (buffer_frame msg d len now usec p) = pd_sta p"
  "pd_bssid (began now k p) = pd_bssid p" "pd_sta (began now k p) = pd_sta p"
  "pd_bssid (fst (on_msg now k (p, ev))) = pd_bssid p" "pd_sta (fst (on_msg now k (p, ev))) = pd_sta p"
  by (simp_all add: attempt_reset_def attempt_expire_def buffer_frame_def began_def on_msg_def
      on_m1_def on_m2_def on_m3_def on_m4_def Let_def split: option.split)

lemma pair_step_key [simp]: "pd_key (fst (pair_step now usec d len k ev p)) = pd_key p"
  unfolding pair_step_eq by (simp add: case_prod_unfold pd_key_def Let_def)

section \<open>The parser\<close>

text \<open>The first identifier among the elements of the key data.\<close>

fun first_pmkid :: "(u16 \<times> bytes) list \<Rightarrow> bytes option" where
  "first_pmkid [] = None"
| "first_pmkid ((t, b) # es) =
     (if t = 0xDD \<and> length b = 20 \<and> take 4 b = [0x00, 0x0f, 0xac, 0x04] then Some (drop 4 b) else first_pmkid es)"

definition pmkid_pure :: "bytes option \<Rightarrow> u16 \<Rightarrow> bytes \<Rightarrow> bytes option \<times> bool" where
  "pmkid_pure s t b =
     (if t = 0xDD \<and> length b = 20 \<and> take 4 b = [0x00, 0x0f, 0xac, 0x04] then (Some (drop 4 b), True) else (s, False))"

interpretation pmkid: tlv_consumer pmkid_body pmkid_pure
proof unfold_locales
  fix l :: nat and s t and b :: bytes
  assume l: "l \<le> length b"
  show "pmkid_body s t (int l) b = Some (pmkid_pure s t (take l b))"
  proof (cases "t = 0xDD \<and> l = 20")
    case True
    then have "bytes_at b 0 4 = Some (take 4 (take l b))" "bytes_at b 4 16 = Some (drop 4 (take l b))"
      using l by (auto simp: bytes_at_def drop_take)
    with True l show ?thesis by (simp add: pmkid_body_def pmkid_pure_def)
  next
    case False
    with l show ?thesis by (auto simp: pmkid_body_def pmkid_pure_def)
  qed
qed

lemma run_pmkid: "fst (elems_run pmkid_pure None es) = first_pmkid es"
  by (induction es) (auto simp: pmkid_pure_def)

lemma walk_pmkid:
  assumes "0 \<le> n" "n \<le> int (length b)"
  shows "\<exists>it. tlv_walk pmkid_body (tlv_init (Some b) n) None = Some (first_pmkid (fst (tlv_spec Tlv8 (take (nat n) b))), it)"
  using pmkid.walk_run [OF tlv_wf_init [of "Some b" n], of None] assms
  by (auto simp: run_pmkid tlv_rest_init)

lemma first_pmkid_length: "first_pmkid es = Some v \<Longrightarrow> length v = 16"
  by (induction es) (auto split: if_splits)

text \<open>The octets a key frame declares as its own, and the gates before the descriptor is read.\<close>

definition be_at :: "bytes \<Rightarrow> nat \<Rightarrow> u16" where "be_at p i = push_bit 8 (ucast (p ! i)) OR ucast (p ! (i + 1))"

definition span_of :: "bytes \<Rightarrow> int" where "span_of p = 4 + uint (be_at p 2)"

definition descriptor :: "bytes \<Rightarrow> int \<Rightarrow> bool" where
  "descriptor p len \<longleftrightarrow> 4 \<le> len \<and> p ! 1 = 3 \<and> span_of p \<le> len \<and> (p ! 4 = 2 \<or> p ! 4 = 254) \<and> 99 \<le> span_of p"

lemma be16_at: "0 \<le> i \<Longrightarrow> i + 1 < int (length p) \<Longrightarrow> be16 p i = Some (be_at p (nat i))"
  by (simp add: be_at_def be16_in nat_add_distrib)

lemma parse_early:
  assumes "len \<le> int (length p)" "\<not> descriptor p len"
  shows "parse_eapol_key p len h = Some (if len < 4 \<or> p ! 1 \<noteq> 3 then Not_Key
    else if span_of p > len then Rejected EAPOL_REJECT_TRUNCATED
    else if span_of p \<le> 4 then Rejected EAPOL_REJECT_MALFORMED
    else if p ! 4 \<noteq> 2 \<and> p ! 4 \<noteq> 254 then Not_Key else Rejected EAPOL_REJECT_MALFORMED, h)"
proof (cases "len < 4")
  case False
  then have b: "byte_at p 1 = Some (p ! 1)" "be16 p 2 = Some (be_at p 2)" using assms be16_at [of 2 p] by simp_all
  have b4: "byte_at p 4 = Some (p ! 4)" if "span_of p \<le> len" "4 < span_of p" using that assms by simp
  show ?thesis
    using False assms(2) b b4
    by (auto simp: parse_eapol_key_def EAPOL_HDR_LEN_def EAPOL_KEY_FIXED_LEN_def Let_def span_of_def [symmetric] descriptor_def)
qed (simp add: parse_eapol_key_def EAPOL_HDR_LEN_def)

text \<open>The fields of the descriptor, where its gates are passed.\<close>

definition fields_of :: "bytes \<Rightarrow> key_msg" where
  "fields_of p =
     \<lparr>km_msg = classify (be_at p 5), km_span = span_of p, km_nonce = take 32 (drop 17 p), km_mic = take 16 (drop 81 p),
      km_rc = take 8 (drop 9 p),
      km_pmkid = (if classify (be_at p 5) = 1 \<and> 6 \<le> uint (be_at p 97) \<and> \<not> bit (be_at p 5) 12
        then first_pmkid (fst (tlv_spec Tlv8 (take (unat (be_at p 97)) (drop 99 p)))) else None)\<rparr>"

lemma parse_fields:
  assumes l: "len \<le> int (length p)" and d: "descriptor p len"
  shows "\<exists>h'. parse_eapol_key p len h = Some (
    if \<not> bit (be_at p 5) 3 then Not_Key
    else if uint (be_at p 97) > span_of p - 99 then Rejected EAPOL_REJECT_MALFORMED
    else if classify (be_at p 5) = 0 then Not_Key else Key_Msg (fields_of p), h')"
proof -
  let ?ki = "be_at p 5" and ?kdl = "be_at p 97"
  have lp: "99 \<le> int (length p)" using d l by (simp add: descriptor_def)
  have b: "byte_at p 1 = Some (p ! 1)" "be16 p 2 = Some (be_at p 2)" "byte_at p 4 = Some (p ! 4)"
    "be16 p 5 = Some ?ki" "be16 p 97 = Some ?kdl" "bytes_at p 9 8 = Some (take 8 (drop 9 p))"
    "bytes_at p 17 32 = Some (take 32 (drop 17 p))" "bytes_at p 81 16 = Some (take 16 (drop 81 p))"
    using lp be16_at [of 2 p] be16_at [of 5 p] be16_at [of 97 p] by simp_all
  have f: "(len < 4) = False" "(p ! 1 \<noteq> 3) = False" "(span_of p > len) = False" "(span_of p \<le> 4) = False"
    "(p ! 4 \<noteq> 2 \<and> p ! 4 \<noteq> 254) = False" "(span_of p < 99) = False" "nat 99 = 99"
    using d by (auto simp: descriptor_def)
  have e: "parse_eapol_key p len h =
    (if \<not> bit ?ki 3 then Some (Not_Key, h)
     else if uint ?kdl > span_of p - 99 then Some (Rejected EAPOL_REJECT_MALFORMED, h)
     else if classify ?ki = 0 then Some (Not_Key, h)
     else do {
      (pmkid, h) \<leftarrow> (if classify ?ki = 1 \<and> uint ?kdl \<ge> 6 \<and> \<not> bit ?ki 12
         then do {
           (pmkid, it) \<leftarrow> tlv_walk pmkid_body (tlv_init (Some (drop 99 p)) (uint ?kdl)) None;
           Some (pmkid, if it_status it = TLV_OVERRUN then sh_parse_fault_note SH_PF_IE_OVERRUN h else h) }
         else Some (None, h));
      Some (Key_Msg \<lparr>km_msg = classify ?ki, km_span = span_of p, km_nonce = take 32 (drop 17 p),
        km_mic = take 16 (drop 81 p), km_rc = take 8 (drop 9 p), km_pmkid = pmkid\<rparr>, h) })"
    unfolding parse_eapol_key_def EAPOL_HDR_LEN_def EAPOL_KEY_FIXED_LEN_def b Option.bind.bind_lunit Let_def
      span_of_def [symmetric] f if_False
    by (simp cong: if_cong)
  have "uint ?kdl \<le> int (length (drop 99 p))" if "\<not> uint ?kdl > span_of p - 99"
    using that d l lp by (simp add: descriptor_def)
  then obtain it where it: "\<not> uint ?kdl > span_of p - 99 \<Longrightarrow> tlv_walk pmkid_body (tlv_init (Some (drop 99 p)) (uint ?kdl)) None
      = Some (first_pmkid (fst (tlv_spec Tlv8 (take (unat ?kdl) (drop 99 p)))), it)"
    using walk_pmkid [of "uint ?kdl" "drop 99 p"] by fastforce
  show ?thesis unfolding e using it by (auto simp: fields_of_def)
qed

lemma fields_ok:
  assumes "len \<le> int (length p)" "descriptor p len" "classify (be_at p 5) \<noteq> 0"
  shows "key_ok (fields_of p)" "km_span (fields_of p) \<le> len"
proof -
  have "classify (be_at p 5) \<in> {0, 1, 2, 3, 4}" by (simp add: classify_def Let_def)
  with assms(3) have "classify (be_at p 5) \<in> {1, 2, 3, 4}" by simp
  then show "key_ok (fields_of p)" "km_span (fields_of p) \<le> len"
    using assms first_pmkid_length by (auto simp: key_ok_def fields_of_def descriptor_def)
qed

text \<open>The parser returns on any octets, with what it reports inside the declared span.\<close>

lemma parse_total:
  assumes "len \<le> int (length p)"
  shows "\<exists>r h'. parse_eapol_key p len h = Some (r, h') \<and> (\<forall>k. r = Key_Msg k \<longrightarrow> key_ok k \<and> km_span k \<le> len)"
proof (cases "descriptor p len")
  case True
  with parse_fields [OF assms True, of h] fields_ok [OF assms True] show ?thesis by (auto split: if_splits)
qed (use parse_early [OF assms, of h] in auto)

section \<open>Key frames as they are sent\<close>

text \<open>IEEE 802.11-2020, 12.7.2: the descriptor field by field; \<open>kd_tail\<close> is what the body holds past the key data.\<close>

record key_desc =
  kd_version :: u8
  kd_type :: u8
  kd_info :: u16
  kd_key_length :: bytes
  kd_rc :: bytes
  kd_nonce :: bytes
  kd_iv :: bytes
  kd_rsc :: bytes
  kd_id :: bytes
  kd_mic :: bytes
  kd_data :: bytes
  kd_tail :: bytes

definition kd_valid :: "key_desc \<Rightarrow> bool" where
  "kd_valid e \<longleftrightarrow> (kd_type e = 2 \<or> kd_type e = 254) \<and> bit (kd_info e) 3 \<and> classify (kd_info e) \<noteq> 0
     \<and> length (kd_key_length e) = 2 \<and> length (kd_rc e) = 8 \<and> length (kd_nonce e) = 32 \<and> length (kd_iv e) = 16
     \<and> length (kd_rsc e) = 8 \<and> length (kd_id e) = 8 \<and> length (kd_mic e) = 16
     \<and> 95 + length (kd_data e) + length (kd_tail e) < 65536"

definition be_put :: "u16 \<Rightarrow> bytes" where "be_put w = [ucast (drop_bit 8 w), ucast w]"

definition kd_encode :: "key_desc \<Rightarrow> bytes" where
  "kd_encode e = [kd_version e, 3] @ be_put (word_of_nat (95 + length (kd_data e) + length (kd_tail e)))
     @ [kd_type e] @ be_put (kd_info e) @ kd_key_length e @ kd_rc e @ kd_nonce e @ kd_iv e @ kd_rsc e @ kd_id e @ kd_mic e
     @ be_put (word_of_nat (length (kd_data e))) @ kd_data e @ kd_tail e"

text \<open>The message a frame is read as.\<close>

definition msg_of :: "key_desc \<Rightarrow> key_msg" where
  "msg_of e =
     \<lparr>km_msg = classify (kd_info e), km_span = int (99 + length (kd_data e) + length (kd_tail e)),
      km_nonce = kd_nonce e, km_mic = kd_mic e, km_rc = kd_rc e,
      km_pmkid = (if classify (kd_info e) = 1 \<and> 6 \<le> length (kd_data e) \<and> \<not> bit (kd_info e) 12
        then first_pmkid (fst (tlv_spec Tlv8 (kd_data e))) else None)\<rparr>"

lemma be_at_put: "p = xs @ be_put w @ ys \<Longrightarrow> i = length xs \<Longrightarrow> be_at p i = w"
proof (rule bit_word_eqI)
  fix n assume "n < LENGTH(16)" and p: "p = xs @ be_put w @ ys" "i = length xs"
  then consider "n < 8" | "8 \<le> n" "n < 16" by fastforce
  then show "bit (be_at p i) n = bit w n"
    unfolding p by cases (auto simp: be_at_def be_put_def nth_append bit_simps)
qed

lemma be_at_octets: "be_put (be_at p i) = [p ! i, p ! (i + 1)]"
  by (auto simp: be_put_def be_at_def bit_eq_iff bit_simps)

lemma length_be_put [simp]: "length (be_put w) = 2" by (simp add: be_put_def)

lemma length_kd_encode:
  "kd_valid e \<Longrightarrow> length (kd_encode e) = 99 + length (kd_data e) + length (kd_tail e)"
  by (simp add: kd_valid_def kd_encode_def)

lemma kd_encode_fields:
  fixes rest :: bytes
  assumes "kd_valid e"
  defines "p \<equiv> kd_encode e @ rest"
  shows "be_at p 2 = word_of_nat (95 + length (kd_data e) + length (kd_tail e))" "be_at p 5 = kd_info e"
    "be_at p 97 = word_of_nat (length (kd_data e))" "p ! 1 = 3" "p ! 4 = kd_type e"
    "take 8 (drop 9 p) = kd_rc e" "take 32 (drop 17 p) = kd_nonce e" "take 16 (drop 81 p) = kd_mic e"
    "drop 99 p = kd_data e @ kd_tail e @ rest"
proof -
  note v = assms(1) [unfolded kd_valid_def]
  let ?l = "be_put (word_of_nat (95 + length (kd_data e) + length (kd_tail e)))"
  have p: "p = [kd_version e, 3] @ ?l @ [kd_type e] @ be_put (kd_info e) @ kd_key_length e @ kd_rc e @ kd_nonce e @ kd_iv e
     @ kd_rsc e @ kd_id e @ kd_mic e @ be_put (word_of_nat (length (kd_data e))) @ kd_data e @ kd_tail e @ rest"
    by (simp add: p_def kd_encode_def)
  show "be_at p 2 = word_of_nat (95 + length (kd_data e) + length (kd_tail e))"
    by (rule be_at_put [of _ "[kd_version e, 3]"]) (simp_all add: p)
  show "be_at p 5 = kd_info e"
    by (rule be_at_put [of _ "[kd_version e, 3] @ ?l @ [kd_type e]"]) (simp_all add: p)
  show "be_at p 97 = word_of_nat (length (kd_data e))"
    by (rule be_at_put [of _ "[kd_version e, 3] @ ?l @ [kd_type e] @ be_put (kd_info e) @ kd_key_length e @ kd_rc e @ kd_nonce e
      @ kd_iv e @ kd_rsc e @ kd_id e @ kd_mic e"]) (use v in \<open>simp_all add: p\<close>)
  show "p ! 1 = 3" "p ! 4 = kd_type e" by (simp_all add: p be_put_def)
  have d: "drop 9 p = kd_rc e @ kd_nonce e @ kd_iv e @ kd_rsc e @ kd_id e @ kd_mic e
      @ be_put (word_of_nat (length (kd_data e))) @ kd_data e @ kd_tail e @ rest"
    using v by (simp add: p)
  show "take 8 (drop 9 p) = kd_rc e" "take 32 (drop 17 p) = kd_nonce e" "take 16 (drop 81 p) = kd_mic e"
    "drop 99 p = kd_data e @ kd_tail e @ rest"
    using v by (simp_all add: p)
qed

lemma kd_encode_read:
  assumes "kd_valid e"
  shows "int (length (kd_encode e)) \<le> len \<Longrightarrow> descriptor (kd_encode e @ rest) len" "fields_of (kd_encode e @ rest) = msg_of e"
    "uint (be_at (kd_encode e @ rest) 97) = int (length (kd_data e))" "span_of (kd_encode e @ rest) = int (99 + length (kd_data e) + length (kd_tail e))"
proof -
  note f = kd_encode_fields [OF assms, of rest] and n = length_kd_encode [OF assms]
  note v = assms [unfolded kd_valid_def]
  have u: "unat (word_of_nat n :: u16) = n" "uint (word_of_nat n :: u16) = int n" if "n < 65536" for n
    using that by (simp_all add: unsigned_of_nat take_bit_eq_mod)
  show s: "span_of (kd_encode e @ rest) = int (99 + length (kd_data e) + length (kd_tail e))"
    using u(2) [of "95 + length (kd_data e) + length (kd_tail e)"] v unfolding span_of_def f(1) by linarith
  show k: "uint (be_at (kd_encode e @ rest) 97) = int (length (kd_data e))" using v u(2) by (simp add: f(3))
  then have "unat (be_at (kd_encode e @ rest) 97) = length (kd_data e)" by (metis nat_int unat_eq_nat_uint)
  then show "fields_of (kd_encode e @ rest) = msg_of e"
    unfolding fields_of_def f(2,6-9) s k by (simp add: msg_of_def)
  show "int (length (kd_encode e)) \<le> len \<Longrightarrow> descriptor (kd_encode e @ rest) len"
    unfolding descriptor_def f(4,5) s using v n by simp
qed

lemma descriptor_encode:
  assumes "descriptor p len" "len \<le> int (length p)" "bit (be_at p 5) 3" "uint (be_at p 97) \<le> span_of p - 99" "classify (be_at p 5) \<noteq> 0"
  shows "\<exists>e rest. kd_valid e \<and> take (nat len) p = kd_encode e @ rest"
proof -
  define kdl where "kdl = unat (be_at p 97)"
  define span where "span = nat (span_of p)"
  have i: "span_of p = 4 + int (unat (be_at p 2))" "uint (be_at p 97) = int kdl" by (simp_all add: span_of_def kdl_def)
  have "99 \<le> span_of p" "span_of p \<le> len" using assms(1) by (simp_all add: descriptor_def)
  then have s: "99 \<le> span" "span \<le> nat len" "nat len \<le> length p" "99 + kdl \<le> span" "span = 4 + unat (be_at p 2)"
    using assms(2,4) i unfolding span_def by linarith+
  define e where "e = \<lparr>kd_version = p ! 0, kd_type = p ! 4, kd_info = be_at p 5, kd_key_length = take 2 (drop 7 p),
    kd_rc = take 8 (drop 9 p), kd_nonce = take 32 (drop 17 p), kd_iv = take 16 (drop 49 p), kd_rsc = take 8 (drop 65 p),
    kd_id = take 8 (drop 73 p), kd_mic = take 16 (drop 81 p), kd_data = take kdl (drop 99 p),
    kd_tail = take (span - 99 - kdl) (drop (99 + kdl) p)\<rparr>"
  have l: "length (kd_data e) = kdl" "length (kd_tail e) = span - 99 - kdl" using s by (simp_all add: e_def)
  have "unat (be_at p 2) < 65536" using unsigned_less [of "be_at p 2"] by simp
  then have v: "kd_valid e" using s assms l by (auto simp: kd_valid_def e_def descriptor_def)
  have w: "word_of_nat (95 + length (kd_data e) + length (kd_tail e)) = be_at p 2" "word_of_nat (length (kd_data e)) = be_at p 97"
    using s l by (simp_all add: kdl_def)
  have cat: "take a (drop i p) @ take b (drop j p) @ r = take (a + b) (drop i p) @ r" if "j = i + a" for a b i j r
    using that by (simp add: take_add drop_drop add.commute)
  have "drop i p = p ! i # p ! (i + 1) # drop (i + 2) p" if "i + 2 \<le> length p" for i
    using that Cons_nth_drop_Suc [of i p] Cons_nth_drop_Suc [of "Suc i" p] by simp
  then have one: "take 1 (drop i p) = [p ! i]" and two: "take 2 (drop i p) = [p ! i, p ! (i + 1)]" if "i + 2 \<le> length p" for i
    using that by (simp_all add: numeral_2_eq_2)
  have h: "take (Suc 0) p = [p ! 0]" "take (Suc 0) (drop (Suc 0) p) = [3]" "take (Suc 0) (drop 4 p) = [p ! 4]"
    using one [of 0] one [of 1] one [of 4] s assms(1) by (simp_all add: descriptor_def)
  have "kd_encode e = take 1 (drop 0 p) @ take 1 (drop 1 p) @ take 2 (drop 2 p) @ take 1 (drop 4 p) @ take 2 (drop 5 p)
      @ take 2 (drop 7 p) @ take 8 (drop 9 p) @ take 32 (drop 17 p) @ take 16 (drop 49 p) @ take 8 (drop 65 p) @ take 8 (drop 73 p)
      @ take 16 (drop 81 p) @ take 2 (drop 97 p) @ take kdl (drop 99 p) @ take (span - 99 - kdl) (drop (99 + kdl) p) @ []"
    using s v unfolding kd_encode_def w by (simp add: h two be_at_octets e_def kd_valid_def)
  also have "\<dots> = take span p"
    using s(4) by (simp only: cat, simp only: append_Nil2 drop_0, intro arg_cong [where f = "\<lambda>n. take n p"]) linarith
  finally have "kd_encode e = take span p" .
  with v s show ?thesis by (intro exI [of _ e] exI [of _ "take (nat len - span) (drop span p)"]) (simp flip: take_add)
qed

lemma parse_exact:
  assumes l: "0 \<le> len" "len \<le> int (length p)"
  shows "\<exists>r h'. parse_eapol_key p len h = Some (r, h')
    \<and> (\<forall>k. r = Key_Msg k \<longleftrightarrow> (\<exists>e rest. kd_valid e \<and> take (nat len) p = kd_encode e @ rest \<and> k = msg_of e))"
proof -
  have enc: "descriptor p len \<and> fields_of p = msg_of e \<and> bit (be_at p 5) 3 \<and> classify (be_at p 5) \<noteq> 0
      \<and> uint (be_at p 97) \<le> span_of p - 99" if e: "kd_valid e" "take (nat len) p = kd_encode e @ rest" for e rest
  proof -
    have p: "p = kd_encode e @ rest @ drop (nat len) p" using e(2) by (metis append_assoc append_take_drop_id)
    have "length (kd_encode e @ rest) = nat len" using e(2) l by (metis length_take min_absorb2 nat_le_iff)
    then have n: "int (length (kd_encode e)) \<le> len" using l(1) by simp
    note r = kd_encode_read [OF e(1), where rest = "rest @ drop (nat len) p", folded p] and f = kd_encode_fields(2) [OF e(1), of "rest @ drop (nat len) p", folded p]
    show ?thesis using r(1) [OF n] r(2-4) f e(1) by (simp add: kd_valid_def)
  qed
  show ?thesis
  proof (cases "descriptor p len \<and> bit (be_at p 5) 3 \<and> uint (be_at p 97) \<le> span_of p - 99 \<and> classify (be_at p 5) \<noteq> 0")
    case True
    then obtain h' where h: "parse_eapol_key p len h = Some (Key_Msg (fields_of p), h')"
      using parse_fields [OF l(2), of h] by auto
    obtain e0 rest0 where "kd_valid e0" "take (nat len) p = kd_encode e0 @ rest0"
      using descriptor_encode [OF _ l(2)] True by blast
    with enc have "(fields_of p = k) \<longleftrightarrow> (\<exists>e rest. kd_valid e \<and> take (nat len) p = kd_encode e @ rest \<and> k = msg_of e)" for k
      by metis
    with h show ?thesis by auto
  next
    case False
    obtain r h' where h: "parse_eapol_key p len h = Some (r, h')" using parse_total [OF l(2)] by blast
    have "r \<noteq> Key_Msg k" for k
      using False h parse_early [OF l(2), of h] parse_fields [OF l(2), of h] by (cases "descriptor p len") (auto split: if_splits)
    moreover have "\<not> (kd_valid e \<and> take (nat len) p = kd_encode e @ rest)" for e rest using enc False by blast
    ultimately show ?thesis using h by blast
  qed
qed

section \<open>What is exported\<close>

text \<open>A buffered message as a record of a savefile, and the file of an attempt.\<close>

definition frame_rec :: "pending_t \<Rightarrow> nat \<Rightarrow> pcap_rec" where
  "frame_rec p i = \<lparr>pr_sec = word_of_int (m_frame_ts p ! i), pr_usec = m_frame_usec p ! i,
     pr_orig = word_of_int (m_frame_origlens p ! i), pr_data = take (nat (m_frame_lens p ! i)) (m_frames p ! i)\<rparr>"

definition heard :: "pending_t \<Rightarrow> nat list" where "heard p = filter (\<lambda>i. m_frame_lens p ! i \<noteq> 0) [0, 1, 2, 3]"

definition pcap_file :: "pending_t \<Rightarrow> bytes" where
  "pcap_file p = pcap_fmt_file_hdr PCAP_DLT_IEEE802_11 PCAP_SNAPLEN_FRAME @ concat (map (\<lambda>i. rec_octets (frame_rec p i)) (heard p))"

lemma put_frame:
  assumes "pending_ok p" "i < 4" "m_frame_lens p ! i \<noteq> 0"
  shows "pcap_fmt_put_rec (Some s) (word_of_int (m_frame_ts p ! i)) (m_frame_usec p ! i) (Some (m_frames p ! i))
    (word_of_int (m_frame_lens p ! i)) (word_of_int (m_frame_origlens p ! i)) = Some (Some (s @ rec_octets (frame_rec p i)))"
proof -
  let ?n = "m_frame_lens p ! i"
  have n: "0 < ?n" "?n \<le> 512" "length (m_frames p ! i) = 512" using assms by (auto simp: pending_ok_def order_less_le)
  have u: "uint (word_of_int ?n :: u32) = ?n"
    using n by (simp only: unsigned_of_int) (simp add: take_bit_eq_mod)
  have "(word_of_int ?n :: u32) \<noteq> 0" using n u by (metis less_irrefl unsigned_0)
  moreover have "word_of_nat (length (pr_data (frame_rec p i))) = (word_of_int ?n :: u32)" "pr_data (frame_rec p i) \<noteq> []"
    using n by (auto simp: frame_rec_def)
  ultimately show ?thesis using n u by (simp add: pcap_fmt_put_rec_def rec_octets_def) (simp add: frame_rec_def)
qed

lemma pcap_loop_ok:
  assumes "pending_ok p" "\<forall>i \<in> set is. i < 4"
  shows "pcap_loop p is (Some s)
    = Some (Some (s @ concat (map (\<lambda>i. rec_octets (frame_rec p i)) (filter (\<lambda>i. m_frame_lens p ! i \<noteq> 0) is))))"
  using assms(2)
proof (induction "is" arbitrary: s)
  case (Cons i "is")
  then show ?case using put_frame [OF assms(1), of i s] by simp
qed simp

definition pcap_name :: "pending_t \<Rightarrow> bytes" where
  "pcap_name p = snprintf 64 [hex_bytes (pd_bssid p), ascii ''_'', hex_bytes (pd_sta p), ascii ''.pcap'']"

lemma write_pcap_ok:
  assumes "pending_ok p"
  shows "write_handshake_pcap st p = Some (if eapol_export_ready st then [Handshake_Pcap (pcap_name p) (pcap_file p)] else [])"
  using pcap_loop_ok [OF assms, of "[0, 1, 2, 3]"]
  by (auto simp: write_handshake_pcap_def eapol_export_ready_def pcap_fmt_put_file_hdr_def pcap_file_def heard_def
      pcap_name_def Let_def not_less)

lemma read_pcap_file:
  assumes "pending_ok p"
  shows "read_pcap (pcap_file p) = Some (105, 65535, map (\<lambda>i. settled (frame_rec p i)) (heard p))"
proof -
  let ?rs = "map (frame_rec p) (heard p)" and ?h = "pcap_fmt_file_hdr PCAP_DLT_IEEE802_11 PCAP_SNAPLEN_FRAME"
  have i: "i < 4 \<and> m_frame_lens p ! i \<noteq> 0" if "i \<in> set (heard p)" for i using that unfolding heard_def set_filter by auto
  have len: "\<forall>r \<in> set ?rs. length (pr_data r) < 2 ^ 32" "\<forall>r \<in> set ?rs. pr_data r \<noteq> []"
    using assms i by (fastforce simp: frame_rec_def pending_ok_def order_less_le)+
  have "pcap_file p = ?h @ concat (map rec_octets ?rs)" by (simp add: pcap_file_def comp_def)
  then have "read_pcap (pcap_file p) = Some (PCAP_DLT_IEEE802_11, PCAP_SNAPLEN_FRAME, map settled (filter (\<lambda>r. pr_data r \<noteq> []) ?rs))"
    using read_file [OF len(1)] by simp
  moreover have "filter (\<lambda>r. pr_data r \<noteq> []) ?rs = ?rs" using len(2) by (intro filter_True)
  ultimately show ?thesis by (simp add: comp_def PCAP_DLT_IEEE802_11_def PCAP_SNAPLEN_FRAME_def)
qed

text \<open>The octets of the second message that are kept, its check sum cleared.\<close>

definition cleared :: "bytes \<Rightarrow> bytes" where
  "cleared m = (if 97 \<le> length m then take 81 m @ replicate 16 0 @ drop 97 m else m)"

lemma m2_scratch_ok:
  assumes "0 \<le> span" "span \<le> int (length eapol)"
  shows "m2_scratch eapol span = Some (cleared (take (min 511 (nat span)) eapol))"
proof -
  define room where "room = (if span > 511 then 511 else span)"
  have r: "0 \<le> room" "room \<le> int (length eapol)" "nat room = min 511 (nat span)" "\<not> room > 512"
    using assms by (auto simp: room_def)
  then have "bytes_at eapol 0 room = Some (take (min 511 (nat span)) eapol)" by simp
  moreover have "97 \<le> room \<longleftrightarrow> 97 \<le> length (take (min 511 (nat span)) eapol)"
    using r by auto
  moreover have "m2_scratch eapol span = do { s \<leftarrow> bytes_at eapol 0 room;
      Some (if room \<ge> 97 then take 81 s @ replicate 16 0 @ drop 97 s else s) }"
    using r(4) by (simp add: m2_scratch_def Let_def room_def)
  ultimately show ?thesis unfolding cleared_def by simp
qed

text \<open>The calls of a message, and the row once its record has been written.\<close>

definition hashcat_calls :: "eapol_t \<Rightarrow> key_msg \<Rightarrow> bytes \<Rightarrow> eapol_event_t \<Rightarrow> pending_t \<Rightarrow> eapol_call list" where
  "hashcat_calls st k eapol ev p =
     (if \<not> eapol_export_ready st \<or> el_out_dir st = [] then []
      else if km_msg k = 1 \<and> ee_has_pmkid ev
      then [Hashcat_Line (pmkid_line ev) (ee_bssid ev), Handshake_Pcap (pcap_name p) (pcap_file p)]
      else if km_msg k = 2 \<and> handshake_complete ev \<and> \<not> exported p
      then [Hashcat_Line (m2_line ev (cleared (take (min 511 (nat (km_span k))) eapol)) (rc_checked p)) (ee_bssid ev),
            Handshake_Pcap (pcap_name p) (pcap_file p)]
      else [])"

definition mark_exported :: "bytes \<Rightarrow> key_msg \<Rightarrow> eapol_event_t \<Rightarrow> pending_t \<Rightarrow> pending_t" where
  "mark_exported dir k ev p =
     (if km_msg k = 2 \<and> handshake_complete ev \<and> \<not> exported p \<and> dir \<noteq> [] then p\<lparr>exported := True\<rparr> else p)"

lemma pcap_exported [simp]: "pcap_name (p\<lparr>exported := x\<rparr>) = pcap_name p" "pcap_file (p\<lparr>exported := x\<rparr>) = pcap_file p"
  by (simp_all add: pcap_name_def pcap_file_def heard_def frame_rec_def)

lemma pending_ok_exported: "pending_ok p \<Longrightarrow> pending_ok (p\<lparr>exported := x\<rparr>)" "pending_ok p \<Longrightarrow> pending_ok (mark_exported dir k ev p)"
  by (simp_all add: pending_ok_def mark_exported_def)

lemma export_step_ok:
  assumes "pending_ok p" "key_ok k" "km_span k \<le> int (length eapol)"
  shows "export_step st k eapol ev p = Some (mark_exported (el_out_dir st) k ev p, hashcat_calls st k eapol ev p)"
proof -
  have s: "m2_scratch eapol (km_span k) = Some (cleared (take (min 511 (nat (km_span k))) eapol))"
    using assms(2,3) by (intro m2_scratch_ok) (simp_all add: key_ok_def)
  show ?thesis
    using write_pcap_ok [OF assms(1), of st] write_pcap_ok [OF pending_ok_exported(1) [OF assms(1)], of st True] s
    by (auto simp: export_step_def hashcat_calls_def mark_exported_def append_22000_line_for_bssid_def eapol_export_ready_def
        not_less Let_def)
qed

section \<open>The handler as one write\<close>

text \<open>The row a message finds, the row and event it leaves.\<close>

definition row_for :: "mac \<Rightarrow> mac \<Rightarrow> time_t \<Rightarrow> eapol_t \<Rightarrow> pending_t" where
  "row_for bssid sta now st = (case tab_map pd_key (el_pending st) (bssid, sta) of
     Some p \<Rightarrow> p | None \<Rightarrow> pending_zero\<lparr>pd_last_seen := now, pd_bssid := bssid, pd_sta := sta\<rparr>)"

definition event_for :: "(mac \<Rightarrow> bytes) \<Rightarrow> mac \<Rightarrow> mac \<Rightarrow> key_msg \<Rightarrow> int \<Rightarrow> int \<Rightarrow> time_t \<Rightarrow> eapol_event_t" where
  "event_for ssid_of bssid sta k signal channel now =
     event_zero\<lparr>ee_bssid := bssid, ee_sta_mac := sta, ee_ts := now, ee_msg_num := km_msg k,
       signal_dbm := signal, ee_channel := channel, ee_ssid := ssid_of bssid\<rparr>"

definition pair_upd ::
  "mac \<Rightarrow> mac \<Rightarrow> bytes \<Rightarrow> time_t \<Rightarrow> u32 \<Rightarrow> bytes \<Rightarrow> int \<Rightarrow> key_msg \<Rightarrow> eapol_event_t \<Rightarrow> bool \<Rightarrow> pending_t \<Rightarrow> pending_t" where
  "pair_upd bssid sta dir now usec d len k ev created r =
     (let (p, ev) = pair_step now usec d len k ev (if created then r\<lparr>pd_bssid := bssid, pd_sta := sta\<rparr> else r)
      in mark_exported dir k ev p)"

definition eapol_ok :: "eapol_t \<Rightarrow> bool" where
  "eapol_ok st \<longleftrightarrow> same_decl pending_decl (el_pending st) \<and> tab_ok pd_key (el_pending st)
     \<and> (\<forall>p \<in> set (rows (el_pending st)). pending_ok p)
     \<and> length (el_events st) = MAX_EAPOL_EVENTS \<and> el_head st < MAX_EAPOL_EVENTS \<and> el_count st \<le> MAX_EAPOL_EVENTS"

lemma row_for_ok:
  assumes "eapol_ok st" "length bssid = 6" "length sta = 6"
  shows "pending_ok (row_for bssid sta now st)" "pd_key (row_for bssid sta now st) = (bssid, sta)"
proof -
  let ?t = "el_pending st"
  have z: "pending_ok (pending_zero\<lparr>pd_last_seen := now, pd_bssid := bssid, pd_sta := sta\<rparr>)"
    using assms(2,3) by (simp add: pending_ok_def pending_zero_def)
  have r: "pending_ok p \<and> pd_key p = (bssid, sta)" if "tab_map pd_key ?t (bssid, sta) = Some p" for p
    using that assms(1) by (auto simp: eapol_ok_def tab_ok_def tab_map_def key_map_Some)
  show "pending_ok (row_for bssid sta now st)" "pd_key (row_for bssid sta now st) = (bssid, sta)"
    using z r by (auto simp: row_for_def pd_key_def split: option.split)
qed

lemma pair_upd_keeps: "keeps_key pd_key (bssid, sta) (pair_upd bssid sta dir now usec d len k ev)"
proof -
  have "pd_key (mark_exported dir k ev p) = pd_key p" for ev p by (simp add: mark_exported_def pd_key_def)
  then have "pd_key (pair_upd bssid sta dir now usec d len k ev c r) = pd_key (if c then r\<lparr>pd_bssid := bssid, pd_sta := sta\<rparr> else r)" for c r
    using pair_step_key unfolding pair_upd_def case_prod_unfold Let_def by simp
  then show ?thesis by (simp add: keeps_key_def) (simp add: pd_key_def)
qed

lemma pair_upd_ok:
  assumes "key_ok k" "length d \<le> 512" "length bssid = 6" "length sta = 6" "pending_ok r"
  shows "pending_ok (pair_upd bssid sta dir now usec d len k ev c r)"
proof -
  have "pending_ok (if c then r\<lparr>pd_bssid := bssid, pd_sta := sta\<rparr> else r)" using assms(3-5) by (simp add: pending_ok_def)
  then show ?thesis unfolding pair_upd_def case_prod_unfold Let_def
    by (intro pending_ok_exported(2) pending_ok_pair_step assms(1,2))
qed

text \<open>
  A key message in its direction is one upsert of its pair, one event and the calls, on the row
  \<open>row_for\<close> names.
\<close>

lemma observe_key_ok:
  assumes ok: "eapol_ok st" and m: "length bssid = 6" "length sta = 6" and k: "key_ok k" "km_span k \<le> int (length eapol)"
    and d: "0 \<le> f_len f" "f_len f \<le> int (length d)" and dir: "(km_msg k = 1 \<or> km_msg k = 3) = from_ds"
    and ev0_def: "ev0 = event_for ssid_of bssid sta k signal channel now" and d'_def: "d' = take (nat (min 512 (f_len f))) d"
    and q_def: "q = pair_step now usec d' (f_len f) k ev0 (row_for bssid sta now st)"
    and u_def: "u = stab_upsert (pair_upd bssid sta (el_out_dir st) now usec d' (f_len f) k ev0) (bssid, sta) now h (el_pending st)"
  shows "observe_key ssid_of bssid sta from_ds f d eapol k signal channel now usec st h = Some (
    (if assoc_evidence (snd q)
     then [Assoc_Observe (ee_bssid (snd q)) (ee_sta_mac (snd q)) (if ee_ssid (snd q) \<noteq> [] then Some (ee_ssid (snd q)) else None)
             signal channel (f_band f)] else []) @ hashcat_calls st k eapol (snd q) (fst q),
    (push_event (snd q) st)\<lparr>el_pending := fst u\<rparr>, snd u)"
proof -
  have t: "same_decl pending_decl (el_pending st)" "tab_ok pd_key (el_pending st)" using ok by (simp_all add: eapol_ok_def)
  obtain i t1 h1 where g: "stab_get (el_pending st) (bssid, sta) now h = (Some i, tab_map pd_key (el_pending st) (bssid, sta) = None, t1, h1)"
    "tab_map pd_key (el_pending st) (bssid, sta) = None \<Longrightarrow> row_of t1 i = pending_zero\<lparr>pd_last_seen := now\<rparr>"
    "tab_map pd_key (el_pending st) (bssid, sta) \<noteq> None \<Longrightarrow> tab_map pd_key (el_pending st) (bssid, sta) = Some (row_of t1 i)"
    "\<And>upd. stab_upsert upd (bssid, sta) now h (el_pending st)
      = (stab_put i (upd (tab_map pd_key (el_pending st) (bssid, sta) = None) (row_of t1 i)) t1, h1)"
    by (rule pairs.get_oldest [OF t pending_decl_simps(5), of "(bssid, sta)" now h], rule that) simp_all
  have r: "(if tab_map pd_key (el_pending st) (bssid, sta) = None then (row_of t1 i)\<lparr>pd_bssid := bssid, pd_sta := sta\<rparr> else row_of t1 i)
      = row_for bssid sta now st"
    using g(2,3) by (auto simp: row_for_def split: option.split)
  have p: "pending_get bssid sta now st h = Some (i, row_for bssid sta now st, t1, h1)"
    unfolding pending_get_def g(1) by (simp add: r)
  have "min 512 (f_len f) = (if f_len f < EAPOL_FRAME_MAX then f_len f else EAPOL_FRAME_MAX)"
    by (simp add: EAPOL_FRAME_MAX_def min_def)
  then have b: "bytes_at d 0 (if f_len f < EAPOL_FRAME_MAX then f_len f else EAPOL_FRAME_MAX) = Some d'" "length d' \<le> 512"
    using d by (simp_all add: d'_def bytes_at_def EAPOL_FRAME_MAX_def)
  have "pending_ok (fst q)"
    unfolding q_def by (rule pending_ok_pair_step [OF row_for_ok(1) [OF ok m] k(1) b(2)])
  from export_step_ok [OF this k, of "push_event (snd q) (st\<lparr>el_pending := t1\<rparr>)" "snd q"]
  have e: "export_step (push_event (snd q) (st\<lparr>el_pending := t1\<rparr>)) k eapol (snd q) (fst q)
      = Some (mark_exported (el_out_dir st) k (snd q) (fst q), hashcat_calls st k eapol (snd q) (fst q))"
    by (simp add: push_event_def hashcat_calls_def eapol_export_ready_def)
  have u: "u = (stab_put i (mark_exported (el_out_dir st) k (snd q) (fst q)) t1, h1)"
    unfolding u_def g(4) pair_upd_def r q_def by (simp add: case_prod_unfold Let_def)
  have s: "(push_event ev (st\<lparr>el_pending := t1\<rparr>))\<lparr>el_pending := t2\<rparr> = (push_event ev st)\<lparr>el_pending := t2\<rparr>" for ev t2
    by (simp add: push_event_def)
  have dd: "((km_msg k = 1 \<or> km_msg k = 3) \<noteq> from_ds) = False" using dir by simp
  show ?thesis
    unfolding observe_key_def Let_def event_for_def [symmetric] ev0_def [symmetric] dd if_False p Option.bind.bind_lunit prod.case b(1)
      q_def [symmetric] case_prod_unfold e u fst_conv snd_conv s
    by simp
qed

section \<open>What a frame carries\<close>

text \<open>The exchange octets of a data frame: its BSSID and station, and where they are readable, with their number.\<close>

definition mac_in :: "dot11_frame_t \<Rightarrow> bytes \<Rightarrow> int option \<Rightarrow> mac" where
  "mac_in f d q = take 6 (drop (nat (the q)) d)"

definition carried :: "dot11_frame_t \<Rightarrow> (mac \<times> mac \<times> bytes \<times> int) option" where
  "carried f = (case f_p f of None \<Rightarrow> None
     | Some d \<Rightarrow>
       let hdr = f_hdr_len f
       in if 32 \<le> f_len f \<and> f_type f = 2 \<and> 0 \<le> hdr \<and> hdr + 12 \<le> f_len f
          \<and> take 8 (drop (nat hdr) d) = [0xAA, 0xAA, 0x03, 0, 0, 0, 0x88, 0x8E] \<and> f_to_ds f \<noteq> f_from_ds f
          \<and> f_bssid f \<noteq> None \<and> f_sa f \<noteq> None \<and> f_da f \<noteq> None
          then Some (mac_in f d (f_bssid f), mac_in f d (if f_to_ds f then f_sa f else f_da f),
                     drop (nat (hdr + 8)) d, f_len f - hdr - 8)
          else None)"

lemma snap_octets:
  assumes "0 \<le> i" "i + 8 \<le> int (length d)"
  shows "take 8 (drop (nat i) d) = [0xAA, 0xAA, 0x03, 0, 0, 0, 0x88, 0x8E]
    \<longleftrightarrow> bytes_at d i 6 = Some [0xAA, 0xAA, 0x03, 0, 0, 0] \<and> be16 d (i + 6) = Some 0x888E"
proof -
  define x where "x = drop (nat i) d"
  have l: "8 \<le> length x" using assms by (simp add: x_def)
  have n: "nat (i + 6) = nat i + 6" "nat (i + 6 + 1) = nat i + 7" using assms(1) by simp_all
  have t: "take 8 x = take 6 x @ [x ! 6, x ! 7]"
    using l by (simp add: take_Suc_conv_app_nth eval_nat_numeral)
  have "be16 d (i + 6) = Some (be_at d (nat (i + 6)))" using assms by (intro be16_at) simp_all
  also have "be_at d (nat (i + 6)) = be_at x 6" unfolding be_at_def x_def n using assms by (simp add: n nth_drop_nat add.commute)
  finally have b: "be16 d (i + 6) = Some (be_at x 6)" .
  have e: "be_at x 6 = 0x888E \<longleftrightarrow> x ! 6 = 0x88 \<and> x ! 7 = 0x8E"
  proof
    assume "be_at x 6 = 0x888E"
    then have "be_put (be_at x 6) = be_put 0x888E" by simp
    then show "x ! 6 = 0x88 \<and> x ! 7 = 0x8E" unfolding be_at_octets by (simp add: be_put_def)
  qed (simp add: be_at_def)
  have "bytes_at d i 6 = Some (take 6 x)" using assms by (simp add: x_def)
  moreover have "length (take 6 x) = 6" using l by simp
  ultimately show ?thesis unfolding b option.inject e x_def [symmetric] t
    by (auto simp: append_eq_append_conv [of "take 6 x" "[0xAA, 0xAA, 0x03, 0, 0, 0]", simplified])
qed

lemma frame_addr:
  assumes "frame_wf f" "f_p f = Some d" "q \<in> {f_bssid f, f_sa f, f_da f}" "q \<noteq> None"
  shows "addr_at f q = Some (mac_in f d q)" "length (mac_in f d q) = 6"
proof -
  obtain i where i: "q = Some i" using assms(4) by auto
  have "ptr_ok (f_len f) q" using assms(1,3) by (auto simp: frame_wf_def)
  then have "4 \<le> i" "i + 6 \<le> int (length d)" using assms(1,2) by (auto simp: ptr_ok_def i frame_wf_def)
  then show "addr_at f q = Some (mac_in f d q)" "length (mac_in f d q) = 6"
    using assms(2) by (simp_all add: addr_at_def mac_in_def i)
qed

lemma carried_ok:
  assumes "frame_wf f" "carried f = Some (b, s, p, n)"
  shows "length b = 6" "length s = 6" "4 \<le> n" "n \<le> int (length p)" "0 \<le> f_len f" "\<exists>d. f_p f = Some d \<and> f_len f \<le> int (length d)"
proof -
  obtain d where d: "f_p f = Some d" using assms(2) by (auto simp: carried_def split: option.splits)
  have l: "f_len f \<le> int (length d)" "0 \<le> f_len f" using assms(1) d by (simp_all add: frame_wf_def)
  note c = assms(2) [unfolded carried_def d option.case Let_def]
  from c have "b = mac_in f d (f_bssid f)" "f_bssid f \<noteq> None" "f_sa f \<noteq> None" "f_da f \<noteq> None"
    "s = mac_in f d (if f_to_ds f then f_sa f else f_da f)" "p = drop (nat (f_hdr_len f + 8)) d" "n = f_len f - f_hdr_len f - 8"
    "f_hdr_len f + 12 \<le> f_len f" "0 \<le> f_hdr_len f"
    by (auto split: if_splits)
  with l frame_addr(2) [OF assms(1) d] d show "length b = 6" "length s = 6" "4 \<le> n" "n \<le> int (length p)" "0 \<le> f_len f"
    "\<exists>d. f_p f = Some d \<and> f_len f \<le> int (length d)"
    by auto
qed

lemma observe_frame_eq:
  assumes wf: "frame_wf f"
  shows "eapol_observe_frame ssid_of (Some f) signal channel now ts_usec st h = (case carried f of
      None \<Rightarrow> Some (False, [], st, h)
    | Some (b, s, p, n) \<Rightarrow>
        if p ! 1 = 0 then Some (True, [Eap_Track b s (f_from_ds f) (take (nat (n - 4)) (drop 4 p)) now,
                                       Wps_Track b s (take (nat (n - 4)) (drop 4 p)) now], st, h)
        else do {
          (res, h) \<leftarrow> parse_eapol_key p n h;
          case res of
            Rejected why \<Rightarrow> Some (False, [], st\<lparr>el_rejects := (el_rejects st)(why := el_rejects st why + 1)\<rparr>, h)
          | Not_Key \<Rightarrow> Some (False, [], st, h)
          | Key_Msg k \<Rightarrow> do {
              (calls, st, h) \<leftarrow> observe_key ssid_of b s (f_from_ds f) f (the (f_p f)) p k signal channel now
                (if ts_usec \<ge> 0 \<and> ts_usec \<le> 999999 then word_of_int ts_usec else 0) st h;
              Some (True, calls, st, h) } })"
proof (cases "f_p f")
  case None
  then show ?thesis by (simp add: eapol_observe_frame_def carried_def)
next
  case (Some d)
  show ?thesis
  proof (cases "32 \<le> f_len f \<and> f_type f = 2 \<and> 0 \<le> f_hdr_len f \<and> f_hdr_len f + 12 \<le> f_len f")
    case False
    with Some show ?thesis by (auto simp: eapol_observe_frame_def carried_def Let_def)
  next
    case g: True
    have l: "f_len f \<le> int (length d)" using wf Some by (simp add: frame_wf_def)
    then have h8: "0 \<le> f_hdr_len f" "f_hdr_len f + 8 \<le> int (length d)" using g by simp_all
    note sn = snap_octets [OF h8]
    obtain llc et where r: "bytes_at d (f_hdr_len f) 6 = Some llc" "be16 d (f_hdr_len f + 6) = Some et"
      using h8 be16_at [of "f_hdr_len f + 6" d] by simp
    have gg: "(f_len f < 32) = False" "(f_type f \<noteq> 2) = False" "(f_hdr_len f < 0 \<or> f_len f < f_hdr_len f + 8 + 4) = False"
      using g by auto
    note e = eapol_observe_frame_def [of ssid_of "Some f", unfolded option.case Some Let_def gg if_False r Option.bind.bind_lunit]
    show ?thesis
    proof (cases "llc = [0xAA, 0xAA, 0x03, 0, 0, 0] \<and> et = 0x888E \<and> f_to_ds f \<noteq> f_from_ds f
        \<and> f_bssid f \<noteq> None \<and> f_sa f \<noteq> None \<and> f_da f \<noteq> None")
      case False
      then have "carried f = None" using sn r Some by (auto simp: carried_def Let_def)
      with False show ?thesis unfolding e by auto
    next
      case True
      define q where "q = (if f_to_ds f then f_sa f else f_da f)"
      have q: "q \<in> {f_bssid f, f_sa f, f_da f}" "q \<noteq> None" using True by (auto simp: q_def)
      have c: "carried f = Some (mac_in f d (f_bssid f), mac_in f d q, drop (nat (f_hdr_len f + 8)) d, f_len f - f_hdr_len f - 8)"
        using True sn r g Some by (auto simp: carried_def Let_def q_def)
      define p where "p = drop (nat (f_hdr_len f + 8)) d"
      define n where "n = f_len f - f_hdr_len f - 8"
      have pn: "4 \<le> n" "n \<le> int (length p)" using carried_ok(3,4) [OF wf c] unfolding p_def [symmetric] n_def [symmetric] .
      have a: "addr_at f (f_bssid f) = Some (mac_in f d (f_bssid f))" "addr_at f q = Some (mac_in f d q)"
        using frame_addr(1) [OF wf Some] True q by simp_all
      have y: "byte_at p 1 = Some (p ! 1)" "bytes_at p 4 (n - 4) = Some (take (nat (n - 4)) (drop 4 p))" "(n \<ge> 4) = True"
        using pn by simp_all
      have t: "(llc \<noteq> [0xAA, 0xAA, 0x03, 0, 0, 0]) = False" "(et \<noteq> 0x888E) = False" "(f_to_ds f = f_from_ds f) = False"
        "(f_bssid f = None \<or> f_sa f = None \<or> f_da f = None) = False"
        using True by auto
      show ?thesis
        unfolding e t if_False q_def [symmetric] a Option.bind.bind_lunit p_def [symmetric] n_def [symmetric] y c option.case prod.case Some
          option.sel simp_thms ..
    qed
  qed
qed

section \<open>The messages a frame is heard as\<close>

definition key_of :: "bytes \<Rightarrow> int \<Rightarrow> key_msg option" where
  "key_of p n = (if descriptor p n \<and> bit (be_at p 5) 3 \<and> uint (be_at p 97) \<le> span_of p - 99 \<and> classify (be_at p 5) \<noteq> 0
     then Some (fields_of p) else None)"

definition msg_in :: "dot11_frame_t \<Rightarrow> (mac \<times> mac \<times> key_msg) option" where
  "msg_in f = (case carried f of None \<Rightarrow> None | Some (b, s, p, n) \<Rightarrow> map_option (\<lambda>k. (b, s, k)) (key_of p n))"

text \<open>A message counts in its own direction only: the first and third are the access point's.\<close>

definition heard_msg :: "dot11_frame_t \<Rightarrow> (mac \<times> mac \<times> key_msg) option" where
  "heard_msg f = (case msg_in f of None \<Rightarrow> None
     | Some (b, s, k) \<Rightarrow> if (km_msg k = 1 \<or> km_msg k = 3) = f_from_ds f then Some (b, s, k) else None)"

lemma parse_key:
  assumes "n \<le> int (length p)"
  shows "\<exists>r h'. parse_eapol_key p n h = Some (r, h') \<and> (case r of Key_Msg k \<Rightarrow> key_of p n = Some k | _ \<Rightarrow> key_of p n = None)"
proof (cases "descriptor p n")
  case True
  with parse_fields [OF assms True, of h] show ?thesis by (auto simp: key_of_def)
next
  case False
  with parse_early [OF assms False, of h] show ?thesis by (auto simp: key_of_def)
qed

lemma key_of_ok: "key_of p n = Some k \<Longrightarrow> n \<le> int (length p) \<Longrightarrow> key_ok k \<and> km_span k \<le> n \<and> p ! 1 \<noteq> 0"
  using fields_ok [of n p] by (auto simp: key_of_def descriptor_def split: if_splits)

definition usec_of :: "int \<Rightarrow> u32" where
  "usec_of ts_usec = (if ts_usec \<ge> 0 \<and> ts_usec \<le> 999999 then word_of_int ts_usec else 0)"

text \<open>What hearing a message leaves: the row and event of its pair, the calls, the state.\<close>

definition heard_as ::
  "(mac \<Rightarrow> bytes) \<Rightarrow> dot11_frame_t \<Rightarrow> mac \<Rightarrow> mac \<Rightarrow> key_msg \<Rightarrow> int \<Rightarrow> int \<Rightarrow> time_t \<Rightarrow> int \<Rightarrow> eapol_t \<Rightarrow> pending_t \<times> eapol_event_t" where
  "heard_as ssid_of f b s k signal channel now ts_usec st =
     pair_step now (usec_of ts_usec) (take (nat (min 512 (f_len f))) (the (f_p f))) (f_len f) k
       (event_for ssid_of b s k signal channel now) (row_for b s now st)"

definition assoc_calls :: "dot11_frame_t \<Rightarrow> int \<Rightarrow> int \<Rightarrow> eapol_event_t \<Rightarrow> eapol_call list" where
  "assoc_calls f signal channel ev =
     (if assoc_evidence ev then [Assoc_Observe (ee_bssid ev) (ee_sta_mac ev) (if ee_ssid ev \<noteq> [] then Some (ee_ssid ev) else None)
        signal channel (f_band f)] else [])"

definition other_calls :: "eapol_call list \<Rightarrow> bool" where
  "other_calls cs \<longleftrightarrow> (\<forall>c \<in> set cs. (\<exists>b s d p t. c = Eap_Track b s d p t) \<or> (\<exists>b s p t. c = Wps_Track b s p t))"

definition eapol_of :: "dot11_frame_t \<Rightarrow> bytes" where
  "eapol_of f = (case carried f of None \<Rightarrow> [] | Some (b, s, p, n) \<Rightarrow> p)"

lemma eapol_ok_event:
  assumes "eapol_ok st"
  shows "eapol_ok (push_event ev st)" "el_pending (push_event ev st) = el_pending st"
    "el_collect (push_event ev st) = el_collect st" "el_out_fd (push_event ev st) = el_out_fd st" "el_out_dir (push_event ev st) = el_out_dir st"
  using assms by (simp_all add: eapol_ok_def push_event_def MAX_EAPOL_EVENTS_def)

lemma eapol_ok_pending:
  assumes ok: "eapol_ok st" and m: "length b = 6" "length s = 6" and k: "key_ok k" and d: "length d \<le> 512"
    and u: "stab_upsert (pair_upd b s dir now usec d len k ev) (b, s) now h (el_pending st) = (t', h')"
  shows "eapol_ok (st\<lparr>el_pending := t'\<rparr>)"
    "\<forall>p \<in> set (rows (el_pending st)). P p \<Longrightarrow> (\<And>c r. c \<or> P r \<Longrightarrow> P (pair_upd b s dir now usec d len k ev c r)) \<Longrightarrow> \<forall>p \<in> set (rows t'). P p"
proof -
  have t: "same_decl pending_decl (el_pending st)" "tab_ok pd_key (el_pending st)" "\<forall>p \<in> set (rows (el_pending st)). pending_ok p"
    using ok by (simp_all add: eapol_ok_def)
  note kk = pair_upd_keeps [of b s dir now usec d len k ev]
  note m' = pairs.upsert_map [OF t(1,2) pending_decl_simps(5) kk u] and r = pairs.upsert_rows [OF t(1,2) pending_decl_simps(5) kk u]
  have "\<forall>p \<in> set (rows t'). pending_ok p"
    using t(3) pair_upd_ok [OF k d m] pending_ok_zero by (intro r) auto
  with m'(1,2) ok show "eapol_ok (st\<lparr>el_pending := t'\<rparr>)" by (simp add: eapol_ok_def)
  show "\<forall>p \<in> set (rows (el_pending st)). P p \<Longrightarrow> (\<And>c r. c \<or> P r \<Longrightarrow> P (pair_upd b s dir now usec d len k ev c r)) \<Longrightarrow> \<forall>p \<in> set (rows t'). P p"
    by (intro r) auto
qed

lemma observe_step:
  assumes wf: "frame_wf f" and ok: "eapol_ok st"
  obtains (other) ret calls st' h' where
    "eapol_observe_frame ssid_of (Some f) signal channel now ts_usec st h = Some (ret, calls, st', h')" "eapol_ok st'"
    "heard_msg f = None" "other_calls calls" "el_pending st' = el_pending st" "el_collect st' = el_collect st"
    "el_out_fd st' = el_out_fd st" "el_out_dir st' = el_out_dir st"
    "(\<exists>r. st' = st\<lparr>el_rejects := r\<rparr>) \<or> (\<exists>b s k. msg_in f = Some (b, s, k) \<and> st' = push_event (event_for ssid_of b s k signal channel now) st)"
  | (heard) b s k calls t' hx h' d where
    "eapol_observe_frame ssid_of (Some f) signal channel now ts_usec st h = Some (True, calls,
       (push_event (snd (heard_as ssid_of f b s k signal channel now ts_usec st)) st)\<lparr>el_pending := t'\<rparr>, h')"
    "eapol_ok ((push_event (snd (heard_as ssid_of f b s k signal channel now ts_usec st)) st)\<lparr>el_pending := t'\<rparr>)"
    "heard_msg f = Some (b, s, k)" "key_ok k" "length b = 6" "length s = 6"
    "calls = assoc_calls f signal channel (snd (heard_as ssid_of f b s k signal channel now ts_usec st))
       @ hashcat_calls st k (eapol_of f) (snd (heard_as ssid_of f b s k signal channel now ts_usec st)) (fst (heard_as ssid_of f b s k signal channel now ts_usec st))"
    "d = take (nat (min 512 (f_len f))) (the (f_p f))" "length d \<le> 512"
    "stab_upsert (pair_upd b s (el_out_dir st) now (usec_of ts_usec) d (f_len f) k (event_for ssid_of b s k signal channel now))
       (b, s) now hx (el_pending st) = (t', h')"
proof -
  note e = observe_frame_eq [OF wf, of ssid_of signal channel now ts_usec st h]
  show thesis
  proof (cases "carried f")
    case None
    with ok show thesis by (intro other [of False "[]" st h]) (auto simp: e heard_msg_def msg_in_def other_calls_def intro: exI [of _ "el_rejects st"])
  next
    case (Some c)
    then obtain b s p n where c: "carried f = Some (b, s, p, n)" by (cases c) auto
    note co = carried_ok [OF wf c]
    have rej: "eapol_ok (st\<lparr>el_rejects := r\<rparr>)" for r using ok by (simp add: eapol_ok_def)
    show thesis
    proof (cases "p ! 1 = 0")
      case True
      then have "key_of p n = None" by (simp add: key_of_def descriptor_def)
      with True ok show thesis
        by (intro other) (auto simp: e c heard_msg_def msg_in_def other_calls_def intro: exI [of _ "el_rejects st"])
    next
      case False
      obtain r h1 where r: "parse_eapol_key p n h = Some (r, h1)" "case r of Key_Msg k \<Rightarrow> key_of p n = Some k | _ \<Rightarrow> key_of p n = None"
        using parse_key [OF co(4), of h] by blast
      show thesis
      proof (cases r)
        case Not_Key
        with False r ok show thesis
          by (intro other [of False "[]" st h1]) (auto simp: e c heard_msg_def msg_in_def other_calls_def intro: exI [of _ "el_rejects st"])
      next
        case (Rejected why)
        with False r ok rej show thesis
          by (intro other [of False "[]" "st\<lparr>el_rejects := (el_rejects st)(why := el_rejects st why + 1)\<rparr>" h1])
            (auto simp: e c heard_msg_def msg_in_def other_calls_def)
      next
        case (Key_Msg k)
        then have k: "key_of p n = Some k" using r(2) by simp
        then have kk: "key_ok k" "km_span k \<le> int (length p)" using key_of_ok [OF k co(4)] co(4) by simp_all
        have mi: "msg_in f = Some (b, s, k)" using k by (simp add: msg_in_def c)
        obtain d where d: "f_p f = Some d" "f_len f \<le> int (length d)" using co(6) by blast
        show thesis
        proof (cases "(km_msg k = 1 \<or> km_msg k = 3) = f_from_ds f")
          case dir: True
          define d' where "d' = take (nat (min 512 (f_len f))) d"
          obtain t' h' where u: "stab_upsert (pair_upd b s (el_out_dir st) now (usec_of ts_usec) d' (f_len f) k (event_for ssid_of b s k signal channel now))
              (b, s) now h1 (el_pending st) = (t', h')" by fastforce
          have d512: "length d' \<le> 512" by (simp add: d'_def)
          note ob = observe_key_ok [OF ok co(1,2) kk co(5) d(2) dir refl refl refl refl, of ssid_of signal channel now "usec_of ts_usec" h1]
          have okp: "eapol_ok ((push_event ev st)\<lparr>el_pending := t'\<rparr>)" for ev
            by (rule eapol_ok_pending(1) [OF eapol_ok_event(1) [OF ok] co(1,2) kk(1) d512])
              (use u in \<open>simp add: eapol_ok_event(2) [OF ok]\<close>)
          show thesis
            by (rule heard [where b = b and s = s and k = k and t' = t' and h' = h' and d = d' and hx = h1])
              (use False r(1) Key_Msg ob u d d512 mi dir kk co(1,2) okp in \<open>simp_all add: e c usec_of_def [symmetric] heard_as_def d'_def [symmetric] assoc_calls_def eapol_of_def heard_msg_def eapol_ok_event [OF ok]\<close>)
        next
          case False
          let ?ev = "event_for ssid_of b s k signal channel now"
          have "observe_key ssid_of b s (f_from_ds f) f d p k signal channel now (usec_of ts_usec) st h1 = Some ([], push_event ?ev st, h1)"
            using False by (simp add: observe_key_def event_for_def Let_def)
          then show thesis
            using False \<open>p ! 1 \<noteq> 0\<close> r(1) Key_Msg d mi eapol_ok_event [OF ok, of ?ev]
            by (intro other [of True "[]" "push_event ?ev st" h1]) (auto simp: e c usec_of_def [symmetric] heard_msg_def other_calls_def)
        qed
      qed
    qed
  qed
qed

end
