(* ===== verification/EapolRuns.thy ===== *)
theory EapolRuns
  imports EapolLog
begin

section \<open>Runs\<close>

text \<open>The log of a run, latest first: the messages heard, each with its pair and its time.\<close>

type_synonym key_log = "(mac \<times> mac \<times> key_msg \<times> time_t) list"

definition logged :: "dot11_frame_t \<Rightarrow> time_t \<Rightarrow> key_log \<Rightarrow> key_log" where
  "logged f now log = (case heard_msg f of None \<Rightarrow> log | Some (b, s, k) \<Rightarrow> (b, s, k, now) # log)"

inductive eapol_run :: "eapol_t \<Rightarrow> key_log \<Rightarrow> bool" where
  boot: "eapol_run eapol_boot []"
| frame: "eapol_run st log \<Longrightarrow> frame_wf f
    \<Longrightarrow> eapol_observe_frame ssid_of (Some f) signal channel now ts_usec st h = Some (ret, calls, st', h')
    \<Longrightarrow> eapol_run st' (logged f now log)"
| clear: "eapol_run st log \<Longrightarrow> eapol_run (eapol_clear st) log"
| dir: "eapol_run st log \<Longrightarrow> eapol_set_output_dir path opened st = (r, st') \<Longrightarrow> eapol_run st' log"
| collect: "eapol_run st log \<Longrightarrow> eapol_run (eapol_set_collect_enabled on st) log"
| sweep: "eapol_run st log \<Longrightarrow> eapol_sweep now entries tn st = (n, removed, st') \<Longrightarrow> eapol_run st' log"
| maintain: "eapol_run st log \<Longrightarrow> eapol_maintain now entries tn st = (removed, st') \<Longrightarrow> eapol_run st' log"

text \<open>The last message of a kind heard for a pair.\<close>

definition last_msg :: "int \<Rightarrow> key_log \<Rightarrow> pending_key_t \<Rightarrow> (key_msg \<times> time_t) option" where
  "last_msg i log key = map_option (\<lambda>(b, s, k, t). (k, t)) (find (\<lambda>(b, s, k, t). (b, s) = key \<and> km_msg k = i) log)"

lemma last_msg_Cons:
  "last_msg i ((b, s, k, t) # log) key = (if (b, s) = key \<and> km_msg k = i then Some (k, t) else last_msg i log key)"
  by (simp add: last_msg_def)

definition row_log :: "key_log \<Rightarrow> pending_key_t \<Rightarrow> pending_t \<Rightarrow> bool" where
  "row_log log key p \<longleftrightarrow>
     (has_m1 p \<longrightarrow> (\<exists>k. last_msg 1 log key = Some (k, m1_ts p) \<and> km_rc k = m1_rc p \<and> km_nonce k = pd_anonce p))
   \<and> 0 \<le> generation p \<and> (has_installed p \<longleftrightarrow> 0 < generation p)
   \<and> (has_installed p \<longrightarrow> (\<exists>k t. last_msg 3 log key = Some (k, t) \<and> km_nonce k = installed_anonce p))
   \<and> (paired p \<longrightarrow> rc_checked p)"

definition log_ok :: "eapol_t \<Rightarrow> key_log \<Rightarrow> bool" where
  "log_ok st log \<longleftrightarrow> (\<forall>key p. tab_map pd_key (el_pending st) key = Some p \<longrightarrow> row_log log key p)"

lemma row_log_exported [simp]: "row_log log key (p\<lparr>exported := x\<rparr>) = row_log log key p"
  by (simp add: row_log_def)

lemma row_log_mark [simp]: "row_log log key (mark_exported dir k ev p) = row_log log key p"
  by (simp add: mark_exported_def)

lemma row_log_reset: "row_log log key p \<Longrightarrow> row_log log key (attempt_reset p)"
  by (simp add: row_log_def attempt_reset_def)

lemma row_log_began:
  assumes "row_log log key p"
  shows "row_log log key (began now k p)"
proof -
  have "row_log log key (p\<lparr>pd_last_seen := now\<rparr>)" using assms by (simp add: row_log_def)
  then have "row_log log key (attempt_expire now (p\<lparr>pd_last_seen := now\<rparr>))"
    by (simp add: attempt_expire_def row_log_reset)
  then show ?thesis unfolding began_def Let_def by (auto intro: row_log_reset)
qed

lemma row_log_buffer: "row_log log key (buffer_frame m d len now usec p) = row_log log key p"
  by (simp add: row_log_def buffer_frame_def Let_def)

lemma row_log_other:
  assumes "row_log log (b, s) p" "km_msg k \<noteq> 1" "km_msg k \<noteq> 3"
  shows "row_log ((b, s, k, now) # log) (b, s) p"
  using assms by (simp add: row_log_def last_msg_Cons)

lemma row_log_on_msg:
  assumes r: "row_log log (b, s) p" and k: "key_ok k"
  shows "row_log ((b, s, k, now) # log) (b, s) (fst (on_msg now k (p, ev)))"
proof -
  consider "km_msg k = 1" | "km_msg k = 2" | "km_msg k = 3" | "km_msg k = 4" using k by (auto simp: key_ok_def)
  then show ?thesis
  proof cases
    case 1
    with r show ?thesis by (cases "km_pmkid k") (simp_all add: on_msg_def on_m1_def row_log_def last_msg_Cons Let_def)
  next
    case 2
    with row_log_other [OF r, of k now] show ?thesis by (simp add: on_msg_def on_m2_def row_log_def Let_def)
  next
    case 3
    with r show ?thesis by (auto simp add: on_msg_def on_m3_def row_log_def last_msg_Cons Let_def)
  next
    case 4
    with row_log_other [OF r, of k now] show ?thesis by (simp add: on_msg_def on_m4_def row_log_def Let_def)
  qed
qed

lemma row_log_pair_step:
  assumes "row_log log (b, s) p" "key_ok k"
  shows "row_log ((b, s, k, now) # log) (b, s) (fst (pair_step now usec d len k ev p))"
proof -
  have "row_log log (b, s) (buffer_frame (km_msg k) d len now usec (began now k p))"
    unfolding row_log_buffer by (rule row_log_began [OF assms(1)])
  from row_log_on_msg [OF this assms(2)] show ?thesis unfolding pair_step_eq by (simp add: case_prod_unfold Let_def)
qed

text \<open>What one message leaves of the table.\<close>

lemma heard_table:
  assumes ok: "eapol_ok st" and q: "q = heard_as ssid_of f b s k signal channel now ts_usec st"
    and d: "d = take (nat (min 512 (f_len f))) (the (f_p f))"
    and u: "stab_upsert (pair_upd b s (el_out_dir st) now (usec_of ts_usec) d (f_len f) k (event_for ssid_of b s k signal channel now))
       (b, s) now h (el_pending st) = (t', h')"
  shows "tab_map pd_key t' (b, s) = Some (mark_exported (el_out_dir st) k (snd q) (fst q))"
    "\<And>key. key \<noteq> (b, s) \<Longrightarrow> tab_map pd_key t' key \<in> {tab_map pd_key (el_pending st) key, None}"
    "\<And>key. key \<noteq> (b, s) \<Longrightarrow> tab_map pd_key (el_pending st) (b, s) \<noteq> None \<or> st_n (el_pending st) < 64
      \<Longrightarrow> tab_map pd_key t' key = tab_map pd_key (el_pending st) key"
proof -
  have t: "same_decl pending_decl (el_pending st)" "tab_ok pd_key (el_pending st)" using ok by (simp_all add: eapol_ok_def)
  have c: "st_cap (el_pending st) = 64" using t(1) by (simp add: same_decl_def)
  note m = pairs.upsert_map [OF t pending_decl_simps(5) pair_upd_keeps u]
  show "tab_map pd_key t' (b, s) = Some (mark_exported (el_out_dir st) k (snd q) (fst q))"
    unfolding m(3) q heard_as_def d [symmetric] row_for_def
    by (simp add: pair_upd_def case_prod_unfold Let_def split: option.split)
  show "\<And>key. key \<noteq> (b, s) \<Longrightarrow> tab_map pd_key t' key \<in> {tab_map pd_key (el_pending st) key, None}" by (rule m(4))
  show "\<And>key. key \<noteq> (b, s) \<Longrightarrow> tab_map pd_key (el_pending st) (b, s) \<noteq> None \<or> st_n (el_pending st) < 64
      \<Longrightarrow> tab_map pd_key t' key = tab_map pd_key (el_pending st) key"
    using m(5) by (simp add: c)
qed

lemma row_for_log: "log_ok st log \<Longrightarrow> row_log log (b, s) (row_for b s now st)"
  by (auto simp: log_ok_def row_for_def row_log_def pending_zero_def split: option.split)

text \<open>The latest events, newest first: a bounded list of everything pushed.\<close>

lemma snapshot_push:
  assumes "eapol_ok st"
  shows "eapol_snapshot (push_event ev st) = take 256 (ev # eapol_snapshot st)"
proof -
  note r = assms [unfolded eapol_ok_def MAX_EAPOL_EVENTS_def]
  let ?h = "el_head st" and ?n = "el_count st"
  have snap: "eapol_snapshot s = map (\<lambda>i. el_events s ! nat ((int (el_head s) - 1 - int i) mod 256)) [0..<el_count s]"
    if "el_count s \<le> 256" for s
    using that by (auto simp: eapol_snapshot_def MAX_EAPOL_EVENTS_def Let_def)
  have c: "el_count (push_event ev st) = min 256 (Suc ?n)" "el_head (push_event ev st) = Suc ?h mod 256"
    "el_events (push_event ev st) = (el_events st)[?h := ev]"
    using r by (auto simp: push_event_def MAX_EAPOL_EVENTS_def)
  have mod: "(int (Suc ?h mod 256) - 1 - int i) mod 256 = (int ?h - int i) mod 256" for i
    by (simp add: zmod_int mod_diff_left_eq algebra_simps)
  show ?thesis
  proof (rule nth_equalityI)
    show "length (eapol_snapshot (push_event ev st)) = length (take 256 (ev # eapol_snapshot st))"
      using r c by (simp add: snap)
    fix i assume "i < length (eapol_snapshot (push_event ev st))"
    then have i: "i < 256" "i < Suc ?n" using c by (simp_all add: snap)
    have v: "eapol_snapshot (push_event ev st) ! i = (el_events st)[?h := ev] ! nat ((int ?h - int i) mod 256)"
    proof -
      have "el_count (push_event ev st) \<le> 256" "i < el_count (push_event ev st)" using i c(1) by simp_all
      then show ?thesis by (simp add: snap) (simp add: c(2,3) mod)
    qed
    show "eapol_snapshot (push_event ev st) ! i = take 256 (ev # eapol_snapshot st) ! i"
    proof (cases i)
      case 0
      with v r show ?thesis by simp
    next
      case (Suc j)
      have "nat ((int ?h - int i) mod 256) \<noteq> ?h"
      proof
        assume "nat ((int ?h - int i) mod 256) = ?h"
        then have "(int ?h - int i) mod 256 = int ?h mod 256" using r by simp
        then have "256 dvd int i" unfolding mod_eq_dvd_iff by simp
        with i Suc show False by (auto dest: zdvd_imp_le)
      qed
      with v i r Suc show ?thesis by (simp add: snap algebra_simps)
    qed
  qed
qed

section \<open>Every state of a run\<close>

lemma snapshot_fields [simp]:
  "eapol_snapshot (st\<lparr>el_pending := t\<rparr>) = eapol_snapshot st" "eapol_snapshot (st\<lparr>el_rejects := r\<rparr>) = eapol_snapshot st"
  "eapol_snapshot (st\<lparr>el_last_sweep := n\<rparr>) = eapol_snapshot st" "eapol_snapshot (st\<lparr>el_collect := c\<rparr>) = eapol_snapshot st"
  "eapol_snapshot (st\<lparr>el_out_fd := fd\<rparr>) = eapol_snapshot st" "eapol_snapshot (st\<lparr>el_out_dir := d\<rparr>) = eapol_snapshot st"
  by (simp_all add: eapol_snapshot_def)

text \<open>A pairing the log accounts for: both messages, of one exchange, and no first message between them.\<close>

definition backed :: "key_log \<Rightarrow> eapol_event_t \<Rightarrow> bool" where
  "backed log ev \<longleftrightarrow> (\<exists>newer k2 older k1 t1. log = newer @ (ee_bssid ev, ee_sta_mac ev, k2, ee_ts ev) # older
     \<and> km_msg k2 = 2 \<and> km_nonce k2 = ee_snonce ev \<and> km_mic k2 = ee_mic ev
     \<and> last_msg 1 older (ee_bssid ev, ee_sta_mac ev) = Some (k1, t1)
     \<and> km_rc k1 = km_rc k2 \<and> km_nonce k1 = ee_anonce ev \<and> ee_ts ev - t1 \<le> 10)"

lemma backed_Cons: "backed log ev \<Longrightarrow> backed (l # log) ev"
  unfolding backed_def by (elim exE) (rule_tac x = "l # newer" in exI, auto)

lemma began_m1:
  assumes "km_msg k \<noteq> 1" "has_m1 (began now k p)"
  shows "has_m1 p" "now - m1_ts p \<le> 10" "m1_rc (began now k p) = m1_rc p" "pd_anonce (began now k p) = pd_anonce p"
  using assms by (auto simp: began_def attempt_expire_def attempt_reset_def EAPOL_PAIR_WINDOW_S_def Let_def split: if_splits)

lemma buffer_simps [simp]:
  "has_m1 (buffer_frame m d len now usec p) = has_m1 p" "m1_rc (buffer_frame m d len now usec p) = m1_rc p"
  "pd_anonce (buffer_frame m d len now usec p) = pd_anonce p" "generation (buffer_frame m d len now usec p) = generation p"
  "has_installed (buffer_frame m d len now usec p) = has_installed p" "exported (buffer_frame m d len now usec p) = exported p"
  "installed_anonce (buffer_frame m d len now usec p) = installed_anonce p"
  "pd_has_pmkid (buffer_frame m d len now usec p) = pd_has_pmkid p" "pd_pmkid (buffer_frame m d len now usec p) = pd_pmkid p"
  "progress (buffer_frame m d len now usec p) = progress p"
  by (simp_all add: buffer_frame_def Let_def)

text \<open>The event of a message.\<close>

lemma heard_event:
  assumes "q = heard_as ssid_of f b s k signal channel now ts_usec st" "key_ok k"
    "p = began now k (row_for b s now st)"
  shows "ee_bssid (snd q) = b" "ee_sta_mac (snd q) = s" "ee_ts (snd q) = now" "ee_msg_num (snd q) = km_msg k"
    "ee_ssid (snd q) = ssid_of b"
    "handshake_complete (snd q) \<longleftrightarrow> km_msg k = 2 \<and> has_m1 p \<and> m1_rc p = km_rc k"
    "handshake_complete (snd q) \<Longrightarrow> ee_anonce (snd q) = pd_anonce p \<and> ee_snonce (snd q) = km_nonce k \<and> ee_mic (snd q) = km_mic k"
proof -
  let ?e = "event_for ssid_of b s k signal channel now"
  let ?b = "buffer_frame (km_msg k) (take (nat (min 512 (f_len f))) (the (f_p f))) (f_len f) now (usec_of ts_usec) p"
  have q: "snd q = (snd (on_msg now k (?b, ?e)))\<lparr>handshake_progress := progress (fst (on_msg now k (?b, ?e)))\<rparr>"
    unfolding assms(1,3) heard_as_def pair_step_eq by (simp add: case_prod_unfold Let_def)
  have e: "ee_bssid ?e = b" "ee_sta_mac ?e = s" "ee_ts ?e = now" "ee_msg_num ?e = km_msg k" "ee_ssid ?e = ssid_of b" "\<not> handshake_complete ?e"
    by (simp_all add: event_for_def event_zero_def)
  have k: "km_msg k = 1 \<or> km_msg k = 2 \<or> km_msg k = 3 \<or> km_msg k = 4" using assms(2) by (auto simp: key_ok_def)
  note d = on_msg_def on_m1_def on_m2_def on_m3_def on_m4_def rc_eq_def Let_def
  show "ee_bssid (snd q) = b" "ee_sta_mac (snd q) = s" "ee_ts (snd q) = now" "ee_msg_num (snd q) = km_msg k"
    "ee_ssid (snd q) = ssid_of b"
    "handshake_complete (snd q) \<longleftrightarrow> km_msg k = 2 \<and> has_m1 p \<and> m1_rc p = km_rc k"
    "handshake_complete (snd q) \<Longrightarrow> ee_anonce (snd q) = pd_anonce p \<and> ee_snonce (snd q) = km_nonce k \<and> ee_mic (snd q) = km_mic k"
    using k e unfolding q by (auto simp: d split: option.split)
qed

lemma heard_backed:
  assumes ok: "log_ok st log" and q: "q = heard_as ssid_of f b s k signal channel now ts_usec st" and k: "key_ok k"
    and c: "handshake_complete (snd q)"
  shows "backed ((b, s, k, now) # log) (snd q)"
proof -
  define p where "p = began now k (row_for b s now st)"
  note ev = heard_event [OF q k p_def]
  have k2: "km_msg k = 2" and m: "has_m1 p" "m1_rc p = km_rc k" using c ev(6) by simp_all
  have "km_msg k \<noteq> 1" using k2 by simp
  note g = began_m1 [OF this m(1) [unfolded p_def], folded p_def]
  from row_for_log [OF ok, of b s now] g(1)
  obtain k1 where "last_msg 1 log (b, s) = Some (k1, m1_ts (row_for b s now st))" "km_rc k1 = m1_rc p" "km_nonce k1 = pd_anonce p"
    unfolding row_log_def g(3,4) by blast
  with ev c k2 m g(2) show ?thesis
    unfolding backed_def
    by (intro exI [of _ "[]"] exI [of _ k] exI [of _ log] exI [of _ k1] exI [of _ "m1_ts (row_for b s now st)"]) simp
qed

definition run_inv :: "eapol_t \<Rightarrow> key_log \<Rightarrow> bool" where
  "run_inv st log \<longleftrightarrow> eapol_ok st \<and> log_ok st log
     \<and> (\<forall>ev \<in> set (eapol_snapshot st). handshake_complete ev \<longrightarrow> backed log ev)
     \<and> (\<not> el_collect st \<longrightarrow> el_out_fd st < 0) \<and> (el_out_fd st < 0 \<longrightarrow> el_out_dir st = [])"

lemma run_inv_boot: "run_inv eapol_boot []"
proof -
  have "tab_ok pd_key pending_decl" unfolding pending_decl_def by (rule stab_decl_ok) simp
  moreover have "rows pending_decl = []" by (simp add: pending_decl_def STAB_DECL_AGE_def rows_def)
  ultimately show ?thesis
    by (simp add: run_inv_def eapol_ok_def log_ok_def tab_map_def eapol_boot_def MAX_EAPOL_EVENTS_def eapol_snapshot_def)
qed

lemma row_log_heard:
  assumes "log_ok st log" "key_ok k" "q = heard_as ssid_of f b s k signal channel now ts_usec st"
  shows "row_log ((b, s, k, now) # log) (b, s) (fst q)"
  unfolding assms(3) heard_as_def by (rule row_log_pair_step [OF row_for_log [OF assms(1)] assms(2)])

lemma row_log_Cons_other: "row_log log key p \<Longrightarrow> (b, s) \<noteq> key \<Longrightarrow> row_log ((b, s, k, now) # log) key p"
  by (simp add: row_log_def last_msg_Cons)

lemma run_inv_frame:
  assumes inv: "run_inv st log" and wf: "frame_wf f"
    and o: "eapol_observe_frame ssid_of (Some f) signal channel now ts_usec st h = Some (ret, calls, st', h')"
  shows "run_inv st' (logged f now log)"
proof -
  have ok: "eapol_ok st" "log_ok st log" and snap: "\<forall>ev \<in> set (eapol_snapshot st). handshake_complete ev \<longrightarrow> backed log ev"
    and gate: "\<not> el_collect st \<longrightarrow> el_out_fd st < 0" "el_out_fd st < 0 \<longrightarrow> el_out_dir st = []" using inv by (simp_all add: run_inv_def)
  from wf ok(1) show ?thesis
  proof (cases rule: observe_step [where ssid_of = ssid_of and signal = signal and channel = channel and now = now and ts_usec = ts_usec and h = h])
    case (other ret' calls' st'' h'')
    have st: "st'' = st'" using other(1) o by simp
    have "eapol_snapshot st' = eapol_snapshot st \<or> (\<exists>b s k. eapol_snapshot st' = take 256 (event_for ssid_of b s k signal channel now # eapol_snapshot st))"
      using other(9) snapshot_push [OF ok(1)] unfolding st by auto
    moreover have "\<not> handshake_complete (event_for ssid_of b s k signal channel now)" for b s k
      by (simp add: event_for_def event_zero_def)
    ultimately have "set (eapol_snapshot st') \<subseteq> set (eapol_snapshot st) \<union> {ev. \<not> handshake_complete ev}"
      by (auto dest: in_set_takeD)
    then have "\<forall>ev \<in> set (eapol_snapshot st'). handshake_complete ev \<longrightarrow> backed log ev" using snap by blast
    with other(2-8) ok gate show ?thesis by (simp add: run_inv_def st logged_def log_ok_def)
  next
    case (heard b s k calls' t' hx h'' d)
    let ?q = "heard_as ssid_of f b s k signal channel now ts_usec st"
    have st: "st' = (push_event (snd ?q) st)\<lparr>el_pending := t'\<rparr>" using heard(1) o by simp
    have lg: "logged f now log = (b, s, k, now) # log" using heard(3) by (simp add: logged_def)
    note tab = heard_table [OF ok(1) refl heard(8,10)]
    have "log_ok st' (logged f now log)"
      unfolding log_ok_def lg st
    proof (intro allI impI, simp)
      fix key p assume p: "tab_map pd_key t' key = Some p"
      show "row_log ((b, s, k, now) # log) key p"
      proof (cases "key = (b, s)")
        case True
        have "p = mark_exported (el_out_dir st) k (snd ?q) (fst ?q)" using p tab(1) unfolding True by simp
        moreover have "row_log ((b, s, k, now) # log) (b, s) (fst ?q)" by (rule row_log_heard [OF ok(2) heard(4) refl])
        ultimately show ?thesis unfolding True by simp
      next
        case False
        have "tab_map pd_key (el_pending st) key = Some p" using tab(2) [OF False] p by simp
        then have "row_log log key p" using ok(2) unfolding log_ok_def by blast
        then show ?thesis by (rule row_log_Cons_other) (use False in simp)
      qed
    qed
    moreover have "\<forall>ev \<in> set (eapol_snapshot st'). handshake_complete ev \<longrightarrow> backed (logged f now log) ev"
    proof -
      have "set (eapol_snapshot st') \<subseteq> insert (snd ?q) (set (eapol_snapshot st))"
        unfolding st snapshot_fields snapshot_push [OF ok(1)] by (auto dest: in_set_takeD)
      with snap heard_backed [OF ok(2) refl heard(4)] show ?thesis unfolding lg by (blast intro: backed_Cons)
    qed
    ultimately show ?thesis using heard(2) gate unfolding st by (simp add: run_inv_def eapol_ok_event [OF ok(1)])
  qed
qed

lemma run_inv: "eapol_run st log \<Longrightarrow> run_inv st log"
proof (induction rule: eapol_run.induct)
  case boot
  show ?case by (rule run_inv_boot)
next
  case (frame st log f signal channel now ts_usec h ret calls st' h')
  then show ?case by (intro run_inv_frame)
next
  case (clear st log)
  then show ?case
    by (simp add: run_inv_def eapol_ok_def log_ok_def eapol_clear_def tab_clear MAX_EAPOL_EVENTS_def) (simp add: eapol_snapshot_def)
next
  case (dir st log path opened r st')
  then show ?case
    by (auto simp: run_inv_def eapol_ok_def log_ok_def eapol_set_output_dir_def Let_def split: option.splits if_splits)
next
  case (collect st log on)
  then show ?case by (auto simp: run_inv_def eapol_ok_def log_ok_def eapol_set_collect_enabled_def Let_def)
next
  case (sweep st log now entries tn n removed st')
  then show ?case by (auto simp: run_inv_def eapol_ok_def log_ok_def eapol_sweep_def split: prod.splits)
next
  case (maintain st log now entries tn removed st')
  then show ?case by (auto simp: run_inv_def eapol_ok_def log_ok_def eapol_maintain_def Let_def split: if_splits)
qed

section \<open>A handshake that is heard\<close>

text \<open>A frame as the savefile of its attempt records it.\<close>

definition captured :: "dot11_frame_t \<Rightarrow> time_t \<Rightarrow> int \<Rightarrow> pcap_rec" where
  "captured f now ts_usec = settled \<lparr>pr_sec = word_of_int now, pr_usec = usec_of ts_usec, pr_orig = word_of_int (f_len f),
     pr_data = take (nat (min 512 (f_len f))) (the (f_p f))\<rparr>"

lemma began_new:
  assumes "km_msg k = 1" "\<not> (has_m1 p \<and> m1_rc p = km_rc k \<and> pd_anonce p = km_nonce k)"
  shows "\<exists>p0. began now k p = attempt_reset p0 \<and> generation p0 = generation p"
proof -
  have "\<exists>p0. attempt_expire now (p\<lparr>pd_last_seen := now\<rparr>) = p0 \<and> generation p0 = generation p
      \<and> \<not> (has_m1 p0 \<and> m1_rc p0 = km_rc k \<and> pd_anonce p0 = km_nonce k)"
    using assms(2) by (auto simp: attempt_expire_def attempt_reset_def)
  then show ?thesis using assms(1) by (auto simp: began_def Let_def)
qed

text \<open>A first message that starts an attempt: one frame buffered, nothing exported yet.\<close>

definition fresh_attempt :: "key_msg \<Rightarrow> bytes \<Rightarrow> int \<Rightarrow> time_t \<Rightarrow> u32 \<Rightarrow> pending_t \<Rightarrow> bool" where
  "fresh_attempt k d len now usec p \<longleftrightarrow> has_m1 p \<and> m1_rc p = km_rc k \<and> pd_anonce p = km_nonce k \<and> m1_ts p = now \<and> \<not> exported p
     \<and> m_frame_lens p = [int (length d), 0, 0, 0] \<and> take (length d) (m_frames p ! 0) = d
     \<and> m_frame_origlens p ! 0 = len \<and> m_frame_ts p ! 0 = now \<and> m_frame_usec p ! 0 = usec"

lemma replicate_4: "replicate 4 x = [x, x, x, x]" by (simp add: eval_nat_numeral)

lemma first_message:
  assumes "km_msg k = 1" "\<not> (has_m1 p \<and> m1_rc p = km_rc k \<and> pd_anonce p = km_nonce k)"
  shows "fresh_attempt k d len now usec (mark_exported dir k ev' (fst (pair_step now usec d len k ev p)))"
proof -
  obtain p0 where b: "began now k p = attempt_reset p0" using began_new [OF assms] by blast
  have "buffer_frame 1 d len now usec (attempt_reset p0) = p' \<Longrightarrow> fresh_attempt k d len now usec (fst (on_m1 now k (p', ev)))" for p'
    by (cases "km_pmkid k") (auto simp: fresh_attempt_def on_m1_def buffer_frame_def attempt_reset_def replicate_4 Let_def)
  then have "fresh_attempt k d len now usec (fst (on_msg now k (buffer_frame (km_msg k) d len now usec (began now k p), ev)))"
    using assms(1) by (simp add: on_msg_def b)
  then show ?thesis using assms(1) unfolding pair_step_eq by (simp add: mark_exported_def case_prod_unfold Let_def)
qed

lemma second_message:
  assumes fr: "fresh_attempt k1 d1 len1 now1 usec1 p" and ok: "pending_ok p" and k: "km_msg k = 2" "km_rc k = km_rc k1"
    and t: "now - now1 \<le> 10" and d: "length d1 \<noteq> 0" "length d \<noteq> 0" "length d \<le> 512"
    and q: "q = pair_step now usec d len k ev p"
  shows "handshake_complete (snd q)" "ee_anonce (snd q) = km_nonce k1" "\<not> exported (fst q)" "rc_checked (fst q)"
    "map (frame_rec (fst q)) (heard (fst q)) =
       [\<lparr>pr_sec = word_of_int now1, pr_usec = usec1, pr_orig = word_of_int len1, pr_data = d1\<rparr>,
        \<lparr>pr_sec = word_of_int now, pr_usec = usec, pr_orig = word_of_int len, pr_data = d\<rparr>]"
proof -
  note f = fr [unfolded fresh_attempt_def] and o = ok [unfolded pending_ok_def]
  have b: "began now k p = p\<lparr>pd_last_seen := now\<rparr>"
    using f k t by (simp add: began_def attempt_expire_def EAPOL_PAIR_WINDOW_S_def)
  define p1 where "p1 = buffer_frame 2 d len now usec (p\<lparr>pd_last_seen := now\<rparr>)"
  have p1: "has_m1 p1" "m1_rc p1 = km_rc k" "pd_anonce p1 = km_nonce k1" "\<not> exported p1"
    using f k(2) by (simp_all add: p1_def)
  have m: "m_frames p1 = (m_frames p)[1 := d @ drop (length d) (m_frames p ! 1)]"
    "m_frame_lens p1 = [int (length d1), int (length d), 0, 0]" "m_frame_origlens p1 = (m_frame_origlens p)[1 := len]"
    "m_frame_ts p1 = (m_frame_ts p)[1 := now]" "m_frame_usec p1 = (m_frame_usec p)[1 := usec]"
    using f by (simp_all add: p1_def buffer_frame_def Let_def)
  have qq: "q = (let (p, ev) = on_m2 now k (p1, ev) in (p, ev\<lparr>handshake_progress := progress p\<rparr>))"
    unfolding q pair_step_eq b by (simp add: on_msg_def k(1) p1_def)
  show "handshake_complete (snd q)" "ee_anonce (snd q) = km_nonce k1" "\<not> exported (fst q)" "rc_checked (fst q)"
    unfolding qq using p1 by (simp_all add: on_m2_def rc_eq_def Let_def)
  have e: "m_frames (fst q) = m_frames p1" "m_frame_lens (fst q) = m_frame_lens p1" "m_frame_origlens (fst q) = m_frame_origlens p1"
    "m_frame_ts (fst q) = m_frame_ts p1" "m_frame_usec (fst q) = m_frame_usec p1"
    unfolding qq using p1 by (simp_all add: on_m2_def rc_eq_def Let_def)
  have h: "heard (fst q) = [0, 1]" using d unfolding heard_def e m by simp
  have l: "length (m_frames p) = 4" "length (m_frame_origlens p) = 4" "length (m_frame_ts p) = 4" "length (m_frame_usec p) = 4"
    using o by simp_all
  show "map (frame_rec (fst q)) (heard (fst q)) =
       [\<lparr>pr_sec = word_of_int now1, pr_usec = usec1, pr_orig = word_of_int len1, pr_data = d1\<rparr>,
        \<lparr>pr_sec = word_of_int now, pr_usec = usec, pr_orig = word_of_int len, pr_data = d\<rparr>]"
    unfolding h by (simp add: frame_rec_def e m l) (use f in simp)
qed

text \<open>A message that is heard: what it returns, and the row of its pair.\<close>

lemma heard_step:
  assumes wf: "frame_wf f" and ok: "eapol_ok st" and m: "heard_msg f = Some (b, s, k)"
    and q: "q = heard_as ssid_of f b s k signal channel now ts_usec st"
  obtains st' h' where
    "eapol_observe_frame ssid_of (Some f) signal channel now ts_usec st h
       = Some (True, assoc_calls f signal channel (snd q) @ hashcat_calls st k (eapol_of f) (snd q) (fst q), st', h')"
    "eapol_ok st'" "key_ok k" "length b = 6" "length s = 6" "el_out_dir st' = el_out_dir st" "el_out_fd st' = el_out_fd st"
    "el_collect st' = el_collect st" "eapol_snapshot st' = take 256 (snd q # eapol_snapshot st)"
    "tab_map pd_key (el_pending st') (b, s) = Some (mark_exported (el_out_dir st) k (snd q) (fst q))"
    "\<And>key. key \<noteq> (b, s) \<Longrightarrow> tab_map pd_key (el_pending st') key \<in> {tab_map pd_key (el_pending st) key, None}"
    "\<And>key. key \<noteq> (b, s) \<Longrightarrow> tab_map pd_key (el_pending st) (b, s) \<noteq> None \<or> st_n (el_pending st) < 64
       \<Longrightarrow> tab_map pd_key (el_pending st') key = tab_map pd_key (el_pending st) key"
  using wf ok
proof (cases rule: observe_step [where ssid_of = ssid_of and signal = signal and channel = channel and now = now and ts_usec = ts_usec and h = h])
  case (other ret calls st' h')
  with m show ?thesis by simp
next
  case (heard b' s' k' calls t' hx h' d)
  then have e: "b' = b" "s' = s" "k' = k" using m by simp_all
  note hd = heard [unfolded e, folded q]
  note tab = heard_table [OF ok q hd(8,10)]
  show ?thesis
    by (rule that [OF hd(1) [unfolded hd(7)] hd(2,4,5,6)])
      (use tab snapshot_push [OF ok, of "snd q"] in \<open>simp_all add: eapol_ok_event [OF ok]\<close>)
qed

lemma frame_octets:
  assumes "frame_wf f" "heard_msg f = Some (b, s, k)"
  shows "length (take (nat (min 512 (f_len f))) (the (f_p f))) \<noteq> 0" "length (take (nat (min 512 (f_len f))) (the (f_p f))) \<le> 512"
proof -
  obtain c where c: "carried f = Some c" using assms(2) by (auto simp: heard_msg_def msg_in_def split: option.splits)
  then have "32 \<le> f_len f" by (auto simp: carried_def Let_def split: option.splits if_splits)
  moreover obtain d where "f_p f = Some d" "f_len f \<le> int (length d)"
    using carried_ok(6) [OF assms(1)] c by (cases c) blast
  ultimately show "length (take (nat (min 512 (f_len f))) (the (f_p f))) \<noteq> 0" "length (take (nat (min 512 (f_len f))) (the (f_p f))) \<le> 512"
    by auto
qed

lemma handshake_detected:
  assumes run: "eapol_run st log"
    and f1: "frame_wf f1" "heard_msg f1 = Some (b, s, k1)" "km_msg k1 = 1"
    and new: "\<forall>k t. last_msg 1 log (b, s) = Some (k, t) \<longrightarrow> km_rc k \<noteq> km_rc k1 \<or> km_nonce k \<noteq> km_nonce k1"
    and f2: "frame_wf f2" "heard_msg f2 = Some (b, s, k2)" "km_msg k2 = 2"
    and rc: "km_rc k2 = km_rc k1" and t: "now2 - now1 \<le> 10" and gate: "el_out_dir st \<noteq> []"
  shows "\<exists>c1 st1 h1 c2 st2 h2 ev evs nm out.
     eapol_observe_frame ssid_of (Some f1) sig1 ch1 now1 us1 st h = Some (True, c1, st1, h1)
   \<and> eapol_observe_frame ssid_of (Some f2) sig2 ch2 now2 us2 st1 h1 = Some (True, c2, st2, h2)
   \<and> eapol_snapshot st2 = ev # evs \<and> handshake_complete ev \<and> ee_bssid ev = b \<and> ee_sta_mac ev = s
   \<and> ee_anonce ev = km_nonce k1 \<and> ee_snonce ev = km_nonce k2 \<and> ee_mic ev = km_mic k2
   \<and> c2 = [Hashcat_Line (m2_line ev (cleared (take (min 511 (nat (km_span k2))) (eapol_of f2))) True) b, Handshake_Pcap nm out]
   \<and> read_pcap out = Some (105, 65535, [captured f1 now1 us1, captured f2 now2 us2])"
proof -
  have inv: "eapol_ok st" "log_ok st log" and open_gate: "eapol_export_ready st"
    using run_inv [OF run] gate by (auto simp: run_inv_def eapol_export_ready_def)
  define q1 where "q1 = heard_as ssid_of f1 b s k1 sig1 ch1 now1 us1 st"
  obtain st1 h1 where s1: "eapol_observe_frame ssid_of (Some f1) sig1 ch1 now1 us1 st h
       = Some (True, assoc_calls f1 sig1 ch1 (snd q1) @ hashcat_calls st k1 (eapol_of f1) (snd q1) (fst q1), st1, h1)"
    "eapol_ok st1" "key_ok k1" "length b = 6" "length s = 6" "el_out_dir st1 = el_out_dir st" "el_out_fd st1 = el_out_fd st"
    "el_collect st1 = el_collect st"
    "tab_map pd_key (el_pending st1) (b, s) = Some (mark_exported (el_out_dir st) k1 (snd q1) (fst q1))"
    by (rule heard_step [OF f1(1) inv(1) f1(2) q1_def, of h], rule that) simp_all
  define q2 where "q2 = heard_as ssid_of f2 b s k2 sig2 ch2 now2 us2 st1"
  obtain st2 h2 where s2: "eapol_observe_frame ssid_of (Some f2) sig2 ch2 now2 us2 st1 h1
       = Some (True, assoc_calls f2 sig2 ch2 (snd q2) @ hashcat_calls st1 k2 (eapol_of f2) (snd q2) (fst q2), st2, h2)"
    "key_ok k2" "eapol_snapshot st2 = take 256 (snd q2 # eapol_snapshot st1)"
    by (rule heard_step [OF f2(1) s1(2) f2(2) q2_def, of h1], rule that) simp_all
  define d1 where "d1 = take (nat (min 512 (f_len f1))) (the (f_p f1))"
  define d2 where "d2 = take (nat (min 512 (f_len f2))) (the (f_p f2))"
  note o1 = frame_octets [OF f1(1,2), folded d1_def] and o2 = frame_octets [OF f2(1,2), folded d2_def]
  have "\<not> (has_m1 (row_for b s now1 st) \<and> m1_rc (row_for b s now1 st) = km_rc k1 \<and> pd_anonce (row_for b s now1 st) = km_nonce k1)"
    using row_for_log [OF inv(2), of b s now1] new unfolding row_log_def by metis
  then have fr: "fresh_attempt k1 d1 (f_len f1) now1 (usec_of us1) (mark_exported (el_out_dir st) k1 (snd q1) (fst q1))"
    unfolding q1_def heard_as_def d1_def by (rule first_message [OF f1(3)])
  have row: "row_for b s now2 st1 = mark_exported (el_out_dir st) k1 (snd q1) (fst q1)" by (simp add: row_for_def s1(9))
  have okr: "pending_ok (row_for b s now2 st1)" using row_for_ok(1) [OF s1(2,4,5)] .
  have q2e: "q2 = pair_step now2 (usec_of us2) d2 (f_len f2) k2 (event_for ssid_of b s k2 sig2 ch2 now2) (row_for b s now2 st1)"
    by (simp add: q2_def heard_as_def d2_def)
  note m2 = second_message [OF fr okr [unfolded row] f2(3) rc t o1(1) o2 q2e [unfolded row]]
  note ev = heard_event [OF q2_def s2(2) refl]
  have "pending_ok (fst q2)" unfolding q2e by (rule pending_ok_pair_step [OF okr s2(2) o2(2)])
  from read_pcap_file [OF this] have "read_pcap (pcap_file (fst q2)) = Some (105, 65535, map settled (map (frame_rec (fst q2)) (heard (fst q2))))"
    by (simp add: comp_def)
  then have out: "read_pcap (pcap_file (fst q2)) = Some (105, 65535, [captured f1 now1 us1, captured f2 now2 us2])"
    unfolding m2(5) by (simp add: captured_def d1_def d2_def)
  have "\<not> assoc_evidence (snd q2)"
    unfolding q2e pair_step_eq by (simp add: case_prod_unfold on_msg_def f2(3) on_m2_def event_for_def event_zero_def Let_def)
  then have "assoc_calls f2 sig2 ch2 (snd q2) = []" by (simp add: assoc_calls_def)
  moreover have "hashcat_calls st1 k2 (eapol_of f2) (snd q2) (fst q2) =
      [Hashcat_Line (m2_line (snd q2) (cleared (take (min 511 (nat (km_span k2))) (eapol_of f2))) True) b, Handshake_Pcap (pcap_name (fst q2)) (pcap_file (fst q2))]"
    using open_gate gate f2(3) m2(1,3,4) ev(1)
    by (simp add: hashcat_calls_def eapol_export_ready_def s1(6-8))
  moreover have "eapol_snapshot st2 = snd q2 # take 255 (eapol_snapshot st1)" using s2(3) by simp
  ultimately show ?thesis using s1(1) s2(1) m2(1,2) ev(1,2) ev(7) [OF m2(1)] out by auto
qed

section \<open>Frames as the two sides send them\<close>

text \<open>A key frame between a BSS and a station, in either direction.\<close>

definition key_frame :: "bool \<Rightarrow> mac \<Rightarrow> mac \<Rightarrow> key_desc \<Rightarrow> bytes" where
  "key_frame from_ds b s e = [0x08, if from_ds then 2 else 1, 0, 0] @ (if from_ds then s @ b @ b else b @ s @ b) @ [0, 0]
     @ [0xAA, 0xAA, 0x03, 0, 0, 0, 0x88, 0x8E] @ kd_encode e"

definition sent :: "bool \<Rightarrow> mac \<Rightarrow> mac \<Rightarrow> key_desc \<Rightarrow> dot11_frame_t" where
  "sent from_ds b s e = view (key_frame from_ds b s e) (int (length (key_frame from_ds b s e))) None"

lemma data_roles:
  assumes "ftype f = 2" "bit (f ! 1) 0 = (\<not> ds)" "bit (f ! 1) 1 = ds"
    "fa f n 1 = Some 4" "fa f n 2 = Some 10" "fa f n 3 = Some 16"
  shows "froles f n (role_bssid f) = Some (if ds then 10 else 4)" "froles f n (role_sa f) = Some (if ds then 16 else 10)"
    "froles f n (role_da f) = Some (if ds then 4 else 16)"
  unfolding froles_def role_bssid_def role_sa_def role_da_def assms(1-3) using assms(4-6) by (cases ds; simp)+

lemma sent_heard:
  assumes m: "length b = 6" "length s = 6" and v: "kd_valid e" and d: "from_ds \<longleftrightarrow> km_msg (msg_of e) \<in> {1, 3}"
  shows "frame_wf (sent from_ds b s e)" "heard_msg (sent from_ds b s e) = Some (b, s, msg_of e)"
proof -
  let ?f = "key_frame from_ds b s e"
  have l: "length ?f = 32 + length (kd_encode e)" "99 \<le> length (kd_encode e)"
    using m length_kd_encode [OF v] by (simp_all add: key_frame_def)
  then show "frame_wf (sent from_ds b s e)" unfolding sent_def by (intro frame_wf_view) simp_all
  have h: "?f ! 0 = 8" "?f ! 1 = (if from_ds then 2 else 1)" by (simp_all add: key_frame_def)
  have b8: "ftype ?f = 2" "fsub ?f = 0" by (simp_all add: ftype_def fsub_def h)
  then have t: "\<not> fqos ?f" "bit (?f ! 1) 0 = (\<not> from_ds)" "bit (?f ! 1) 1 = from_ds" "\<not> faddr4 ?f" "\<not> fhtc ?f" "hdr_size ?f = 24"
    using h(2) by (auto simp: fqos_def faddr4_def fhtc_def hdr_size_def)
  have fa: "fa ?f (int (length ?f)) 1 = Some 4" "fa ?f (int (length ?f)) 2 = Some 10" "fa ?f (int (length ?f)) 3 = Some 16"
    using l by (simp_all add: fa_def b8)
  have o: "take 6 (drop 4 ?f) = (if from_ds then s else b)" "take 6 (drop 10 ?f) = (if from_ds then b else s)"
    "take 8 (drop 24 ?f) = [0xAA, 0xAA, 0x03, 0, 0, 0, 0x88, 0x8E]" "drop 32 ?f = kd_encode e"
    using m by (simp_all add: key_frame_def)
  let ?s = "sent from_ds b s e" and ?n = "int (length ?f)"
  have r: "froles ?f ?n (role_bssid ?f) = Some (if from_ds then 10 else 4)" "froles ?f ?n (role_sa ?f) = Some (if from_ds then 16 else 10)"
    "froles ?f ?n (role_da ?f) = Some (if from_ds then 4 else 16)"
    by (rule data_roles [OF b8(1) t(2,3) fa])+
  have g: "f_p ?s = Some ?f" "f_len ?s = ?n" "f_type ?s = 2" "f_hdr_len ?s = 24" "f_to_ds ?s = (\<not> from_ds)" "f_from_ds ?s = from_ds"
    "f_bssid ?s = Some (if from_ds then 10 else 4)" "f_sa ?s = Some (if from_ds then 16 else 10)" "f_da ?s = Some (if from_ds then 4 else 16)"
    unfolding sent_def view_simps view_geometry r b8 t using l by simp_all
  have a: "mac_in ?s ?f (Some (if from_ds then 10 else 4)) = b"
    "mac_in ?s ?f (Some (if from_ds then 4 else 10)) = s"
    unfolding mac_in_def option.sel using o(1,2) by (auto split: if_splits)
  have c: "carried ?s = Some (b, s, kd_encode e, int (length (kd_encode e)))"
    unfolding carried_def g using l a o(3,4) by (cases from_ds) simp_all
  have "descriptor (kd_encode e) (int (length (kd_encode e)))" "fields_of (kd_encode e) = msg_of e"
    "uint (be_at (kd_encode e) 97) \<le> span_of (kd_encode e) - 99"
    using kd_encode_read [OF v, where rest = "[]"] by simp_all
  moreover have "be_at (kd_encode e) 5 = kd_info e" using kd_encode_fields(2) [OF v, of "[]"] by simp
  ultimately have "key_of (kd_encode e) (int (length (kd_encode e))) = Some (msg_of e)"
    using v by (simp add: key_of_def kd_valid_def)
  then have "msg_in (sent from_ds b s e) = Some (b, s, msg_of e)" by (simp add: msg_in_def c)
  then show "heard_msg (sent from_ds b s e) = Some (b, s, msg_of e)"
    unfolding heard_msg_def g using d by simp
qed

text \<open>Messages to instantiate the properties at.\<close>

definition sample_key :: "u16 \<Rightarrow> u8 \<Rightarrow> key_desc" where
  "sample_key info n = \<lparr>kd_version = 2, kd_type = 2, kd_info = info, kd_key_length = [0, 16], kd_rc = replicate 8 7,
     kd_nonce = replicate 32 n, kd_iv = replicate 16 0, kd_rsc = replicate 8 0, kd_id = replicate 8 0, kd_mic = replicate 16 0,
     kd_data = [], kd_tail = []\<rparr>"

lemma classify_samples: "classify 0x008A = 1" "classify 0x010A = 2" "classify 0x13CA = 3"
  "bit (0x008A :: u16) 3" "bit (0x010A :: u16) 3" "bit (0x13CA :: u16) 3"
  by (simp_all add: classify_def)

lemma sample_valid: "info \<in> {0x008A, 0x010A, 0x13CA} \<Longrightarrow> kd_valid (sample_key info n)"
  by (auto simp: kd_valid_def sample_key_def classify_samples)

lemma sample_msg:
  "km_msg (msg_of (sample_key info n)) = classify info" "km_rc (msg_of (sample_key info n)) = replicate 8 7"
  "km_nonce (msg_of (sample_key info n)) = replicate 32 n"
  by (simp_all add: msg_of_def sample_key_def)

definition ap :: mac where "ap = [2, 0, 0, 0, 0, 2]"
definition client :: mac where "client = [2, 0, 0, 0, 0, 1]"

definition msg1 :: "u8 \<Rightarrow> dot11_frame_t" where "msg1 n = sent True ap client (sample_key 0x008A n)"
definition msg2 :: "u8 \<Rightarrow> dot11_frame_t" where "msg2 n = sent False ap client (sample_key 0x010A n)"
definition msg3 :: "u8 \<Rightarrow> dot11_frame_t" where "msg3 n = sent True ap client (sample_key 0x13CA n)"

lemma sample_heard:
  "frame_wf (msg1 n)" "heard_msg (msg1 n) = Some (ap, client, msg_of (sample_key 0x008A n))"
  "frame_wf (msg2 n)" "heard_msg (msg2 n) = Some (ap, client, msg_of (sample_key 0x010A n))"
  "frame_wf (msg3 n)" "heard_msg (msg3 n) = Some (ap, client, msg_of (sample_key 0x13CA n))"
  unfolding msg1_def msg2_def msg3_def
  by (intro sent_heard sample_valid; simp add: ap_def client_def sample_msg classify_samples)+

text \<open>The log with its gate open, and an exchange heard by it.\<close>

definition opened :: eapol_t where
  "opened = snd (eapol_set_output_dir (Some (ascii ''/x'')) 3 (eapol_set_collect_enabled True eapol_boot))"

lemma opened_run: "eapol_run opened []" "el_out_dir opened \<noteq> []"
proof -
  show "eapol_run opened []"
    unfolding opened_def by (rule eapol_run.dir [OF eapol_run.collect [OF eapol_run.boot] surjective_pairing])
  show "el_out_dir opened \<noteq> []"
    by (simp add: opened_def eapol_set_output_dir_def eapol_set_collect_enabled_def ascii_def snprintf_def eapol_boot_def Let_def)
qed

lemma heard_exchange:
  "\<exists>c1 st1 h1 c2 st2 h2 ev evs nm out.
     eapol_observe_frame ssid_of (Some (msg1 5)) (-40) 6 1000 0 opened h = Some (True, c1, st1, h1)
   \<and> eapol_observe_frame ssid_of (Some (msg2 6)) (-50) 6 1001 0 st1 h1 = Some (True, c2, st2, h2)
   \<and> eapol_snapshot st2 = ev # evs \<and> handshake_complete ev \<and> ee_bssid ev = ap \<and> ee_sta_mac ev = client
   \<and> ee_anonce ev = replicate 32 5 \<and> ee_snonce ev = replicate 32 6 \<and> ee_mic ev = km_mic (msg_of (sample_key 0x010A 6))
   \<and> c2 = [Hashcat_Line (m2_line ev (cleared (take (min 511 (nat (km_span (msg_of (sample_key 0x010A 6))))) (eapol_of (msg2 6)))) True) ap, Handshake_Pcap nm out]
   \<and> read_pcap out = Some (105, 65535, [captured (msg1 5) 1000 0, captured (msg2 6) 1001 0])"
  using handshake_detected [where ?now1.0 = 1000 and ?now2.0 = 1001 and ?sig1.0 = "-40", OF opened_run(1) sample_heard(1,2) [of 5] _ _ sample_heard(3,4) [of 6] _ _ _ opened_run(2)]
  by (simp add: sample_msg classify_samples last_msg_def)

section \<open>Keys installed\<close>

lemma generation_row:
  assumes "eapol_ok st"
  shows "eapol_key_generation b s st = (case tab_map pd_key (el_pending st) (b, s) of None \<Rightarrow> 0 | Some p \<Rightarrow> generation p)"
proof -
  have t: "same_decl pending_decl (el_pending st)" "tab_ok pd_key (el_pending st)" using assms by (simp_all add: eapol_ok_def)
  then have w: "stab_wf (el_pending st)" by (simp add: tab_ok_def)
  show ?thesis
    using pairs.find_None [OF t(1) w, of "(b, s)"] pairs.find_Some(3) [OF t, of "(b, s)"]
    by (auto simp: eapol_key_generation_def pending_find_def stab_find_def split: option.split)
qed

lemma generation_began [simp]: "generation (began now k p) = generation p" "has_installed (began now k p) = has_installed p"
  "installed_anonce (began now k p) = installed_anonce p"
  by (simp_all add: began_def attempt_expire_def attempt_reset_def Let_def)

lemma generation_step:
  assumes "key_ok k"
  shows "generation (mark_exported dir k ev' (fst (pair_step now usec d len k ev p)))
    = (if km_msg k = 3 \<and> \<not> (has_installed p \<and> installed_anonce p = km_nonce k) then generation p + 1 else generation p)"
proof -
  have "generation (fst (on_msg now k (p', ev))) = (if km_msg k = 3 \<and> \<not> (has_installed p' \<and> installed_anonce p' = km_nonce k)
      then generation p' + 1 else generation p')" for p'
    using assms by (auto simp: key_ok_def on_msg_def on_m1_def on_m2_def on_m3_def on_m4_def Let_def split: option.split)
  moreover have "generation (mark_exported dir k ev' r) = generation r" for r by (simp add: mark_exported_def)
  ultimately show ?thesis unfolding pair_step_eq by (simp add: case_prod_unfold Let_def)
qed

text \<open>Whether a third message brings the key last installed for its pair.\<close>

definition reinstalls :: "key_log \<Rightarrow> mac \<Rightarrow> mac \<Rightarrow> key_msg \<Rightarrow> bool" where
  "reinstalls log b s k \<longleftrightarrow> (\<exists>k0 t0. last_msg 3 log (b, s) = Some (k0, t0) \<and> km_nonce k0 = km_nonce k)"

lemma generation_log:
  assumes inv: "run_inv st log" and p: "p = row_for b s now st"
  shows "generation p = eapol_key_generation b s st" "has_installed p \<longleftrightarrow> 0 < eapol_key_generation b s st"
    "has_installed p \<Longrightarrow> installed_anonce p = km_nonce k \<longleftrightarrow> reinstalls log b s k"
proof -
  have ok: "eapol_ok st" "log_ok st log" using inv by (simp_all add: run_inv_def)
  note r = row_for_log [OF ok(2), of b s now, folded p, unfolded row_log_def]
  show g: "generation p = eapol_key_generation b s st"
    unfolding generation_row [OF ok(1)] p row_for_def by (simp add: pending_zero_def split: option.split)
  then show "has_installed p \<longleftrightarrow> 0 < eapol_key_generation b s st" using r by simp
  show "has_installed p \<Longrightarrow> installed_anonce p = km_nonce k \<longleftrightarrow> reinstalls log b s k"
    using r unfolding reinstalls_def by auto
qed

lemma generation_exact:
  assumes run: "eapol_run st log" and wf: "frame_wf f"
    and o: "eapol_observe_frame ssid_of (Some f) signal channel now ts_usec st h = Some (ret, calls, st', h')"
  shows "case heard_msg f of
      None \<Rightarrow> eapol_key_generation b s st' = eapol_key_generation b s st
    | Some (b', s', k) \<Rightarrow>
        if (b', s') = (b, s)
        then eapol_key_generation b s st' = (if km_msg k = 3 \<and> \<not> (0 < eapol_key_generation b s st \<and> reinstalls log b s k)
               then eapol_key_generation b s st + 1 else eapol_key_generation b s st)
        else eapol_key_generation b s st' \<in> {eapol_key_generation b s st, 0}"
proof -
  have inv: "run_inv st log" by (rule run_inv [OF run])
  have ok: "eapol_ok st" using inv by (simp add: run_inv_def)
  show ?thesis
  proof (cases "heard_msg f")
    case None
    have e: "el_pending st' = el_pending st"
      using wf ok by (cases rule: observe_step [where ssid_of = ssid_of and signal = signal and channel = channel and now = now and ts_usec = ts_usec and h = h])
        (use o None in simp_all)
    show ?thesis unfolding None option.case eapol_key_generation_def pending_find_def e ..
  next
    case (Some m)
    obtain b' s' k where m: "heard_msg f = Some (b', s', k)" using Some by (cases m) auto
    define q where "q = heard_as ssid_of f b' s' k signal channel now ts_usec st"
    have st': "eapol_ok st'" "key_ok k" "tab_map pd_key (el_pending st') (b', s') = Some (mark_exported (el_out_dir st) k (snd q) (fst q))"
      "\<And>key. key \<noteq> (b', s') \<Longrightarrow> tab_map pd_key (el_pending st') key \<in> {tab_map pd_key (el_pending st) key, None}"
      by (rule heard_step [OF wf ok m q_def, of h], use o in simp)+
    show ?thesis
    proof (cases "(b', s') = (b, s)")
      case True
      define p where "p = row_for b s now st"
      note g = generation_log(1,2) [OF inv p_def] generation_log(3) [OF inv p_def, of k]
      have "eapol_key_generation b s st' = generation (mark_exported (el_out_dir st) k (snd q) (fst q))"
        unfolding generation_row [OF st'(1)] using st'(3) True by simp
      also have "\<dots> = (if km_msg k = 3 \<and> \<not> (has_installed p \<and> installed_anonce p = km_nonce k) then generation p + 1 else generation p)"
        using True unfolding q_def heard_as_def generation_step [OF st'(2)] p_def by simp
      finally show ?thesis using True m g by auto
    next
      case False
      then have "(b, s) \<noteq> (b', s')" by auto
      from st'(4) [OF this] have "eapol_key_generation b s st' \<in> {eapol_key_generation b s st, 0}"
        unfolding generation_row [OF st'(1)] generation_row [OF ok] by auto
      moreover have "((b', s') = (b, s)) = False" using False by simp
      ultimately show ?thesis unfolding m option.case prod.case by (simp only: if_False)
    qed
  qed
qed

section \<open>The gate\<close>

definition crackable :: "eapol_call \<Rightarrow> bool" where
  "crackable c = (case c of Hashcat_Line _ _ \<Rightarrow> True | Handshake_Pcap _ _ \<Rightarrow> True | _ \<Rightarrow> False)"

lemma crackable_other: "other_calls cs \<Longrightarrow> \<forall>c \<in> set cs. \<not> crackable c"
  by (auto simp: other_calls_def crackable_def)

lemma crackable_assoc: "\<forall>c \<in> set (assoc_calls f signal channel ev). \<not> crackable c"
  by (simp add: assoc_calls_def crackable_def)

lemma closed_gate:
  assumes run: "eapol_run st log" and wf: "frame_wf f" and gate: "\<not> eapol_collect_enabled st"
    and o: "eapol_observe_frame ssid_of (Some f) signal channel now ts_usec st h = Some (ret, calls, st', h')"
  shows "(\<forall>c \<in> set calls. \<not> crackable c) \<and> eapol_export_create nm created st = -1
    \<and> eapol_export_commit tmp nm found renamed st = (-1, False) \<and> eapol_export_path nm outsz st = (-1, [])
    \<and> fst (snd (eapol_sweep now2 dir tn st)) = [] \<and> \<not> eapol_collect_enabled st'"
proof -
  have inv: "eapol_ok st" "\<not> el_collect st" "el_out_fd st < 0"
    using run_inv [OF run] gate by (simp_all add: run_inv_def eapol_collect_enabled_def)
  have c: "(\<forall>c \<in> set calls. \<not> crackable c) \<and> \<not> el_collect st'"
    using wf inv(1)
  proof (cases rule: observe_step [where ssid_of = ssid_of and signal = signal and channel = channel and now = now and ts_usec = ts_usec and h = h])
    case (other ret calls st' h')
    with o crackable_other inv(2) show ?thesis by auto
  next
    case (heard b s k calls t' hx h' d)
    have "hashcat_calls st k e ev p = []" for e ev p using inv(2) by (simp add: hashcat_calls_def eapol_export_ready_def)
    then show ?thesis using heard(1) o crackable_assoc inv(2) unfolding heard(7) by (simp add: eapol_ok_event [OF inv(1)])
  qed
  have "sweep_locked now2 dir tn st = (0, [])" using inv(3) by (simp add: sweep_locked_def Let_def)
  with c inv show ?thesis
    by (simp add: eapol_export_create_def eapol_export_commit_def eapol_export_path_def eapol_sweep_def eapol_collect_enabled_def)
qed

section \<open>What the gate decides\<close>

text \<open>The log without its gate and what was exported.\<close>

definition unexport :: "pending_t \<Rightarrow> pending_t" where "unexport p = p\<lparr>exported := False\<rparr>"

definition detector :: "eapol_t \<Rightarrow> eapol_t" where
  "detector st = st\<lparr>el_collect := False, el_out_dir := [], el_out_fd := -1, el_last_sweep := 0,
     el_pending := map_rows unexport (el_pending st)\<rparr>"

lemma detector_simps [simp]:
  "el_pending (detector st) = map_rows unexport (el_pending st)" "el_collect (detector st) = False" "el_out_dir (detector st) = []"
  "el_rejects (detector st) = el_rejects st" "el_events (detector st) = el_events st" "el_head (detector st) = el_head st"
  "el_count (detector st) = el_count st"
  by (simp_all add: detector_def)

lemma unexport_simps [simp]:
  "pd_key (unexport p) = pd_key p" "pending_ok (unexport p) = pending_ok p" "pd_last_seen (unexport p) = pd_last_seen p"
  "unexport (p\<lparr>exported := x\<rparr>) = unexport p"
  "unexport (mark_exported dir k ev p) = unexport p"
  by (simp_all add: unexport_def pd_key_def pending_ok_def mark_exported_def)

lemma rows_map_rows: "rows (map_rows g t) = map g (rows t)" by (simp add: rows_def take_map)

lemma pending_blind: "same_decl pending_decl t \<Longrightarrow> blind unexport t"
  by (simp add: same_decl_def blind_def pending_key_eq_def) (simp add: unexport_def pending_zero_def)

lemma tab_map_unexport:
  assumes "tab_ok pd_key t"
  shows "tab_map pd_key (map_rows unexport t) key = map_option unexport (tab_map pd_key t key)" "tab_ok pd_key (map_rows unexport t)"
proof -
  have c: "pd_key \<circ> unexport = pd_key" by (simp add: comp_def)
  then have d: "distinct (map pd_key (map unexport (rows t)))" "distinct (map pd_key (rows t))" using assms by (simp_all add: tab_ok_def c)
  then show "tab_ok pd_key (map_rows unexport t)"
    using assms by (simp add: tab_ok_def rows_map_rows stab_wf_def c)
  show "tab_map pd_key (map_rows unexport t) key = map_option unexport (tab_map pd_key t key)"
  proof (cases "tab_map pd_key t key")
    case None
    then have "key \<notin> pd_key ` set (map unexport (rows t))" by (simp add: tab_map_def key_map_None image_image)
    then show ?thesis unfolding tab_map_def rows_map_rows None [unfolded tab_map_def] by (simp add: key_map_None)
  next
    case (Some p)
    then have "p \<in> set (rows t)" "pd_key p = key" using d(2) by (simp_all add: tab_map_def key_map_Some)
    then have "key_map pd_key (map unexport (rows t)) key = Some (unexport p)" using d(1) by (simp add: key_map_Some)
    then show ?thesis unfolding tab_map_def rows_map_rows Some [unfolded tab_map_def] by simp
  qed
qed

lemma detector_ok: "eapol_ok st \<Longrightarrow> eapol_ok (detector st)"
  by (auto simp: eapol_ok_def tab_map_unexport rows_map_rows) (simp add: same_decl_def)

lemma row_for_detector: "eapol_ok st \<Longrightarrow> row_for b s now (detector st) = unexport (row_for b s now st)"
  by (simp add: row_for_def eapol_ok_def tab_map_unexport unexport_def pending_zero_def split: option.split)

lemma unexport_began: "began now k (unexport p) = unexport (began now k p)"
  by (auto simp: began_def attempt_expire_def attempt_reset_def unexport_def Let_def)

lemma unexport_buffer: "buffer_frame m d len now usec (unexport p) = unexport (buffer_frame m d len now usec p)"
  by (simp add: buffer_frame_def unexport_def Let_def)

lemma unexport_on_msg: "on_msg now k (unexport p, ev) = map_prod unexport id (on_msg now k (p, ev))"
  by (simp add: on_msg_def on_m1_def on_m2_def on_m3_def on_m4_def unexport_def Let_def split: option.split)

lemma unexport_step:
  "pair_step now usec d len k ev (unexport p) = map_prod unexport id (pair_step now usec d len k ev p)"
  unfolding pair_step_eq unexport_began unexport_buffer unexport_on_msg
  by (simp add: case_prod_unfold Let_def) (simp add: unexport_def)

lemma upsert_detector:
  assumes ok: "eapol_ok st"
    and u: "stab_upsert (pair_upd b s dir now usec d len k ev) (b, s) now h (el_pending st) = (t', h')"
  shows "stab_upsert (pair_upd b s [] now usec d len k ev) (b, s) now h (map_rows unexport (el_pending st)) = (map_rows unexport t', h')"
proof -
  let ?t = "el_pending st"
  have t: "same_decl pending_decl ?t" "tab_ok pd_key ?t" using ok by (simp_all add: eapol_ok_def)
  have w: "blind unexport ?t" "stab_wf ?t" "st_policy ?t = STAB_OLDEST"
    using t pending_blind by (simp_all add: tab_ok_def same_decl_def)
  obtain i t1 h1 where g: "stab_get ?t (b, s) now h = (Some i, tab_map pd_key ?t (b, s) = None, t1, h1)" "i < length (st_rows t1)"
    "\<And>upd. stab_upsert upd (b, s) now h ?t = (stab_put i (upd (tab_map pd_key ?t (b, s) = None) (row_of t1 i)) t1, h1)"
    by (rule pairs.get_oldest [OF t pending_decl_simps(5), of "(b, s)" now h], rule that) simp_all
  have p: "pair_upd b s [] now usec d len k ev c (unexport r) = unexport (pair_upd b s dir now usec d len k ev c r)" for c r
  proof -
    have "(if c then (unexport r)\<lparr>pd_bssid := b, pd_sta := s\<rparr> else unexport r) = unexport (if c then r\<lparr>pd_bssid := b, pd_sta := s\<rparr> else r)"
      by (simp add: unexport_def)
    moreover have "mark_exported [] k e q = q" for e q by (simp add: mark_exported_def)
    ultimately show ?thesis unfolding pair_upd_def unexport_step by (simp add: case_prod_unfold Let_def unexport_step)
  qed
  have "stab_upsert (pair_upd b s [] now usec d len k ev) (b, s) now h (map_rows unexport ?t)
      = (stab_put i (pair_upd b s [] now usec d len k ev (tab_map pd_key ?t (b, s) = None) (row_of (map_rows unexport t1) i)) (map_rows unexport t1), h1)"
    unfolding stab_upsert_def get_map_rows [OF w] g(1) by simp
  also have "\<dots> = (map_rows unexport t', h')"
    using u unfolding g(3) map_rows_row [OF g(2)] p map_rows_put [symmetric] by simp
  finally show ?thesis .
qed

lemma filter_calls:
  "filter (\<lambda>c. \<not> crackable c) (assoc_calls f signal channel ev) = assoc_calls f signal channel ev"
  "filter (\<lambda>c. \<not> crackable c) (hashcat_calls st k e ev p) = []"
  by (simp_all add: assoc_calls_def hashcat_calls_def crackable_def)

lemma push_detector: "(push_event ev (detector st))\<lparr>el_pending := map_rows unexport t\<rparr> = detector ((push_event ev st)\<lparr>el_pending := t\<rparr>)"
  "push_event ev (detector st) = detector (push_event ev st)"
  by (simp_all add: push_event_def detector_def)

lemma observe_key_detector:
  assumes ok: "eapol_ok st" and m: "length b = 6" "length s = 6" and k: "key_ok k" "km_span k \<le> int (length eapol)"
    and d: "0 \<le> f_len f" "f_len f \<le> int (length d)"
    and o: "observe_key ssid_of b s from_ds f d eapol k signal channel now usec st h = Some (calls, st', h')"
  shows "observe_key ssid_of b s from_ds f d eapol k signal channel now usec (detector st) h
    = Some (filter (\<lambda>c. \<not> crackable c) calls, detector st', h')"
proof (cases "(km_msg k = 1 \<or> km_msg k = 3) = from_ds")
  case True
  define d' where "d' = take (nat (min 512 (f_len f))) d"
  define ev where "ev = event_for ssid_of b s k signal channel now"
  note ob = observe_key_ok [OF _ m k d True ev_def d'_def refl refl, of _ usec h]
  obtain t1 h1 where u: "stab_upsert (pair_upd b s (el_out_dir st) now usec d' (f_len f) k ev) (b, s) now h (el_pending st) = (t1, h1)"
    by fastforce
  have e: "calls = assoc_calls f signal channel (snd (pair_step now usec d' (f_len f) k ev (row_for b s now st)))
      @ hashcat_calls st k eapol (snd (pair_step now usec d' (f_len f) k ev (row_for b s now st))) (fst (pair_step now usec d' (f_len f) k ev (row_for b s now st)))"
    "st' = (push_event (snd (pair_step now usec d' (f_len f) k ev (row_for b s now st))) st)\<lparr>el_pending := t1\<rparr>" "h' = h1"
    using o unfolding ob [OF ok] u assoc_calls_def by simp_all
  show ?thesis
    unfolding ob [OF detector_ok [OF ok]] detector_simps upsert_detector [OF ok u] row_for_detector [OF ok] unexport_step e
      filter_append filter_calls assoc_calls_def [symmetric]
    by (simp add: push_detector(1) filter_calls hashcat_calls_def eapol_export_ready_def)
next
  case False
  with o show ?thesis by (auto simp: observe_key_def push_detector(2) Let_def)
qed

lemma gate_transparent:
  assumes ok: "eapol_ok st" and wf: "frame_wf f"
    and o: "eapol_observe_frame ssid_of (Some f) signal channel now ts_usec st h = Some (ret, calls, st', h')"
  shows "eapol_observe_frame ssid_of (Some f) signal channel now ts_usec (detector st) h
    = Some (ret, filter (\<lambda>c. \<not> crackable c) calls, detector st', h')"
proof (cases "carried f")
  case None
  with o show ?thesis by (simp add: observe_frame_eq [OF wf])
next
  case (Some c)
  then obtain b s p n where c: "carried f = Some (b, s, p, n)" by (cases c) auto
  note co = carried_ok [OF wf c]
  obtain d where d: "f_p f = Some d" "f_len f \<le> int (length d)" using co(6) by blast
  show ?thesis
  proof (cases "p ! 1 = 0")
    case True
    with o show ?thesis by (auto simp: observe_frame_eq [OF wf] c crackable_def)
  next
    case False
    obtain r h1 where r: "parse_eapol_key p n h = Some (r, h1)" "\<forall>k. r = Key_Msg k \<longrightarrow> key_ok k \<and> km_span k \<le> n"
      using parse_total [OF co(4), of h] by blast
    show ?thesis
    proof (cases r)
      case (Key_Msg k)
      then have k: "key_ok k" "km_span k \<le> int (length p)" using r(2) co(4) by auto
      from o Key_Msg False r(1) d obtain calls1 st1 h2 where
        ob: "observe_key ssid_of b s (f_from_ds f) f d p k signal channel now
          (if ts_usec \<ge> 0 \<and> ts_usec \<le> 999999 then word_of_int ts_usec else 0) st h1 = Some (calls1, st1, h2)"
        and e: "ret" "calls = calls1" "st' = st1" "h' = h2"
        by (auto simp: observe_frame_eq [OF wf] c bind_eq_Some_conv)
      from observe_key_detector [OF ok co(1,2) k co(5) d(2) ob] False r(1) Key_Msg d e show ?thesis
        by (simp add: observe_frame_eq [OF wf] c)
    qed (use o False r(1) in \<open>auto simp: observe_frame_eq [OF wf] c detector_def\<close>)
  qed
qed

end
