(* ===== verification/EapolVerdicts.thy ===== *)
theory EapolVerdicts
  imports EapolRuns
begin

text \<open>
  What is shown of the key exchange log: what it reads as a message, what it reports as a handshake,
  the count of keys installed that the fragment detectors ask for, and the gate in front of what can
  be cracked.
\<close>

section \<open>Messages\<close>



text \<open>
  C30: The log never reads outside a frame and never leaves its tables malformed: in any state a run
  can reach, on any buffer and any length the buffer has, the handler returns, and the state it leaves
  has one row for each pair, at most 64 of them, every array at the size it is declared with and every
  buffered length inside its buffer.
\<close>

theorem eapol_log_total:
  assumes "eapol_run st log" "buf_ok p len"
  shows "\<exists>ret calls st' h'. eapol_observe_dot11 ssid_of p len signal channel now ts_usec st h = Some (ret, calls, st', h')
    \<and> eapol_ok st'"
proof -
  obtain ok f where f: "dot11_frame_decode p len None = Some (ok, f)" "frame_wf f" using decode_total [OF assms(2)] by blast
  have "eapol_ok st" using run_inv [OF assms(1)] by (simp add: run_inv_def)
  with f(2) show ?thesis
    by (rule observe_step [where ssid_of = ssid_of and signal = signal and channel = channel and now = now and ts_usec = ts_usec and h = h])
      (auto simp: eapol_observe_dot11_def f(1))
qed

theorem eapol_log_total_witness:
  "\<exists>ret calls st' h'. eapol_observe_dot11 (\<lambda>_. []) (Some [8, 1, 0]) 3 0 0 0 0 eapol_boot sh_init = Some (ret, calls, st', h') \<and> eapol_ok st'"
  by (rule eapol_log_total [OF eapol_run.boot]) (simp)

section \<open>Handshakes\<close>

text \<open>
  C8: Every exchange shown as complete really is one. Over any run of frames, clears, gate changes and
  sweeps, an event of the list that reports a complete handshake was made by a second message whose
  nonce and check sum it shows, and the last first message heard for the same pair before it carried
  the same replay counter and the nonce shown with it, at most ten seconds earlier: messages of two
  attempts are never joined.
\<close>

theorem eapol_pairs_same_attempt:
  assumes "eapol_run st log" "ev \<in> set (eapol_snapshot st)" "handshake_complete ev"
  shows "\<exists>newer k2 older k1 t1. log = newer @ (ee_bssid ev, ee_sta_mac ev, k2, ee_ts ev) # older
     \<and> km_msg k2 = 2 \<and> km_nonce k2 = ee_snonce ev \<and> km_mic k2 = ee_mic ev
     \<and> last_msg 1 older (ee_bssid ev, ee_sta_mac ev) = Some (k1, t1)
     \<and> km_rc k1 = km_rc k2 \<and> km_nonce k1 = ee_anonce ev \<and> ee_ts ev - t1 \<le> 10"
proof -
  have "backed log ev" using run_inv [OF assms(1)] assms(2,3) by (simp add: run_inv_def)
  then show ?thesis unfolding backed_def .
qed

theorem eapol_pairs_same_attempt_witness:
  "\<exists>st log ev newer k2 older k1 t1. eapol_run st log \<and> ev \<in> set (eapol_snapshot st)
     \<and> log = newer @ (ap, client, k2, ee_ts ev) # older \<and> km_msg k2 = 2
     \<and> last_msg 1 older (ap, client) = Some (k1, t1) \<and> km_rc k1 = km_rc k2 \<and> km_nonce k1 = replicate 32 5 \<and> ee_ts ev - t1 \<le> 10"
proof -
  obtain c1 st1 h1 c2 st2 h2 ev evs where
    s: "eapol_observe_frame (\<lambda>_. []) (Some (msg1 5)) (-40) 6 1000 0 opened sh_init = Some (True, c1, st1, h1)"
    "eapol_observe_frame (\<lambda>_. []) (Some (msg2 6)) (-50) 6 1001 0 st1 h1 = Some (True, c2, st2, h2)"
    "eapol_snapshot st2 = ev # evs" "handshake_complete ev" "ee_bssid ev = ap" "ee_sta_mac ev = client" "ee_anonce ev = replicate 32 5"
    using heard_exchange [of "\<lambda>_. []" sh_init] by blast
  note r = eapol_run.frame [OF eapol_run.frame [OF opened_run(1) sample_heard(1) s(1)] sample_heard(3) s(2)]
  have e: "ev \<in> set (eapol_snapshot st2)" by (simp add: s(3))
  from eapol_pairs_same_attempt [OF r e s(4)] r e show ?thesis unfolding s(5-7) by blast
qed

text \<open>
  C2: A handshake that is heard is reported and kept. In any state a run can reach, when the gate is
  open, a first message that starts a new attempt and a second message of the same pair with the same
  replay counter, at most ten seconds later, make the newest event a complete handshake with both
  nonces and the check sum, and the second message writes the record for it, with its check sum
  cleared and its replay counter marked as checked, and a savefile that reads back as the two frames.
\<close>

theorem eapol_handshake_detected:
  assumes "eapol_run st log"
    and "frame_wf f1" "heard_msg f1 = Some (b, s, k1)" "km_msg k1 = 1"
    and "\<forall>k t. last_msg 1 log (b, s) = Some (k, t) \<longrightarrow> km_rc k \<noteq> km_rc k1 \<or> km_nonce k \<noteq> km_nonce k1"
    and "frame_wf f2" "heard_msg f2 = Some (b, s, k2)" "km_msg k2 = 2"
    and "km_rc k2 = km_rc k1" "now2 - now1 \<le> 10" "el_out_dir st \<noteq> []"
  shows "\<exists>c1 st1 h1 c2 st2 h2 ev evs nm out.
     eapol_observe_frame ssid_of (Some f1) sig1 ch1 now1 us1 st h = Some (True, c1, st1, h1)
   \<and> eapol_observe_frame ssid_of (Some f2) sig2 ch2 now2 us2 st1 h1 = Some (True, c2, st2, h2)
   \<and> eapol_snapshot st2 = ev # evs \<and> handshake_complete ev \<and> ee_bssid ev = b \<and> ee_sta_mac ev = s
   \<and> ee_anonce ev = km_nonce k1 \<and> ee_snonce ev = km_nonce k2 \<and> ee_mic ev = km_mic k2
   \<and> c2 = [Hashcat_Line (m2_line ev (cleared (take (min 511 (nat (km_span k2))) (eapol_of f2))) True) b, Handshake_Pcap nm out]
   \<and> read_pcap out = Some (105, 65535, [captured f1 now1 us1, captured f2 now2 us2])"
  by (rule handshake_detected [OF assms])

theorem eapol_handshake_detected_witness:
  "\<exists>c1 st1 h1 c2 st2 h2 ev evs nm out.
     eapol_observe_frame (\<lambda>_. []) (Some (msg1 5)) (-40) 6 1000 0 opened sh_init = Some (True, c1, st1, h1)
   \<and> eapol_observe_frame (\<lambda>_. []) (Some (msg2 6)) (-50) 6 1001 0 st1 h1 = Some (True, c2, st2, h2)
   \<and> eapol_snapshot st2 = ev # evs \<and> handshake_complete ev \<and> ee_anonce ev = replicate 32 5 \<and> ee_snonce ev = replicate 32 6
   \<and> read_pcap out = Some (105, 65535, [captured (msg1 5) 1000 0, captured (msg2 6) 1001 0])"
  using eapol_handshake_detected [where ?now1.0 = 1000 and ?now2.0 = 1001 and ?sig1.0 = "-40" and ?sig2.0 = "-50" and ssid_of = "\<lambda>_. []",
      OF opened_run(1) sample_heard(1,2) [of 5] _ _ sample_heard(3,4) [of 6] _ _ _ opened_run(2)]
  by (simp add: sample_msg classify_samples last_msg_def) blast

text \<open>A third message repeated after the fourth takes the progress that is shown back from four to three.\<close>

lemma repeated_m3_walks_back:
  assumes "paired p" "rc_is_successor (m1_rc p) (km_rc k)" "progress p = 4"
  shows "progress (fst (on_m3 k (p, ev))) = 3"
  using assms by (simp add: on_m3_def Let_def)

section \<open>Keys\<close>

text \<open>
  C9: The number of keys installed for a pair counts new keys and nothing else. Over any run, a third
  message heard for the pair adds one exactly when its nonce differs from that of the last third
  message heard for it, or when none is counted; a third message sent again, every other message and
  every frame that is no message leave the count; a message of another pair leaves it too, or takes
  the row of this pair and with it the count.
\<close>

theorem eapol_generation_exact:
  assumes "eapol_run st log" "frame_wf f"
    "eapol_observe_frame ssid_of (Some f) signal channel now ts_usec st h = Some (ret, calls, st', h')"
  shows "case heard_msg f of
      None \<Rightarrow> eapol_key_generation b s st' = eapol_key_generation b s st
    | Some (b', s', k) \<Rightarrow>
        if (b', s') = (b, s)
        then eapol_key_generation b s st' = (if km_msg k = 3 \<and> \<not> (0 < eapol_key_generation b s st \<and> reinstalls log b s k)
               then eapol_key_generation b s st + 1 else eapol_key_generation b s st)
        else eapol_key_generation b s st' \<in> {eapol_key_generation b s st, 0}"
  by (rule generation_exact [OF assms])

lemma boot_generation: "eapol_key_generation b s eapol_boot = 0"
  using run_inv_boot by (subst generation_row) (simp_all add: run_inv_def log_ok_def eapol_boot_def tab_map_def pending_decl_def STAB_DECL_AGE_def rows_def)

theorem eapol_generation_exact_witness:
  "\<exists>calls st' h'. eapol_observe_frame (\<lambda>_. []) (Some (msg3 5)) (-40) 6 1000 0 eapol_boot sh_init = Some (True, calls, st', h')
     \<and> eapol_key_generation ap client st' = 1"
proof -
  have "eapol_ok eapol_boot" using run_inv_boot by (simp add: run_inv_def)
  then obtain calls st' h' where o: "eapol_observe_frame (\<lambda>_. []) (Some (msg3 5)) (-40) 6 1000 0 eapol_boot sh_init = Some (True, calls, st', h')"
    by (rule heard_step [OF sample_heard(5) _ sample_heard(6) refl]) blast
  from eapol_generation_exact [OF eapol_run.boot sample_heard(5) o, of ap client] o show ?thesis
    by (simp add: sample_heard(6) sample_msg classify_samples boot_generation)
qed

section \<open>The gate\<close>

text \<open>
  C14: Nothing crackable leaves the program unless the operator asked for it. In any state a run can
  reach with collection off, no frame writes a record or a savefile, no file can be created, committed
  or named in the export directory, whatever the file system would answer, nothing is deleted there,
  and no frame turns collection on.
\<close>

theorem eapol_nothing_crackable_without_optin:
  assumes "eapol_run st log" "frame_wf f" "\<not> eapol_collect_enabled st"
    "eapol_observe_frame ssid_of (Some f) signal channel now ts_usec st h = Some (ret, calls, st', h')"
  shows "(\<forall>c \<in> set calls. \<not> crackable c) \<and> eapol_export_create nm created st = -1
    \<and> eapol_export_commit tmp nm found renamed st = (-1, False) \<and> eapol_export_path nm outsz st = (-1, [])
    \<and> fst (snd (eapol_sweep now2 dir tn st)) = [] \<and> \<not> eapol_collect_enabled st'"
  by (rule closed_gate [OF assms])

theorem eapol_nothing_crackable_without_optin_witness:
  "\<exists>ret calls st' h'. eapol_observe_frame (\<lambda>_. []) (Some (msg1 5)) (-40) 6 1000 0 eapol_boot sh_init = Some (ret, calls, st', h')
     \<and> (\<forall>c \<in> set calls. \<not> crackable c) \<and> \<not> eapol_collect_enabled st'"
proof -
  have "eapol_ok eapol_boot" using run_inv_boot by (simp add: run_inv_def)
  then obtain calls st' h' where o: "eapol_observe_frame (\<lambda>_. []) (Some (msg1 5)) (-40) 6 1000 0 eapol_boot sh_init = Some (True, calls, st', h')"
    by (rule heard_step [OF sample_heard(1) _ sample_heard(2) refl]) blast
  have "\<not> eapol_collect_enabled eapol_boot" by (simp add: eapol_collect_enabled_def eapol_boot_def)
  from eapol_nothing_crackable_without_optin [OF eapol_run.boot sample_heard(1) this o] o show ?thesis by blast
qed

text \<open>
  C13: The gate decides what is written and nothing else. A log with its gate closed, its directory
  forgotten and no attempt marked as exported answers every frame as the log itself does: the same
  result, the same calls but for the crackable ones, the same tally, and a state that differs from the
  log's in the gate and those marks alone, so that collection can neither hide nor add a detection.
\<close>

theorem eapol_gate_transparent:
  assumes "eapol_run st log" "frame_wf f"
    "eapol_observe_frame ssid_of (Some f) signal channel now ts_usec st h = Some (ret, calls, st', h')"
  shows "eapol_observe_frame ssid_of (Some f) signal channel now ts_usec (detector st) h
    = Some (ret, filter (\<lambda>c. \<not> crackable c) calls, detector st', h')"
  using run_inv [OF assms(1)] by (intro gate_transparent [OF _ assms(2,3)]) (simp add: run_inv_def)

theorem eapol_gate_transparent_witness:
  "\<exists>calls st' h'. eapol_observe_frame (\<lambda>_. []) (Some (msg1 5)) (-40) 6 1000 0 (detector opened) sh_init
     = Some (True, filter (\<lambda>c. \<not> crackable c) calls, detector st', h')"
proof -
  have "eapol_ok opened" using run_inv [OF opened_run(1)] by (simp add: run_inv_def)
  then obtain calls st' h' where o: "eapol_observe_frame (\<lambda>_. []) (Some (msg1 5)) (-40) 6 1000 0 opened sh_init = Some (True, calls, st', h')"
    by (rule heard_step [OF sample_heard(1) _ sample_heard(2) refl]) blast
  from eapol_gate_transparent [OF opened_run(1) sample_heard(1) o] show ?thesis by blast
qed

end
