(* ===== verification/Probe.thy ===== *)
theory Probe
  imports EapolVerdicts FragVerdicts DeauthSnoop EvidenceRing Dot11Ie FloodWindow Radiotap
begin

text \<open>
  \<open>src/capture/probe.c\<close>: the callback of the monitor stream, where one capture record passes the
  gates, is decoded once and is handed to every observer. The observers modelled in this development
  are called; what is handed to the others (association, beacon, action-frame, authentication and
  control-frame tracking, the traffic checks on unprotected frames) is a list of calls with their
  arguments, and what the beacon parser answers is an argument. The clock readings, the name the
  beacon table has for a BSSID and the thresholds come with the environment. Opening the interface,
  the capture thread and its health poll are left out.
\<close>

section \<open>Model\<close>

subsection \<open>The ring of frames shown\<close>

definition MAX_MON_FRAMES :: nat where "MAX_MON_FRAMES = 256"

record mon_frame_t =
  mf_ts :: time_t
  mf_signal_dbm :: int
  mf_len :: u16
  mf_type :: u8
  mf_subtype :: u8
  mf_addr1 :: mac
  mf_addr2 :: mac
  mf_label :: string

definition frame_label :: "u8 \<Rightarrow> u8 \<Rightarrow> string" where
  "frame_label type sub =
     (if type = 0 then
        (if sub = 0 then ''AssocReq'' else if sub = 1 then ''AssocRsp''
         else if sub = 2 then ''ReassoReq'' else if sub = 3 then ''ReassoRsp''
         else if sub = 4 then ''ProbeReq'' else if sub = 5 then ''ProbeRsp''
         else if sub = 8 then ''Beacon'' else if sub = 10 then ''Disassoc''
         else if sub = 11 then ''Auth'' else if sub = 12 then ''Deauth''
         else if sub = 13 then ''Action'' else ''Mgmt'')
      else if type = 1 then
        (if sub = 9 then ''BlockAck'' else if sub = 11 then ''RTS''
         else if sub = 12 then ''CTS'' else if sub = 13 then ''ACK'' else ''Ctrl'')
      else if type = 2 then (if sub AND 0x08 \<noteq> 0 then ''QoSData'' else ''Data'')
      else ''Ext'')"

record mon_t =
  g_frames :: "mon_frame_t list"
  g_frame_head :: nat
  g_frame_count :: nat
  g_frame_total :: u64

definition mon_frame_record ::
  "u8 \<Rightarrow> u8 \<Rightarrow> mac option \<Rightarrow> mac option \<Rightarrow> u16 \<Rightarrow> int \<Rightarrow> time_t \<Rightarrow> mon_t \<Rightarrow> mon_t" where
  "mon_frame_record type sub a1 a2 len signal ts st =
     (let f = \<lparr>mf_ts = ts, mf_signal_dbm = signal, mf_len = len, mf_type = type, mf_subtype = sub,
               mf_addr1 = (case a1 of None \<Rightarrow> replicate 6 0 | Some a \<Rightarrow> a),
               mf_addr2 = (case a2 of None \<Rightarrow> replicate 6 0 | Some a \<Rightarrow> a), mf_label = frame_label type sub\<rparr>
      in st\<lparr>g_frames := (g_frames st)[g_frame_head st := f],
            g_frame_head := (g_frame_head st + 1) mod MAX_MON_FRAMES,
            g_frame_count := (if g_frame_count st < MAX_MON_FRAMES then g_frame_count st + 1 else g_frame_count st),
            g_frame_total := g_frame_total st + 1\<rparr>)"

definition mon_frame_snapshot :: "mon_t \<Rightarrow> mon_frame_t list" where
  "mon_frame_snapshot st =
     map (\<lambda>i. g_frames st ! nat ((int (g_frame_head st) - 1 - int i + int MAX_MON_FRAMES) mod int MAX_MON_FRAMES))
       [0..<g_frame_count st]"

subsection \<open>The table of clients\<close>

definition MAX_PROBE_CLIENTS :: nat where "MAX_PROBE_CLIENTS = 128"
definition PROBE_AGE_SECS :: time_t where "PROBE_AGE_SECS = 120"
definition RSSI_WIN_SAMPLES :: nat where "RSSI_WIN_SAMPLES = 16"

text \<open>A client; the estimate of its distance is left out.\<close>

record client_t =
  cl_mac :: mac
  cl_ssid :: bytes
  cl_signal_dbm :: int
  cl_channel :: int
  cl_first_seen :: time_t
  cl_last_seen :: time_t
  cl_frame_count :: int
  cl_dbm :: "int list"
  cl_ts :: "time_t list"
  cl_head :: nat
  cl_n :: nat
  cl_burst :: probe_client_t

definition client_zero :: client_t where
  "client_zero = \<lparr>cl_mac = replicate 6 0, cl_ssid = [], cl_signal_dbm = 0, cl_channel = 0, cl_first_seen = 0, cl_last_seen = 0,
     cl_frame_count = 0, cl_dbm = replicate RSSI_WIN_SAMPLES 0, cl_ts = replicate RSSI_WIN_SAMPLES 0, cl_head = 0, cl_n = 0,
     cl_burst = \<lparr>burst_win = flood_zero, burst_frames = 0, burst_span_ms = 0, pc_flood = False, pc_flood_last = 0\<rparr>\<rparr>"

record clients_t =
  g_clients :: "client_t list"
  g_client_count :: nat

definition client_rssi_push :: "client_t \<Rightarrow> int \<Rightarrow> time_t \<Rightarrow> client_t" where
  "client_rssi_push c signal now =
     c\<lparr>cl_dbm := (cl_dbm c)[cl_head c := signal], cl_ts := (cl_ts c)[cl_head c := now],
       cl_head := (cl_head c + 1) mod RSSI_WIN_SAMPLES,
       cl_n := (if cl_n c < RSSI_WIN_SAMPLES then cl_n c + 1 else cl_n c)\<rparr>"

definition client_find :: "mac \<Rightarrow> clients_t \<Rightarrow> nat option" where
  "client_find m st = find (\<lambda>i. cl_mac (g_clients st ! i) = m) [0..<g_client_count st]"

text \<open>The scan for the client seen longest ago, over the slots left to look at.\<close>

fun oldest_client :: "client_t list \<Rightarrow> nat list \<Rightarrow> nat \<Rightarrow> time_t \<Rightarrow> nat" where
  "oldest_client cs [] slot oldest_ts = slot"
| "oldest_client cs (i # is) slot oldest_ts =
     (if cl_last_seen (cs ! i) < oldest_ts then oldest_client cs is i (cl_last_seen (cs ! i))
      else oldest_client cs is slot oldest_ts)"

definition record_probe ::
  "tune_t \<Rightarrow> mac \<Rightarrow> bytes \<Rightarrow> int \<Rightarrow> int \<Rightarrow> time_t \<Rightarrow> u64 \<Rightarrow> clients_t \<Rightarrow> sh_t \<Rightarrow> clients_t \<times> sh_t" where
  "record_probe tn m ssid signal channel now now_ms st h =
     (case client_find m st of
        Some i \<Rightarrow>
          let c = g_clients st ! i;
              c = c\<lparr>cl_signal_dbm := signal, cl_channel := channel, cl_last_seen := now, cl_frame_count := cl_frame_count c + 1\<rparr>;
              c = client_rssi_push c signal now;
              c = c\<lparr>cl_burst := probe_flood_note tn (cl_burst c) now_ms now\<rparr>;
              c = (if ssid \<noteq> [] then c\<lparr>cl_ssid := ssid\<rparr> else c)
          in (st\<lparr>g_clients := (g_clients st)[i := c]\<rparr>, h)
      | None \<Rightarrow>
          let (slot, st, h) =
                (if g_client_count st \<noteq> MAX_PROBE_CLIENTS
                 then (g_client_count st, st\<lparr>g_client_count := g_client_count st + 1\<rparr>, h)
                 else (oldest_client (g_clients st) [1..<g_client_count st] 0 (cl_last_seen (g_clients st ! 0)), st,
                       sh_evict_note SH_EVICT_PROBE_CLIENT h));
              c = client_zero\<lparr>cl_mac := m, cl_ssid := ssid, cl_signal_dbm := signal, cl_channel := channel,
                    cl_first_seen := now, cl_last_seen := now, cl_frame_count := 1\<rparr>;
              c = client_rssi_push c signal now;
              c = c\<lparr>cl_burst := probe_flood_note tn (cl_burst c) now_ms now\<rparr>
          in (st\<lparr>g_clients := (g_clients st)[slot := c]\<rparr>, h))"

text \<open>Ageing: a client out of date takes the last slot's row, and the slot is looked at again.\<close>

function age_clients :: "time_t \<Rightarrow> nat \<Rightarrow> clients_t \<Rightarrow> clients_t" where
  "age_clients now i st =
     (if i < g_client_count st then
        if now - cl_last_seen (g_clients st ! i) > PROBE_AGE_SECS
        then age_clients now i (st\<lparr>g_clients := (g_clients st)[i := g_clients st ! (g_client_count st - 1)],
               g_client_count := g_client_count st - 1\<rparr>)
        else age_clients now (i + 1) st
      else st)"
  by pat_completeness auto
termination by (relation "measure (\<lambda>(now, i, st). 2 * g_client_count st - i)") auto

declare age_clients.simps [simp del]

text \<open>The insertion sort; \<open>k\<close> is one more than the index the inner loop looks at.\<close>

fun client_sink :: "client_t list \<Rightarrow> client_t \<Rightarrow> nat \<Rightarrow> client_t list" where
  "client_sink cs tmp 0 = cs[0 := tmp]"
| "client_sink cs tmp (Suc b) =
     (if cl_last_seen (cs ! b) < cl_last_seen tmp then client_sink (cs[b + 1 := cs ! b]) tmp b else cs[b + 1 := tmp])"

fun client_sort :: "client_t list \<Rightarrow> nat list \<Rightarrow> client_t list" where
  "client_sort cs [] = cs"
| "client_sort cs (a # as) = client_sort (client_sink cs (cs ! a) a) as"

text \<open>The rows handed to the view, and the table.\<close>

definition probe_snapshot :: "time_t \<Rightarrow> u64 \<Rightarrow> clients_t \<Rightarrow> client_t list \<times> clients_t" where
  "probe_snapshot now now_ms st =
     (let st = age_clients now 0 st;
          cs = foldl (\<lambda>cs i. cs[i := (cs ! i)\<lparr>cl_burst := probe_flood_refresh (cl_burst (cs ! i)) now_ms\<rparr>])
                 (g_clients st) [0..<g_client_count st];
          cs = client_sort cs [1..<g_client_count st];
          n = (if g_client_count st < MAX_PROBE_CLIENTS then g_client_count st else MAX_PROBE_CLIENTS)
      in (take n cs, st\<lparr>g_clients := cs\<rparr>))"

definition probe_clear :: "clients_t \<Rightarrow> clients_t" where "probe_clear st = st\<lparr>g_client_count := 0\<rparr>"

subsection \<open>The callback\<close>

record pcap_pkthdr =
  ph_caplen :: u32
  ph_len :: u32
  ph_tv_sec :: int
  ph_tv_usec :: int

text \<open>What the beacon parser fills in, as far as the callback reads it.\<close>

record beacon_t =
  bc_ssid :: bytes
  bc_bssid :: mac
  bc_channel :: int
  bc_mle_body :: "bytes option"
  bc_mld_mac :: "mac option"
  bc_csa_present :: bool

record capture_env =
  en_wall :: time_t
  en_mono_ms :: u64
  en_tune :: tune_t
  en_ssid_of :: "mac \<Rightarrow> bytes"
  en_beacon :: "dot11_frame_t \<Rightarrow> int \<Rightarrow> beacon_t option"

datatype session_change = QUEUE_EVICT_SRC_ASSOC | QUEUE_EVICT_SRC_REASSOC | QUEUE_EVICT_SRC_DISCONNECT

datatype capture_call =
    Rf_Quality int wifi_band_t bool bool time_t
  | Ctrl_Observe dot11_frame_t int time_t
  | Eapol_Call eapol_call
  | Pm_Forge dot11_frame_t time_t u32
  | Queue_Downlink dot11_frame_t time_t u32
  | Mle_Bss dot11_frame_t time_t
  | Beacon_Record beacon_t int u64
  | Mle_Observe "mac option" time_t
  | Csa_Observe "mac option" "mac option" beacon_t int time_t
  | Reveal_Ssid "mac option" bytes
  | Probe_Resp_Ies "mac option" bytes bool time_t
  | Assoc_Granted "mac option" "mac option" "bytes option" bool int int wifi_band_t
  | Session_Change "mac option" "mac option" session_change time_t u32 u64
  | Assoc_Forget mac mac
  | Auth_Observe "mac option" time_t u64
  | Assoc_Request dot11_frame_t int int
  | Action_Observe dot11_frame_t time_t
  | Seqnum_Observe "mac option" u16
  | Pnl_Observe mac bytes bytes

record capture_t =
  cp_health :: sh_t
  cp_mon :: mon_t
  cp_clients :: clients_t
  cp_ring :: evring_t
  cp_eapol :: eapol_t
  cp_frag :: frag_t
  cp_deauth :: deauth_t
  cp_depad :: bytes
  cp_radiotap_rejects :: u64
  cp_bad_clock_total :: u64
  cp_last_frame_ts :: time_t
  cp_last_frame_wall :: time_t

definition mon_bad_clock_total :: "capture_t \<Rightarrow> u64" where "mon_bad_clock_total st = cp_bad_clock_total st"
definition mon_radiotap_reject_total :: "capture_t \<Rightarrow> u64" where "mon_radiotap_reject_total st = cp_radiotap_rejects st"
definition mon_frame_total :: "capture_t \<Rightarrow> u64" where "mon_frame_total st = g_frame_total (cp_mon st)"

definition saturating :: "u64 \<Rightarrow> u64" where "saturating n = (if n < - 1 then n + 1 else n)"

text \<open>An address a pointer of the view stands for, null when it is.\<close>

definition ptr_mac :: "dot11_frame_t \<Rightarrow> int option \<Rightarrow> mac option option" where
  "ptr_mac f q = (case q of None \<Rightarrow> Some None | Some i \<Rightarrow> do { a \<leftarrow> addr_at f q; Some (Some a) })"

text \<open>Data frames: the pad taken out, then every observer of data.\<close>

definition on_data ::
  "capture_env \<Rightarrow> dot11_frame_t \<Rightarrow> int \<Rightarrow> int \<Rightarrow> time_t \<Rightarrow> u32 \<Rightarrow> capture_t \<Rightarrow> (capture_call list \<times> capture_t) option" where
  "on_data en fr signal channel fts usec st = do {
     (moved, fo) \<leftarrow> dot11_frame_depad (Some fr) (Some (cp_depad st)) 65536;
     let fr = (case fo of None \<Rightarrow> fr | Some g \<Rightarrow> g);
     let depad = (if moved then the (f_p fr) else cp_depad st);
     (ret, ec, el, h) \<leftarrow> eapol_observe_frame (en_ssid_of en) (Some fr) signal channel fts (uint usec) (cp_eapol st) (cp_health st);
     (fg, h) \<leftarrow> frag_observe_frame (\<lambda>b s. eapol_key_generation b s el) (Some fr) fts (cp_frag st) h;
     Some (map Eapol_Call ec @ [Pm_Forge fr fts usec, Queue_Downlink fr fts usec],
           st\<lparr>cp_health := h, cp_eapol := el, cp_frag := fg, cp_depad := depad\<rparr>) }"

definition on_beacon ::
  "capture_env \<Rightarrow> dot11_frame_t \<Rightarrow> frame_view_t \<Rightarrow> int \<Rightarrow> int \<Rightarrow> u64 \<Rightarrow> capture_t \<Rightarrow> (capture_call list \<times> capture_t) option" where
  "on_beacon en fr fv signal channel ev st =
     (case en_beacon en fr signal of
        None \<Rightarrow> Some ([], st)
      | Some bc \<Rightarrow> do {
          let fts = fv_ts_sec fv;
          let mld = (case bc_mle_body bc of None \<Rightarrow> None | Some body \<Rightarrow> if body \<noteq> [] then bc_mld_mac bc else None);
          (fg, h) \<leftarrow> (if mld \<noteq> None then frag_note_beacon (Some (bc_bssid bc)) mld fts (cp_frag st) (cp_health st)
            else if bc_mle_body bc = None \<and> fv_caplen fv \<ge> uint (fv_origlen fv)
            then frag_note_beacon (Some (bc_bssid bc)) None fts (cp_frag st) (cp_health st)
            else Some (cp_frag st, cp_health st));
          bs \<leftarrow> ptr_mac fr (f_bssid fr);
          sa \<leftarrow> ptr_mac fr (f_sa fr);
          Some ([Beacon_Record bc signal ev] @ (if mld \<noteq> None then [Mle_Observe mld fts] else [])
                @ (if bc_csa_present bc then [Csa_Observe bs sa bc channel fts] else []),
                st\<lparr>cp_frag := fg, cp_health := h\<rparr>) })"

definition on_response ::
  "dot11_frame_t \<Rightarrow> bool \<Rightarrow> int \<Rightarrow> int \<Rightarrow> wifi_band_t \<Rightarrow> time_t \<Rightarrow> u32 \<Rightarrow> u64 \<Rightarrow> capture_t
     \<Rightarrow> (capture_call list \<times> capture_t) option" where
  "on_response fr full signal channel band fts usec ev st = do {
     let sub = f_subtype fr;
     sta \<leftarrow> ptr_mac fr (f_da fr);
     bs \<leftarrow> ptr_mac fr (f_bssid fr);
     let fixed = (if sub = 5 then 12 else 6);
     case (if full then dot11_frame_body (Some fr) else None) of
       None \<Rightarrow> Some ([], st)
     | Some (body, blen) \<Rightarrow>
       if blen < fixed then Some ([], st)
       else do {
         p \<leftarrow> f_p fr;
         status \<leftarrow> (if sub = 1 \<or> sub = 3 then le16 p (body + 2) else Some 0);
         let ies = drop (nat (body + fixed)) p;
         (r, h) \<leftarrow> dot11_ie_ssid (Some ies) (blen - fixed) (cp_health st);
         let ssid = (case r of None \<Rightarrow> [] | Some (s, over) \<Rightarrow> s);
         let c1 = (if ssid \<noteq> [] then [Reveal_Ssid bs ssid] else []);
         caps \<leftarrow> (if sub = 5 then byte_at p (body + 10) else Some 0);
         let c2 = (if sub = 5 then [Probe_Resp_Ies bs (take (nat (blen - fixed)) ies) (caps AND 0x10 \<noteq> 0) fts] else []);
         if status = 0 \<and> (sub = 1 \<or> sub = 3)
         then do {
           (fg, h) \<leftarrow> frag_note_association bs sta fts (cp_frag st) h;
           Some (c1 @ c2 @ [Assoc_Granted bs sta (if ssid \<noteq> [] then Some ssid else None) (sub = 3) signal channel band,
                            Session_Change bs sta (if sub = 3 then QUEUE_EVICT_SRC_REASSOC else QUEUE_EVICT_SRC_ASSOC) fts usec ev],
                 st\<lparr>cp_frag := fg, cp_health := h\<rparr>) }
         else Some (c1 @ c2, st\<lparr>cp_health := h\<rparr>) } }"

definition on_disconnect ::
  "capture_env \<Rightarrow> dot11_frame_t \<Rightarrow> time_t \<Rightarrow> u32 \<Rightarrow> u64 \<Rightarrow> capture_t \<Rightarrow> (capture_call list \<times> capture_t) option" where
  "on_disconnect en fr fts usec ev st = do {
     dfo \<leftarrow> deauth_parse_frame (Some fr);
     (da, h) \<leftarrow> (case dfo of None \<Rightarrow> Some (cp_deauth st, cp_health st)
       | Some df \<Rightarrow> deauth_record (en_tune en) (df\<lparr>df_event_id := ev\<rparr>) (en_mono_ms en) (en_wall en) (cp_deauth st) (cp_health st));
     let st = st\<lparr>cp_deauth := da, cp_health := h\<rparr>;
     if f_a1 fr \<noteq> None \<and> f_a2 fr \<noteq> None \<and> f_a3 fr \<noteq> None
     then do {
       a1 \<leftarrow> addr_at fr (f_a1 fr);
       a2 \<leftarrow> addr_at fr (f_a2 fr);
       bs \<leftarrow> addr_at fr (f_a3 fr);
       Some ([Assoc_Forget a1 a2, Assoc_Forget a2 a1,
              Session_Change (Some bs) (Some (if a1 = bs then a2 else a1)) QUEUE_EVICT_SRC_DISCONNECT fts usec ev], st) }
     else Some ([], st) }"

definition on_probe_request ::
  "capture_env \<Rightarrow> dot11_frame_t \<Rightarrow> bool \<Rightarrow> int \<Rightarrow> int \<Rightarrow> capture_t \<Rightarrow> (capture_call list \<times> capture_t) option" where
  "on_probe_request en fr full signal channel st = do {
     sa \<leftarrow> ptr_mac fr (f_sa fr);
     let c1 = (if f_seq_num fr \<ge> 0 then [Seqnum_Observe sa (word_of_int (f_seq_num fr))] else []);
     case (if full then dot11_frame_body (Some fr) else None) of
       None \<Rightarrow> Some (c1, st)
     | Some (body, blen) \<Rightarrow> do {
         p \<leftarrow> f_p fr;
         (r, h) \<leftarrow> dot11_ie_ssid (Some (drop (nat body) p)) blen (cp_health st);
         let ssid = (case r of None \<Rightarrow> [] | Some (s, over) \<Rightarrow> s);
         m \<leftarrow> sa;
         let (cl, h) = record_probe (en_tune en) m ssid signal channel (en_wall en) (en_mono_ms en) (cp_clients st) h;
         Some (c1 @ [Pnl_Observe m ssid (take (nat blen) (drop (nat body) p))], st\<lparr>cp_clients := cl, cp_health := h\<rparr>) } }"

definition on_management ::
  "capture_env \<Rightarrow> dot11_frame_t \<Rightarrow> bool \<Rightarrow> frame_view_t \<Rightarrow> int \<Rightarrow> int \<Rightarrow> wifi_band_t \<Rightarrow> u64 \<Rightarrow> capture_t
     \<Rightarrow> (capture_call list \<times> capture_t) option" where
  "on_management en fr full fv signal channel band ev st =
     (let sub = f_subtype fr; fts = fv_ts_sec fv; usec = fv_ts_usec fv;
          c0 = (if sub = 8 \<or> sub = 5 then [Mle_Bss fr fts] else [])
      in do {
        (cs, st) \<leftarrow>
          (if sub = 8 then on_beacon en fr fv signal channel ev st
           else if sub = 1 \<or> sub = 3 \<or> sub = 5 then on_response fr full signal channel band fts usec ev st
           else if sub = 10 \<or> sub = 12 then on_disconnect en fr fts usec ev st
           else if sub = 11 then do { bs \<leftarrow> ptr_mac fr (f_bssid fr); Some ([Auth_Observe bs fts ev], st) }
           else if sub = 0 \<or> sub = 2 then Some ([Assoc_Request fr signal channel], st)
           else if sub = 13 then Some ([Action_Observe fr fts], st)
           else if sub \<noteq> 4 then Some ([], st)
           else on_probe_request en fr full signal channel st);
        Some (c0 @ cs, st) })"

definition on_probe_frame ::
  "capture_env \<Rightarrow> pcap_pkthdr \<Rightarrow> bytes option \<Rightarrow> capture_t \<Rightarrow> (capture_call list \<times> capture_t) option" where
  "on_probe_frame en hdr data st =
     (case frame_view_init data (ph_caplen hdr) (ph_len hdr) (ph_tv_sec hdr) (ph_tv_usec hdr) 127 of
        None \<Rightarrow> Some ([], st\<lparr>cp_health := sh_parse_fault_note SH_PF_FRAME_EDGE (cp_health st)\<rparr>)
      | Some fv \<Rightarrow> do {
          (rtv, rt, dot11, dot11_len) \<leftarrow> frame_view_radiotap (Some fv);
          if rtv = FRAME_RT_BAD
          then Some ([], st\<lparr>cp_radiotap_rejects := saturating (cp_radiotap_rejects st),
                            cp_health := sh_parse_fault_note SH_PF_RADIOTAP_BAD (cp_health st)\<rparr>)
          else do {
          let signal = radiotap_info_t.signal_dbm rt;
          let channel = rt_channel rt;
          let band = radiotap_freq_to_band (freq_mhz rt);
          let fts = fv_ts_sec fv;
          let st = (if fts \<le> 0 then st\<lparr>cp_bad_clock_total := saturating (cp_bad_clock_total st)\<rparr> else st);
          if rtv \<noteq> FRAME_RT_OK
          then Some ([], st\<lparr>cp_health := sh_parse_fault_note SH_PF_DOT11_RUNT (cp_health st)\<rparr>)
          else do {
          (full, fr) \<leftarrow> dot11_frame_decode dot11 dot11_len
             (Some \<lparr>fcs_present = rt_fcs_present rt, datapad = rt_datapad rt, bad_fcs = rt_bad_fcs rt\<rparr>);
          a1 \<leftarrow> ptr_mac fr (f_a1 fr);
          a2 \<leftarrow> ptr_mac fr (f_a2 fr);
          let c0 = [Rf_Quality channel band (f_retry fr) (rt_bad_fcs rt) fts];
          let st = st\<lparr>cp_mon := mon_frame_record (f_type fr) (f_subtype fr) a1 a2 (word_of_int dot11_len) signal fts (cp_mon st),
                      cp_last_frame_ts := fts, cp_last_frame_wall := en_wall en\<rparr>;
          (ev, ring, h) \<leftarrow> evidence_ring_note (fv_data fv) (word_of_int (fv_caplen fv)) (fv_origlen fv) fts (uint (fv_ts_usec fv))
             (word_of_int (if freq_mhz rt > 0 \<and> freq_mhz rt \<le> 0xFFFF then freq_mhz rt else 0)) (word_of_int signal)
             (cp_ring st) (cp_health st);
          let st = st\<lparr>cp_ring := ring, cp_health := h\<rparr>;
          let fr = fr\<lparr>f_event_id := ev, f_band := band_value band\<rparr>;
          if f_bad_fcs fr then Some (c0, st\<lparr>cp_health := sh_parse_fault_note SH_PF_FCS_FAILED (cp_health st)\<rparr>)
          else if f_type fr = 1 then Some (c0 @ [Ctrl_Observe fr channel fts], st)
          else if dot11_len < 24 then Some (c0, st)
          else do {
            (cs, st) \<leftarrow>
              (if f_type fr = 2 then on_data en fr signal channel fts (fv_ts_usec fv) st
               else if f_type fr \<noteq> 0 then Some ([], st)
               else on_management en fr full fv signal channel band ev st);
            Some (c0 @ cs, st) } } } })"

end
