(* ===== verification/ProbeSteps.thy ===== *)
theory ProbeSteps
  imports Probe
begin

text \<open>
  One record through the callback: on any octets every branch returns, keeps the state of every observer
  well-formed and cites the record at hand; and what a branch makes of the key log and the fragment
  tables is one observation of each, of the same frame.
\<close>

section \<open>The frame the observers are handed\<close>

text \<open>A decoded frame with its marks: the citation, the band, and what the capture said of its check sum.\<close>

definition marked :: "u64 \<Rightarrow> int \<Rightarrow> dot11_frame_t \<Rightarrow> dot11_frame_t" where
  "marked ev band f = f\<lparr>f_event_id := ev, f_band := band\<rparr>"

lemma marked_simps [simp]:
  "f_p (marked e b f) = f_p f" "f_len (marked e b f) = f_len f" "f_type (marked e b f) = f_type f"
  "f_subtype (marked e b f) = f_subtype f" "f_hdr_len (marked e b f) = f_hdr_len f" "f_body_off (marked e b f) = f_body_off f"
  "f_body_len (marked e b f) = f_body_len f" "f_bad_fcs (marked e b f) = f_bad_fcs f" "f_event_id (marked e b f) = e"
  "f_a1 (marked e b f) = f_a1 f" "f_a2 (marked e b f) = f_a2 f" "f_a3 (marked e b f) = f_a3 f"
  "f_bssid (marked e b f) = f_bssid f" "f_sa (marked e b f) = f_sa f" "f_da (marked e b f) = f_da f"
  "f_protected (marked e b f) = f_protected f" "f_seq_num (marked e b f) = f_seq_num f"
  "frame_wf (marked e b f) = frame_wf f"
  by (simp_all add: marked_def frame_wf_def)

lemma wf_addr:
  assumes "frame_wf f" "q \<in> {f_a1 f, f_a2 f, f_a3 f, f_bssid f, f_sa f, f_da f}" "q = Some i" "f_p f = Some p"
  shows "addr_at f q = Some (take 6 (drop (nat i) p))" "bytes_at p i 6 = Some (take 6 (drop (nat i) p))"
proof -
  have "ptr_ok (f_len f) q" using assms(1,2) by (auto simp: frame_wf_def)
  then have "4 \<le> i" "i + 6 \<le> int (length p)" using assms by (auto simp: ptr_ok_def frame_wf_def)
  then show "addr_at f q = Some (take 6 (drop (nat i) p))" "bytes_at p i 6 = Some (take 6 (drop (nat i) p))"
    using assms(3,4) by (simp_all add: addr_at_def)
qed

lemma ptr_mac_safe:
  assumes "frame_wf f" "q \<in> {f_a1 f, f_a2 f, f_a3 f, f_bssid f, f_sa f, f_da f}" "f_p f = Some p"
  shows "\<exists>m. ptr_mac f q = Some m"
  using wf_addr(1) [OF assms(1,2) _ assms(3)] by (cases q) (auto simp: ptr_mac_def)

lemma mgmt_view:
  assumes "ftype b = 0" "24 \<le> len"
  shows "f_a1 (view b len rt) = Some 4" "f_a2 (view b len rt) = Some 10" "f_a3 (view b len rt) = Some 16"
    "f_da (view b len rt) = Some 4" "f_sa (view b len rt) = Some 10" "f_bssid (view b len rt) = Some 16"
  using assms by (simp_all add: froles_def role_bssid_def role_sa_def role_da_def fa_def)

lemma deauth_parse_safe:
  assumes l: "24 \<le> len" "len \<le> int (length b)"
  shows "\<exists>o'. deauth_parse_frame (Some (marked ev bd (view b len rt))) = Some o'"
proof (cases "ftype b = 0 \<and> (fsub b = 10 \<or> fsub b = 12) \<and> f_hdr_len (view b len rt) \<ge> 0")
  case False
  then have "deauth_parse_frame (Some (marked ev bd (view b len rt))) = Some None"
    by (auto simp: deauth_parse_frame_def Let_def not_le)
  then show ?thesis by blast
next
  case True
  then have h: "f_hdr_len (view b len rt) = hdr_size b" by (auto simp: view_geometry split: if_splits)
  have m: "mac_at b (f_da (view b len rt)) \<noteq> None" "mac_at b (f_sa (view b len rt)) \<noteq> None" "mac_at b (f_bssid (view b len rt)) \<noteq> None"
    using True l by (simp_all add: mgmt_view mac_at_def del: view_simps)
  have "10 \<le> hdr_size b" by (rule hdr_size_bounds)
  then have "hdr_size b + 2 \<le> len \<Longrightarrow> byte_at b (hdr_size b) \<noteq> None \<and> byte_at b (hdr_size b + 1) \<noteq> None" using l by simp
  then show ?thesis using m
    by (auto simp: deauth_parse_frame_def h marked_def Let_def simp del: view_simps(16,17) split: option.split)
qed

lemma ssid_safe:
  assumes "n \<le> length b"
  shows "\<exists>r h'. dot11_ie_ssid (Some b) (int n) h = Some (r, h')"
proof -
  obtain es ok where s: "tlv_spec Tlv8 (take n b) = (es, ok)" by fastforce
  obtain r h1 where f: "dot11_ie_find (Some b) (int n) 0 h = Some (r, h1)"
    using find_first_spec [OF assms s elems_run_find] by (auto simp: dot11_ie_find_def)
  show ?thesis
  proof (cases r)
    case None
    with f show ?thesis by (simp add: dot11_ie_ssid_def)
  next
    case (Some v)
    define n' where "n' = (if int (length v) < 32 then int (length v) else 32)"
    have "n' \<le> int (length v)" "\<not> n' < 0" by (simp_all add: n'_def)
    then have "dot11_ie_ssid_copy (Some v) (int (length v)) = Some (map mark (takeWhile (\<lambda>c. c \<noteq> 0) (take (nat (min n' 32)) v)), int (length v) > 32)"
      using netstr_copy_spec [of n' v 33] by (simp add: dot11_ie_ssid_copy_def n'_def Let_def)
    with f Some show ?thesis by (simp add: dot11_ie_ssid_def)
  qed
qed

text \<open>The fragment detectors read neither the marks nor where the body starts, but for the packet number.\<close>

lemma frag_frame_cong:
  assumes g: "g = f\<lparr>f_body_off := x, f_body_len := y, f_fcs_stripped := s, f_bad_fcs := c, f_event_id := e, f_band := d\<rparr>"
    and pn: "dot11_frame_ccmp_pn (Some g) = dot11_frame_ccmp_pn (Some f)"
  shows "frag_observe_frame gen (Some g) now st h = frag_observe_frame gen (Some f) now st h"
proof -
  have a: "addr_at g q = addr_at f q" "dot11_frame_amsdu (Some g) = dot11_frame_amsdu (Some f)"
    "dot11_frame_tid (Some g) = dot11_frame_tid (Some f)" for q
    by (simp_all add: g addr_at_def dot11_frame_amsdu_def dot11_frame_tid_def)
  have fl: "f_p g = f_p f" "f_len g = f_len f" "f_type g = f_type f" "f_hdr_len g = f_hdr_len f" "f_frag_num g = f_frag_num f"
    "f_ta g = f_ta f" "f_to_ds g = f_to_ds f" "f_from_ds g = f_from_ds f" "f_subtype g = f_subtype f" "f_has_addr4 g = f_has_addr4 f"
    "f_bssid g = f_bssid f" "f_sa g = f_sa f" "f_da g = f_da f" "f_more_frag g = f_more_frag f" "f_seq_num g = f_seq_num f"
    "f_protected g = f_protected f"
    by (simp_all add: g)
  have e: "first_frag_ethertype g = first_frag_ethertype f" "first_amsdu_subframe_ethertype g = first_amsdu_subframe_ethertype f"
    unfolding first_frag_ethertype_def first_amsdu_subframe_ethertype_def a fl by (rule refl)+
  have p: "flip_check g = flip_check f" "relay_check g = relay_check f" "plaintext_check g = plaintext_check f"
    unfolding fun_eq_iff flip_check_def relay_check_def plaintext_check_def a e fl by simp_all
  show ?thesis
    unfolding frag_observe_frame_def observe_locked_def option.case p pn a fl ..
qed

text \<open>What the pad removal leaves, for every observer of data frames.\<close>

lemma depad_marked:
  "dot11_frame_depad (Some (marked ev bd f)) buf cap
     = map_option (map_prod id (map_option (marked ev bd))) (dot11_frame_depad (Some f) buf cap)"
  by (cases f) (simp add: dot11_frame_depad_def marked_def Let_def map_option_bind comp_def split: option.split)

lemma pad_none: "pad_to None n = n" by (simp add: pad_to_def)

lemma frag_view:
  assumes l: "2 \<le> len" "len \<le> int (length b)"
    and p: "ftype b = 3 \<or> len < hdr_size b \<or> pad_to rt (hdr_size b) = hdr_size b \<or> len < pad_to rt (hdr_size b)"
  shows "frag_observe_frame gen (Some (marked ev bd (view b len rt))) now st h = frag_observe gen (Some b) len now st h"
proof -
  let ?g = "marked ev bd (view b len rt)" and ?f = "view b len None"
  have g: "?g = ?f\<lparr>f_body_off := f_body_off ?g, f_body_len := f_body_len ?g, f_fcs_stripped := f_fcs_stripped ?g,
      f_bad_fcs := f_bad_fcs ?g, f_event_id := f_event_id ?g, f_band := f_band ?g\<rparr>"
    by (simp add: marked_def view_def Let_def)
  have b: "f_body_len ?g = f_body_len ?f \<and> f_body_off ?g = f_body_off ?f \<or> f_body_len ?g < 8 \<and> f_body_len ?f < 8"
    using p pad_to_hdr(1) [of b rt] pad_to_hdr(2) [of rt b] by (auto simp: view_geometry pad_none)
  have "dot11_frame_ccmp_pn (Some ?g) = dot11_frame_ccmp_pn (Some ?f)"
  proof (cases "f_body_len ?g < 8 \<and> f_body_len ?f < 8")
    case True
    then show ?thesis by (subst g) (simp add: dot11_frame_ccmp_pn_def)
  next
    case False
    with b have e: "f_body_len ?g = f_body_len ?f" "f_body_off ?g = f_body_off ?f" by auto
    show ?thesis unfolding dot11_frame_ccmp_pn_def option.case e by simp (simp add: view_geometry)
  qed
  from frag_frame_cong [OF g this] show ?thesis
    using decode_view [OF l, of None] by (simp add: frag_observe_def)
qed

lemma depad_frame:
  assumes l: "24 \<le> len" "len \<le> int (length b)" "len \<le> 65536" and d: "length d = 65536"
    and f: "f = marked ev bd (view b len (Some hh))"
  obtains moved g b' where
    "dot11_frame_depad (Some f) (Some d) 65536 = Some (moved, Some g)" "frame_wf g" "moved \<Longrightarrow> length b' = 65536"
    "f_p g = Some b'" "2 \<le> f_len g" "f_len g \<le> int (length b')" "f_event_id g = ev"
    "\<And>gen now st h. frag_observe_frame gen (Some g) now st h = frag_observe gen (Some b') (f_len g) now st h"
proof -
  note found = that
  let ?v = "view b len (Some hh)"
  have l2: "2 \<le> len" using l(1) by simp
  have wf: "frame_wf f" unfolding f by (simp add: frame_wf_view [OF l2 l(2)])
  have stay: thesis if "dot11_frame_depad (Some ?v) (Some d) 65536 = Some (False, Some ?v)"
      "ftype b = 3 \<or> len < hdr_size b \<or> pad_to (Some hh) (hdr_size b) = hdr_size b \<or> len < pad_to (Some hh) (hdr_size b)"
    using that(1) frag_view [OF l2 l(2) that(2), of _ ev bd] wf l
    by (intro found [of False f b]) (simp_all add: f depad_marked)
  show thesis
  proof (cases "ftype b \<noteq> 3 \<and> hdr_size b \<le> len")
    case False
    then have "f_hdr_len ?v = -1" by (auto simp: view_geometry)
    then have "dot11_frame_depad (Some ?v) (Some d) 65536 = Some (False, Some ?v)" by (simp add: dot11_frame_depad_def)
    with False show thesis by (intro stay) auto
  next
    case True
    have dec: "dot11_frame_decode (Some b) len (Some hh) = Some (True, ?v)" using decode_view [OF l2 l(2), of "Some hh"] True by simp
    have g: "f_hdr_len ?v = hdr_size b" "f_body_off ?v = pad_to (Some hh) (hdr_size b)"
      "f_body_len ?v = max 0 (len - pad_to (Some hh) (hdr_size b))" using True by (simp_all add: view_geometry)
    have "65536 \<le> int (length d)" using d by simp
    note re = depad_redecode [OF dec l(2) this]
    show thesis
    proof (cases "pad_to (Some hh) (hdr_size b) > hdr_size b \<and> pad_to (Some hh) (hdr_size b) \<le> len")
      case False
      then have c: "\<not> (f_body_off ?v > f_hdr_len ?v \<and> f_body_off ?v \<le> len \<and> f_hdr_len ?v + f_body_len ?v \<le> 65536)" using g by auto
      then have "dot11_frame_depad (Some ?v) (Some d) 65536 = Some (False, Some ?v)" using re by (simp only: if_False)
      with False pad_to_hdr(1) [of b "Some hh"] show thesis by (intro stay) auto
    next
      case True
      then have c: "f_body_off ?v > f_hdr_len ?v \<and> f_body_off ?v \<le> len \<and> f_hdr_len ?v + f_body_len ?v \<le> 65536"
        using g l(3) hdr_size_bounds(2) [of b] by auto
      obtain d' w where w: "dot11_frame_depad (Some ?v) (Some d) 65536 = Some (True, Some w)" "f_p w = Some d'"
        "f_len w = hdr_size b + f_body_len ?v" "dot11_frame_decode (Some d') (f_len w) (Some (hh\<lparr>datapad := False\<rparr>)) = Some (True, w)"
        using re [unfolded if_P [OF c]] unfolding g(1) by auto
      have n: "f_len w = len - (pad_to (Some hh) (hdr_size b) - hdr_size b)" using w(3) g(3) True by simp
      have d': "length d' = 65536"
      proof -
        have dp: "dot11_frame_depad (Some ?v) (Some d) 65536 = Some (True, Some (?v\<lparr>f_p := Some (take (nat (hdr_size b)) b
            @ take (nat (len - f_body_off ?v)) (drop (nat (f_body_off ?v)) b) @ drop (nat (f_len w)) d), f_len := f_len w,
            f_body_off := hdr_size b, f_body_len := f_len w - hdr_size b\<rparr>))"
        proof -
          have "f_len w = len - (f_body_off ?v - f_hdr_len ?v)" "f_len w \<le> 65536" using n g True l(3) by simp_all
          then show ?thesis
            using True g l(2) hdr_size_bounds(1) [of b] by (simp add: dot11_frame_depad_def bytes_at_prefix_body Let_def)
        qed
        have "d' = take (nat (hdr_size b)) b @ take (nat (len - f_body_off ?v)) (drop (nat (f_body_off ?v)) b) @ drop (nat (f_len w)) d"
          using arg_cong [where f = "\<lambda>x. f_p (the (snd (the x)))", OF w(1) [unfolded dp]] w(2) by simp
        then show ?thesis using True g l(2,3) d hdr_size_bounds(1) [of b] unfolding n by simp arith
      qed
      have lw: "2 \<le> f_len w" "f_len w \<le> int (length d')"
        using True n d' l(3) hdr_size_bounds(1) [of b] by simp_all
      have wv: "w = view d' (f_len w) (Some (hh\<lparr>datapad := False\<rparr>))"
        using w(4) decode_view [OF lw, of "Some (hh\<lparr>datapad := False\<rparr>)"] by simp
      have np: "pad_to (Some (hh\<lparr>datapad := False\<rparr>)) n = n" for n by (simp add: pad_to_def)
      have fr: "frag_observe_frame gen (Some (marked ev bd w)) now st h = frag_observe gen (Some d') (f_len w) now st h" for gen now st h
        by (subst wv, subst frag_view [OF lw]) (simp_all add: np)
      have "frame_wf w" by (subst wv, rule frame_wf_view [OF lw])
      then show thesis
        by (intro found [of True "marked ev bd w" d']) (use w(1,2) d' lw fr in \<open>simp_all add: f depad_marked\<close>)
    qed
  qed
qed

section \<open>One record\<close>

definition clients_ok :: "clients_t \<Rightarrow> bool" where
  "clients_ok cl \<longleftrightarrow> length (g_clients cl) = MAX_PROBE_CLIENTS \<and> g_client_count cl \<le> MAX_PROBE_CLIENTS
     \<and> distinct (map cl_mac (take (g_client_count cl) (g_clients cl)))"

definition mon_ok :: "mon_t \<Rightarrow> bool" where
  "mon_ok m \<longleftrightarrow> length (g_frames m) = MAX_MON_FRAMES \<and> g_frame_head m < MAX_MON_FRAMES \<and> g_frame_count m \<le> MAX_MON_FRAMES"

text \<open>Every part well-formed: the tables and rings of the observers and the callback's own.\<close>

definition capture_ok :: "capture_t \<Rightarrow> bool" where
  "capture_ok st \<longleftrightarrow> er_ok (cp_ring st) \<and> deauth_ok (cp_deauth st) \<and> frag_ok (cp_frag st) \<and> eapol_ok (cp_eapol st)
     \<and> length (cp_depad st) = 65536 \<and> mon_ok (cp_mon st) \<and> clients_ok (cp_clients st)"

lemma mon_ok_record: "mon_ok m \<Longrightarrow> mon_ok (mon_frame_record t s a1 a2 l sg ts m)"
  by (auto simp: mon_ok_def mon_frame_record_def MAX_MON_FRAMES_def Let_def)

text \<open>The tail of the callback, from the frame and its event id on.\<close>

definition dispatch ::
  "capture_env \<Rightarrow> dot11_frame_t \<Rightarrow> bool \<Rightarrow> frame_view_t \<Rightarrow> int \<Rightarrow> int \<Rightarrow> wifi_band_t \<Rightarrow> u64 \<Rightarrow> int \<Rightarrow> capture_t
     \<Rightarrow> (capture_call list \<times> capture_t) option" where
  "dispatch en fr full fv signal channel band ev len st =
     (if f_bad_fcs fr then Some ([], st\<lparr>cp_health := sh_parse_fault_note SH_PF_FCS_FAILED (cp_health st)\<rparr>)
      else if f_type fr = 1 then Some ([Ctrl_Observe fr channel (fv_ts_sec fv)], st)
      else if len < 24 then Some ([], st)
      else if f_type fr = 2 then on_data en fr signal channel (fv_ts_sec fv) (fv_ts_usec fv) st
      else if f_type fr \<noteq> 0 then Some ([], st)
      else on_management en fr full fv signal channel band ev st)"

text \<open>What a record that is not looked at changes: counts of what was refused.\<close>

definition counted :: "capture_t \<Rightarrow> capture_t \<Rightarrow> bool" where
  "counted st st' \<longleftrightarrow> cp_mon st' = cp_mon st \<and> cp_clients st' = cp_clients st \<and> cp_ring st' = cp_ring st
     \<and> cp_eapol st' = cp_eapol st \<and> cp_frag st' = cp_frag st \<and> cp_deauth st' = cp_deauth st \<and> cp_depad st' = cp_depad st
     \<and> cp_last_frame_ts st' = cp_last_frame_ts st \<and> cp_last_frame_wall st' = cp_last_frame_wall st"

text \<open>What the callback has done with a record before it looks at the frame: noted it in the ring.\<close>

definition noted ::
  "pcap_pkthdr \<Rightarrow> bytes \<Rightarrow> capture_t \<Rightarrow> u64 \<Rightarrow> capture_t \<Rightarrow> bool" where
  "noted hdr data st ev st1 \<longleftrightarrow>
     (\<exists>freq sig h' m c t w. evidence_ring_note (Some data) (ph_caplen hdr) (ph_len hdr) (ph_tv_sec hdr) (ph_tv_usec hdr) freq sig
         (cp_ring st) (cp_health st) = Some (ev, cp_ring st1, h')
       \<and> st1 = st\<lparr>cp_health := h', cp_ring := cp_ring st1, cp_mon := m, cp_bad_clock_total := c, cp_last_frame_ts := t, cp_last_frame_wall := w\<rparr>
       \<and> (mon_ok (cp_mon st) \<longrightarrow> mon_ok m))"

lemma bind_cons: "Option.bind x (\<lambda>(cs, s). Some (c # cs, s)) = map_option (\<lambda>(cs, s). (c # cs, s)) x"
  by (cases x) auto

lemma record_cases:
  assumes b: "buf_ok data (uint (ph_caplen hdr))" and ok: "er_ok (cp_ring st)" and nw: "unat (g_next_id (cp_ring st)) < 2 ^ 64 - 1"
  obtains (refused) st' where "on_probe_frame en hdr data st = Some ([], st')" "counted st st'"
    "\<forall>fv rt d n. frame_view_init data (ph_caplen hdr) (ph_len hdr) (ph_tv_sec hdr) (ph_tv_usec hdr) 127 = Some fv
       \<longrightarrow> frame_view_radiotap (Some fv) \<noteq> Some (FRAME_RT_OK, rt, d, n)"
  | (heard) bs b len hh fv rt signal channel band ev st1 where
    "data = Some bs" "noted hdr bs st ev st1" "er_ok (cp_ring st1)" "10 \<le> len" "len \<le> int (length b)" "len \<le> 65535"
    "fv_ts_sec fv = ph_tv_sec hdr" "fv_caplen fv = uint (ph_caplen hdr)" "fv_origlen fv = ph_len hdr"
    "on_probe_frame en hdr data st = map_option (\<lambda>(cs, st'). (Rf_Quality channel band (f_retry (view b len (Some hh))) (bad_fcs hh) (ph_tv_sec hdr) # cs, st'))
       (dispatch en (marked ev (band_value band) (view b len (Some hh))) (ftype b \<noteq> 3 \<and> hdr_size b \<le> len) fv signal channel band ev len st1)"
    "frame_view_init data (ph_caplen hdr) (ph_len hdr) (ph_tv_sec hdr) (ph_tv_usec hdr) 127 = Some fv"
    "frame_view_radiotap (Some fv) = Some (FRAME_RT_OK, rt, Some b, len)" "bad_fcs hh = rt_bad_fcs rt"
proof (cases "frame_view_init data (ph_caplen hdr) (ph_len hdr) (ph_tv_sec hdr) (ph_tv_usec hdr) 127")
  case None
  then show thesis 
    by (intro refused [of "st\<lparr>cp_health := sh_parse_fault_note SH_PF_FRAME_EDGE (cp_health st)\<rparr>"])
      (simp_all add: on_probe_frame_def counted_def None)
next
  case (Some fv)
  then obtain bs where d: "data = Some bs" and fv: "fv_data fv = Some bs" "fv_caplen fv = uint (ph_caplen hdr)"
      "fv_origlen fv = ph_len hdr" "fv_ts_sec fv = ph_tv_sec hdr" "fv_ts_usec fv = word_of_int (ph_tv_usec hdr)"
      "0 \<le> ph_tv_usec hdr" "ph_tv_usec hdr < 1000000" "uint (ph_caplen hdr) \<le> 65535"
    by (cases data) (auto simp: frame_view_init_def not_le not_less word_le_def split: if_splits)
  have lb: "uint (ph_caplen hdr) \<le> int (length bs)" using b d by simp
  from edge_gate [OF lb, where origlen = "ph_len hdr" and s = "ph_tv_sec hdr" and us = "ph_tv_usec hdr" and dlt = 127] Some obtain v rti dd l where
    g: "frame_view_radiotap (Some fv) = Some (v, rti, dd, l)"
      "v = FRAME_RT_OK \<longrightarrow> dd = Some (drop (nat (rt_it_len bs)) bs) \<and> 10 \<le> l \<and> 8 \<le> rt_it_len bs
         \<and> l = uint (ph_caplen hdr) - rt_it_len bs - fcs_left (rt_fcs_present rti) (uint (ph_caplen hdr)) (uint (ph_len hdr))"
    unfolding d by (auto split: if_splits)
  show thesis
  proof (cases "v = FRAME_RT_OK")
    case False
    define c where "c = (if ph_tv_sec hdr \<le> 0 then saturating (cp_bad_clock_total st) else cp_bad_clock_total st)"
    have s: "(if ph_tv_sec hdr \<le> 0 then st\<lparr>cp_bad_clock_total := saturating (cp_bad_clock_total st)\<rparr> else st) = st\<lparr>cp_bad_clock_total := c\<rparr>"
      by (simp add: c_def)
    define st' where "st' = (if v = FRAME_RT_BAD
      then st\<lparr>cp_radiotap_rejects := saturating (cp_radiotap_rejects st), cp_health := sh_parse_fault_note SH_PF_RADIOTAP_BAD (cp_health st)\<rparr>
      else st\<lparr>cp_bad_clock_total := c, cp_health := sh_parse_fault_note SH_PF_DOT11_RUNT (cp_health st)\<rparr>)"
    have "on_probe_frame en hdr data st = Some ([], st')"
      using False by (simp add: on_probe_frame_def Some g(1) fv(4) s st'_def Let_def)
    then show thesis by (rule refused) (use Some g(1) False in \<open>simp_all add: counted_def st'_def\<close>)
  next
    case True
    define bb where "bb = drop (nat (rt_it_len bs)) bs"
    define hh where "hh = \<lparr>fcs_present = rt_fcs_present rti, datapad = rt_datapad rti, bad_fcs = rt_bad_fcs rti\<rparr>"
    define band where "band = radiotap_freq_to_band (freq_mhz rti)"
    have k: "0 \<le> fcs_left (rt_fcs_present rti) (uint (ph_caplen hdr)) (uint (ph_len hdr))" by (simp add: fcs_left_def)
    have l: "dd = Some bb" "10 \<le> l" "l \<le> int (length bb)" "l \<le> 65535"
      using g(2) True lb k fv(8) by (auto simp: bb_def)
    have l2: "2 \<le> l" using l(2) by simp
    let ?v = "view bb l (Some hh)"
    have dec: "dot11_frame_decode (Some bb) l (Some hh) = Some (ftype bb \<noteq> 3 \<and> hdr_size bb \<le> l, ?v)"
      by (rule decode_view [OF l2 l(3)])
    have p: "\<exists>m. ptr_mac ?v q = Some m" if "q \<in> {f_a1 ?v, f_a2 ?v}" for q
      by (rule ptr_mac_safe [OF frame_wf_view [OF l2 l(3)], where p = bb]) (use that in auto)
    obtain a1 a2 where a: "ptr_mac ?v (f_a1 ?v) = Some a1" "ptr_mac ?v (f_a2 ?v) = Some a2" using p by blast
    have u: "uint (fv_ts_usec fv) = ph_tv_usec hdr"
      unfolding fv(5) using fv(6,7) by (simp only: unsigned_of_int) (simp add: take_bit_eq_mod)
    have w: "word_of_int (fv_caplen fv) = ph_caplen hdr" by (simp add: fv(2))
    define c where "c = (if ph_tv_sec hdr \<le> 0 then saturating (cp_bad_clock_total st) else cp_bad_clock_total st)"
    define m where "m = mon_frame_record (ftype bb) (fsub bb) a1 a2 (word_of_int l) (radiotap_info_t.signal_dbm rti) (ph_tv_sec hdr) (cp_mon st)"
    define fw where "fw = (word_of_int (if freq_mhz rti > 0 \<and> freq_mhz rti \<le> 0xFFFF then freq_mhz rti else 0) :: u16)"
    obtain ev ring h1 where n: "evidence_ring_note (Some bs) (ph_caplen hdr) (ph_len hdr) (ph_tv_sec hdr) (ph_tv_usec hdr)
        fw (word_of_int (radiotap_info_t.signal_dbm rti)) (cp_ring st) (cp_health st) = Some (ev, ring, h1)" "er_ok ring"
      using note_ok [OF ok _ nw, of "Some bs" "ph_caplen hdr" "ph_len hdr" "ph_tv_sec hdr" "ph_tv_usec hdr" fw
          "word_of_int (radiotap_info_t.signal_dbm rti)" "cp_health st"] lb by auto
    define st1 where "st1 = st\<lparr>cp_health := h1, cp_ring := ring, cp_mon := m, cp_bad_clock_total := c,
       cp_last_frame_ts := ph_tv_sec hdr, cp_last_frame_wall := en_wall en\<rparr>"
    have s: "(if ph_tv_sec hdr \<le> 0 then st\<lparr>cp_bad_clock_total := saturating (cp_bad_clock_total st)\<rparr> else st) = st\<lparr>cp_bad_clock_total := c\<rparr>"
      by (simp add: c_def)
    have e: "on_probe_frame en hdr data st = map_option (\<lambda>(cs, st'). (Rf_Quality (rt_channel rti) band (f_retry ?v) (bad_fcs hh) (ph_tv_sec hdr) # cs, st'))
       (dispatch en (marked ev (band_value band) ?v) (ftype bb \<noteq> 3 \<and> hdr_size bb \<le> l) fv (radiotap_info_t.signal_dbm rti) (rt_channel rti) band ev l st1)"
      unfolding on_probe_frame_def Some option.case g(1) Option.bind.bind_lunit prod.case True frame_rt_verdict_t.distinct if_False
        Let_def l(1) hh_def [symmetric] dec a s fv(1,3,4) u w simp_thms
      by (simp add: a fw_def [symmetric] n(1) band_def [symmetric])
        (cases st; simp add: st1_def m_def dispatch_def marked_def bind_cons fv(4) hh_def)
    have hb: "bad_fcs hh = rt_bad_fcs rti" by (simp add: hh_def)
    have gg: "frame_view_radiotap (Some fv) = Some (FRAME_RT_OK, rti, Some bb, l)" using g(1) True l(1) by simp
    have "noted hdr bs st ev st1"
      unfolding noted_def
      by (rule exI [of _ fw], rule exI [of _ "word_of_int (radiotap_info_t.signal_dbm rti)"], rule exI [of _ h1], rule exI [of _ m],
          rule exI [of _ c], rule exI [of _ "ph_tv_sec hdr"], rule exI [of _ "en_wall en"])
        (use n(1) mon_ok_record in \<open>simp add: st1_def m_def\<close>)
    then show thesis
      by (intro heard [where bs = bs and b = bb and len = l and hh = hh and fv = fv and rt = rti and signal = "radiotap_info_t.signal_dbm rti"
          and channel = "rt_channel rti" and band = band and ev = ev and ?st1.0 = st1, OF d])
        (use n(2) l fv e hb gg Some in \<open>simp_all add: st1_def\<close>)
  qed
qed

section \<open>The table of clients\<close>

lemma client_find_spec:
  "case client_find m cl of None \<Rightarrow> \<forall>i < g_client_count cl. cl_mac (g_clients cl ! i) \<noteq> m
   | Some i \<Rightarrow> i < g_client_count cl \<and> cl_mac (g_clients cl ! i) = m"
  by (auto simp: client_find_def find_Some_iff find_None_iff split: option.split)

lemma oldest_client_in: "oldest_client cs is slot t \<in> insert slot (set is)"
  by (induction cs "is" slot t rule: oldest_client.induct) auto

lemma client_push_simps [simp]: "cl_mac (client_rssi_push c s t) = cl_mac c" "cl_last_seen (client_rssi_push c s t) = cl_last_seen c"
  by (simp_all add: client_rssi_push_def)

text \<open>One probe request: the row of its sender, in its slot, a new one, or the one of the client seen longest ago.\<close>

lemma record_probe_row:
  assumes ok: "clients_ok cl" and r: "record_probe tn m ssid signal channel now now_ms cl h = (cl', h')"
  obtains i c where "g_clients cl' = (g_clients cl)[i := c]" "cl_mac c = m" "cl_last_seen c = now" "i < g_client_count cl'"
    "g_client_count cl' \<le> MAX_PROBE_CLIENTS"
    "i < g_client_count cl \<and> cl_mac (g_clients cl ! i) = m \<and> g_client_count cl' = g_client_count cl
     \<or> m \<notin> cl_mac ` set (take (g_client_count cl) (g_clients cl))
       \<and> (i = g_client_count cl \<and> g_client_count cl' = Suc (g_client_count cl)
         \<or> g_client_count cl = MAX_PROBE_CLIENTS \<and> g_client_count cl' = g_client_count cl)"
proof -
  note o = ok [unfolded clients_ok_def]
  have nth: "m \<notin> cl_mac ` set (take (g_client_count cl) (g_clients cl))" if "\<forall>i < g_client_count cl. cl_mac (g_clients cl ! i) \<noteq> m"
    using that by (auto simp: in_set_conv_nth) blast
  show thesis
  proof (cases "client_find m cl")
    case (Some i)
    with client_find_spec [of cl m] have i: "i < g_client_count cl" "cl_mac (g_clients cl ! i) = m" by simp_all
    show thesis
      using r Some i o by (intro that [of i "g_clients cl' ! i"]) (auto simp: record_probe_def Let_def)
  next
    case None
    with client_find_spec [of cl m] nth have m: "m \<notin> cl_mac ` set (take (g_client_count cl) (g_clients cl))" by simp
    show thesis
    proof (cases "g_client_count cl = MAX_PROBE_CLIENTS")
      case False
      then show thesis
        using r None m o by (intro that [of "g_client_count cl" "g_clients cl' ! g_client_count cl"]) (auto simp: record_probe_def client_zero_def Let_def)
    next
      case True
      define i where "i = oldest_client (g_clients cl) [1..<g_client_count cl] 0 (cl_last_seen (g_clients cl ! 0))"
      have "i < g_client_count cl"
        using oldest_client_in [of "g_clients cl" "[1..<g_client_count cl]" 0 "cl_last_seen (g_clients cl ! 0)"] True
        by (auto simp: i_def MAX_PROBE_CLIENTS_def)
      moreover have e: "oldest_client (g_clients cl) [Suc 0..<MAX_PROBE_CLIENTS] 0 (cl_last_seen (g_clients cl ! 0)) = i"
        by (simp add: i_def True)
      ultimately show thesis
        using r None m o True by (intro that [of i "g_clients cl' ! i"]) (auto simp: record_probe_def e client_zero_def Let_def)
    qed
  qed
qed

lemma clients_ok_record:
  assumes ok: "clients_ok cl" and r: "record_probe tn m ssid signal channel now now_ms cl h = (cl', h')"
  shows "clients_ok cl'"
proof -
  let ?n = "g_client_count cl" and ?xs = "g_clients cl"
  note o = ok [unfolded clients_ok_def]
  obtain i c where s: "g_clients cl' = ?xs[i := c]" "cl_mac c = m" "i < g_client_count cl'" "g_client_count cl' \<le> MAX_PROBE_CLIENTS"
    "i < ?n \<and> cl_mac (?xs ! i) = m \<and> g_client_count cl' = ?n
     \<or> m \<notin> cl_mac ` set (take ?n ?xs) \<and> (i = ?n \<and> g_client_count cl' = Suc ?n \<or> ?n = MAX_PROBE_CLIENTS \<and> g_client_count cl' = ?n)"
    by (rule record_probe_row [OF ok r], rule that) simp_all
  have d: "distinct (map cl_mac (take ?n ?xs))" using o by simp
  have upd: "map cl_mac (take ?n (?xs[i := c])) = (map cl_mac (take ?n ?xs))[i := m]" by (simp add: take_update_swap map_update s(2))
  consider "cl_mac (?xs ! i) = m" "i < ?n" "g_client_count cl' = ?n" | "m \<notin> cl_mac ` set (take ?n ?xs)" "i = ?n" "g_client_count cl' = Suc ?n"
    | "m \<notin> cl_mac ` set (take ?n ?xs)" "g_client_count cl' = ?n"
    using s(5) by blast
  then have "distinct (map cl_mac (take (g_client_count cl') (?xs[i := c])))"
  proof cases
    case 1
    then have "(map cl_mac (take ?n ?xs)) ! i = m" using o by simp
    then have "(map cl_mac (take ?n ?xs))[i := m] = map cl_mac (take ?n ?xs)" by (metis list_update_id)
    with 1 d upd show ?thesis by simp
  next
    case 2
    have "take (Suc ?n) (?xs[?n := c]) = take ?n ?xs @ [c]"
      using 2 s(3,4) o by (simp add: take_Suc_conv_app_nth)
    with 2 d s(2) show ?thesis by simp
  next
    case 3
    have "distinct ((map cl_mac (take ?n ?xs))[i := m])" by (rule distinct_list_update [OF d]) (use 3 in auto)
    with 3 upd show ?thesis by simp
  qed
  with s o show ?thesis by (simp add: clients_ok_def)
qed

section \<open>One frame\<close>

text \<open>The event id an observer is handed, in an argument or on the frame.\<close>

fun cites :: "capture_call \<Rightarrow> u64 option" where
  "cites (Beacon_Record bc s e) = Some e"
| "cites (Session_Change b s r t u e) = Some e"
| "cites (Auth_Observe b t e) = Some e"
| "cites (Ctrl_Observe f c t) = Some (f_event_id f)"
| "cites (Pm_Forge f t u) = Some (f_event_id f)"
| "cites (Queue_Downlink f t u) = Some (f_event_id f)"
| "cites (Mle_Bss f t) = Some (f_event_id f)"
| "cites (Assoc_Request f s c) = Some (f_event_id f)"
| "cites (Action_Observe f t) = Some (f_event_id f)"
| "cites _ = None"

definition cites_only :: "u64 \<Rightarrow> capture_call list \<Rightarrow> bool" where
  "cites_only ev cs \<longleftrightarrow> (\<forall>c \<in> set cs. \<forall>e. cites c = Some e \<longrightarrow> e = ev)"

text \<open>The frames of data handed on, as the log of key messages sees them.\<close>

fun call_log :: "capture_call \<Rightarrow> key_log \<Rightarrow> key_log" where
  "call_log (Pm_Forge f now u) log = logged f now log"
| "call_log _ log = log"

definition calls_log :: "capture_call list \<Rightarrow> key_log \<Rightarrow> key_log" where "calls_log cs log = fold call_log cs log"

text \<open>What one frame makes of the key log and the fragment tables: a frame of data, or a note beside.\<close>

definition key_moved :: "capture_call list \<Rightarrow> capture_t \<Rightarrow> capture_t \<Rightarrow> bool" where
  "key_moved cs st st' \<longleftrightarrow>
     (\<exists>ssid_of g signal channel now us h ret ec h1 b' h2. frame_wf g
        \<and> eapol_observe_frame ssid_of (Some g) signal channel now us (cp_eapol st) h = Some (ret, ec, cp_eapol st', h1)
        \<and> buf_ok (Some b') (f_len g)
        \<and> frag_observe (\<lambda>b s. eapol_key_generation b s (cp_eapol st')) (Some b') (f_len g) now (cp_frag st) h1 = Some (cp_frag st', h2)
        \<and> (\<forall>log. calls_log cs log = logged g now log))
     \<or> cp_eapol st' = cp_eapol st \<and> (\<forall>log. calls_log cs log = log)
        \<and> (cp_frag st' = cp_frag st \<or> (\<exists>b m now h h'. frag_note_beacon b m now (cp_frag st) h = Some (cp_frag st', h'))
           \<or> (\<exists>b s now h h'. frag_note_association b s now (cp_frag st) h = Some (cp_frag st', h')))"

text \<open>The outcome of one step: it returns, everything stays well-formed, the rings of frames are left alone.\<close>

definition fine :: "u64 \<Rightarrow> capture_t \<Rightarrow> (capture_call list \<times> capture_t) option \<Rightarrow> bool" where
  "fine ev st r \<longleftrightarrow> (\<exists>cs st'. r = Some (cs, st') \<and> capture_ok st' \<and> cp_ring st' = cp_ring st \<and> cp_mon st' = cp_mon st
     \<and> cites_only ev cs \<and> key_moved cs st st')"

lemma calls_log_simps [simp]: "calls_log [] log = log" "calls_log (c # cs) log = calls_log cs (call_log c log)"
  "calls_log (map Eapol_Call ec @ cs) log = calls_log cs log"
  by (simp_all add: calls_log_def fold_append fold_map) (induction ec; simp)

lemma fine_plain:
  assumes "capture_ok st" "cites_only ev cs" "\<forall>log. calls_log cs log = log"
  shows "fine ev st (Some (cs, st\<lparr>cp_health := h\<rparr>))" "fine ev st (Some (cs, st))"
  using assms by (simp_all add: fine_def capture_ok_def key_moved_def)

lemma observe_returns:
  assumes "frame_wf f" "eapol_ok st"
  shows "\<exists>ret calls st' h'. eapol_observe_frame ssid_of (Some f) signal channel now ts_usec st h = Some (ret, calls, st', h') \<and> eapol_ok st'"
  using assms
  by (rule EapolLog.observe_step [where ssid_of = ssid_of and signal = signal and channel = channel and now = now and ts_usec = ts_usec and h = h]) auto

lemma on_data_fine:
  assumes ok: "capture_ok st" and l: "24 \<le> len" "len \<le> int (length b)" "len \<le> 65535"
  shows "fine ev st (on_data en (marked ev bd (view b len (Some hh))) signal channel fts usec st)"
proof -
  note o = ok [unfolded capture_ok_def]
  have l6: "len \<le> 65536" using l(3) by simp
  have dl: "length (cp_depad st) = 65536" using o by simp
  obtain moved g b' where
    d: "dot11_frame_depad (Some (marked ev bd (view b len (Some hh)))) (Some (cp_depad st)) 65536 = Some (moved, Some g)" "frame_wf g"
      "moved \<Longrightarrow> length b' = 65536" "f_p g = Some b'" "2 \<le> f_len g" "f_len g \<le> int (length b')" "f_event_id g = ev"
      "\<And>gen now st h. frag_observe_frame gen (Some g) now st h = frag_observe gen (Some b') (f_len g) now st h"
    by (rule depad_frame [OF l(1,2) l6 dl refl, of ev bd hh], rule that)
  have "eapol_ok (cp_eapol st)" using o by simp
  from observe_returns [OF d(2) this, of "en_ssid_of en" signal channel fts "uint usec" "cp_health st"]
  obtain ret ec el h1 where e: "eapol_observe_frame (en_ssid_of en) (Some g) signal channel fts (uint usec) (cp_eapol st) (cp_health st) = Some (ret, ec, el, h1)"
    "eapol_ok el" by blast
  have "buf_ok (Some b') (f_len g)" using d(6) by simp
  from observe_total [OF _ this, of "cp_frag st" "\<lambda>b s. eapol_key_generation b s el" fts h1] o obtain fg h2 where
    f: "frag_observe (\<lambda>b s. eapol_key_generation b s el) (Some b') (f_len g) fts (cp_frag st) h1 = Some (fg, h2)" "frag_ok fg" by auto
  let ?cs = "map Eapol_Call ec @ [Pm_Forge g fts usec, Queue_Downlink g fts usec]"
  let ?st = "st\<lparr>cp_health := h2, cp_eapol := el, cp_frag := fg, cp_depad := (if moved then the (f_p g) else cp_depad st)\<rparr>"
  have r: "on_data en (marked ev bd (view b len (Some hh))) signal channel fts usec st = Some (?cs, ?st)"
    by (simp add: on_data_def d(1) e(1) d(8) f(1))
  have "capture_ok ?st" using o e(2) f(2) d(3,4) by (simp add: capture_ok_def)
  moreover have "cites_only ev ?cs" by (auto simp: cites_only_def d(7))
  moreover have "key_moved ?cs st ?st" unfolding key_moved_def using d(2,6) e(1) f(1) by (intro disjI1) (force)
  ultimately show ?thesis unfolding fine_def r by simp
qed

lemma ptr_mac_view:
  assumes "ftype b = 0" "24 \<le> len" "len \<le> int (length b)" "q \<in> {Some 4, Some 10, Some 16}"
  shows "\<exists>m. ptr_mac (marked ev bd (view b len rt)) q = Some (Some m)" "\<exists>m. addr_at (marked ev bd (view b len rt)) q = Some m"
  using assms by (auto simp: ptr_mac_def addr_at_def)

lemma on_beacon_fine:
  assumes ok: "capture_ok st" and t: "ftype b = 0" and l: "24 \<le> len" "len \<le> int (length b)"
  shows "fine ev st (on_beacon en (marked ev bd (view b len rt)) fv signal channel ev st)"
proof (cases "en_beacon en (marked ev bd (view b len rt)) signal")
  case None
  then show ?thesis using ok by (simp add: on_beacon_def fine_plain cites_only_def)
next
  case (Some bc)
  note o = ok [unfolded capture_ok_def]
  let ?F = "marked ev bd (view b len rt)"
  obtain bs sa where p: "ptr_mac ?F (f_bssid ?F) = Some (Some bs)" "ptr_mac ?F (f_sa ?F) = Some (Some sa)"
    using ptr_mac_view(1) [OF t l] mgmt_view [OF t l(1), of rt] by force
  have nb: "\<exists>fg h'. frag_note_beacon x m (fv_ts_sec fv) (cp_frag st) (cp_health st) = Some (fg, h') \<and> frag_ok fg" for x m
    using note_beacon_ok [of "cp_frag st" x m "fv_ts_sec fv" "cp_health st"] o by simp
  define mld where "mld = (case bc_mle_body bc of None \<Rightarrow> None | Some body \<Rightarrow> if body \<noteq> [] then bc_mld_mac bc else None)"
  have "\<exists>fg h'. (if mld \<noteq> None then frag_note_beacon (Some (bc_bssid bc)) mld (fv_ts_sec fv) (cp_frag st) (cp_health st)
      else if bc_mle_body bc = None \<and> fv_caplen fv \<ge> uint (fv_origlen fv)
      then frag_note_beacon (Some (bc_bssid bc)) None (fv_ts_sec fv) (cp_frag st) (cp_health st)
      else Some (cp_frag st, cp_health st)) = Some (fg, h') \<and> frag_ok fg
      \<and> (fg = cp_frag st \<or> (\<exists>x m now h. frag_note_beacon x m now (cp_frag st) h = Some (fg, h')))"
    using nb [of "Some (bc_bssid bc)" mld] nb [of "Some (bc_bssid bc)" None] o by auto
  then obtain fg h' where f: "(if mld \<noteq> None then frag_note_beacon (Some (bc_bssid bc)) mld (fv_ts_sec fv) (cp_frag st) (cp_health st)
      else if bc_mle_body bc = None \<and> fv_caplen fv \<ge> uint (fv_origlen fv)
      then frag_note_beacon (Some (bc_bssid bc)) None (fv_ts_sec fv) (cp_frag st) (cp_health st)
      else Some (cp_frag st, cp_health st)) = Some (fg, h')" "frag_ok fg"
      "fg = cp_frag st \<or> (\<exists>x m now h. frag_note_beacon x m now (cp_frag st) h = Some (fg, h'))" by blast
  let ?cs = "[Beacon_Record bc signal ev] @ (if mld \<noteq> None then [Mle_Observe mld (fv_ts_sec fv)] else [])
      @ (if bc_csa_present bc then [Csa_Observe (Some bs) (Some sa) bc channel (fv_ts_sec fv)] else [])"
  have "on_beacon en ?F fv signal channel ev st = Some (?cs, st\<lparr>cp_frag := fg, cp_health := h'\<rparr>)"
    unfolding on_beacon_def Some option.case Let_def mld_def [symmetric] f(1) p by simp
  moreover have "capture_ok (st\<lparr>cp_frag := fg, cp_health := h'\<rparr>)" using o f(2) by (simp add: capture_ok_def)
  moreover have "key_moved ?cs st (st\<lparr>cp_frag := fg, cp_health := h'\<rparr>)"
    unfolding key_moved_def using f(3) by (intro disjI2) auto
  ultimately show ?thesis by (auto simp: fine_def cites_only_def)
qed

text \<open>The body of a management frame lies inside it.\<close>

lemma mgmt_body:
  assumes "dot11_frame_body (Some (marked ev bd (view b len rt))) = Some (off, n)"
  shows "10 \<le> off" "0 \<le> n" "n = max 0 (len - off)"
proof -
  have "ftype b \<noteq> 3 \<and> hdr_size b \<le> len"
    using assms by (auto simp: dot11_frame_body_def view_geometry split: if_splits)
  then show "10 \<le> off" "0 \<le> n" "n = max 0 (len - off)"
    using assms hdr_size_bounds(1) [of b] pad_to_hdr(1) [of b rt]
    by (auto simp: dot11_frame_body_def view_geometry split: if_splits)
qed

lemma ssid_inside:
  assumes "0 \<le> off" "0 \<le> n" "off + n \<le> int (length b)"
  shows "\<exists>r h'. dot11_ie_ssid (Some (drop (nat off) b)) n h = Some (r, h')"
proof -
  have "nat n \<le> length (drop (nat off) b)" using assms by (simp add: le_diff_conv2 nat_le_iff)
  from ssid_safe [OF this, of h] assms(2) show ?thesis by simp
qed

lemma on_response_fine:
  assumes ok: "capture_ok st" and t: "ftype b = 0" and l: "24 \<le> len" "len \<le> int (length b)" and s: "fsub b \<in> {1, 3, 5}"
  shows "fine ev st (on_response (marked ev bd (view b len rt)) full signal channel band fts usec ev st)"
proof -
  note o = ok [unfolded capture_ok_def]
  let ?F = "marked ev bd (view b len rt)"
  obtain da bs where p: "ptr_mac ?F (f_da ?F) = Some (Some da)" "ptr_mac ?F (f_bssid ?F) = Some (Some bs)"
    using ptr_mac_view(1) [OF t l] mgmt_view [OF t l(1), of rt] by force
  have q: "f_subtype ?F = fsub b" "f_p ?F = Some b" by simp_all
  define fixed where "fixed = (if fsub b = 5 then 12 else 6 :: int)"
  show ?thesis
  proof (cases "\<exists>off n. (if full then dot11_frame_body (Some ?F) else None) = Some (off, n) \<and> fixed \<le> n")
    case False
    then have "on_response ?F full signal channel band fts usec ev st = Some ([], st)"
      unfolding on_response_def q p Option.bind.bind_lunit Let_def fixed_def [symmetric] by (auto split: option.split)
    then show ?thesis using ok by (simp add: fine_plain cites_only_def)
  next
    case True
    then obtain off n where bd: "(if full then dot11_frame_body (Some ?F) else None) = Some (off, n)" "fixed \<le> n" by blast
    then have "dot11_frame_body (Some ?F) = Some (off, n)" by (auto split: if_splits)
    note m = mgmt_body [OF this]
    have fx: "6 \<le> fixed" "fsub b = 5 \<Longrightarrow> fixed = 12" by (simp_all add: fixed_def)
    have n: "off + n = len" "0 \<le> n - fixed" using m bd(2) fx by (auto simp: max_def split: if_splits)
    have c: "(n < fixed) = False" using bd(2) by simp
    have "byte_at b (off + 2) = Some (b ! nat (off + 2))" "byte_at b (off + 2 + 1) = Some (b ! nat (off + 2 + 1))"
      using m n bd(2) fx(1) l by simp_all
    then have "\<exists>v. le16 b (off + 2) = Some v" by (simp add: le16_def)
    then obtain status where st: "(if fsub b = 1 \<or> fsub b = 3 then le16 b (off + 2) else Some 0) = Some status"
      by (cases "fsub b = 1 \<or> fsub b = 3") auto
    obtain r h1 where r: "dot11_ie_ssid (Some (drop (nat (off + fixed)) b)) (n - fixed) (cp_health st) = Some (r, h1)"
      using ssid_inside [of "off + fixed" "n - fixed" b "cp_health st"] m n fx l by auto
    have "byte_at b (off + 10) = Some (b ! nat (off + 10))" if "fsub b = 5"
      using m n bd(2) fx(2) [OF that] l by simp
    then obtain caps where cp: "(if fsub b = 5 then byte_at b (off + 10) else Some 0) = Some caps"
      by (cases "fsub b = 5") auto
    obtain fg h2 where f: "frag_note_association (Some bs) (Some da) fts (cp_frag st) h1 = Some (fg, h2)" "frag_ok fg"
      using note_association_ok [of "cp_frag st" "Some bs" "Some da" fts h1] o by blast
    define ssid where "ssid = (case r of None \<Rightarrow> [] | Some (s, over) \<Rightarrow> s)"
    define c1 where "c1 = (if ssid \<noteq> [] then [Reveal_Ssid (Some bs) ssid] else [])"
    define c2 where "c2 = (if fsub b = 5 then [Probe_Resp_Ies (Some bs) (take (nat (n - fixed)) (drop (nat (off + fixed)) b)) (caps AND 0x10 \<noteq> 0) fts] else [])"
    define c3 where "c3 = [Assoc_Granted (Some bs) (Some da) (if ssid \<noteq> [] then Some ssid else None) (fsub b = 3) signal channel band,
        Session_Change (Some bs) (Some da) (if fsub b = 3 then QUEUE_EVICT_SRC_REASSOC else QUEUE_EVICT_SRC_ASSOC) fts usec ev]"
    have e: "on_response ?F full signal channel band fts usec ev st =
       (if status = 0 \<and> (fsub b = 1 \<or> fsub b = 3) then Some (c1 @ c2 @ c3, st\<lparr>cp_frag := fg, cp_health := h2\<rparr>)
        else Some (c1 @ c2, st\<lparr>cp_health := h1\<rparr>))"
      unfolding on_response_def q p Option.bind.bind_lunit Let_def fixed_def [symmetric] bd(1) option.case prod.case c if_False st r
        ssid_def [symmetric] cp f(1) c1_def [symmetric] c2_def [symmetric] c3_def [symmetric] by simp
    have lg: "calls_log (xs @ ys) log = calls_log ys (calls_log xs log)" for xs ys log by (simp add: calls_log_def)
    have cs: "cites_only ev (c1 @ c2 @ c3)" "cites_only ev (c1 @ c2)" by (auto simp: c1_def c2_def c3_def cites_only_def)
    have "\<forall>log. calls_log c1 log = log" "\<forall>log. calls_log c2 log = log" "\<forall>log. calls_log c3 log = log"
      by (auto simp: c1_def c2_def c3_def)
    then have lgs: "\<forall>log. calls_log (c1 @ c2) log = log" "\<forall>log. calls_log (c1 @ c2 @ c3) log = log" by (simp_all add: lg)
    have "fine ev st (Some (c1 @ c2 @ c3, st\<lparr>cp_frag := fg, cp_health := h2\<rparr>))"
      using o f cs lgs by (auto simp: fine_def capture_ok_def key_moved_def)
    then show ?thesis unfolding e using fine_plain(1) [OF ok cs(2) lgs(1)] by simp
  qed
qed

lemma on_disconnect_fine:
  assumes ok: "capture_ok st" and t: "ftype b = 0" and l: "24 \<le> len" "len \<le> int (length b)"
  shows "fine ev st (on_disconnect en (marked ev bd (view b len rt)) fts usec ev st)"
proof -
  note o = ok [unfolded capture_ok_def]
  let ?F = "marked ev bd (view b len rt)"
  obtain dfo where d: "deauth_parse_frame (Some ?F) = Some dfo" using deauth_parse_safe [OF l] by blast
  have "\<exists>da h. (case dfo of None \<Rightarrow> Some (cp_deauth st, cp_health st)
       | Some df \<Rightarrow> deauth_record (en_tune en) (df\<lparr>df_event_id := ev\<rparr>) (en_mono_ms en) (en_wall en) (cp_deauth st) (cp_health st)) = Some (da, h) \<and> deauth_ok da"
    using deauth_record_ok o by (cases dfo) auto
  then obtain da h where r: "(case dfo of None \<Rightarrow> Some (cp_deauth st, cp_health st)
       | Some df \<Rightarrow> deauth_record (en_tune en) (df\<lparr>df_event_id := ev\<rparr>) (en_mono_ms en) (en_wall en) (cp_deauth st) (cp_health st)) = Some (da, h)" "deauth_ok da"
    by blast
  obtain a1 a2 a3 where a: "addr_at ?F (f_a1 ?F) = Some a1" "addr_at ?F (f_a2 ?F) = Some a2" "addr_at ?F (f_a3 ?F) = Some a3"
    using ptr_mac_view(2) [OF t l] mgmt_view [OF t l(1), of rt] by force
  have n: "f_a1 ?F \<noteq> None \<and> f_a2 ?F \<noteq> None \<and> f_a3 ?F \<noteq> None" using mgmt_view [OF t l(1), of rt] by (simp del: view_simps)
  have "on_disconnect en ?F fts usec ev st = Some ([Assoc_Forget a1 a2, Assoc_Forget a2 a1,
      Session_Change (Some a3) (Some (if a1 = a3 then a2 else a1)) QUEUE_EVICT_SRC_DISCONNECT fts usec ev], st\<lparr>cp_deauth := da, cp_health := h\<rparr>)"
    unfolding on_disconnect_def d Option.bind.bind_lunit r(1) prod.case Let_def if_P [OF n] a ..
  then show ?thesis using o r(2) by (auto simp: fine_def capture_ok_def key_moved_def cites_only_def)
qed

lemma on_probe_request_fine:
  assumes ok: "capture_ok st" and t: "ftype b = 0" and l: "24 \<le> len" "len \<le> int (length b)"
  shows "fine ev st (on_probe_request en (marked ev bd (view b len rt)) full signal channel st)"
proof -
  note o = ok [unfolded capture_ok_def]
  let ?F = "marked ev bd (view b len rt)"
  obtain sa where p: "ptr_mac ?F (f_sa ?F) = Some (Some sa)"
    using ptr_mac_view(1) [OF t l] mgmt_view [OF t l(1), of rt] by force
  define c1 where "c1 = (if f_seq_num ?F \<ge> 0 then [Seqnum_Observe (Some sa) (word_of_int (f_seq_num ?F))] else [])"
  have cs: "cites_only ev c1" "\<forall>log. calls_log c1 log = log" by (simp_all add: c1_def cites_only_def)
  show ?thesis
  proof (cases "if full then dot11_frame_body (Some ?F) else None")
    case None
    have "on_probe_request en ?F full signal channel st = Some (c1, st)"
      unfolding on_probe_request_def p Option.bind.bind_lunit Let_def c1_def [symmetric] None option.case ..
    then show ?thesis using fine_plain(2) [OF ok cs] by simp
  next
    case (Some bn)
    obtain off n where bd: "(if full then dot11_frame_body (Some ?F) else None) = Some (off, n)" using Some by (cases bn) auto
    then have "dot11_frame_body (Some ?F) = Some (off, n)" by (auto split: if_splits)
    note m = mgmt_body [OF this]
    have q: "f_p ?F = Some b" by simp
    obtain r h1 where r: "dot11_ie_ssid (Some (drop (nat off) b)) n (cp_health st) = Some (r, h1)"
    proof (cases "n = 0")
      case True
      with ssid_safe [of 0 "drop (nat off) b" "cp_health st"] that show thesis by auto
    next
      case False
      with m l ssid_inside [of off n b "cp_health st"] that show thesis by (auto simp: max_def split: if_splits)
    qed
    define ssid where "ssid = (case r of None \<Rightarrow> [] | Some (s, over) \<Rightarrow> s)"
    obtain cl h2 where c: "record_probe (en_tune en) sa ssid signal channel (en_wall en) (en_mono_ms en) (cp_clients st) h1 = (cl, h2)" by fastforce
    have "on_probe_request en ?F full signal channel st
        = Some (c1 @ [Pnl_Observe sa ssid (take (nat n) (drop (nat off) b))], st\<lparr>cp_clients := cl, cp_health := h2\<rparr>)"
      unfolding on_probe_request_def p q Option.bind.bind_lunit Let_def c1_def [symmetric] bd option.case prod.case r ssid_def [symmetric] c ..
    moreover have "clients_ok cl" using clients_ok_record [OF _ c] o by simp
    ultimately show ?thesis using o cs by (auto simp: fine_def capture_ok_def key_moved_def cites_only_def c1_def)
  qed
qed

lemma fine_cons:
  assumes "fine ev st r" "\<forall>e. cites c = Some e \<longrightarrow> e = ev" "\<forall>log. call_log c log = log"
  shows "fine ev st (map_option (\<lambda>(cs, s). (c # cs, s)) r)"
proof -
  have "calls_log (c # cs) = calls_log cs" for cs using assms(3) by (simp add: fun_eq_iff)
  then have "key_moved (c # cs) st st' = key_moved cs st st'" for cs st' unfolding key_moved_def by (simp only:)
  then show ?thesis using assms(1,2) by (auto simp: fine_def cites_only_def)
qed

lemma on_management_fine:
  assumes ok: "capture_ok st" and t: "ftype b = 0" and l: "24 \<le> len" "len \<le> int (length b)"
  shows "fine ev st (on_management en (marked ev bd (view b len rt)) full fv signal channel band ev st)"
proof -
  let ?F = "marked ev bd (view b len rt)"
  obtain bs where p: "ptr_mac ?F (f_bssid ?F) = Some (Some bs)"
    using ptr_mac_view(1) [OF t l] mgmt_view [OF t l(1), of rt] by force
  have q: "f_subtype ?F = fsub b" by simp
  have plain: "fine ev st (Some (cs, st))" if "cites_only ev cs" "\<forall>log. calls_log cs log = log" for cs
    by (rule fine_plain(2) [OF ok that])
  define r where "r = (if fsub b = 8 then on_beacon en ?F fv signal channel ev st
           else if fsub b = 1 \<or> fsub b = 3 \<or> fsub b = 5 then on_response ?F full signal channel band (fv_ts_sec fv) (fv_ts_usec fv) ev st
           else if fsub b = 10 \<or> fsub b = 12 then on_disconnect en ?F (fv_ts_sec fv) (fv_ts_usec fv) ev st
           else if fsub b = 11 then Some ([Auth_Observe (Some bs) (fv_ts_sec fv) ev], st)
           else if fsub b = 0 \<or> fsub b = 2 then Some ([Assoc_Request ?F signal channel], st)
           else if fsub b = 13 then Some ([Action_Observe ?F (fv_ts_sec fv)], st)
           else if fsub b \<noteq> 4 then Some ([], st)
           else on_probe_request en ?F full signal channel st)"
  have "fine ev st r"
    unfolding r_def
    using on_beacon_fine [OF ok t l] on_response_fine [OF ok t l] on_disconnect_fine [OF ok t l] on_probe_request_fine [OF ok t l] plain
    by (simp add: cites_only_def)
  moreover have "on_management en ?F full fv signal channel band ev st
      = (if fsub b = 8 \<or> fsub b = 5 then map_option (\<lambda>(cs, s). (Mle_Bss ?F (fv_ts_sec fv) # cs, s)) r else r)"
    unfolding on_management_def q p Option.bind.bind_lunit Let_def r_def [symmetric]
    by (cases r) auto
  ultimately show ?thesis using fine_cons [of ev st r "Mle_Bss ?F (fv_ts_sec fv)"] by simp
qed

lemma dispatch_fine:
  assumes ok: "capture_ok st" and l: "10 \<le> len" "len \<le> int (length b)" "len \<le> 65535"
  shows "fine ev st (dispatch en (marked ev bd (view b len (Some hh))) full fv signal channel band ev len st)"
  using on_data_fine [OF ok _ l(2,3)] on_management_fine [OF ok _ _ l(2)] fine_plain [OF ok, of ev]
  by (simp add: dispatch_def cites_only_def not_less)

end
