(* ===== verification/ProbeRuns.thy ===== *)
theory ProbeRuns
  imports ProbeSteps
begin

text \<open>
  Runs of the monitor: the table of clients as it is shown, what any run of records, refreshes and clears
  keeps, what the observers cite, and the keys behind the mixed-key verdict.
\<close>

section \<open>The clients shown\<close>

definition fresh_client :: "time_t \<Rightarrow> client_t \<Rightarrow> bool" where
  "fresh_client now c \<longleftrightarrow> now - cl_last_seen c \<le> PROBE_AGE_SECS"

lemma age_clients_keeps:
  assumes "g_client_count st \<le> length (g_clients st)" "i \<le> g_client_count st"
  shows "length (g_clients (age_clients now i st)) = length (g_clients st) \<and> g_client_count (age_clients now i st) \<le> g_client_count st
    \<and> mset (take (g_client_count (age_clients now i st)) (g_clients (age_clients now i st)))
      = mset (take i (g_clients st)) + filter_mset (fresh_client now) (mset (drop i (take (g_client_count st) (g_clients st))))"
  using assms
proof (induction now i st rule: age_clients.induct)
  case (1 now i st)
  let ?n = "g_client_count st" and ?xs = "g_clients st"
  show ?case
  proof (cases "i < ?n")
    case False
    then have "age_clients now i st = st" by (subst age_clients.simps) simp
    with False "1.prems" show ?thesis by simp
  next
    case i: True
    have d: "drop i (take ?n ?xs) = ?xs ! i # drop (Suc i) (take ?n ?xs)"
      using Cons_nth_drop_Suc [of i "take ?n ?xs"] i "1.prems" by simp
    show ?thesis
    proof (cases "fresh_client now (?xs ! i)")
      case True
      then have "age_clients now i st = age_clients now (i + 1) st"
        by (subst age_clients.simps) (use i in \<open>simp add: fresh_client_def\<close>)
      moreover have "take (Suc i) ?xs = take i ?xs @ [?xs ! i]" using i "1.prems" by (simp add: take_Suc_conv_app_nth)
      ultimately show ?thesis using "1.IH"(2) i True "1.prems" d by (simp add: fresh_client_def)
    next
      case False
      define ys where "ys = ?xs[i := ?xs ! (?n - 1)]"
      let ?s = "st\<lparr>g_clients := ys, g_client_count := ?n - 1\<rparr>"
      have e: "age_clients now i st = age_clients now i ?s"
        by (subst age_clients.simps) (use i False in \<open>simp add: fresh_client_def ys_def\<close>)
      have ti: "take i ys = take i ?xs" by (simp add: ys_def)
      have "mset (drop i (take (?n - 1) ys)) = mset (drop (Suc i) (take ?n ?xs))"
      proof (cases "i = ?n - 1")
        case True
        then show ?thesis by simp
      next
        case False
        with i have l: "i < ?n - 1" by simp
        have "take ?n ?xs = take (?n - 1) ?xs @ [?xs ! (?n - 1)]"
          using l "1.prems" take_Suc_conv_app_nth [of "?n - 1" ?xs] by simp
        then have "drop (Suc i) (take ?n ?xs) = drop (Suc i) (take (?n - 1) ?xs) @ [?xs ! (?n - 1)]" using l "1.prems" by (simp add: min_def)
        moreover have "drop i (take (?n - 1) ys) = ys ! i # drop (Suc i) (take (?n - 1) ys)"
          using Cons_nth_drop_Suc [of i "take (?n - 1) ys"] l "1.prems" by (simp add: ys_def)
        moreover have "drop (Suc i) (take (?n - 1) ys) = drop (Suc i) (take (?n - 1) ?xs)" using l by (simp add: ys_def drop_take)
        moreover have "ys ! i = ?xs ! (?n - 1)" using l "1.prems" by (simp add: ys_def)
        ultimately show ?thesis by simp
      qed
      then have m: "filter_mset (fresh_client now) (mset (drop i (take (?n - 1) ys)))
          = filter_mset (fresh_client now) (mset (drop i (take ?n ?xs)))"
        using False unfolding d by simp
      have old: "now - cl_last_seen (?xs ! i) > PROBE_AGE_SECS" using False by (simp add: fresh_client_def)
      have s: "g_client_count ?s \<le> length (g_clients ?s)" "i \<le> g_client_count ?s" using i "1.prems" by (simp_all add: ys_def)
      from "1.IH"(1) [OF i old, folded ys_def, OF s]
      have ih: "length (g_clients (age_clients now i ?s)) = length ?xs" "g_client_count (age_clients now i ?s) \<le> ?n - 1"
        "mset (take (g_client_count (age_clients now i ?s)) (g_clients (age_clients now i ?s)))
          = mset (take i ?xs) + filter_mset (fresh_client now) (mset (drop i (take ?n ?xs)))"
        using ti m by (simp_all add: ys_def)
      have "g_client_count (age_clients now i ?s) \<le> ?n" using ih(2) by simp
      then show ?thesis unfolding e using ih(1,3) by simp
    qed
  qed
qed

lemma client_sink_insort:
  assumes "k < length cs"
  shows "client_sink cs tmp k = rev (insort_key cl_last_seen tmp (rev (take k cs))) @ drop (Suc k) cs"
  using assms
proof (induction k arbitrary: cs)
  case 0
  then show ?case by (cases cs) simp_all
next
  case (Suc k)
  have t: "take (Suc k) cs = take k cs @ [cs ! k]" using Suc.prems by (simp add: take_Suc_conv_app_nth)
  show ?case
  proof (cases "cl_last_seen (cs ! k) < cl_last_seen tmp")
    case True
    have "drop (Suc k) (cs[Suc k := cs ! k]) = cs ! k # drop (Suc (Suc k)) cs"
      using Cons_nth_drop_Suc [of "Suc k" "cs[Suc k := cs ! k]"] Suc.prems by simp
    with True Suc show ?thesis by (simp add: t)
  next
    case False
    have "cs[Suc k := tmp] = take (Suc k) cs @ tmp # drop (Suc (Suc k)) cs" using Suc.prems by (simp add: upd_conv_take_nth_drop)
    with False show ?thesis by (simp add: t)
  qed
qed

text \<open>The insertion sort is the stable sort of the library, newest first.\<close>

lemma client_sort_key:
  assumes "a \<le> n" "n \<le> length ds" "length cs = length ds" "drop a cs = drop a ds"
    "take a cs = rev (sort_key cl_last_seen (rev (take a ds)))"
  shows "client_sort cs [a..<n] = rev (sort_key cl_last_seen (rev (take n ds))) @ drop n ds"
  using assms
proof (induction "n - a" arbitrary: a cs)
  case 0
  then have "a = n" by simp
  with 0 append_take_drop_id [of n cs] show ?case by simp
next
  case (Suc m)
  then have a: "a < n" by simp
  have c: "cs ! a = ds ! a" using Suc.prems a nth_via_drop by (metis Cons_nth_drop_Suc list.inject order.strict_trans2)
  have s: "client_sink cs (cs ! a) a = rev (insort_key cl_last_seen (cs ! a) (rev (take a cs))) @ drop (Suc a) cs"
    by (rule client_sink_insort) (use a Suc.prems in simp)
  have t: "take (Suc a) ds = take a ds @ [ds ! a]" using a Suc.prems by (simp add: take_Suc_conv_app_nth)
  have l: "length (sort_key cl_last_seen (rev (take a ds))) = a" using a Suc.prems by simp
  have d: "drop (Suc a) cs = drop (Suc a) ds" using Suc.prems(4) by (metis drop_Suc tl_drop)
  have u: "[a..<n] = a # [Suc a..<n]" using a by (rule upt_conv_Cons)
  show ?case unfolding u client_sort.simps
  proof (rule Suc.hyps(1))
    have "take (Suc a) (client_sink cs (cs ! a) a) = rev (insort_key cl_last_seen (cs ! a) (rev (take a cs)))"
      unfolding s using a Suc.prems by simp
    then show "take (Suc a) (client_sink cs (cs ! a) a) = rev (sort_key cl_last_seen (rev (take (Suc a) ds)))"
      unfolding Suc.prems(5) c t by simp
    show "drop (Suc a) (client_sink cs (cs ! a) a) = drop (Suc a) ds"
      unfolding s Suc.prems(5) using l d by simp
    show "length (client_sink cs (cs ! a) a) = length ds" unfolding s Suc.prems(5) using l a Suc.prems by simp
  qed (use Suc a in simp_all)
qed

lemma refresh_each:
  "n \<le> length xs \<Longrightarrow> foldl (\<lambda>cs i. cs[i := f (cs ! i)]) xs [0..<n] = map f (take n xs) @ drop n xs"
proof (induction n)
  case (Suc n)
  then have "drop n xs = xs ! n # drop (Suc n) xs" "take (Suc n) xs = take n xs @ [xs ! n]"
    by (simp_all add: Cons_nth_drop_Suc take_Suc_conv_app_nth)
  with Suc show ?case by (simp add: nth_append list_update_append)
qed simp

definition refreshed :: "u64 \<Rightarrow> client_t \<Rightarrow> client_t" where
  "refreshed now_ms c = c\<lparr>cl_burst := probe_flood_refresh (cl_burst c) now_ms\<rparr>"

lemma refreshed_simps [simp]: "cl_mac (refreshed t c) = cl_mac c" "cl_last_seen (refreshed t c) = cl_last_seen c"
  by (simp_all add: refreshed_def)

lemma probe_snapshot_rows:
  assumes ok: "clients_ok st" and s: "probe_snapshot now now_ms st = (rs, st')"
  shows "mset rs = image_mset (refreshed now_ms) (filter_mset (fresh_client now) (mset (take (g_client_count st) (g_clients st))))"
    "sorted (rev (map cl_last_seen rs))" "rs = take (g_client_count st') (g_clients st')" "clients_ok st'"
proof -
  note o = ok [unfolded clients_ok_def]
  define st1 where "st1 = age_clients now 0 st"
  let ?n = "g_client_count st1"
  have a: "length (g_clients st1) = MAX_PROBE_CLIENTS" "?n \<le> g_client_count st"
    "mset (take ?n (g_clients st1)) = filter_mset (fresh_client now) (mset (take (g_client_count st) (g_clients st)))"
    using age_clients_keeps [of st 0 now] o by (simp_all add: st1_def)
  have n: "?n \<le> MAX_PROBE_CLIENTS" using a(2) o by simp
  define ds where "ds = map (refreshed now_ms) (take ?n (g_clients st1)) @ drop ?n (g_clients st1)"
  have f: "foldl (\<lambda>cs i. cs[i := (cs ! i)\<lparr>cl_burst := probe_flood_refresh (cl_burst (cs ! i)) now_ms\<rparr>]) (g_clients st1) [0..<?n] = ds"
    unfolding ds_def using refresh_each [of ?n "g_clients st1" "refreshed now_ms"] n a(1) by (simp add: refreshed_def)
  have ld: "length ds = MAX_PROBE_CLIENTS" "take ?n ds = map (refreshed now_ms) (take ?n (g_clients st1))" using a(1) n by (simp_all add: ds_def)
  have c: "client_sort ds [1..<?n] = rev (sort_key cl_last_seen (rev (take ?n ds))) @ drop ?n ds"
  proof (cases "?n = 0")
    case False
    have "take 1 ds = rev (sort_key cl_last_seen (rev (take 1 ds)))" by (cases ds) simp_all
    then show ?thesis using False n ld(1) by (intro client_sort_key) simp_all
  qed simp
  let ?rs = "rev (sort_key cl_last_seen (rev (take ?n ds)))"
  have r: "rs = ?rs" "st' = st1\<lparr>g_clients := ?rs @ drop ?n ds\<rparr>"
    using s n ld(1) unfolding probe_snapshot_def Let_def st1_def [symmetric] f c by (auto simp: min_def)
  show m: "mset rs = image_mset (refreshed now_ms) (filter_mset (fresh_client now) (mset (take (g_client_count st) (g_clients st))))"
    unfolding r(1) ld(2) a(3) [symmetric] by simp
  show "sorted (rev (map cl_last_seen rs))" unfolding r(1) by (simp add: rev_map [symmetric])
  show t: "rs = take (g_client_count st') (g_clients st')" unfolding r using n ld(1) by simp
  have "mset (map cl_mac rs) = mset (map cl_mac (filter (fresh_client now) (take (g_client_count st) (g_clients st))))"
    using arg_cong [OF m, of "image_mset cl_mac"] by (simp add: image_mset.compositionality comp_def)
  moreover have "distinct (map cl_mac (filter (fresh_client now) (take (g_client_count st) (g_clients st))))"
    using o distinct_map_filter by blast
  ultimately have "distinct (map cl_mac rs)" using mset_eq_imp_distinct_iff by blast
  then show "clients_ok st'" unfolding clients_ok_def t [symmetric] using n ld(1) by (simp add: r(2))
qed

section \<open>Runs of the monitor\<close>

text \<open>From a started sensor, over records, refreshes of the view and clears of the clients, with the key messages heard.\<close>

definition capture_boot :: "evring_t \<Rightarrow> bytes \<Rightarrow> capture_t" where
  "capture_boot ring depad =
     \<lparr>cp_health = sh_init, cp_mon = \<lparr>g_frames = replicate MAX_MON_FRAMES \<lparr>mf_ts = 0, mf_signal_dbm = 0, mf_len = 0, mf_type = 0,
          mf_subtype = 0, mf_addr1 = replicate 6 0, mf_addr2 = replicate 6 0, mf_label = []\<rparr>,
          g_frame_head = 0, g_frame_count = 0, g_frame_total = 0\<rparr>,
      cp_clients = \<lparr>g_clients = replicate MAX_PROBE_CLIENTS client_zero, g_client_count = 0\<rparr>,
      cp_ring = ring, cp_eapol = eapol_boot, cp_frag = frag_boot, cp_deauth = deauth_boot, cp_depad = depad,
      cp_radiotap_rejects = 0, cp_bad_clock_total = 0, cp_last_frame_ts = 0, cp_last_frame_wall = 0\<rparr>"

inductive capture_run :: "capture_t \<Rightarrow> key_log \<Rightarrow> bool" where
  boot: "er_ok ring \<Longrightarrow> length depad = 65536 \<Longrightarrow> capture_run (capture_boot ring depad) []"
| record_step: "capture_run st log \<Longrightarrow> buf_ok data (uint (ph_caplen hdr)) \<Longrightarrow> unat (g_next_id (cp_ring st)) < 2 ^ 64 - 1
    \<Longrightarrow> on_probe_frame en hdr data st = Some (cs, st') \<Longrightarrow> capture_run st' (calls_log cs log)"
| view_step: "capture_run st log \<Longrightarrow> probe_snapshot now now_ms (cp_clients st) = (rs, cl)
    \<Longrightarrow> capture_run (st\<lparr>cp_clients := cl\<rparr>) log"
| clear_step: "capture_run st log \<Longrightarrow> capture_run (st\<lparr>cp_clients := probe_clear (cp_clients st)\<rparr>) log"

lemma capture_ok_boot: "er_ok ring \<Longrightarrow> length depad = 65536 \<Longrightarrow> capture_ok (capture_boot ring depad)"
  using run_inv_boot frag_ok_boot deauth_reach_ok [OF deauth_reach.boot]
  by (simp add: capture_ok_def capture_boot_def run_inv_def mon_ok_def clients_ok_def MAX_MON_FRAMES_def MAX_PROBE_CLIENTS_def)

lemma noted_keeps:
  assumes "noted hdr bs st ev st1" "capture_ok st" "er_ok (cp_ring st1)"
  shows "capture_ok st1" "cp_eapol st1 = cp_eapol st" "cp_frag st1 = cp_frag st" "cp_deauth st1 = cp_deauth st"
    "cp_clients st1 = cp_clients st"
proof -
  obtain h m c t w where e: "st1 = st\<lparr>cp_health := h, cp_ring := cp_ring st1, cp_mon := m, cp_bad_clock_total := c,
      cp_last_frame_ts := t, cp_last_frame_wall := w\<rparr>" and m: "mon_ok (cp_mon st) \<longrightarrow> mon_ok m"
    using assms(1) by (auto simp: noted_def)
  show "capture_ok st1" by (subst e) (use assms(2,3) m in \<open>simp add: capture_ok_def\<close>)
  show "cp_eapol st1 = cp_eapol st" "cp_frag st1 = cp_frag st" "cp_deauth st1 = cp_deauth st" "cp_clients st1 = cp_clients st"
    by (subst e; simp)+
qed

lemma counted_ok: "counted st st' \<Longrightarrow> capture_ok st \<Longrightarrow> capture_ok st'"
  by (simp add: counted_def capture_ok_def)

text \<open>What one record does: it is refused and only counted, or noted and handed on with its event id.\<close>

lemma record_effect:
  assumes b: "buf_ok data (uint (ph_caplen hdr))" and ok: "capture_ok st" and nw: "unat (g_next_id (cp_ring st)) < 2 ^ 64 - 1"
  obtains (refused) st' where "on_probe_frame en hdr data st = Some ([], st')" "counted st st'" "capture_ok st'"
  | (heard) bs ev st1 c cs st' where "data = Some bs" "noted hdr bs st ev st1" "er_ok (cp_ring st1)"
    "on_probe_frame en hdr data st = Some (c # cs, st')" "capture_ok st'" "cp_ring st' = cp_ring st1"
    "cites_only ev (c # cs)" "key_moved cs st st'" "cites c = None" "\<And>log. call_log c log = log"
proof -
  have r: "er_ok (cp_ring st)" using ok by (simp add: capture_ok_def)
  show thesis
  proof (rule record_cases [OF b r nw, of en], goal_cases)
    case (1 st')
    with counted_ok [OF 1(2) ok] show ?case by (intro refused)
  next
    case (2 bs fb len hh fv rt signal channel band ev st1)
    have k: "capture_ok st1" "cp_eapol st1 = cp_eapol st" "cp_frag st1 = cp_frag st" by (rule noted_keeps [OF 2(2) ok 2(3)])+
    let ?r = "dispatch en (marked ev (band_value band) (view fb len (Some hh))) (ftype fb \<noteq> 3 \<and> hdr_size fb \<le> len) fv signal channel band ev len st1"
    have "fine ev st1 ?r" by (rule dispatch_fine [OF k(1) 2(4-6)])
    then obtain cs st' where f: "?r = Some (cs, st')" "capture_ok st'" "cp_ring st' = cp_ring st1" "cites_only ev cs" "key_moved cs st1 st'"
      unfolding fine_def by blast
    have "on_probe_frame en hdr data st = Some (Rf_Quality channel band (f_retry (view fb len (Some hh))) (bad_fcs hh) (ph_tv_sec hdr) # cs, st')"
      using 2(10) f(1) by simp
    moreover have "key_moved cs st st'" using f(5) unfolding key_moved_def k(2,3) .
    ultimately show ?case using 2(1-3) f by (intro heard) (auto simp: cites_only_def)
  qed
qed

lemma capture_run_ok: "capture_run st log \<Longrightarrow> capture_ok st"
proof (induction rule: capture_run.induct)
  case (boot ring depad)
  then show ?case by (rule capture_ok_boot)
next
  case (record_step st log data hdr en cs st')
  from record_step(2,5,3) show ?case
    by (rule record_effect [where en = en]) (use record_step(4) in auto)
next
  case (view_step st log now now_ms rs cl)
  from view_step(3) probe_snapshot_rows(4) [OF _ view_step(2)] show ?case by (simp add: capture_ok_def)
next
  case (clear_step st log)
  then show ?case by (simp add: capture_ok_def clients_ok_def probe_clear_def)
qed

text \<open>Every citation is of the record at hand, and the ring has it.\<close>

lemma record_cited:
  assumes ok: "capture_ok st" and b: "buf_ok data (uint (ph_caplen hdr))" and nw: "unat (g_next_id (cp_ring st)) < 2 ^ 64 - 1"
    and o: "on_probe_frame en hdr data st = Some (cs, st')" and c: "c \<in> set cs" "cites c = Some eid" "eid \<noteq> 0"
  shows "\<exists>bs rec. data = Some bs \<and> evidence_ring_get eid (Some m) (cp_ring st') = Some (Some (rec, take m (take (stored (ph_caplen hdr)) bs)))
    \<and> er_event_id rec = eid \<and> er_ts_sec rec = ph_tv_sec hdr \<and> er_ts_usec rec = ph_tv_usec hdr \<and> er_orig_len rec = ph_len hdr"
  using b ok nw
proof (rule record_effect [where en = en])
  fix st'' assume "on_probe_frame en hdr data st = Some ([], st'')"
  with o c show ?thesis by simp
next
  fix bs ev st1 c' cs' st''
  assume d: "data = Some bs" and n: "noted hdr bs st ev st1" and r1: "er_ok (cp_ring st1)"
    and o': "on_probe_frame en hdr data st = Some (c' # cs', st'')" and r: "cp_ring st'' = cp_ring st1" and ce: "cites_only ev (c' # cs')"
  have e: "cs = c' # cs'" "st' = st''" using o o' by simp_all
  have ev: "eid = ev" using ce c unfolding e(1) cites_only_def by blast
  have rs: "er_ok (cp_ring st)" using ok by (simp add: capture_ok_def)
  obtain freq sig h' where nt: "evidence_ring_note (Some bs) (ph_caplen hdr) (ph_len hdr) (ph_tv_sec hdr) (ph_tv_usec hdr) freq sig
      (cp_ring st) (cp_health st) = Some (ev, cp_ring st1, h')" using n by (auto simp: noted_def)
  have "ph_caplen hdr \<noteq> 0 \<and> g_arena (cp_ring st) \<noteq> None"
  proof (rule ccontr)
    assume "\<not> (ph_caplen hdr \<noteq> 0 \<and> g_arena (cp_ring st) \<noteq> None)"
    then have "ev = 0" using nt by (auto simp: evidence_ring_note_def split: option.splits)
    with c(3) ev show False by simp
  qed
  then obtain a where a: "g_arena (cp_ring st) = Some a" "ph_caplen hdr \<noteq> 0" by blast
  have l: "unat (ph_caplen hdr) \<le> length bs" using b unfolding d unat_eq_nat_uint by (simp only: nat_le_iff buf_ok.simps)
  from note_got [OF rs a l nw, of "ph_len hdr" "ph_tv_sec hdr" "ph_tv_usec hdr" freq sig "cp_health st"] nt
  have f: "ev = g_next_id (cp_ring st) + 1" "log_find ev (evlog (cp_ring st1)) = Some (new_rec ev (ph_caplen hdr) (ph_len hdr) (ph_tv_sec hdr) (ph_tv_usec hdr) freq sig, take (stored (ph_caplen hdr)) bs)"
    by auto
  show ?thesis unfolding e(2) r ev d get_spec [OF r1] f(2)
    by (intro exI [of _ bs] exI [of _ "new_rec ev (ph_caplen hdr) (ph_len hdr) (ph_tv_sec hdr) (ph_tv_usec hdr) freq sig"]) (simp add: new_rec_def)
qed

section \<open>Key installs and the mixed-key verdict\<close>

text \<open>Third messages of one pair of the BSS, with two nonces.\<close>

definition rekey_heard :: "key_log \<Rightarrow> mac \<Rightarrow> bool" where
  "rekey_heard log b \<longleftrightarrow> (\<exists>s k t k' t'. (b, s, k, t) \<in> set log \<and> (b, s, k', t') \<in> set log
     \<and> km_msg k = 3 \<and> km_msg k' = 3 \<and> km_nonce k \<noteq> km_nonce k')"

lemma rekey_heard_logged: "rekey_heard log b \<Longrightarrow> rekey_heard (logged f now log) b"
proof -
  have "set log \<subseteq> set (logged f now log)" by (auto simp: logged_def split: option.split)
  then show "rekey_heard log b \<Longrightarrow> rekey_heard (logged f now log) b" unfolding rekey_heard_def by blast
qed

lemma last_msg_in: "last_msg i log (b, s) = Some (k, t) \<Longrightarrow> (b, s, k, t) \<in> set log \<and> km_msg k = i"
  by (auto simp: last_msg_def find_Some_iff) (metis nth_mem)

lemma generation_heard:
  assumes "run_inv st log" "0 < eapol_key_generation b s st"
  shows "\<exists>k t. last_msg 3 log (b, s) = Some (k, t)"
proof -
  have "has_installed (row_for b s 0 st)" using generation_log(2) [OF assms(1) refl] assms(2) by simp
  moreover have "row_log log (b, s) (row_for b s 0 st)" using assms(1) by (intro row_for_log) (simp add: run_inv_def)
  ultimately show ?thesis by (auto simp: row_log_def)
qed

text \<open>A second key counted for a pair is a second nonce heard.\<close>

lemma generation_rekey:
  assumes run: "eapol_run st log" and wf: "frame_wf f"
    and o: "eapol_observe_frame ssid_of (Some f) signal channel now ts_usec st h = Some (ret, calls, st', h')"
    and old: "2 \<le> eapol_key_generation b s st \<Longrightarrow> rekey_heard log b" and two: "2 \<le> eapol_key_generation b s st'"
  shows "rekey_heard (logged f now log) b"
proof (cases "2 \<le> eapol_key_generation b s st")
  case True
  then show ?thesis by (intro rekey_heard_logged old)
next
  case False
  note g = generation_exact [OF run wf o, of b s]
  then obtain k where m: "heard_msg f = Some (b, s, k)" "km_msg k = 3" "eapol_key_generation b s st = 1" "\<not> reinstalls log b s k"
    using False two by (auto split: option.splits if_splits)
  obtain k0 t0 where l: "last_msg 3 log (b, s) = Some (k0, t0)" using generation_heard [OF run_inv [OF run]] m(3) by fastforce
  have "km_nonce k0 \<noteq> km_nonce k" using m(4) l by (auto simp: reinstalls_def)
  with last_msg_in [OF l] m(1,2) show ?thesis unfolding rekey_heard_def logged_def by auto
qed

lemma mixed_key_step:
  assumes ok: "frag_ok st" and b': "buf_ok (Some b') len" and o: "frag_observe gen (Some b') len now st h = Some (st', h')"
    and c: "count_of mixed_key st' b \<noteq> 0"
  shows "count_of mixed_key st b \<noteq> 0 \<or> (\<exists>s. 2 \<le> gen b s)"
proof -
  consider "st' = st" | "eligible b' len" "bss_map st' (fbssid b') = Some (final_row gen st b' len now)"
      "\<forall>k. k \<noteq> fbssid b' \<longrightarrow> bss_map st' k \<in> {bss_map st k, None}"
    using step_effect [OF ok b' o] by auto
  then show ?thesis
  proof cases
    case 2
    show ?thesis
    proof (cases "b = fbssid b'")
      case False
      with 2(3) c show ?thesis by (auto simp: count_of_def)
    next
      case True
      show ?thesis
      proof (cases "continues st b' len (rekeyed gen (fbssid b') (fsa b') (bit (b' ! 1) 6))")
        case T: True
        then obtain s where "rekeyed gen b (fsa b') (bit (b' ! 1) 6) s"
          unfolding True continues_def by (auto split: option.splits)
        then have "2 \<le> gen b (fsa b')" by (simp add: rekeyed_def)
        then show ?thesis by blast
      next
        case False
        then show ?thesis using c final_row_frag_counts(3) [of gen st b' len now] unfolding True count_of_Some [OF 2(2)] by simp
      qed
    qed
  qed (use c in simp)
qed

definition keys_backed :: "capture_t \<Rightarrow> key_log \<Rightarrow> bool" where
  "keys_backed st log \<longleftrightarrow> eapol_run (cp_eapol st) log
     \<and> (\<forall>b s. 2 \<le> eapol_key_generation b s (cp_eapol st) \<longrightarrow> rekey_heard log b)
     \<and> (\<forall>b. count_of mixed_key (cp_frag st) b \<noteq> 0 \<longrightarrow> rekey_heard log b)"

lemma count_of_bss: "g_bss st' = g_bss st \<Longrightarrow> count_of c st' b = count_of c st b" by (simp add: count_of_def)

lemma keys_backed_moved:
  assumes inv: "keys_backed st log" and ok: "frag_ok (cp_frag st)" and m: "key_moved cs st st'"
  shows "keys_backed st' (calls_log cs log)"
proof -
  note i = inv [unfolded keys_backed_def]
  from m show ?thesis unfolding key_moved_def
  proof (elim disjE exE conjE, goal_cases)
    case (1 ssid_of g signal channel now us h ret ec h1 b' h2)
    have l: "calls_log cs log = logged g now log" using 1(5) by simp
    have run: "eapol_run (cp_eapol st) log" using i by simp
    have gen: "2 \<le> eapol_key_generation b s (cp_eapol st') \<longrightarrow> rekey_heard (logged g now log) b" for b s
      using generation_rekey [OF run 1(1,2), of b s] i by blast
    have "rekey_heard (logged g now log) b" if "count_of mixed_key (cp_frag st') b \<noteq> 0" for b
      using mixed_key_step [OF ok 1(3,4) that] gen i rekey_heard_logged by blast
    then show ?case unfolding keys_backed_def l using eapol_run.frame [OF run 1(1,2)] gen by blast
  next
    case 2
    with i show ?case by (simp add: keys_backed_def)
  next
    case (3 b m now h h')
    have "count_of mixed_key (cp_frag st') b = count_of mixed_key (cp_frag st) b" for b
      by (rule count_of_bss [OF note_beacon_keeps(2) [OF 3(3)]])
    with i 3(1,2) show ?case by (simp add: keys_backed_def)
  next
    case (4 b s now h h')
    have "count_of mixed_key (cp_frag st') b = count_of mixed_key (cp_frag st) b" for b
      by (rule count_of_bss [OF note_association_keeps(2) [OF 4(3)]])
    with i 4(1,2) show ?case by (simp add: keys_backed_def)
  qed
qed

lemma keys_backed_run: "capture_run st log \<Longrightarrow> keys_backed st log"
proof (induction rule: capture_run.induct)
  case (boot ring depad)
  show ?case by (simp add: keys_backed_def capture_boot_def eapol_run.boot boot_generation count_of_def boot_maps)
next
  case (record_step st log data hdr en cs st')
  have ok: "capture_ok st" by (rule capture_run_ok [OF record_step(1)])
  from record_step(2) ok record_step(3) show ?case
  proof (rule record_effect [where en = en], goal_cases)
    case (1 st'')
    then have "cs = []" "st'' = st'" using record_step(4) by simp_all
    with 1 record_step(5) show ?case by (simp add: keys_backed_def counted_def)
  next
    case (2 bs ev st1 c cs' st'')
    then have e: "cs = c # cs'" "st'' = st'" using record_step(4) by simp_all
    have l: "calls_log cs log = calls_log cs' log" unfolding e using 2(10) by simp
    have "frag_ok (cp_frag st)" using ok by (simp add: capture_ok_def)
    from keys_backed_moved [OF record_step(5) this] 2(8) e(2) show ?case unfolding l by blast
  qed
next
  case (view_step st log now now_ms rs cl)
  then show ?case by (simp add: keys_backed_def)
next
  case (clear_step st log)
  then show ?case by (simp add: keys_backed_def)
qed

end
