(* ===== verification/ProbeVerdicts.thy ===== *)
theory ProbeVerdicts
  imports ProbeRuns
begin

text \<open>
  The receive path as a whole: on any record the callback returns and leaves the sensor well-formed, a
  damaged frame reaches no parser, what observers cite is the record they were handed, and the verdicts of
  one detector rest on what another has heard.
\<close>

section \<open>Sample records\<close>

text \<open>An authentication frame behind a radiotap header that holds the flags alone.\<close>

definition sample_rec :: "u8 \<Rightarrow> bytes" where
  "sample_rec flags = [0, 0, 9, 0, 2, 0, 0, 0, flags]
     @ [0xB0, 0, 0, 0, 2, 0, 0, 0, 0, 2, 2, 0, 0, 0, 0, 1, 2, 0, 0, 0, 0, 2, 0x10, 0, 0, 0, 1, 0, 0, 0]"

definition sample_hdr :: pcap_pkthdr where "sample_hdr = \<lparr>ph_caplen = 39, ph_len = 39, ph_tv_sec = 1000, ph_tv_usec = 7\<rparr>"

definition sample_fv :: "u8 \<Rightarrow> frame_view_t" where
  "sample_fv flags = the (frame_view_init (Some (sample_rec flags)) 39 39 1000 7 127)"

lemma sample_admitted: "frame_view_init (Some (sample_rec flags)) 39 39 1000 7 127 = Some (sample_fv flags)"
  by (simp add: sample_fv_def frame_view_init_def)

lemma sample_tap:
  "map_option (\<lambda>(v, rt, d, n). (v, rt_bad_fcs rt, d, n)) (frame_view_radiotap (Some (sample_fv 0x00)))
     = Some (FRAME_RT_OK, False, Some (drop 9 (sample_rec 0x00)), 30)"
  "map_option (\<lambda>(v, rt, d, n). rt_bad_fcs rt) (frame_view_radiotap (Some (sample_fv 0x40))) = Some True"
  by code_simp+

lemma sample_frame:
  "length (sample_rec flags) = 39" "ftype (drop 9 (sample_rec 0x00)) = 0" "fsub (drop 9 (sample_rec 0x00)) = 11"
  "take 6 (drop 16 (drop 9 (sample_rec 0x00))) = [2, 0, 0, 0, 0, 2]"
  by (simp_all add: sample_rec_def ftype_def fsub_def)

lemma view_bad_fcs: "f_bad_fcs (view b len (Some hh)) = bad_fcs hh"
  by (simp add: view_def Let_def)

lemma sample_record:
  assumes ok: "capture_ok st" and nw: "unat (g_next_id (cp_ring st)) < 2 ^ 64 - 1"
  shows "\<exists>c ev st'. on_probe_frame en sample_hdr (Some (sample_rec 0x00)) st
     = Some ([c, Auth_Observe (Some [2, 0, 0, 0, 0, 2]) 1000 ev], st') \<and> (\<forall>log. call_log c log = log)
     \<and> (\<exists>st1. noted sample_hdr (sample_rec 0x00) st ev st1)"
proof -
  have b: "buf_ok (Some (sample_rec 0x00)) (uint (ph_caplen sample_hdr))" by (simp add: sample_hdr_def sample_frame)
  have r: "er_ok (cp_ring st)" using ok by (simp add: capture_ok_def)
  have i: "frame_view_init (Some (sample_rec 0x00)) (ph_caplen sample_hdr) (ph_len sample_hdr) (ph_tv_sec sample_hdr) (ph_tv_usec sample_hdr) 127
      = Some (sample_fv 0x00)" using sample_admitted by (simp add: sample_hdr_def)
  show ?thesis
  proof (rule record_cases [OF b r nw, of en], goal_cases)
    case (1 st')
    with i sample_tap(1) show ?case by auto
  next
    case (2 bs fb len hh fv rt signal channel band ev st1)
    then have fv: "fv = sample_fv 0x00" using i by simp
    have f: "fb = drop 9 (sample_rec 0x00)" "len = 30" "\<not> bad_fcs hh" "bs = sample_rec 0x00"
      using 2(1,12,13) sample_tap(1) unfolding fv by auto
    have l: "24 \<le> len" "len \<le> int (length fb)" using f(1,2) 2(5) by simp_all
    have p: "ptr_mac (marked ev (band_value band) (view fb len (Some hh))) (Some 16) = Some (Some [2, 0, 0, 0, 0, 2])"
      using l sample_frame(4) by (simp add: ptr_mac_def addr_at_def f(1))
    have "on_probe_frame en sample_hdr (Some (sample_rec 0x00)) st
       = Some ([Rf_Quality channel band (f_retry (view fb len (Some hh))) (bad_fcs hh) (ph_tv_sec sample_hdr),
           Auth_Observe (Some [2, 0, 0, 0, 0, 2]) 1000 ev], st1)"
      unfolding 2(10) dispatch_def on_management_def using f(2,3) sample_frame(2,3) 2(7) p mgmt_view(6) [of fb len "Some hh"]
      by (simp add: f(1) sample_hdr_def view_bad_fcs)
    with 2(2) f(4) show ?case by fastforce
  qed
qed

section \<open>Properties\<close>


definition sample_start :: capture_t where "sample_start = capture_boot sample_ring (replicate 65536 0)"

definition sample_env :: capture_env where
  "sample_env = \<lparr>en_wall = 1001, en_mono_ms = 5, en_tune = tune_boot, en_ssid_of = (\<lambda>_. []), en_beacon = (\<lambda>_ _. None)\<rparr>"

lemma sample_run: "capture_run sample_start []" "unat (g_next_id (cp_ring sample_start)) < 2 ^ 64 - 1"
proof -
  have "er_ok sample_ring" by (rule evring_later_ok [OF sample_ring_reached(1) evring_boot_ok])
  then show "capture_run sample_start []" unfolding sample_start_def by (rule capture_run.boot) simp
  have "cp_ring sample_start = sample_ring" by (simp add: sample_start_def capture_boot_def)
  then show "unat (g_next_id (cp_ring sample_start)) < 2 ^ 64 - 1" by (simp add: sample_ring_reached(4))
qed

lemma sample_buf: "buf_ok (Some (sample_rec flags)) (uint (ph_caplen sample_hdr))"
  by (simp add: sample_hdr_def sample_frame)


text \<open>
  C12: A damaged frame teaches the sensor nothing. A record whose radiotap header says its check sum
  failed reaches no parser of its content and no detector: the key log, the fragment tables, the
  deauthentication tables and the clients are left as they were, and of all calls only the quality
  of the channel is reported, with the frame marked as bad.
\<close>

theorem capture_bad_fcs_isolated:
  assumes "capture_run st log" "buf_ok data (uint (ph_caplen hdr))" "unat (g_next_id (cp_ring st)) < 2 ^ 64 - 1"
    "frame_view_init data (ph_caplen hdr) (ph_len hdr) (ph_tv_sec hdr) (ph_tv_usec hdr) 127 = Some fv"
    "frame_view_radiotap (Some fv) = Some (v, rt, d, n)" "rt_bad_fcs rt"
  shows "\<exists>cs st'. on_probe_frame en hdr data st = Some (cs, st') \<and> cp_eapol st' = cp_eapol st \<and> cp_frag st' = cp_frag st
     \<and> cp_deauth st' = cp_deauth st \<and> cp_clients st' = cp_clients st
     \<and> (\<forall>c \<in> set cs. \<exists>channel band retry. c = Rf_Quality channel band retry True (ph_tv_sec hdr))"
proof -
  have ok: "capture_ok st" by (rule capture_run_ok [OF assms(1)])
  then have r: "er_ok (cp_ring st)" by (simp add: capture_ok_def)
  show ?thesis
  proof (rule record_cases [OF assms(2) r assms(3), of en], goal_cases)
    case (1 st')
    then show ?case by (auto simp: counted_def)
  next
    case (2 bs fb len hh fv' rt' signal channel band ev st1)
    have "bad_fcs hh" using 2(11-13) assms(4-6) by simp
    then have "on_probe_frame en hdr data st = Some ([Rf_Quality channel band (f_retry (view fb len (Some hh))) True (ph_tv_sec hdr)],
        st1\<lparr>cp_health := sh_parse_fault_note SH_PF_FCS_FAILED (cp_health st1)\<rparr>)"
      unfolding 2(10) by (simp add: dispatch_def view_bad_fcs)
    with noted_keeps(2-5) [OF 2(2) ok 2(3)] show ?case by simp
  qed
qed

theorem capture_bad_fcs_isolated_witness:
  "\<exists>cs st'. on_probe_frame sample_env sample_hdr (Some (sample_rec 0x40)) sample_start = Some (cs, st')
     \<and> cp_eapol st' = cp_eapol sample_start \<and> cp_clients st' = cp_clients sample_start"
proof -
  have i: "frame_view_init (Some (sample_rec 0x40)) (ph_caplen sample_hdr) (ph_len sample_hdr) (ph_tv_sec sample_hdr) (ph_tv_usec sample_hdr) 127
      = Some (sample_fv 0x40)" using sample_admitted by (simp add: sample_hdr_def)
  obtain v rt d n where "frame_view_radiotap (Some (sample_fv 0x40)) = Some (v, rt, d, n)" "rt_bad_fcs rt"
    using sample_tap(2) by auto
  from capture_bad_fcs_isolated [OF sample_run(1) sample_buf sample_run(2) i this] show ?thesis by blast
qed





text \<open>
  C40: The view shows the clients as they are. A snapshot drops exactly the clients not heard for two
  minutes, brings the flood verdict of each other one up to date, and shows them newest first, each
  address once and at most 128; the table keeps the rows shown and stays well-formed.
\<close>

theorem probe_snapshot_exact:
  assumes "clients_ok st" "probe_snapshot now now_ms st = (rs, st')"
  shows "mset rs = image_mset (\<lambda>c. c\<lparr>cl_burst := probe_flood_refresh (cl_burst c) now_ms\<rparr>)
       (filter_mset (\<lambda>c. now - cl_last_seen c \<le> 120) (mset (take (g_client_count st) (g_clients st))))
     \<and> sorted (rev (map cl_last_seen rs)) \<and> distinct (map cl_mac rs) \<and> length rs \<le> 128
     \<and> rs = take (g_client_count st') (g_clients st') \<and> clients_ok st'"
proof -
  note s = probe_snapshot_rows [OF assms]
  have "refreshed now_ms = (\<lambda>c. c\<lparr>cl_burst := probe_flood_refresh (cl_burst c) now_ms\<rparr>)" by (simp add: fun_eq_iff refreshed_def)
  moreover have "fresh_client now = (\<lambda>c. now - cl_last_seen c \<le> 120)" by (simp add: fun_eq_iff fresh_client_def PROBE_AGE_SECS_def)
  moreover have "distinct (map cl_mac rs) \<and> length rs \<le> 128"
    unfolding s(3) using s(4) by (simp add: clients_ok_def MAX_PROBE_CLIENTS_def)
  ultimately show ?thesis using s by simp
qed

definition sample_client :: "u8 \<Rightarrow> time_t \<Rightarrow> client_t" where
  "sample_client n seen = client_zero\<lparr>cl_mac := replicate 6 n, cl_last_seen := seen\<rparr>"

definition sample_clients :: clients_t where
  "sample_clients = \<lparr>g_clients = [sample_client 1 10, sample_client 2 150, sample_client 3 200] @ replicate 125 client_zero, g_client_count = 3\<rparr>"

theorem probe_snapshot_exact_witness:
  "\<exists>rs st'. probe_snapshot 201 5 sample_clients = (rs, st') \<and> map cl_mac rs = [replicate 6 3, replicate 6 2]"
proof -
  obtain rs st' where s: "probe_snapshot 201 5 sample_clients = (rs, st')" by fastforce
  have "clients_ok sample_clients"
    by (simp add: clients_ok_def sample_clients_def sample_client_def MAX_PROBE_CLIENTS_def numeral_3_eq_3)
  note p = probe_snapshot_exact [OF this s]
  have r:
    "mset rs = image_mset (\<lambda>c. c\<lparr>cl_burst := probe_flood_refresh (cl_burst c) 5\<rparr>) {#sample_client 2 150, sample_client 3 200#}"
    "sorted (rev (map cl_last_seen rs))"
    using conjunct1 [OF p] conjunct1 [OF conjunct2 [OF p]]
    by (simp_all add: sample_clients_def sample_client_def numeral_3_eq_3)
  have "mset (map (\<lambda>c. (cl_last_seen c, cl_mac c)) rs) = {#(150, replicate 6 2), (200, replicate 6 3)#}"
    using arg_cong [OF r(1), of "image_mset (\<lambda>c. (cl_last_seen c, cl_mac c))"] by (simp add: sample_client_def)
  moreover have "size (mset rs) = 2" using arg_cong [OF r(1), of size] by simp
  then obtain c d where "rs = [c, d]" by (auto simp: length_Suc_conv numeral_2_eq_2)
  ultimately have "map cl_mac rs = [replicate 6 3, replicate 6 2]" using r(2) by (auto simp: add_eq_conv_ex)
  with s show ?thesis by (intro exI conjI)
qed

end
