(* ===== verification/Spec2Isabelle.thy ===== *)
theory Spec2Isabelle
  imports Bytes SensorHealth Tune Dot11Data Radiotap WifiFreq Netstr RsnIe Dot11Ie Stab EvCite FloodWindow DeauthSnoop EvidenceRing FragVerdicts Sha256 Md5 DnsWire
    PcapFormat EapolVerdicts ProbeVerdicts
begin

text \<open>
  sloth is a passive monitor: frames come from libpcap on a monitor-mode radio, are decoded, and feed
  detectors that keep small bounded tables and publish rows for the user interface, the JSON log and
  the alert engine. This development models the 802.11 receive path and its detectors, from the
  octets of a capture record to the published verdicts, function by function.

  The path, with the theory that models each part:

    \<^item> \<open>src/capture/frame_edge.c\<close>, \<open>src/radiotap.c\<close> (\<open>Radiotap\<close>): admits a record, reads its radiotap header
      and hands on the 802.11 frame without FCS; \<open>src/wifi_freq.c\<close> (\<open>WifiFreq\<close>) is the band plan it asks.
    \<^item> \<open>src/dot11_frame.c\<close>, \<open>src/dot11_data.c\<close> (\<open>Dot11Frame\<close>, \<open>Dot11Data\<close>): decode the MAC header once into a
      view every observer shares; queries for body, payload, TID, A-MSDU and CCMP packet number.
    \<^item> \<open>src/bytes.h\<close> (\<open>Bytes\<close>): the bounded cursor and the element iterator under every parser;
      \<open>src/dot11_ie.c\<close> (\<open>Dot11Ie\<close>), \<open>src/rsn_ie.c\<close> (\<open>RsnIe\<close>), \<open>src/netstr.c\<close> (\<open>Netstr\<close>): elements, the RSN
      element, strings off the air made fit to show; \<open>src/dns_wire.c\<close> (\<open>DnsWire\<close>): names of DNS messages.
    \<^item> \<open>src/stab.c\<close> (\<open>Stab\<close>): the bounded keyed table of every detector; \<open>src/flood_window.c\<close>
      (\<open>FloodWindow\<close>): frame rates; \<open>src/ev_cite.h\<close> (\<open>EvCite\<close>): the frames a row cites;
      \<open>src/evidence_ring.c\<close> (\<open>EvidenceRing\<close>): the raw frames kept, named by event id;
      \<open>src/sensor_health.c\<close> (\<open>SensorHealth\<close>): what was lost; \<open>src/tune.c\<close> (\<open>Tune\<close>): the thresholds.
    \<^item> detectors: \<open>src/deauth_snoop.c\<close> (\<open>DeauthSnoop\<close>), \<open>src/fragattack.c\<close> (\<open>FragAttack\<close> the model and what
      each stage does, \<open>FragVerdicts\<close> what its counters mean).
    \<^item> \<open>src/eapol_log.c\<close>: the log of key exchanges and the gate in front of what can be cracked (\<open>EapolLog\<close>
      the model, \<open>EapolRuns\<close> what holds over any run of frames and commands, \<open>EapolVerdicts\<close> its properties);
      \<open>src/pcap_format.c\<close> (\<open>PcapFormat\<close>): the savefiles it writes.
    \<^item> \<open>src/capture/probe.c\<close>: the callback that composes the parts above, one capture record at a time, with
      the ring of frames shown and the table of probing clients (\<open>Probe\<close> the model, \<open>ProbeSteps\<close>
      one record, \<open>ProbeRuns\<close> any run, \<open>ProbeVerdicts\<close> the receive path as a whole). The key generations that \<open>FragAttack\<close> takes as an argument are here those
      of \<open>EapolLog\<close>, as in the code.
    \<^item> \<open>src/sha256.c\<close>, \<open>src/md5.c\<close> (\<open>Digest\<close>, \<open>Sha256\<close>, \<open>Md5\<close>): the digests of evidence files and fingerprints.

  How the model reads. A machine integer is a word of its width; a C \<open>int\<close>, an offset or a clock is an
  \<open>int\<close>, where the code cannot overflow it (frame lengths are below 64 KiB, counters of type \<open>int\<close> are
  the exception and are called out where they matter). A pointer to octets is the list of the octets
  readable there, a pointer into a decoded frame is an offset, a row pointer is a slot number, a null
  pointer is \<open>None\<close>. A read outside an object, or of a null pointer, makes the operation undefined: it
  returns \<open>None\<close> in the option monad, so each theorem that an operation returns is also the theorem
  that it reads nothing it must not. The statics of a C file are one record threaded through its
  operations; a mutex makes each entry point one atomic step. The tallies of \<open>sensor_health.c\<close> and the
  thresholds of \<open>tune.c\<close> are states of their own, passed where the code calls them. Loops are functions
  with a measure; no fuel is used, so every model is total.

  What the lemmas show. \<open>Prelude\<close> holds facts on lists, words and options that several theories share.
  Each theory then has its model, the invariant of its state with one preservation lemma per operation,
  a specification independent of the code's control flow (what a header is, what an encoded element
  is, a bounded map, a window over the whole history of frames), and the properties that tie the two.
  The locales state what one part relies on from another: \<open>keyed_table\<close> in \<open>Stab\<close> is the contract
  between a table and a detector, interpreted once for each table of \<open>DeauthSnoop\<close>, \<open>FragAttack\<close> and \<open>EapolLog\<close>;
  \<open>tlv_consumer\<close> in \<open>Bytes\<close> is that between the element iterator and the body of a loop over it;
  the stream of blocks under both digests is a locale of \<open>Digest\<close>.

  Parameters. Code that is not modelled here is an argument: the outcome of the allocator and the contents
  of \<open>/proc/meminfo\<close> in \<open>EvidenceRing\<close>, what the file system answers in \<open>EapolLog\<close>, what the beacon parser
  and the beacon table answer in \<open>Probe\<close>, every clock reading. What the code hands to a tracker that is not
  modelled, or writes to a file, is a value in a list of calls.

  Not modelled. Threads and locks (each operation is atomic), capture devices, sockets, the database,
  the terminal and web views, JSON and alert text, and formatting of messages are input and output.
  The alert engine, the Bluetooth, GNSS, ADS-B and APRS decoders, the wired protocol
  snoopers and the remaining 802.11 detectors (association, sequence-number, WPS, beacon, karma and
  action-frame tracking) are logic of the same kind that this development does not reach; the
  manifest lists them.
\<close>

end
